(* ===== verification/Prelude.thy ===== *)
theory Prelude
  imports Main "HOL-Library.Word" "HOL-Library.Multiset" "HOL-Library.Monad_Syntax"
begin

text \<open>
  Shared vocabulary of the development: the names of the machine types, the error codes, the
  hint collections of the component proofs and the generic facts on lists, multisets, options and
  words that more than one component needs.
\<close>

unbundle bit_operations_syntax

section \<open>Types of the code\<close>

text \<open>
  \<open>bthread_t\<close> is a 64-bit unsigned integer (high half: version, low half: slot).  A pointer to an
  object that lives in a pool, on the heap or on a suspended stack is the index of that object.
\<close>

type_synonym bthread_t = "64 word"
type_synonym slot = "64 word"        \<comment> \<open>\<open>butil::ResourceId<TaskMeta>::value\<close>, also \<open>TaskMeta*\<close>\<close>
type_synonym gid = nat               \<comment> \<open>\<open>TaskGroup*\<close>\<close>
type_synonym bid = nat               \<comment> \<open>\<open>Butex*\<close>\<close>
type_synonym wid = nat               \<comment> \<open>\<open>ButexWaiter*\<close>\<close>
type_synonym stackp = nat            \<comment> \<open>\<open>ContextualStack*\<close>\<close>

text \<open>The error codes the sources return or store in \<open>errno\<close>; \<open>E0\<close> is 0.\<close>

datatype errcode =
  E0 | EINVAL | ENOMEM | EPERM | EINTR | EWOULDBLOCK | ETIMEDOUT | ESTOP

section \<open>Hint collections\<close>

named_theorems frame_simps \<open>what an operation leaves unchanged\<close>
named_theorems piece_simps \<open>how an update changes the multisets of task identifiers\<close>

section \<open>Lists indexed by pointers\<close>

definition nth_opt :: "'a list \<Rightarrow> nat \<Rightarrow> 'a option" where
  "nth_opt xs i = (if i < length xs then Some (xs ! i) else None)"

lemma nth_opt_None [simp]: "nth_opt xs i = None \<longleftrightarrow> length xs \<le> i"
  by (auto simp: nth_opt_def)

lemma nth_opt_Some: "nth_opt xs i = Some x \<longleftrightarrow> i < length xs \<and> xs ! i = x"
  by (auto simp: nth_opt_def)

lemma nth_opt_update [simp]:
  "nth_opt (xs[i := y]) j = (if i = j \<and> i < length xs then Some y else nth_opt xs j)"
  by (auto simp: nth_opt_def)

lemma nth_opt_append_new [simp]: "nth_opt (xs @ [y]) (length xs) = Some y"
  by (simp add: nth_opt_def)

lemma nth_opt_simps [simp]:
  "nth_opt [] i = None"
  "nth_opt (x # xs) 0 = Some x"
  "nth_opt (x # xs) (Suc n) = nth_opt xs n"
  by (auto simp: nth_opt_def)

lemma nth_opt_numeral [simp]: "nth_opt (x # xs) (numeral k) = nth_opt xs (pred_numeral k)"
  by (simp add: numeral_eq_Suc)

section \<open>Sums over a list with one element replaced\<close>

text \<open>
  The multisets of task identifiers are sums over the groups and butexes; every operation of the
  code rewrites one of them.
\<close>

definition msum :: "('a \<Rightarrow> 'b multiset) \<Rightarrow> 'a list \<Rightarrow> 'b multiset" where
  "msum f xs = sum_list (map f xs)"

lemma msum_simps [simp]:
  "msum f [] = {#}"
  "msum f (x # xs) = f x + msum f xs"
  "msum f (xs @ ys) = msum f xs + msum f ys"
  by (simp_all add: msum_def)

lemma msum_update:
  "i < length xs \<Longrightarrow> msum f (xs[i := y]) + f (xs ! i) = msum f xs + f y"
proof (induction xs arbitrary: i)
  case Nil
  then show ?case by simp
next
  case (Cons x xs)
  then show ?case by (cases i) (simp_all add: ac_simps)
qed

lemma msum_update_same:
  "nth_opt xs i = Some x \<Longrightarrow> f y = f x \<Longrightarrow> msum f (xs[i := y]) = msum f xs"
  using msum_update [of i xs f y] by (simp add: nth_opt_Some)

lemma msum_update_add:
  "nth_opt xs i = Some x \<Longrightarrow> f y = f x + d \<Longrightarrow> msum f (xs[i := y]) = msum f xs + d"
  using msum_update [of i xs f y] by (simp add: nth_opt_Some ac_simps)

lemma msum_update_remove:
  "nth_opt xs i = Some x \<Longrightarrow> f x = f y + d \<Longrightarrow> msum f xs = msum f (xs[i := y]) + d"
  using msum_update [of i xs f y] by (simp add: nth_opt_Some ac_simps)

lemma msum_cong: "(\<And>x. x \<in> set xs \<Longrightarrow> f x = g x) \<Longrightarrow> msum f xs = msum g xs"
  by (induction xs) auto

lemma msum_member: "nth_opt xs i = Some x \<Longrightarrow> f x \<subseteq># msum f xs"
proof (induction xs arbitrary: i)
  case Nil
  then show ?case by simp
next
  case (Cons y xs)
  then show ?case
    by (cases i) (auto intro: subset_mset.order_trans simp: subset_mset.add_increasing)
qed

section \<open>The option monad\<close>

text \<open>
  An operation that can spin, or that follows a pointer, returns an option: None stands for "does
  not return normally", that is, it spins forever or follows a pointer to nothing.
\<close>

lemma bind_Some_conv: "(Option.bind m f = Some y) \<longleftrightarrow> (\<exists>x. m = Some x \<and> f x = Some y)"
  by (cases m) auto

section \<open>Taking an option computation apart\<close>

lemma bind_SomeE: "x \<bind> f = Some y \<Longrightarrow> (\<And>a. x = Some a \<Longrightarrow> f a = Some y \<Longrightarrow> P) \<Longrightarrow> P"
  by (cases x) auto

lemmas cases_asm = option.split_asm list.split_asm sum.split_asm prod.split_asm if_split_asm

end
