(* ===== verification/Tid.thy ===== *)
theory Tid
  imports Prelude
begin

text \<open>
  Identifiers of bthreads (\<open>task_group_inl.h\<close>): a \<open>bthread_t\<close> packs the version of a TaskMeta and
  the slot it occupies in the resource pool.  The version is increased when the bthread ends
  (\<open>TaskGroup::task_runner\<close>), which is what makes the identifiers of ended bthreads stale.
  The laws that the users of identifiers rely on are the locale \<open>versioned_handle\<close>.
\<close>

section \<open>The operations\<close>

definition make_tid :: "32 word \<Rightarrow> slot \<Rightarrow> bthread_t" where
  "make_tid version slot = push_bit 32 (ucast version :: 64 word) OR slot"

definition get_slot :: "bthread_t \<Rightarrow> slot" where
  "get_slot tid = tid AND 0xFFFFFFFF"

definition get_version :: "bthread_t \<Rightarrow> 32 word" where
  "get_version tid = ucast (drop_bit 32 tid AND 0xFFFFFFFF)"

text \<open>\<open>if (0 == ++*m->version_butex) ++*m->version_butex\<close> at the end of a task.\<close>

definition bump_version :: "32 word \<Rightarrow> 32 word" where
  "bump_version v = (if v + 1 = 0 then v + 1 + 1 else v + 1)"

section \<open>Packing and unpacking\<close>

definition slot_ok :: "slot \<Rightarrow> bool" where
  "slot_ok s \<longleftrightarrow> s < 2 ^ 32"

lemma low_mask: "(0xFFFFFFFF :: 64 word) = mask 32"
  by (simp add: mask_eq_exp_minus_1)

lemma slot_ok_mask: "slot_ok s \<longleftrightarrow> s AND mask 32 = s"
proof
  assume "slot_ok s"
  then show "s AND mask 32 = s" by (simp add: slot_ok_def less_mask_eq)
next
  assume "s AND mask 32 = s"
  moreover have "s AND mask 32 < 2 ^ 32" by (rule and_mask_less') simp
  ultimately show "slot_ok s" by (simp add: slot_ok_def)
qed

lemma slot_ok_bits:
  assumes "slot_ok s" and "bit s n"
  shows "n < 32"
proof -
  have "bit (s AND mask 32) n" using assms by (simp add: slot_ok_mask)
  then show ?thesis by (simp add: bit_simps)
qed

lemma slot_ok_get_slot [simp]: "slot_ok (get_slot tid)"
  by (simp add: get_slot_def slot_ok_mask low_mask and.assoc)

lemma get_slot_make_tid [simp]: "slot_ok s \<Longrightarrow> get_slot (make_tid v s) = s"
  by (rule bit_word_eqI)
    (auto simp: get_slot_def make_tid_def low_mask bit_simps dest: slot_ok_bits)

lemma get_version_make_tid [simp]: "slot_ok s \<Longrightarrow> get_version (make_tid v s) = v"
  by (rule bit_word_eqI)
    (auto simp: get_version_def make_tid_def low_mask bit_simps dest: slot_ok_bits)

lemma make_tid_get [simp]: "make_tid (get_version tid) (get_slot tid) = tid"
  by (rule bit_word_eqI)
    (auto simp: get_version_def get_slot_def make_tid_def low_mask bit_simps)

lemma get_version_0 [simp]: "get_version 0 = 0"
  by (simp add: get_version_def)

section \<open>Versions\<close>

lemma bump_version_nonzero [simp]: "bump_version v \<noteq> 0"
proof (cases "v + 1 = 0")
  case True
  then have "v + 1 + 1 = 1" by simp
  then show ?thesis using True by (simp add: bump_version_def)
qed (simp add: bump_version_def)

lemma bump_version_neq [simp]: "bump_version v \<noteq> v"
proof -
  have "v + 2 \<noteq> v" by simp
  then show ?thesis by (auto simp: bump_version_def add.assoc)
qed

text \<open>
  On the versions the code uses (1 to \<open>2 ^ 32 - 1\<close>) the increment is a rotation: no version is
  used again before all the others were.
\<close>

lemma unat_bump_version:
  assumes "v \<noteq> 0"
  shows "unat (bump_version v) = unat v mod (2 ^ 32 - 1) + 1"
proof (cases "v + 1 = 0")
  case True
  then have "v = - 1" by (simp add: eq_neg_iff_add_eq_0)
  then show ?thesis by (simp add: bump_version_def unsigned_minus_1_eq_mask mask_eq_exp_minus_1)
next
  case False
  have lt: "unat v + 1 < 2 ^ 32"
  proof -
    have "unat (v + 1) = unat v + 1" using False unatSuc [of v] by (simp add: add.commute)
    then show ?thesis using unsigned_less [of "v + 1", where ?'a = nat] by simp
  qed
  have "unat (v + 1) = unat v + 1" using False unatSuc [of v] by (simp add: add.commute)
  with lt False show ?thesis by (simp add: bump_version_def)
qed

lemma unat_bump_version_iter:
  assumes "v \<noteq> 0"
  shows "(bump_version ^^ k) v \<noteq> 0 \<and>
    unat ((bump_version ^^ k) v) = (unat v - 1 + k) mod (2 ^ 32 - 1) + 1"
proof (induction k)
  case 0
  have "unat v - 1 < 2 ^ 32 - 1" using unsigned_less [of v, where ?'a = nat] assms
    by (simp add: unat_gt_0 flip: unat_gt_0)
  moreover have "0 < unat v" using assms by (simp add: unat_gt_0)
  ultimately show ?case using assms by simp
next
  case (Suc k)
  let ?w = "(bump_version ^^ k) v"
  have "unat (bump_version ?w) = unat ?w mod (2 ^ 32 - 1) + 1"
    using Suc by (simp add: unat_bump_version del: power.simps)
  also have "\<dots> = ((unat v - 1 + k) mod (2 ^ 32 - 1) + 1) mod (2 ^ 32 - 1) + 1"
    using Suc by simp
  also have "\<dots> = (unat v - 1 + Suc k) mod (2 ^ 32 - 1) + 1"
    by (simp only: mod_add_left_eq add_Suc_right Suc_eq_plus1 add.assoc)
  finally show ?case by simp
qed

section \<open>The interface: handles with a version\<close>

text \<open>
  What the rest of the runtime relies on: a handle made for a valid index gives back its parts,
  and the version that replaces the current one is another one.
\<close>

locale versioned_handle =
  fixes make :: "'v \<Rightarrow> 'i \<Rightarrow> 'h"
    and version_of :: "'h \<Rightarrow> 'v"
    and index_of :: "'h \<Rightarrow> 'i"
    and valid :: "'i \<Rightarrow> bool"
    and bump :: "'v \<Rightarrow> 'v"
  assumes version_make: "valid i \<Longrightarrow> version_of (make v i) = v"
    and index_make: "valid i \<Longrightarrow> index_of (make v i) = i"
    and bump_neq: "bump v \<noteq> v"
begin

lemma make_inject: "valid i \<Longrightarrow> valid j \<Longrightarrow> make v i = make u j \<longleftrightarrow> v = u \<and> i = j"
  by (metis version_make index_make)

lemma stale: "valid i \<Longrightarrow> version_of (make v i) \<noteq> bump v"
  by (simp add: version_make bump_neq [symmetric])

lemma fresh_handle: "valid i \<Longrightarrow> make (bump v) i \<noteq> make v i"
  by (metis version_make bump_neq)

end

interpretation tid: versioned_handle make_tid get_version get_slot slot_ok bump_version
  by unfold_locales simp_all

section \<open>Properties\<close>

lemma make_tid_0_iff: "slot_ok s \<Longrightarrow> make_tid v s = 0 \<longleftrightarrow> v = 0 \<and> s = 0"
  using get_slot_make_tid [of s v] get_version_make_tid [of s v]
  by (auto simp: get_slot_def make_tid_def)

text \<open>
  A \<open>bthread_t\<close> gives back the version and the slot it was made from, and is determined by them.
\<close>

lemma tid_roundtrip:
  assumes "slot_ok s"
  shows "get_version (make_tid v s) = v \<and> get_slot (make_tid v s) = s
    \<and> make_tid (get_version t) (get_slot t) = t"
  using tid.version_make [OF assms] tid.index_make [OF assms] by simp

lemma tid_roundtrip_witness:
  "get_version (make_tid 3 5) = 3 \<and> get_slot (make_tid 3 5) = 5
   \<and> make_tid (get_version 12884901893) (get_slot 12884901893) = 12884901893"
  by (rule tid_roundtrip) (simp add: slot_ok_def)

text \<open>
  C22.  An identifier is never 0 and goes stale when its bthread ends: the version of the slot comes back to
  the one in the identifier only after \<open>2 ^ 32 - 1\<close> bthreads have ended in that slot.
\<close>

theorem tid_stale:
  assumes "slot_ok s" and "v \<noteq> 0"
  shows "make_tid v s \<noteq> 0
    \<and> ((bump_version ^^ k) v = get_version (make_tid v s) \<longleftrightarrow> 2 ^ 32 - 1 dvd k)"
proof -
  let ?N = "2 ^ 32 - 1 :: nat" and ?w = "(bump_version ^^ k) v"
  have lt: "unat v - 1 < ?N" using unsigned_less [of v, where ?'a = nat] assms(2)
    by (simp flip: unat_gt_0)
  have pos: "0 < unat v" using assms(2) by (simp add: unat_gt_0)
  note it = unat_bump_version_iter [OF assms(2), of k]
  have "?w = v \<longleftrightarrow> unat ?w = unat v" by (simp add: word_unat_eq_iff)
  also have "\<dots> \<longleftrightarrow> (unat v - 1 + k) mod ?N = (unat v - 1) mod ?N"
    using it pos lt by (auto simp del: power.simps)
  also have "\<dots> \<longleftrightarrow> ?N dvd k"
    using mod_eq_dvd_iff_nat [of "unat v - 1" "unat v - 1 + k" ?N] by simp
  finally show ?thesis using assms by (simp add: make_tid_0_iff)
qed

lemma tid_stale_witness:
  "make_tid 4294967295 5 \<noteq> 0
   \<and> ((bump_version ^^ 1) 4294967295 = get_version (make_tid 4294967295 5) \<longleftrightarrow> 2 ^ 32 - 1 dvd (1::nat))"
  by (rule tid_stale) (simp_all add: slot_ok_def)

end
