(* ===== verification/Machine.thy ===== *)
theory Machine
  imports Tid
begin

text \<open>
  The data of the runtime: TaskMeta, ContextualStack, Butex and its waiters, TaskGroup, TaskControl,
  the thread-local variables of the executing pthread, and the record \<open>world\<close> that holds them all.
  Objects the sources use but do not define (the work-stealing queue, the remote queue, the pools,
  the timer thread, the clock, futexes, pthreads) are the fields of the record \<open>ext\<close>, an argument of
  every operation that uses one of them; their state is of the abstract types
  \<open>'q\<close> (a WorkStealingQueue), \<open>'r\<close> (a RemoteTaskQueue) and \<open>'x\<close> (everything else).
\<close>

section \<open>Tasks\<close>

datatype stack_type =
  STACK_TYPE_MAIN | STACK_TYPE_PTHREAD | STACK_TYPE_SMALL | STACK_TYPE_NORMAL
| STACK_TYPE_LARGE | STACK_TYPE_UNKNOWN

text \<open>\<open>bthread_attr_t\<close>; its \<open>flags\<close> as one boolean for each flag the sources test.\<close>

record bthread_attr =
  attr_stack_type :: stack_type
  attr_nosignal :: bool
  attr_log_start_and_finish :: bool
  attr_log_context_switch :: bool
  attr_keytable_pool :: "nat option"

record task_statistics =
  cputime_ns :: int
  nswitch :: "64 word"

text \<open>
  TaskMeta.  \<open>tm_version_butex\<close> points to the butex whose value is the version of the task;
  \<open>tm_version_lock\<close> is the word of the lock itself, which only \<open>get_attr\<close> reads.
\<close>

record task_meta =
  tm_tid :: bthread_t
  tm_version_butex :: bid
  tm_version_lock :: "32 word"
  tm_stop :: bool
  tm_interrupted :: bool
  tm_about_to_quit :: bool
  tm_fn :: "nat option"
  tm_arg :: nat
  tm_stack :: "stackp option"
  tm_attr :: bthread_attr
  tm_local_storage :: "nat option"
  tm_cpuwide_start_ns :: int
  tm_stat :: task_statistics
  tm_current_waiter :: "wid option"
  tm_current_sleep :: "64 word"

definition EMPTY_STAT :: task_statistics where
  "EMPTY_STAT = \<lparr>cputime_ns = 0, nswitch = 0\<rparr>"

section \<open>Butexes\<close>

datatype waiter_state =
  WAITER_STATE_NONE | WAITER_STATE_READY | WAITER_STATE_TIMEOUT
| WAITER_STATE_UNMATCHEDVALUE | WAITER_STATE_INTERRUPTED

text \<open>
  ButexWaiter with the fields of its two derived structs: \<open>w_tid\<close> and \<open>w_container\<close> are the base,
  \<open>w_sig\<close> (is it PTHREAD_SIGNALLED?) belongs to ButexPthreadWaiter, the others to
  ButexBthreadWaiter.  The code tells the two apart by \<open>tid\<close>, which is 0 for a pthread.
  The field \<open>control\<close> is left out: there is one TaskControl.
\<close>

record waiter =
  w_tid :: bthread_t
  w_container :: "bid option"
  w_task_meta :: slot
  w_sleep_id :: "64 word"
  w_state :: waiter_state
  w_expected_value :: "32 word"
  w_initial_butex :: bid
  w_sig :: bool

text \<open>
  Butex: the intrusive list of waiters is the list of their addresses, head first.  Each critical
  section of \<open>waiter_lock\<close> is one step of the model, so the lock itself has no field.
\<close>

record butex =
  bx_value :: "32 word"
  bx_waiters :: "wid list"

section \<open>Task groups\<close>

record sleep_args =
  sa_timeout_us :: "64 word"
  sa_tid :: bthread_t
  sa_meta :: slot
  sa_group :: gid

text \<open>
  What \<open>set_remained\<close> stores: the callback and its argument, which run at the beginning of the next
  bthread.  One constructor for each callback the sources pass.
\<close>

datatype remained =
  ReadyToRunInWorker bthread_t bool
| ReadyToRunInWorkerIgnoresignal bthread_t bool
| WaitForButex wid
| AddSleepEvent sleep_args
| ReleaseLastContext slot

record ('q, 'r) task_group =
  tg_sched_recursive_guard :: int
  tg_cur_meta :: "slot option"
  tg_has_control :: bool
  tg_num_nosignal :: int
  tg_nsignaled :: int
  tg_last_run_ns :: int
  tg_cumulated_cputime_ns :: int
  tg_nswitch :: "64 word"
  tg_last_context_remained :: "remained option"
  tg_pl :: nat
  tg_last_pl_state :: "32 word"
  tg_steal_seed :: "64 word"
  tg_steal_offset :: "64 word"
  tg_main_stack :: stackp
  tg_main_tid :: bthread_t
  tg_rq :: 'q
  tg_remote_rq :: 'r
  tg_remote_num_nosignal :: int
  tg_remote_nsignaled :: int

section \<open>Task control\<close>

text \<open>
  \<open>tc_groups\<close> is the calloc-ed array \<open>_groups\<close>, of which the first \<open>tc_ngroup\<close> entries count;
  \<open>tc_pending_time\<close> is the LatencyRecorder of that name, by its address; \<open>tc_pl\<close> holds the \<open>_pending_signal\<close> of each
  ParkingLot.
\<close>

record task_control =
  tc_ngroup :: nat
  tc_groups :: "gid option list"
  tc_stop :: bool
  tc_concurrency :: int
  tc_workers :: "nat list"
  tc_nbthreads :: int
  tc_pending_time :: "nat option"
  tc_pl :: "32 word list"

definition PARKING_LOT_NUM :: nat where
  "PARKING_LOT_NUM = 4"

section \<open>The world\<close>

text \<open>Messages of severity FATAL and failed CHECKs; the code goes on after logging one.\<close>

datatype fatal =
  FatalRecursiveSched int
| FatalInitRq
| FatalInitRemoteRq
| FatalMainStack
| FatalGetMeta
| FatalNewTaskGroup
| CheckEpollStopped
| CheckCurrentWaiter
| CheckStack
| CheckSameGroup
| CheckDestroy
| FatalSchedToItself bthread_t
| FatalInterruptWaiterLost
| CheckMainStack
| CheckNoGroup
| CheckSleepAndWait
| CheckTimerHasGroup

text \<open>Thread-local variables of the pthread that executes the operation.\<close>

record tls =
  tls_task_group :: "gid option"
  tls_task_group_nosignal :: "gid option"
  tls_errno :: errcode
  tls_bls :: "nat option"
  tls_unique_user_ptr :: "nat option"

text \<open>What a suspended \<open>sched_to\<close> keeps on the stack of its bthread: the saved errno and user pointer.\<close>

record sched_frame =
  sf_errno :: errcode
  sf_unique_user_ptr :: "nat option"

record ('q, 'r, 'x) world =
  metas :: "slot \<Rightarrow> task_meta option"
  butexes :: "butex list"
  waiters :: "wid \<Rightarrow> waiter option"
  groups :: "('q, 'r) task_group list"
  control :: task_control
  frames :: "slot \<Rightarrow> sched_frame option"
  cur_tls :: tls
  flag_concurrency :: int
  flag_min_concurrency :: int
  never_set_bthread_concurrency :: bool
  g_task_control :: bool
  g_worker_startfn :: "nat option"
  fatals :: "fatal list"
  outside :: 'x

section \<open>The outside\<close>

text \<open>Addresses on which pthreads sleep: a parking lot, or the \<open>sig\<close> of a ButexPthreadWaiter.\<close>

datatype futex_addr = LotFutex nat | SigFutex wid

text \<open>Callbacks given to \<open>TimerThread::schedule\<close>.\<close>

datatype timer_callback =
  EraseFromButexAndWakeup wid
| ReadyToRunFromTimerThread sleep_args
| DeleteTaskGroup gid

text \<open>
  \<open>nap X w\<close> is the world after the \<open>::usleep(1000)\<close> of a thread that found a queue full: what the other
  threads did meanwhile.  \<open>grab X b w\<close> is the world when the lock of butex \<open>b\<close> is acquired.
  \<open>futex_wait X i timed w\<close> is the system call on the \<open>sig\<close> of waiter \<open>i\<close>: its result and the world when it
  returns; \<open>pl_wait X i v w\<close> is the world when \<open>ParkingLot::wait\<close> on lot \<open>i\<close> returns; \<open>spin X w\<close> is the world after one round of a busy loop;
  \<open>lock_control X w\<close> is the world when \<open>g_task_control_mutex\<close> is acquired.
  \<open>double_lock X b m w\<close> is the world when \<open>butil::double_lock\<close> holds the locks of two butexes.
  \<open>ready_nosignal_tasks_remote\<close> is a member function that \<open>ready_to_run_general\<close> calls without an argument
  and that no source declares.
  \<open>get_meta X w\<close> is \<open>get_resource<TaskMeta>\<close>: the slot it hands out (None: out of memory) and the world with its
  TaskMeta, which the pool constructs, with its version butex, when the slot is used for the first time.
  \<open>new_task_group\<close> gives the memory of a TaskGroup whose queues are constructed and whose other members are
  whatever the memory held.  \<open>user_call X f a w\<close> runs the user function \<open>f\<close> on \<open>a\<close>.  \<open>butex_wait\<close> is declared in
  \<open>butex.h\<close> only.  \<open>offset_table\<close> is the file \<open>offset_inl.list\<close>; \<open>attr_normal\<close>,
  \<open>attr_taskgroup\<close> and \<open>local_storage_init\<close> are constants of headers that are not in the repository, as is \<open>invalid_bthread\<close>.  A TidList is
  known by the identifiers \<open>list_ids\<close> that its \<open>apply\<close> visits, in order, and \<open>list_store\<close> writes them back.
  \<open>wsq_items\<close> and \<open>rrq_items\<close> are the contents of the queues and \<open>timer_items\<close> the callbacks that the timer will
  call, for the statements only: no operation calls them.
\<close>

record ('q, 'r, 'x) ext =
  wsq_push :: "'q \<Rightarrow> bthread_t \<Rightarrow> 'q \<times> bool"
  wsq_pop :: "'q \<Rightarrow> 'q \<times> bthread_t option"
  wsq_steal :: "'q \<Rightarrow> 'q \<times> bthread_t option"
  rrq_push :: "'r \<Rightarrow> bthread_t \<Rightarrow> 'r \<times> bool"
  rrq_pop :: "'r \<Rightarrow> 'r \<times> bthread_t option"
  wsq_items :: "'q \<Rightarrow> bthread_t list"
  rrq_items :: "'r \<Rightarrow> bthread_t list"
  timer_items :: "'x \<Rightarrow> (64 word \<times> timer_callback) list"
  futex_wake :: "'x \<Rightarrow> futex_addr \<Rightarrow> nat \<Rightarrow> 'x \<times> int"
  timer_schedule :: "'x \<Rightarrow> timer_callback \<Rightarrow> int \<Rightarrow> 'x \<times> 64 word"
  timer_unschedule :: "'x \<Rightarrow> 64 word \<Rightarrow> 'x \<times> int"
  cpuwide_time_ns :: "'x \<Rightarrow> 'x \<times> int"
  fast_rand_less_than :: "'x \<Rightarrow> nat \<Rightarrow> 'x \<times> nat"
  pthread_hash :: "'x \<Rightarrow> 64 word"
  get_stack :: "'x \<Rightarrow> stack_type \<Rightarrow> 'x \<times> stackp option"
  return_stack :: "'x \<Rightarrow> stackp option \<Rightarrow> 'x"
  return_meta :: "'x \<Rightarrow> slot \<Rightarrow> 'x"
  new_pthread :: "'x \<Rightarrow> 'x \<times> nat option"
  workers_resize_ok :: "'x \<Rightarrow> int \<Rightarrow> bool"
  is_current_pthread_task :: "('q, 'r) task_group \<Rightarrow> task_meta option \<Rightarrow> bool"
  is_current_main_task :: "('q, 'r) task_group \<Rightarrow> task_meta option \<Rightarrow> bool"
  max_concurrency :: nat
  min_concurrency :: nat
  nap :: "('q, 'r, 'x) world \<Rightarrow> ('q, 'r, 'x) world"
  ready_nosignal_tasks_remote :: "gid \<Rightarrow> ('q, 'r, 'x) world \<Rightarrow> ('q, 'r, 'x) world option"
  double_lock :: "bid \<Rightarrow> bid \<Rightarrow> ('q, 'r, 'x) world \<Rightarrow> ('q, 'r, 'x) world option"
  return_keytable :: "'x \<Rightarrow> nat option \<Rightarrow> nat \<Rightarrow> 'x"
  futex_wait :: "wid \<Rightarrow> bool \<Rightarrow> ('q, 'r, 'x) world \<Rightarrow> int \<times> ('q, 'r, 'x) world"
  gettimeofday_us :: "'x \<Rightarrow> 'x \<times> int"
  get_meta :: "('q, 'r, 'x) world \<Rightarrow> ('q, 'r, 'x) world \<times> slot option"
  fast_rand :: "'x \<Rightarrow> 'x \<times> 64 word"
  offset_table :: "64 word list"
  attr_normal :: bthread_attr
  attr_taskgroup :: bthread_attr
  local_storage_init :: "nat option"
  new_task_group :: "'x \<Rightarrow> 'x \<times> ('q, 'r) task_group option"
  wsq_init :: "'q \<Rightarrow> nat \<Rightarrow> 'q \<times> bool"
  rrq_init :: "'r \<Rightarrow> nat \<Rightarrow> 'r \<times> bool"
  new_task_control :: "'x \<Rightarrow> 'x \<times> bool"
  create_timer_thread :: "'x \<Rightarrow> 'x \<times> bool"
  has_timer_thread :: "'x \<Rightarrow> bool"
  stop_and_join_epoll_threads :: "'x \<Rightarrow> 'x \<times> int"
  interrupt_pthread :: "'x \<Rightarrow> nat \<Rightarrow> 'x"
  pthread_join :: "nat \<Rightarrow> ('q, 'r, 'x) world \<Rightarrow> ('q, 'r, 'x) world"
  user_call :: "nat \<Rightarrow> nat \<Rightarrow> ('q, 'r, 'x) world \<Rightarrow> ('q, 'r, 'x) world"
  sys_usleep :: "64 word \<Rightarrow> ('q, 'r, 'x) world \<Rightarrow> int \<times> ('q, 'r, 'x) world"
  sched_yield :: "('q, 'r, 'x) world \<Rightarrow> int \<times> ('q, 'r, 'x) world"
  butex_wait :: "bid \<Rightarrow> 32 word \<Rightarrow> int option \<Rightarrow> ('q, 'r, 'x) world \<Rightarrow> (int \<times> ('q, 'r, 'x) world) option"
  new_list :: "'x \<Rightarrow> 'x \<times> nat option"
  delete_list :: "'x \<Rightarrow> nat option \<Rightarrow> 'x"
  list_add :: "'x \<Rightarrow> nat \<Rightarrow> bthread_t \<Rightarrow> 'x \<times> int"
  list_ids :: "'x \<Rightarrow> nat \<Rightarrow> bthread_t list"
  list_store :: "'x \<Rightarrow> nat \<Rightarrow> bthread_t list \<Rightarrow> 'x"
  invalid_bthread :: bthread_t
  pl_wait :: "nat \<Rightarrow> 32 word \<Rightarrow> ('q, 'r, 'x) world \<Rightarrow> ('q, 'r, 'x) world"
  spin :: "('q, 'r, 'x) world \<Rightarrow> ('q, 'r, 'x) world"
  grab :: "bid \<Rightarrow> ('q, 'r, 'x) world \<Rightarrow> ('q, 'r, 'x) world"
  lock_control :: "('q, 'r, 'x) world \<Rightarrow> ('q, 'r, 'x) world"

section \<open>Following pointers\<close>

abbreviation group_at :: "('q, 'r, 'x) world \<Rightarrow> gid \<Rightarrow> ('q, 'r) task_group option" where
  "group_at w g \<equiv> nth_opt (groups w) g"

abbreviation butex_at :: "('q, 'r, 'x) world \<Rightarrow> bid \<Rightarrow> butex option" where
  "butex_at w b \<equiv> nth_opt (butexes w) b"

definition put_group :: "gid \<Rightarrow> ('q, 'r) task_group \<Rightarrow> ('q, 'r, 'x) world \<Rightarrow> ('q, 'r, 'x) world" where
  "put_group g tg w = w\<lparr>groups := (groups w)[g := tg]\<rparr>"

definition put_meta :: "slot \<Rightarrow> task_meta \<Rightarrow> ('q, 'r, 'x) world \<Rightarrow> ('q, 'r, 'x) world" where
  "put_meta s m w = w\<lparr>metas := (metas w)(s \<mapsto> m)\<rparr>"

definition put_butex :: "bid \<Rightarrow> butex \<Rightarrow> ('q, 'r, 'x) world \<Rightarrow> ('q, 'r, 'x) world" where
  "put_butex b bx w = w\<lparr>butexes := (butexes w)[b := bx]\<rparr>"

definition put_waiter :: "wid \<Rightarrow> waiter \<Rightarrow> ('q, 'r, 'x) world \<Rightarrow> ('q, 'r, 'x) world" where
  "put_waiter i bw w = w\<lparr>waiters := (waiters w)(i \<mapsto> bw)\<rparr>"

definition log_fatal :: "fatal \<Rightarrow> ('q, 'r, 'x) world \<Rightarrow> ('q, 'r, 'x) world" where
  "log_fatal f w = w\<lparr>fatals := fatals w @ [f]\<rparr>"

definition set_errno :: "errcode \<Rightarrow> ('q, 'r, 'x) world \<Rightarrow> ('q, 'r, 'x) world" where
  "set_errno e w = w\<lparr>cur_tls := (cur_tls w)\<lparr>tls_errno := e\<rparr>\<rparr>"

text \<open>\<open>TaskGroup::address_meta\<close>: the version of \<open>tid\<close> is not looked at.\<close>

definition address_meta :: "('q, 'r, 'x) world \<Rightarrow> bthread_t \<Rightarrow> task_meta option" where
  "address_meta w tid = metas w (get_slot tid)"

lemmas put_defs = put_group_def put_meta_def put_butex_def put_waiter_def log_fatal_def set_errno_def

end
