(* ===== verification/Instance.thy ===== *)
theory Instance
  imports Machine
begin

text \<open>
  A concrete outside and concrete worlds.  They instantiate the parameters of the model in the witnesses: queues
  are lists of at most four items (pushed at the back, popped there, stolen from the front), the timer keeps the
  callbacks that were scheduled, a few workers are asleep on the lots, and during a nap another
  worker steals one task from the first group for the second.
\<close>

record sim =
  sim_asleep :: nat
  sim_next :: nat
  sim_timers :: "(64 word \<times> timer_callback) list"
  sim_clock :: int
  sim_stacks :: "stackp option list"
  sim_slots :: "slot list"
  sim_woken :: "futex_addr list"
  sim_list :: "bthread_t list"

type_synonym demo_world = "(bthread_t list, bthread_t list, sim) world"
type_synonym demo_group = "(bthread_t list, bthread_t list) task_group"

definition demo_push :: "bthread_t list \<Rightarrow> bthread_t \<Rightarrow> bthread_t list \<times> bool" where
  "demo_push q t = (if length q < 4 then (q @ [t], True) else (q, False))"

definition demo_pop :: "bthread_t list \<Rightarrow> bthread_t list \<times> bthread_t option" where
  "demo_pop q = (if q = [] then (q, None) else (butlast q, Some (last q)))"

fun demo_steal :: "bthread_t list \<Rightarrow> bthread_t list \<times> bthread_t option" where
  "demo_steal [] = ([], None)"
| "demo_steal (t # q) = (q, Some t)"

definition demo_futex_wake :: "sim \<Rightarrow> futex_addr \<Rightarrow> nat \<Rightarrow> sim \<times> int" where
  "demo_futex_wake x a n =
     (let k = min n (sim_asleep x)
      in (x\<lparr>sim_asleep := sim_asleep x - k, sim_woken := sim_woken x @ [a]\<rparr>, int k))"

definition demo_timer_schedule :: "sim \<Rightarrow> timer_callback \<Rightarrow> int \<Rightarrow> sim \<times> 64 word" where
  "demo_timer_schedule x cb us =
     (let i = of_nat (sim_next x)
      in if i = 0 \<or> 2 ^ 64 \<le> sim_next x \<or> i \<in> fst ` set (sim_timers x) then (x, 0)
         else (x\<lparr>sim_next := sim_next x + 1, sim_timers := sim_timers x @ [(i, cb)]\<rparr>, i))"

definition demo_timer_unschedule :: "sim \<Rightarrow> 64 word \<Rightarrow> sim \<times> int" where
  "demo_timer_unschedule x i =
     (if i \<in> fst ` set (sim_timers x)
      then (x\<lparr>sim_timers := filter (\<lambda>e. fst e \<noteq> i) (sim_timers x)\<rparr>, 0)
      else (x, -1))"

definition demo_get_stack :: "sim \<Rightarrow> stack_type \<Rightarrow> sim \<times> stackp option" where
  "demo_get_stack x ty =
     (if ty \<in> {STACK_TYPE_PTHREAD, STACK_TYPE_UNKNOWN} then (x, None)
      else (x\<lparr>sim_next := sim_next x + 1\<rparr>, Some (sim_next x)))"

fun demo_nap_groups :: "demo_group list \<Rightarrow> demo_group list" where
  "demo_nap_groups (a # b # tgs) =
     (case tg_rq a of
        [] \<Rightarrow> a # b # tgs
      | t # q \<Rightarrow>
          if length (tg_rq b) < 4
          then a\<lparr>tg_rq := q\<rparr> # b\<lparr>tg_rq := tg_rq b @ [t]\<rparr> # tgs
          else a # b # tgs)"
| "demo_nap_groups tgs = tgs"

definition demo_attr :: bthread_attr where
  "demo_attr = \<lparr>attr_stack_type = STACK_TYPE_NORMAL, attr_nosignal = False,
     attr_log_start_and_finish = False, attr_log_context_switch = False, attr_keytable_pool = None\<rparr>"

definition demo_meta :: "bthread_t \<Rightarrow> bid \<Rightarrow> stackp option \<Rightarrow> task_meta" where
  "demo_meta tid b stk = \<lparr>tm_tid = tid, tm_version_butex = b, tm_version_lock = 0, tm_stop = False,
     tm_interrupted = False, tm_about_to_quit = False, tm_fn = Some 7, tm_arg = 0, tm_stack = stk,
     tm_attr = demo_attr, tm_local_storage = None, tm_cpuwide_start_ns = 0, tm_stat = EMPTY_STAT,
     tm_current_waiter = None, tm_current_sleep = 0\<rparr>"

definition demo_group :: "slot \<Rightarrow> bthread_t \<Rightarrow> bthread_t list \<Rightarrow> bthread_t list \<Rightarrow> demo_group" where
  "demo_group cur main q r = \<lparr>tg_sched_recursive_guard = 0, tg_cur_meta = Some cur,
     tg_has_control = True, tg_num_nosignal = 0, tg_nsignaled = 0, tg_last_run_ns = 0,
     tg_cumulated_cputime_ns = 0, tg_nswitch = 0, tg_last_context_remained = None, tg_pl = 0,
     tg_last_pl_state = 0, tg_steal_seed = 5, tg_steal_offset = 7, tg_main_stack = 50,
     tg_main_tid = main, tg_rq = q, tg_remote_rq = r, tg_remote_num_nosignal = 0,
     tg_remote_nsignaled = 0\<rparr>"

definition demo_butex :: "32 word \<Rightarrow> wid list \<Rightarrow> butex" where
  "demo_butex v ws = \<lparr>bx_value = v, bx_waiters = ws\<rparr>"

text \<open>
  The pool hands out a new slot with a butex of its own as long as there are less than eight; waiting on a
  butex returns at once if the value differs, and otherwise somebody changes the value meanwhile.
\<close>

definition demo_get_meta :: "demo_world \<Rightarrow> demo_world \<times> slot option" where
  "demo_get_meta w =
     (let n = length (butexes w)
      in if n < 8 \<and> metas w (of_nat n) = None
         then (w\<lparr>metas := (metas w)(of_nat n \<mapsto> demo_meta 0 n None), butexes := butexes w @ [demo_butex 1 []]\<rparr>,
               Some (of_nat n))
         else (w, None))"

definition demo_butex_wait ::
  "bid \<Rightarrow> 32 word \<Rightarrow> int option \<Rightarrow> demo_world \<Rightarrow> (int \<times> demo_world) option" where
  "demo_butex_wait b v t w =
     do {
       bx \<leftarrow> butex_at w b;
       (if bx_value bx \<noteq> v then Some (-1, set_errno EWOULDBLOCK w)
        else Some (0, put_butex b (bx\<lparr>bx_value := v + 1\<rparr>) w))
     }"

definition demo_ext :: "(bthread_t list, bthread_t list, sim) ext" where
  "demo_ext = \<lparr>
     wsq_push = demo_push, wsq_pop = demo_pop, wsq_steal = demo_steal,
     rrq_push = demo_push, rrq_pop = demo_steal,
     wsq_items = (\<lambda>q. q), rrq_items = (\<lambda>q. q),
     timer_items = sim_timers,
     futex_wake = demo_futex_wake,
     timer_schedule = demo_timer_schedule, timer_unschedule = demo_timer_unschedule,
     cpuwide_time_ns = (\<lambda>x. (x\<lparr>sim_clock := sim_clock x + 10\<rparr>, sim_clock x + 10)),
     fast_rand_less_than = (\<lambda>x n. (x, n - 1)),
     pthread_hash = (\<lambda>x. 6),
     get_stack = demo_get_stack,
     return_stack = (\<lambda>x s. x\<lparr>sim_stacks := sim_stacks x @ [s]\<rparr>),
     return_meta = (\<lambda>x s. x\<lparr>sim_slots := sim_slots x @ [s]\<rparr>),
     new_pthread = (\<lambda>x. (x\<lparr>sim_next := sim_next x + 1\<rparr>,
                      if sim_next x < 100 then Some (sim_next x) else None)),
     workers_resize_ok = (\<lambda>x n. n \<le> 1024),
     is_current_pthread_task = (\<lambda>tg m. case m of None \<Rightarrow> False
                                  | Some m \<Rightarrow> tm_stack m = Some (tg_main_stack tg)),
     is_current_main_task = (\<lambda>tg m. case m of None \<Rightarrow> False | Some m \<Rightarrow> tm_tid m = tg_main_tid tg),
     max_concurrency = 3, min_concurrency = 1,
     nap = (\<lambda>w. w\<lparr>groups := demo_nap_groups (groups w)\<rparr>),
     ready_nosignal_tasks_remote = (\<lambda>g w. Some w),
     double_lock = (\<lambda>b m w. Some w),
     return_keytable = (\<lambda>x p k. x),
     futex_wait = (\<lambda>i timed w. (0, w)),
     gettimeofday_us = (\<lambda>x. (x, sim_clock x)),
     get_meta = demo_get_meta,
     fast_rand = (\<lambda>x. (x\<lparr>sim_next := sim_next x + 1\<rparr>, of_nat (sim_next x))),
     offset_table = [3, 5, 7, 11],
     attr_normal = demo_attr, attr_taskgroup = demo_attr\<lparr>attr_stack_type := STACK_TYPE_UNKNOWN\<rparr>,
     local_storage_init = None,
     new_task_group = (\<lambda>x. (x, Some (demo_group 0 0 [] []))),
     wsq_init = (\<lambda>q n. (q, True)), rrq_init = (\<lambda>q n. (q, True)),
     new_task_control = (\<lambda>x. (x, True)),
     create_timer_thread = (\<lambda>x. (x, True)), has_timer_thread = (\<lambda>x. True),
     stop_and_join_epoll_threads = (\<lambda>x. (x, 0)),
     interrupt_pthread = (\<lambda>x p. x\<lparr>sim_woken := sim_woken x @ [LotFutex p]\<rparr>),
     pthread_join = (\<lambda>p w. w),
     user_call = (\<lambda>f a w. w),
     sys_usleep = (\<lambda>us w. (0, w)), sched_yield = (\<lambda>w. (0, w)),
     butex_wait = demo_butex_wait,
     new_list = (\<lambda>x. (x\<lparr>sim_list := []\<rparr>, Some 1)), delete_list = (\<lambda>x l. x\<lparr>sim_list := []\<rparr>),
     list_add = (\<lambda>x l t. (x\<lparr>sim_list := sim_list x @ [t]\<rparr>, 0)),
     list_ids = (\<lambda>x l. sim_list x), list_store = (\<lambda>x l ts. x\<lparr>sim_list := ts\<rparr>),
     invalid_bthread = 0,
     pl_wait = (\<lambda>i v w. w),
     spin = (\<lambda>w. w),
     grab = (\<lambda>b w. w),
     lock_control = (\<lambda>w. w)\<rparr>"

section \<open>Worlds\<close>

definition demo_sim :: sim where
  "demo_sim = \<lparr>sim_asleep = 1, sim_next = 1, sim_timers = [], sim_clock = 0, sim_stacks = [],
     sim_slots = [], sim_woken = [], sim_list = []\<rparr>"

definition demo_control :: "gid option list \<Rightarrow> nat \<Rightarrow> task_control" where
  "demo_control gs n = \<lparr>tc_ngroup = n, tc_groups = gs, tc_stop = False, tc_concurrency = 2,
     tc_workers = [91, 92], tc_nbthreads = 0, tc_pending_time = None, tc_pl = [0, 2, 4, 6]\<rparr>"

definition demo_tls :: "gid option \<Rightarrow> tls" where
  "demo_tls g = \<lparr>tls_task_group = g, tls_task_group_nosignal = None, tls_errno = EPERM,
     tls_bls = None, tls_unique_user_ptr = None\<rparr>"

text \<open>
  The slots 1 and 2 hold the main tasks of two groups, the slots 3, 4 and 5 bthreads; the butex with
  the number of a slot holds the version of that slot; butex 0 is an ordinary one.
\<close>

definition demo_metas :: "slot \<Rightarrow> task_meta option" where
  "demo_metas = [1 \<mapsto> demo_meta (make_tid 1 1) 1 (Some 50), 2 \<mapsto> demo_meta (make_tid 1 2) 2 (Some 50),
     3 \<mapsto> demo_meta (make_tid 1 3) 3 (Some 63), 4 \<mapsto> demo_meta (make_tid 1 4) 4 None,
     5 \<mapsto> demo_meta (make_tid 1 5) 5 (Some 65)]"

definition demo_waiter :: "bthread_t \<Rightarrow> bid option \<Rightarrow> slot \<Rightarrow> waiter" where
  "demo_waiter tid b s = \<lparr>w_tid = tid, w_container = b, w_task_meta = s, w_sleep_id = 0,
     w_state = WAITER_STATE_READY, w_expected_value = 1, w_initial_butex = 0, w_sig = False\<rparr>"

definition demo_world ::
  "gid option \<Rightarrow> demo_group list \<Rightarrow> wid list \<Rightarrow> (wid \<Rightarrow> waiter option) \<Rightarrow> demo_world" where
  "demo_world own tgs ws bws = \<lparr>metas = demo_metas,
     butexes = [demo_butex 1 ws, demo_butex 1 [], demo_butex 1 [], demo_butex 1 [], demo_butex 1 [],
       demo_butex 1 []],
     waiters = bws, groups = tgs,
     control = demo_control (map Some [0..<length tgs] @ replicate (3 - length tgs) None) (length tgs),
     frames = [3 \<mapsto> \<lparr>sf_errno = EINTR, sf_unique_user_ptr = Some 33\<rparr>,
               5 \<mapsto> \<lparr>sf_errno = ESTOP, sf_unique_user_ptr = Some 55\<rparr>],
     cur_tls = demo_tls own, flag_concurrency = 4, flag_min_concurrency = 1, never_set_bthread_concurrency = True,
     g_task_control = True, g_worker_startfn = None, fatals = [],
     outside = demo_sim\<rparr>"

lemmas demo_defs = demo_ext_def demo_get_meta_def demo_butex_wait_def demo_push_def demo_pop_def demo_futex_wake_def
  demo_timer_schedule_def demo_timer_unschedule_def demo_get_stack_def demo_attr_def demo_meta_def
  demo_group_def demo_sim_def demo_control_def demo_tls_def demo_metas_def demo_butex_def
  demo_waiter_def demo_world_def

end
