(* ===== verification/ParkingLot.thy ===== *)
theory ParkingLot
  imports Instance
begin

text \<open>
  ParkingLot, as the notes on work stealing quote it: an atomic int whose upper 31 bits count the
  signals and whose lowest bit says "stopped".  A worker reads the state before it looks for a task
  and sleeps only while the state is still the one it read.
\<close>

section \<open>The operations on the value\<close>

text \<open>\<open>State::stopped()\<close>: \<open>val & 1\<close>.\<close>

definition pl_stopped :: "32 word \<Rightarrow> bool" where
  "pl_stopped v \<longleftrightarrow> v AND 1 \<noteq> 0"

text \<open>\<open>_pending_signal.fetch_add(num_task << 1)\<close>.\<close>

definition pl_add :: "32 word \<Rightarrow> 32 word \<Rightarrow> 32 word" where
  "pl_add num_task v = v + push_bit 1 num_task"

text \<open>\<open>_pending_signal.fetch_or(1)\<close>.\<close>

definition pl_stop_value :: "32 word \<Rightarrow> 32 word" where
  "pl_stop_value v = v OR 1"

text \<open>\<open>futex_wait_private(&_pending_signal, expected)\<close> sleeps only if the value is the expected one.\<close>

definition pl_would_sleep :: "32 word \<Rightarrow> 32 word \<Rightarrow> bool" where
  "pl_would_sleep expected v \<longleftrightarrow> v = expected"

section \<open>The operations on the lots of the control\<close>

definition pl_value :: "('q, 'r, 'x) world \<Rightarrow> nat \<Rightarrow> 32 word" where
  "pl_value w i = tc_pl (control w) ! i"

definition set_pl :: "nat \<Rightarrow> 32 word \<Rightarrow> ('q, 'r, 'x) world \<Rightarrow> ('q, 'r, 'x) world" where
  "set_pl i v w = w\<lparr>control := (control w)\<lparr>tc_pl := (tc_pl (control w))[i := v]\<rparr>\<rparr>"

text \<open>\<open>ParkingLot::signal\<close>: returns the number of workers woken up.\<close>

definition pl_signal ::
  "('q, 'r, 'x) ext \<Rightarrow> nat \<Rightarrow> nat \<Rightarrow> ('q, 'r, 'x) world \<Rightarrow> int \<times> ('q, 'r, 'x) world" where
  "pl_signal X i num_task w =
     (let w1 = set_pl i (pl_add (of_nat num_task) (pl_value w i)) w;
          (x, n) = futex_wake X (outside w1) (LotFutex i) num_task
      in (n, w1\<lparr>outside := x\<rparr>))"

definition pl_stop :: "('q, 'r, 'x) ext \<Rightarrow> nat \<Rightarrow> ('q, 'r, 'x) world \<Rightarrow> ('q, 'r, 'x) world" where
  "pl_stop X i w =
     (let w1 = set_pl i (pl_stop_value (pl_value w i)) w;
          (x, n) = futex_wake X (outside w1) (LotFutex i) 10000
      in w1\<lparr>outside := x\<rparr>)"

section \<open>Lemmas\<close>

lemma pl_stopped_odd: "pl_stopped v \<longleftrightarrow> odd v"
  by (simp only: pl_stopped_def and_one_eq even_iff_mod_2_eq_zero)

lemma pl_stopped_add [simp]: "pl_stopped (pl_add n v) = pl_stopped v"
  by (simp add: pl_stopped_odd pl_add_def)

lemma pl_stopped_stop [simp]: "pl_stopped (pl_stop_value v)"
  by (simp add: pl_stopped_odd pl_stop_value_def even_or_iff)

lemma pl_add_iter: "(pl_add 1 ^^ k) v = v + of_nat (2 * k)"
  by (induction k) (simp_all add: pl_add_def algebra_simps)

text \<open>The value comes back to what it was only after a multiple of \<open>2 ^ 31\<close> signals.\<close>

lemma pl_add_iter_same: "(pl_add 1 ^^ k) v = v \<longleftrightarrow> 2 ^ 31 dvd k"
proof -
  have "(pl_add 1 ^^ k) v = v \<longleftrightarrow> (of_nat (2 * k) :: 32 word) = 0"
    unfolding pl_add_iter by (rule add_cancel_left_right)
  also have "\<dots> \<longleftrightarrow> 2 ^ 32 dvd 2 * k"
    by (simp add: word_of_nat_eq_0_iff del: of_nat_mult)
  also have "\<dots> \<longleftrightarrow> 2 ^ 31 dvd k"
  proof -
    have "(2 ^ 32 :: nat) = 2 * 2 ^ 31" by simp
    then show ?thesis by (simp only: dvd_mult_cancel1 zero_less_numeral nat_mult_dvd_cancel_disj) simp
  qed
  finally show ?thesis .
qed

section \<open>Signals between reading the state and sleeping on it\<close>

datatype pl_event = PlSignal | PlStop

fun pl_event_value :: "pl_event \<Rightarrow> 32 word \<Rightarrow> 32 word" where
  "pl_event_value PlSignal v = pl_add 1 v"
| "pl_event_value PlStop v = pl_stop_value v"

fun pl_events :: "pl_event list \<Rightarrow> 32 word \<Rightarrow> 32 word" where
  "pl_events [] v = v"
| "pl_events (e # es) v = pl_events es (pl_event_value e v)"

lemma pl_events_stopped:
  "pl_stopped (pl_events es v) \<longleftrightarrow> pl_stopped v \<or> PlStop \<in> set es"
proof (induction es arbitrary: v)
  case Nil
  then show ?case by simp
next
  case (Cons e es)
  then show ?case by (cases e) simp_all
qed

lemma pl_events_signals: "PlStop \<notin> set es \<Longrightarrow> pl_events es v = (pl_add 1 ^^ length es) v"
proof (induction es arbitrary: v)
  case Nil
  then show ?case by simp
next
  case (Cons e es)
  then show ?case by (cases e) (simp_all add: funpow_swap1)
qed

text \<open>No wake-up is lost between the reading of the state and the futex call.\<close>

lemma parking_no_lost:
  assumes "\<not> pl_stopped v" and "es \<noteq> []" and "length es < 2 ^ 31"
  shows "\<not> pl_would_sleep v (pl_events es v)"
proof (cases "PlStop \<in> set es")
  case True
  then have "pl_stopped (pl_events es v)" by (simp add: pl_events_stopped)
  with assms(1) show ?thesis by (auto simp: pl_would_sleep_def)
next
  case False
  have "\<not> 2 ^ 31 dvd length es" using assms(2,3) by (simp add: nat_dvd_not_less)
  then show ?thesis
    by (simp only: pl_would_sleep_def pl_events_signals [OF False] pl_add_iter_same not_False_eq_True)
qed

text \<open>
  A worker that read a state that was not stopped does not fall asleep on it when, since then, the lot was
  signalled or stopped at least once and fewer than \<open>2 ^ 31\<close> times: no wake-up is lost between the
  reading of the state and the futex call.
\<close>

lemma parking_no_lost_signal:
  assumes "\<not> pl_stopped v" and "es \<noteq> []" and "length es < 2 ^ 31"
  shows "\<not> pl_would_sleep v (pl_events es v)"
  using assms by (rule parking_no_lost)

lemma parking_no_lost_signal_witness:
  "\<not> pl_would_sleep 4294967294 (pl_events [PlSignal, PlSignal] 4294967294)"
  by (rule parking_no_lost_signal) (simp_all add: pl_stopped_def)

end
