(* ===== verification/Control.thy ===== *)
theory Control
  imports ParkingLot
begin

text \<open>
  TaskControl (\<open>task_control.cpp\<close>), first part: creating workers and waking sleeping workers when
  tasks are added.
\<close>

section \<open>Workers\<close>

abbreviation upd_control ::
  "(task_control \<Rightarrow> task_control) \<Rightarrow> ('q, 'r, 'x) world \<Rightarrow> ('q, 'r, 'x) world" where
  "upd_control f w \<equiv> w\<lparr>control := f (control w)\<rparr>"

text \<open>\<open>std::vector::resize\<close>: cut, or pad with value-initialised elements.\<close>

definition vec_resize :: "nat \<Rightarrow> nat list \<Rightarrow> nat list" where
  "vec_resize n xs = take n xs @ replicate (n - length xs) 0"

text \<open>The loop of \<open>add_workers\<close>; it stops at the first failing \<open>pthread_create\<close>.\<close>

function add_workers_loop ::
  "('q, 'r, 'x) ext \<Rightarrow> int \<Rightarrow> int \<Rightarrow> int \<Rightarrow> ('q, 'r, 'x) world \<Rightarrow> ('q, 'r, 'x) world" where
  "add_workers_loop X old num i w =
     (if i < num then
        let w1 = upd_control (\<lambda>c. c\<lparr>tc_concurrency := tc_concurrency c + 1\<rparr>) w;
            (x, rc) = new_pthread X (outside w1);
            w2 = w1\<lparr>outside := x\<rparr>
        in (case rc of
              None \<Rightarrow> upd_control (\<lambda>c. c\<lparr>tc_concurrency := tc_concurrency c - 1\<rparr>) w2
            | Some p \<Rightarrow>
                add_workers_loop X old num (i + 1)
                  (upd_control (\<lambda>c. c\<lparr>tc_workers := (tc_workers c)[nat (i + old) := p]\<rparr>) w2))
      else w)"
  by pat_completeness auto
termination by (relation "measure (\<lambda>(X, old, num, i, w). nat (num - i))") auto

declare add_workers_loop.simps [simp del]

definition add_workers ::
  "('q, 'r, 'x) ext \<Rightarrow> int \<Rightarrow> ('q, 'r, 'x) world \<Rightarrow> int \<times> ('q, 'r, 'x) world" where
  "add_workers X num w =
     (if num \<le> 0 then (0, w)
      else if \<not> workers_resize_ok X (outside w) (tc_concurrency (control w) + num) then (0, w)
      else
        let w1 = upd_control (\<lambda>c. c\<lparr>tc_workers :=
                   vec_resize (nat (tc_concurrency c + num)) (tc_workers c)\<rparr>) w;
            old_concurrency = tc_concurrency (control w1);
            w2 = add_workers_loop X old_concurrency num 0 w1;
            w3 = upd_control (\<lambda>c. c\<lparr>tc_workers :=
                   vec_resize (nat (tc_concurrency c)) (tc_workers c)\<rparr>) w2
        in (tc_concurrency (control w3) - old_concurrency, w3))"

section \<open>Signalling\<close>

text \<open>
  The first part of \<open>signal_task\<close>: signal the lot of this thread, then the others in order, until as
  many workers were woken up as there are tasks (two at most).  Returns the number of tasks for
  which no worker was woken up.
\<close>

function signal_loop ::
  "('q, 'r, 'x) ext \<Rightarrow> nat \<Rightarrow> nat \<Rightarrow> int \<Rightarrow> ('q, 'r, 'x) world \<Rightarrow> int \<times> ('q, 'r, 'x) world" where
  "signal_loop X i start_index num_task w =
     (if i < PARKING_LOT_NUM \<and> num_task > 0 then
        let start1 = (if start_index + 1 \<ge> PARKING_LOT_NUM then 0 else start_index + 1);
            (n, w1) = pl_signal X start1 1 w
        in signal_loop X (i + 1) start1 (num_task - n) w1
      else (num_task, w))"
  by pat_completeness auto
termination by (relation "measure (\<lambda>(X, i, s, n, w). PARKING_LOT_NUM - i)") auto

declare signal_loop.simps [simp del]

definition own_lot :: "('q, 'r, 'x) ext \<Rightarrow> ('q, 'r, 'x) world \<Rightarrow> nat" where
  "own_lot X w = unat (pthread_hash X (outside w)) mod PARKING_LOT_NUM"

definition signal_lots ::
  "('q, 'r, 'x) ext \<Rightarrow> int \<Rightarrow> ('q, 'r, 'x) world \<Rightarrow> int \<times> ('q, 'r, 'x) world" where
  "signal_lots X num_task w =
     (let num = (if num_task > 2 then 2 else num_task);
          start_index = own_lot X w;
          (n, w1) = pl_signal X start_index 1 w
      in (if num - n > 0 then signal_loop X 1 start_index (num - n) w1 else (num - n, w1)))"

definition signal_task ::
  "('q, 'r, 'x) ext \<Rightarrow> int \<Rightarrow> ('q, 'r, 'x) world \<Rightarrow> ('q, 'r, 'x) world" where
  "signal_task X num_task w =
     (if num_task \<le> 0 then w
      else
        let (num, w1) = signal_lots X num_task w
        in (if num > 0 \<and> flag_min_concurrency w1 > 0
                \<and> tc_concurrency (control w1) < flag_concurrency w1
            then snd (add_workers X 1 w1)
            else w1))"

section \<open>What signalling leaves alone\<close>

text \<open>
  Creating workers and signalling touch the control (never its array of groups) and the outside,
  nothing else.
\<close>

definition control_frame :: "('q, 'r, 'x) world \<Rightarrow> ('q, 'r, 'x) world \<Rightarrow> bool" where
  "control_frame w w' \<longleftrightarrow>
     metas w' = metas w \<and> butexes w' = butexes w \<and> waiters w' = waiters w
     \<and> groups w' = groups w \<and> frames w' = frames w \<and> cur_tls w' = cur_tls w
     \<and> flag_concurrency w' = flag_concurrency w \<and> flag_min_concurrency w' = flag_min_concurrency w
     \<and> fatals w' = fatals w
     \<and> tc_groups (control w') = tc_groups (control w)
     \<and> tc_ngroup (control w') = tc_ngroup (control w)
     \<and> tc_stop (control w') = tc_stop (control w)
     \<and> tc_nbthreads (control w') = tc_nbthreads (control w)
     \<and> length (tc_pl (control w')) = length (tc_pl (control w))"

lemma control_frame_refl [simp, intro]: "control_frame w w"
  by (simp add: control_frame_def)

lemma control_frame_trans [trans]:
  "control_frame u v \<Longrightarrow> control_frame v w \<Longrightarrow> control_frame u w"
  by (simp add: control_frame_def)

lemma control_frame_upd [simp, intro]:
  "control_frame w (w'\<lparr>outside := x\<rparr>) = control_frame w w'"
  "control_frame w (w'\<lparr>control := (control w')\<lparr>tc_concurrency := n\<rparr>\<rparr>) = control_frame w w'"
  "control_frame w (w'\<lparr>control := (control w')\<lparr>tc_workers := ws\<rparr>\<rparr>) = control_frame w w'"
  "control_frame w (set_pl i v w') = control_frame w w'"
  by (simp_all add: control_frame_def set_pl_def)

lemma control_frame_pl_signal [simp]:
  "control_frame w (snd (pl_signal X i n w')) = control_frame w w'"
  by (simp add: pl_signal_def Let_def split: prod.split)

lemma control_frame_signal_loop [simp]:
  "control_frame w' w \<Longrightarrow> control_frame w' (snd (signal_loop X i s n w))"
proof (induction X i s n w rule: signal_loop.induct)
  case (1 X i s n w)
  let ?s = "if s + 1 \<ge> PARKING_LOT_NUM then 0 else s + 1"
  have "control_frame w' (snd (pl_signal X ?s 1 w))" using "1.prems" by simp
  with "1" show ?case
    by (subst signal_loop.simps) (auto simp: Let_def case_prod_beta)
qed

text \<open>One iteration of the loop, for the two results of \<open>pthread_create\<close>.\<close>

lemma add_workers_loop_step:
  assumes "i < num" and "new_pthread X (outside w) = (x, rc)"
  shows "add_workers_loop X old num i w =
    (case rc of
       None \<Rightarrow> w\<lparr>outside := x\<rparr>
     | Some p \<Rightarrow> add_workers_loop X old num (i + 1)
         (w\<lparr>outside := x, control := (control w)\<lparr>tc_concurrency := tc_concurrency (control w) + 1,
              tc_workers := (tc_workers (control w))[nat (i + old) := p]\<rparr>\<rparr>))"
  using assms by (subst add_workers_loop.simps) (simp add: Let_def split: option.split)

lemma add_workers_loop_done: "\<not> i < num \<Longrightarrow> add_workers_loop X old num i w = w"
  by (subst add_workers_loop.simps) simp

text \<open>Induction along the loop with the steps in that form.\<close>

lemma add_workers_loop_rule [case_names stop fail ok]:
  assumes "\<And>i w. \<not> i < num \<Longrightarrow> P i w w"
    and "\<And>i w x. i < num \<Longrightarrow> new_pthread X (outside w) = (x, None) \<Longrightarrow> P i w (w\<lparr>outside := x\<rparr>)"
    and "\<And>i w x p w'. i < num \<Longrightarrow> new_pthread X (outside w) = (x, Some p) \<Longrightarrow>
      P (i + 1) (w\<lparr>outside := x, control := (control w)\<lparr>
          tc_concurrency := tc_concurrency (control w) + 1,
          tc_workers := (tc_workers (control w))[nat (i + old) := p]\<rparr>\<rparr>) w' \<Longrightarrow> P i w w'"
  shows "P i w (add_workers_loop X old num i w)"
proof (induction "nat (num - i)" arbitrary: i w)
  case 0
  then show ?case using assms(1) by (simp add: add_workers_loop_done)
next
  case (Suc n)
  then have lt: "i < num" and n: "n = nat (num - (i + 1))" by auto
  obtain x rc where np: "new_pthread X (outside w) = (x, rc)" by (cases "new_pthread X (outside w)")
  show ?case
  proof (cases rc)
    case None
    then show ?thesis using assms(2) [OF lt, of w x] np add_workers_loop_step [OF lt np] by simp
  next
    case (Some p)
    then show ?thesis
      using assms(3) [OF lt np [unfolded Some]] Suc(1) [OF n] add_workers_loop_step [OF lt np] by simp
  qed
qed

lemma control_frame_add_workers_loop [simp]:
  "control_frame w' w \<Longrightarrow> control_frame w' (add_workers_loop X old num i w)"
  by (rule add_workers_loop_rule
      [where P = "\<lambda>i w v. control_frame w' w \<longrightarrow> control_frame w' v", THEN mp])
    (auto simp: control_frame_def)

lemma control_frame_add_workers [simp]: "control_frame w (snd (add_workers X num w))"
  by (simp add: add_workers_def Let_def del: One_nat_def)

lemma control_frame_signal_lots [simp]: "control_frame w (snd (signal_lots X num w))"
  by (simp add: signal_lots_def Let_def case_prod_beta)

lemma control_frame_signal_task: "control_frame w (signal_task X num w)"
  by (auto simp: signal_task_def case_prod_beta
      intro: control_frame_trans [OF control_frame_signal_lots control_frame_add_workers])

lemma signal_task_frame [simp, frame_simps]:
  "metas (signal_task X num w) = metas w"
  "butexes (signal_task X num w) = butexes w"
  "waiters (signal_task X num w) = waiters w"
  "groups (signal_task X num w) = groups w"
  "frames (signal_task X num w) = frames w"
  "cur_tls (signal_task X num w) = cur_tls w"
  "fatals (signal_task X num w) = fatals w"
  "tc_groups (control (signal_task X num w)) = tc_groups (control w)"
  "tc_ngroup (control (signal_task X num w)) = tc_ngroup (control w)"
  "tc_stop (control (signal_task X num w)) = tc_stop (control w)"
  "tc_nbthreads (control (signal_task X num w)) = tc_nbthreads (control w)"
  using control_frame_signal_task [of w X num] by (simp_all add: control_frame_def)

section \<open>Properties of \<open>add_workers\<close>\<close>

lemma length_vec_resize [simp]: "length (vec_resize n xs) = n"
  by (simp add: vec_resize_def)

lemma take_vec_resize: "k \<le> length xs \<Longrightarrow> k \<le> n \<Longrightarrow> take k (vec_resize n xs) = take k xs"
  by (simp add: vec_resize_def min_def)

lemma add_workers_loop_spec:
  assumes "0 \<le> old"
  shows "0 \<le> i \<longrightarrow> i \<le> num \<longrightarrow> tc_concurrency (control w) = old + i \<longrightarrow>
    (let w' = add_workers_loop X old num i w
     in old + i \<le> tc_concurrency (control w') \<and> tc_concurrency (control w') \<le> old + num
    \<and> length (tc_workers (control w')) = length (tc_workers (control w))
    \<and> take (nat old) (tc_workers (control w')) = take (nat old) (tc_workers (control w)))"
proof -
  have upd: "take (nat old) (ws[nat (i + old) := p]) = take (nat old) ws" if "0 \<le> i" for i ws and p :: nat
    using that assms by (simp add: take_update_cancel nat_mono)
  show ?thesis
    unfolding Let_def
    by (rule add_workers_loop_rule [where P = "\<lambda>i w w'. 0 \<le> i \<longrightarrow> i \<le> num \<longrightarrow>
          tc_concurrency (control w) = old + i \<longrightarrow>
          old + i \<le> tc_concurrency (control w') \<and> tc_concurrency (control w') \<le> old + num
          \<and> length (tc_workers (control w')) = length (tc_workers (control w))
          \<and> take (nat old) (tc_workers (control w')) = take (nat old) (tc_workers (control w))"])
      (auto simp: upd)
qed

lemma add_workers_spec:
  assumes "length (tc_workers (control w)) = nat (tc_concurrency (control w))"
    and "0 \<le> tc_concurrency (control w)" and "0 \<le> num"
    and "add_workers X num w = (added, w')"
  shows "0 \<le> added \<and> added \<le> num
    \<and> tc_concurrency (control w') = tc_concurrency (control w) + added
    \<and> length (tc_workers (control w')) = nat (tc_concurrency (control w'))
    \<and> take (length (tc_workers (control w))) (tc_workers (control w')) = tc_workers (control w)"
proof (cases "num = 0 \<or> \<not> workers_resize_ok X (outside w) (tc_concurrency (control w) + num)")
  case True
  with assms show ?thesis by (auto simp: add_workers_def split: if_splits)
next
  case False
  let ?c = "tc_concurrency (control w)"
  let ?w1 = "w\<lparr>control := (control w)\<lparr>tc_workers := vec_resize (nat (?c + num)) (tc_workers (control w))\<rparr>\<rparr>"
  define w2 where "w2 = add_workers_loop X ?c num 0 ?w1"
  have loop: "?c \<le> tc_concurrency (control w2)" "tc_concurrency (control w2) \<le> ?c + num"
    "length (tc_workers (control w2)) = nat (?c + num)"
    "take (nat ?c) (tc_workers (control w2)) = take (nat ?c) (vec_resize (nat (?c + num)) (tc_workers (control w)))"
    using add_workers_loop_spec [of ?c 0 num ?w1 X] assms(2,3) by (simp_all add: w2_def Let_def)
  have added: "added = tc_concurrency (control w2) - ?c" and w': "w' = w2\<lparr>control := (control w2)
      \<lparr>tc_workers := vec_resize (nat (tc_concurrency (control w2))) (tc_workers (control w2))\<rparr>\<rparr>"
    using False assms(3,4) by (auto simp: add_workers_def Let_def w2_def)
  have "take (nat ?c) (tc_workers (control w2)) = tc_workers (control w)"
    using loop(4) assms(1,2,3) by (simp add: take_vec_resize nat_mono)
  then have "take (nat ?c) (tc_workers (control w')) = tc_workers (control w)"
    using loop assms(2,3) by (simp add: w' take_vec_resize nat_mono)
  then show ?thesis using loop assms(1) added w' by simp
qed

text \<open>
  \<open>add_workers\<close> reports exactly the change of the concurrency, which is between 0 and the number
  asked for; the vector of workers keeps one entry for each worker and the entries it had.
\<close>

lemma add_workers_correct:
  assumes "length (tc_workers (control w)) = nat (tc_concurrency (control w))"
    and "0 \<le> tc_concurrency (control w)" and "0 \<le> num"
    and "add_workers X num w = (added, w')"
  shows "0 \<le> added \<and> added \<le> num
    \<and> tc_concurrency (control w') = tc_concurrency (control w) + added
    \<and> length (tc_workers (control w')) = nat (tc_concurrency (control w'))
    \<and> take (length (tc_workers (control w))) (tc_workers (control w')) = tc_workers (control w)"
  by (rule add_workers_spec [OF assms])

lemma add_workers_correct_witness:
  "\<exists>w'. add_workers demo_ext 2 (demo_world None [] [] Map.empty) = (2, w')
    \<and> tc_concurrency (control w') = 4 \<and> length (tc_workers (control w')) = 4
    \<and> take 2 (tc_workers (control w')) = [91, 92]"
proof -
  let ?w = "demo_world None [] [] Map.empty"
  obtain n w' where add: "add_workers demo_ext 2 ?w = (n, w')" by fastforce
  have "fst (add_workers demo_ext 2 ?w) = 2"
    by (simp add: add_workers_def add_workers_loop.simps demo_defs Let_def)
  then have "n = 2" using add by simp
  moreover have "0 \<le> n \<and> n \<le> 2 \<and> tc_concurrency (control w') = tc_concurrency (control ?w) + n
    \<and> length (tc_workers (control w')) = nat (tc_concurrency (control w'))
    \<and> take (length (tc_workers (control ?w))) (tc_workers (control w')) = tc_workers (control ?w)"
    by (rule add_workers_correct [OF _ _ _ add]) (simp_all add: demo_defs)
  ultimately show ?thesis using add by (simp add: demo_defs numeral_2_eq_2)
qed

section \<open>Properties of signalling\<close>

lemma pl_value_upd [simp]:
  "pl_value (w\<lparr>outside := x\<rparr>) i = pl_value w i"
  "length (tc_pl (control (set_pl i v w))) = length (tc_pl (control w))"
  "i < length (tc_pl (control w)) \<Longrightarrow> pl_value (set_pl i v w) j = (if j = i then v else pl_value w j)"
  by (auto simp: pl_value_def set_pl_def)

lemma pl_signal_value:
  assumes "i < length (tc_pl (control w))"
  shows "pl_value (snd (pl_signal X i 1 w)) j = (if j = i then pl_value w i + 2 else pl_value w j)"
    and "length (tc_pl (control (snd (pl_signal X i 1 w)))) = length (tc_pl (control w))"
  using assms by (auto simp: pl_signal_def pl_add_def Let_def split: prod.split)

lemma signal_loop_step:
  assumes "i < PARKING_LOT_NUM" and "num > 0"
    and "s1 = (if s + 1 \<ge> PARKING_LOT_NUM then 0 else s + 1)"
  shows "signal_loop X i s num w =
    signal_loop X (i + 1) s1 (num - fst (pl_signal X s1 1 w)) (snd (pl_signal X s1 1 w))"
  using assms by (subst signal_loop.simps) (simp add: Let_def case_prod_beta)

lemma signal_loop_stop: "\<not> (i < PARKING_LOT_NUM \<and> num > 0) \<Longrightarrow> signal_loop X i s num w = (num, w)"
  by (subst signal_loop.simps) auto

text \<open>
  The loop signals the next lots in order, each at most once; when it ends with tasks left it has
  signalled all those that were still to come.
\<close>

definition signalled :: "nat \<Rightarrow> nat \<Rightarrow> nat \<Rightarrow> bool" where
  "signalled s k j \<longleftrightarrow> (\<exists>d \<in> {1..k}. j = (s + d) mod 4)"

lemma signalled_0 [simp]: "\<not> signalled s 0 j"
  by (simp add: signalled_def)

lemma signalled_Suc: "signalled s (Suc k) j \<longleftrightarrow> j = (s + 1) mod 4 \<or> signalled ((s + 1) mod 4) k j"
proof -
  have "{1..Suc k} = insert 1 (Suc ` {1..k})" by auto
  then show ?thesis unfolding signalled_def
    by (simp add: mod_simps del: image_Suc_atLeastAtMost)
qed

lemma signalled_self: "s < 4 \<Longrightarrow> k \<le> 3 \<Longrightarrow> \<not> signalled s k s"
proof
  assume "s < 4" "k \<le> 3" "signalled s k s"
  then obtain d where "1 \<le> d" "d \<le> 3" "s = (s + d) mod 4" by (auto simp: signalled_def)
  with \<open>s < 4\<close> show False by presburger
qed

lemma signalled_all:
  assumes "s < 4" and "j < 4" and "j \<noteq> s"
  shows "signalled s 3 j"
proof (cases "s < j")
  case True
  with assms have "j - s \<in> {1..3}" "j = (s + (j - s)) mod 4" by auto
  then show ?thesis unfolding signalled_def by blast
next
  case False
  with assms have "j + 4 - s \<in> {1..3}" "j = (s + (j + 4 - s)) mod 4" by auto
  then show ?thesis unfolding signalled_def by blast
qed

lemma signal_loop_values:
  assumes "s < 4" and "length (tc_pl (control w)) = 4" and "1 \<le> i" and "i \<le> 4"
  shows "\<exists>k \<le> 4 - i. (fst (signal_loop X i s num w) > 0 \<longrightarrow> k = 4 - i)
    \<and> (\<forall>j < 4. pl_value (snd (signal_loop X i s num w)) j =
         pl_value w j + (if signalled s k j then 2 else 0))"
  using assms
proof (induction "4 - i" arbitrary: i s num w)
  case 0
  then show ?case by (simp add: signal_loop_stop PARKING_LOT_NUM_def)
next
  case (Suc n)
  show ?case
  proof (cases "num > 0")
    case False
    then show ?thesis by (intro exI [of _ 0]) (simp add: signal_loop_stop)
  next
    case True
    define s1 where "s1 = (if s + 1 \<ge> PARKING_LOT_NUM then 0 else s + 1)"
    define w1 where "w1 = snd (pl_signal X s1 1 w)"
    define num1 where "num1 = num - fst (pl_signal X s1 1 w)"
    have i: "i < PARKING_LOT_NUM" and n: "n = 4 - (i + 1)"
      using Suc.hyps(2) by (simp_all add: PARKING_LOT_NUM_def)
    have s1: "s1 = (s + 1) mod 4" "s1 < 4"
      using Suc.prems(1) by (cases "s = 3"; simp add: s1_def PARKING_LOT_NUM_def)+
    have step: "signal_loop X i s num w = signal_loop X (i + 1) s1 num1 w1"
      unfolding num1_def w1_def by (rule signal_loop_step [OF i True s1_def])
    have lt: "s1 < length (tc_pl (control w))" using s1 Suc.prems(2) by simp
    have v1: "pl_value w1 j = (if j = s1 then pl_value w s1 + 2 else pl_value w j)"
      "length (tc_pl (control w1)) = 4" for j
      unfolding w1_def pl_signal_value [OF lt] using Suc.prems(2) by simp_all
    obtain k where k: "k \<le> 4 - (i + 1)" "fst (signal_loop X i s num w) > 0 \<longrightarrow> k = 4 - (i + 1)"
      and vals: "\<forall>j < 4. pl_value (snd (signal_loop X i s num w)) j =
         pl_value w1 j + (if signalled s1 k j then 2 else 0)"
      unfolding step using Suc.hyps(1) [OF n s1(2) v1(2), of num1] i
      by (auto simp: PARKING_LOT_NUM_def)
    have "\<not> signalled s1 k s1" using k(1) Suc.prems(3) s1(2) by (intro signalled_self) auto
    then have "\<forall>j < 4. pl_value (snd (signal_loop X i s num w)) j =
         pl_value w j + (if signalled s (Suc k) j then 2 else 0)"
      using vals by (auto simp: v1(1) signalled_Suc s1(1))
    then show ?thesis using k Suc.hyps(2) by (intro exI [of _ "Suc k"]) auto
  qed
qed

text \<open>
  \<open>signal_task\<close> always signals the lot of the calling thread; and when it wakes up fewer workers than there are tasks
  (at most two are asked for), it has signalled every lot.
\<close>

lemma signal_lots_spec:
  assumes "length (tc_pl (control w)) = PARKING_LOT_NUM" and "num > 0"
    and "signal_lots X num w = (left, w')"
  shows "pl_value w' (own_lot X w) = pl_value w (own_lot X w) + 2
    \<and> (left > 0 \<longrightarrow> (\<forall>i < PARKING_LOT_NUM. pl_value w' i = pl_value w i + 2))"
proof -
  define n where "n = (if num > 2 then 2 else num)"
  define s where "s = own_lot X w"
  obtain k w1 where first: "pl_signal X s 1 w = (k, w1)" by (cases "pl_signal X s 1 w")
  have s: "s < 4" "s < length (tc_pl (control w))"
    by (simp_all add: s_def own_lot_def assms(1) PARKING_LOT_NUM_def)
  note v1 = pl_signal_value [OF s(2), of X, unfolded first snd_conv]
  show ?thesis
  proof (cases "n - k > 0")
    case False
    then have "left = n - k" "w' = w1" using assms(3) first
      by (auto simp: signal_lots_def n_def s_def Let_def)
    then show ?thesis using False v1 by (simp flip: s_def)
  next
    case True
    then have loop: "signal_loop X 1 s (n - k) w1 = (left, w')" using assms(3) first
      by (auto simp: signal_lots_def n_def s_def Let_def split: if_splits)
    have len: "length (tc_pl (control w1)) = 4" using v1(2) assms(1) by (simp add: PARKING_LOT_NUM_def)
    obtain m where "m \<le> 3" "left > 0 \<longrightarrow> m = 3"
      and "\<forall>j < 4. pl_value w' j = pl_value w1 j + (if signalled s m j then 2 else 0)"
      using signal_loop_values [OF s(1) len, of 1 X "n - k"] unfolding loop fst_conv snd_conv by auto
    then show ?thesis using s(1) v1(1) signalled_all [OF s(1)] signalled_self [OF s(1)]
      by (auto simp: PARKING_LOT_NUM_def simp flip: s_def)
  qed
qed

end
