(* ===== verification/Tasks.thy ===== *)
theory Tasks
  imports Control
begin

text \<open>
  Where the bthreads are: the multisets of the identifiers that are queued, running, waiting on a
  butex, sleeping in the timer, or kept in the callback of a group, and how the updates of the world
  change them.  The scheduler must only move identifiers between them; the operations of the other theories are stated
  in these terms.  The laws of the outside that the statements rest on are named here.
\<close>

section \<open>Laws of the queues\<close>

text \<open>
  Pushing adds the item or fails and changes nothing; popping and stealing take an item out, and
  fail only on an empty queue.
\<close>

definition queue_laws ::
  "('q \<Rightarrow> bthread_t list) \<Rightarrow> ('q \<Rightarrow> bthread_t \<Rightarrow> 'q \<times> bool) \<Rightarrow> ('q \<Rightarrow> 'q \<times> bthread_t option) \<Rightarrow> bool" where
  "queue_laws items push pop \<longleftrightarrow>
     (\<forall>q t q'. push q t = (q', True) \<longrightarrow> mset (items q') = add_mset t (mset (items q)))
   \<and> (\<forall>q t q'. push q t = (q', False) \<longrightarrow> mset (items q') = mset (items q))
   \<and> (\<forall>q t q'. pop q = (q', Some t) \<longrightarrow> mset (items q) = add_mset t (mset (items q')))
   \<and> (\<forall>q q'. pop q = (q', None) \<longrightarrow> items q = [] \<and> items q' = [])"

definition ext_queues_ok :: "('q, 'r, 'x) ext \<Rightarrow> bool" where
  "ext_queues_ok X \<longleftrightarrow>
     queue_laws (wsq_items X) (wsq_push X) (wsq_pop X)
   \<and> queue_laws (wsq_items X) (wsq_push X) (wsq_steal X)
   \<and> queue_laws (rrq_items X) (rrq_push X) (rrq_pop X)"

lemma ext_queues_push:
  assumes "ext_queues_ok X"
  shows "wsq_push X q t = (q', ok) \<Longrightarrow>
      mset (wsq_items X q') = mset (wsq_items X q) + (if ok then {#t#} else {#})"
    and "rrq_push X r t = (r', ok) \<Longrightarrow>
      mset (rrq_items X r') = mset (rrq_items X r) + (if ok then {#t#} else {#})"
  using assms by (cases ok; simp add: ext_queues_ok_def queue_laws_def)+

definition opt_mset :: "'a option \<Rightarrow> 'a multiset" where
  "opt_mset r = (case r of None \<Rightarrow> {#} | Some t \<Rightarrow> {#t#})"

lemma opt_mset_simps [simp]: "opt_mset None = {#}" "opt_mset (Some t) = {#t#}"
  by (simp_all add: opt_mset_def)

lemma ext_queues_take:
  assumes "ext_queues_ok X"
  shows "wsq_pop X q = (q', r) \<Longrightarrow> mset (wsq_items X q) = mset (wsq_items X q') + opt_mset r"
    and "wsq_steal X q = (q', r) \<Longrightarrow> mset (wsq_items X q) = mset (wsq_items X q') + opt_mset r"
    and "rrq_pop X p = (p', r) \<Longrightarrow> mset (rrq_items X p) = mset (rrq_items X p') + opt_mset r"
  using assms by (cases r; simp add: ext_queues_ok_def queue_laws_def)+

lemma ext_queues_fail:
  assumes "ext_queues_ok X"
  shows "wsq_pop X q = (q', None) \<Longrightarrow> wsq_items X q = []"
    and "wsq_steal X q = (q', None) \<Longrightarrow> wsq_items X q = []"
    and "rrq_pop X p = (p', None) \<Longrightarrow> rrq_items X p = []"
  using assms by (auto simp: ext_queues_ok_def queue_laws_def)

section \<open>The places of a task\<close>

definition queue_of :: "('q, 'r, 'x) ext \<Rightarrow> ('q, 'r) task_group \<Rightarrow> bthread_t multiset" where
  "queue_of X tg = mset (wsq_items X (tg_rq tg)) + mset (rrq_items X (tg_remote_rq tg))"

definition queued :: "('q, 'r, 'x) ext \<Rightarrow> ('q, 'r, 'x) world \<Rightarrow> bthread_t multiset" where
  "queued X w = msum (queue_of X) (groups w)"

text \<open>The bthread a group runs; its main task (the idle loop) does not count.\<close>

definition running_in :: "(slot \<Rightarrow> bthread_t option) \<Rightarrow> ('q, 'r) task_group \<Rightarrow> bthread_t multiset" where
  "running_in tid_of tg =
     (case Option.bind (tg_cur_meta tg) tid_of of
        None \<Rightarrow> {#}
      | Some t \<Rightarrow> if t = tg_main_tid tg then {#} else {#t#})"

definition meta_tid :: "('q, 'r, 'x) world \<Rightarrow> slot \<Rightarrow> bthread_t option" where
  "meta_tid w s = map_option tm_tid (metas w s)"

definition running :: "('q, 'r, 'x) world \<Rightarrow> bthread_t multiset" where
  "running w = msum (running_in (meta_tid w)) (groups w)"

text \<open>The bthreads (not the pthreads, whose \<open>tid\<close> is 0) in the waiter lists.\<close>

definition waiter_tid :: "('q, 'r, 'x) world \<Rightarrow> wid \<Rightarrow> bthread_t" where
  "waiter_tid w i = (case waiters w i of None \<Rightarrow> 0 | Some bw \<Rightarrow> w_tid bw)"

definition bthreads_of :: "(wid \<Rightarrow> bthread_t) \<Rightarrow> wid list \<Rightarrow> bthread_t multiset" where
  "bthreads_of tid_of ws = filter_mset (\<lambda>t. t \<noteq> 0) (mset (map tid_of ws))"

definition waiting :: "('q, 'r, 'x) world \<Rightarrow> bthread_t multiset" where
  "waiting w = msum (\<lambda>b. bthreads_of (waiter_tid w) (bx_waiters b)) (butexes w)"

text \<open>The bthread a remained callback will put somewhere.\<close>

definition remained_tids :: "(wid \<Rightarrow> bthread_t) \<Rightarrow> remained option \<Rightarrow> bthread_t multiset" where
  "remained_tids tid_of r =
     (case r of
        None \<Rightarrow> {#}
      | Some (ReadyToRunInWorker t ns) \<Rightarrow> {#t#}
      | Some (ReadyToRunInWorkerIgnoresignal t ns) \<Rightarrow> {#t#}
      | Some (WaitForButex i) \<Rightarrow> {#tid_of i#}
      | Some (AddSleepEvent e) \<Rightarrow> {#sa_tid e#}
      | Some (ReleaseLastContext s) \<Rightarrow> {#})"

definition pending :: "('q, 'r, 'x) world \<Rightarrow> bthread_t multiset" where
  "pending w = msum (\<lambda>tg. remained_tids (waiter_tid w) (tg_last_context_remained tg)) (groups w)"

section \<open>Updates of the world\<close>

lemma put_sel [simp]:
  "groups (put_group g tg w) = (groups w)[g := tg]"
  "metas (put_group g tg w) = metas w" "butexes (put_group g tg w) = butexes w"
  "waiters (put_group g tg w) = waiters w" "control (put_group g tg w) = control w"
  "frames (put_group g tg w) = frames w" "cur_tls (put_group g tg w) = cur_tls w"
  "fatals (put_group g tg w) = fatals w" "outside (put_group g tg w) = outside w"
  "metas (put_meta s m w) = (metas w)(s \<mapsto> m)"
  "groups (put_meta s m w) = groups w" "butexes (put_meta s m w) = butexes w"
  "waiters (put_meta s m w) = waiters w" "control (put_meta s m w) = control w"
  "frames (put_meta s m w) = frames w" "cur_tls (put_meta s m w) = cur_tls w"
  "fatals (put_meta s m w) = fatals w" "outside (put_meta s m w) = outside w"
  "butexes (put_butex b bx w) = (butexes w)[b := bx]"
  "groups (put_butex b bx w) = groups w" "metas (put_butex b bx w) = metas w"
  "waiters (put_butex b bx w) = waiters w" "control (put_butex b bx w) = control w"
  "frames (put_butex b bx w) = frames w" "cur_tls (put_butex b bx w) = cur_tls w"
  "fatals (put_butex b bx w) = fatals w" "outside (put_butex b bx w) = outside w"
  "waiters (put_waiter i bw w) = (waiters w)(i \<mapsto> bw)"
  "groups (put_waiter i bw w) = groups w" "metas (put_waiter i bw w) = metas w"
  "butexes (put_waiter i bw w) = butexes w" "control (put_waiter i bw w) = control w"
  "frames (put_waiter i bw w) = frames w" "cur_tls (put_waiter i bw w) = cur_tls w"
  "fatals (put_waiter i bw w) = fatals w" "outside (put_waiter i bw w) = outside w"
  by (simp_all add: put_defs)

lemma log_sel [simp]:
  "groups (log_fatal f w) = groups w" "metas (log_fatal f w) = metas w"
  "butexes (log_fatal f w) = butexes w" "waiters (log_fatal f w) = waiters w"
  "control (log_fatal f w) = control w" "frames (log_fatal f w) = frames w"
  "cur_tls (log_fatal f w) = cur_tls w" "outside (log_fatal f w) = outside w"
  "fatals (log_fatal f w) = fatals w @ [f]"
  "groups (set_errno e w) = groups w" "metas (set_errno e w) = metas w"
  "butexes (set_errno e w) = butexes w" "waiters (set_errno e w) = waiters w"
  "control (set_errno e w) = control w" "frames (set_errno e w) = frames w"
  "fatals (set_errno e w) = fatals w" "outside (set_errno e w) = outside w"
  "cur_tls (set_errno e w) = (cur_tls w)\<lparr>tls_errno := e\<rparr>"
  by (simp_all add: put_defs)

text \<open>The places depend on a few fields each.\<close>

lemma queued_cong: "groups w' = groups w \<Longrightarrow> queued X w' = queued X w"
  by (simp add: queued_def)

lemma meta_tid_cong: "metas w' = metas w \<Longrightarrow> meta_tid w' = meta_tid w"
  by (rule ext) (simp add: meta_tid_def)

lemma waiter_tid_cong: "waiters w' = waiters w \<Longrightarrow> waiter_tid w' = waiter_tid w"
  by (rule ext) (simp add: waiter_tid_def)

lemma running_cong: "groups w' = groups w \<Longrightarrow> meta_tid w' = meta_tid w \<Longrightarrow> running w' = running w"
  by (simp add: running_def)

lemma waiting_cong:
  "butexes w' = butexes w \<Longrightarrow> waiter_tid w' = waiter_tid w \<Longrightarrow> waiting w' = waiting w"
  by (simp add: waiting_def)

lemma pending_cong:
  "groups w' = groups w \<Longrightarrow> waiter_tid w' = waiter_tid w \<Longrightarrow> pending w' = pending w"
  by (simp add: pending_def)

text \<open>The four places together.\<close>

definition tasks :: "('q, 'r, 'x) ext \<Rightarrow> ('q, 'r, 'x) world \<Rightarrow> bthread_t multiset" where
  "tasks X w = queued X w + running w + waiting w + pending w"

lemma tasks_cong:
  "groups w' = groups w \<Longrightarrow> meta_tid w' = meta_tid w \<Longrightarrow> butexes w' = butexes w \<Longrightarrow>
   waiter_tid w' = waiter_tid w \<Longrightarrow> tasks X w' = tasks X w"
  by (simp only: tasks_def queued_def running_def waiting_def pending_def)

text \<open>What one group contributes to them.\<close>

definition group_tasks ::
  "('q, 'r, 'x) ext \<Rightarrow> (slot \<Rightarrow> bthread_t option) \<Rightarrow> (wid \<Rightarrow> bthread_t) \<Rightarrow> ('q, 'r) task_group
   \<Rightarrow> bthread_t multiset" where
  "group_tasks X mt wt tg =
     queue_of X tg + running_in mt tg + remained_tids wt (tg_last_context_remained tg)"

text \<open>The identifiers of the main tasks of the groups.\<close>

definition mains :: "('q, 'r, 'x) world \<Rightarrow> bthread_t list" where
  "mains w = map tg_main_tid (groups w)"

lemma mains_cong: "groups w' = groups w \<Longrightarrow> mains w' = mains w"
  by (simp add: mains_def)

lemma mains_put_group:
  "group_at w g = Some tg \<Longrightarrow> tg_main_tid tg' = tg_main_tid tg \<Longrightarrow> mains (put_group g tg' w) = mains w"
  by (simp add: mains_def map_update nth_opt_Some list_update_same_conv)

lemma mains_simps [simp]:
  "mains (put_meta s m w) = mains w" "mains (put_butex b bx w) = mains w" "mains (put_waiter i bw w) = mains w"
  "mains (log_fatal f w) = mains w" "mains (set_errno e w) = mains w" "mains (w\<lparr>outside := x\<rparr>) = mains w"
  by (simp_all add: mains_def)

lemma msum_add: "msum (\<lambda>x. f x + g x) xs = msum f xs + msum g xs"
  by (induction xs) (simp_all add: ac_simps)

lemma tasks_groups:
  "tasks X w = msum (group_tasks X (meta_tid w) (waiter_tid w)) (groups w) + waiting w"
  by (simp add: tasks_def queued_def running_def pending_def group_tasks_def [abs_def] msum_add ac_simps)

text \<open>Replacing a group changes the places by the difference of what the group contributes.\<close>

lemma meta_tid_put_group [simp]: "meta_tid (put_group g tg w) = meta_tid w"
  by (rule meta_tid_cong) simp

lemma waiter_tid_put_group [simp]: "waiter_tid (put_group g tg w) = waiter_tid w"
  by (rule waiter_tid_cong) simp

lemma waiting_put_group [simp]: "waiting (put_group g tg w) = waiting w"
  by (rule waiting_cong) simp_all

lemma queued_put_group:
  "group_at w g = Some tg \<Longrightarrow> queued X (put_group g tg' w) + queue_of X tg = queued X w + queue_of X tg'"
  using msum_update [of g "groups w" "queue_of X" tg'] by (simp add: queued_def nth_opt_Some)

lemma queued_put_group_add:
  "group_at w g = Some tg \<Longrightarrow> queue_of X tg' = queue_of X tg + d \<Longrightarrow>
   queued X (put_group g tg' w) = queued X w + d"
  by (simp add: queued_def msum_update_add)

lemma queued_put_group_remove:
  "group_at w g = Some tg \<Longrightarrow> queue_of X tg = queue_of X tg' + d \<Longrightarrow>
   queued X w = queued X (put_group g tg' w) + d"
  by (simp add: queued_def msum_update_remove)

lemma tasks_put_group:
  assumes "group_at w g = Some tg"
  shows "tasks X (put_group g tg' w) + group_tasks X (meta_tid w) (waiter_tid w) tg =
    tasks X w + group_tasks X (meta_tid w) (waiter_tid w) tg'"
  using msum_update [of g "groups w" "group_tasks X (meta_tid w) (waiter_tid w)" tg'] assms
  by (simp add: tasks_groups nth_opt_Some ac_simps)


section \<open>The waiter lists\<close>

text \<open>
  The invariant of the butexes: a waiter is in the list of a butex exactly if its \<open>container\<close> is that
  butex, which exists, and no list contains it twice.  Hence no waiter is in two lists, and whoever takes it out of
  its list, under the lock, is the only one to wake it up.
\<close>

definition butexes_ok :: "('q, 'r, 'x) world \<Rightarrow> bool" where
  "butexes_ok w \<longleftrightarrow>
     (\<forall>b bx. butex_at w b = Some bx \<longrightarrow> distinct (bx_waiters bx)
        \<and> (\<forall>i. i \<in> set (bx_waiters bx) \<longleftrightarrow> (\<exists>bw. waiters w i = Some bw \<and> w_container bw = Some b)))
   \<and> (\<forall>i b. (\<exists>bw. waiters w i = Some bw \<and> w_container bw = Some b) \<longrightarrow> b < length (butexes w))"

lemma butexes_ok_cong:
  assumes "butexes w' = butexes w" and "waiters w' = waiters w"
  shows "butexes_ok w' = butexes_ok w"
  by (simp only: butexes_ok_def assms)

lemma butexes_okD:
  assumes "butexes_ok w" and "butex_at w b = Some bx"
  shows "distinct (bx_waiters bx)"
    and "i \<in> set (bx_waiters bx) \<longleftrightarrow> (\<exists>bw. waiters w i = Some bw \<and> w_container bw = Some b)"
  using assms unfolding butexes_ok_def by blast+

lemma butexes_ok_container:
  "butexes_ok w \<Longrightarrow> waiters w i = Some bw \<Longrightarrow> w_container bw = Some b \<Longrightarrow> b < length (butexes w)"
  unfolding butexes_ok_def by blast

section \<open>Steps that move tasks\<close>

text \<open>
  Two records of a group that differ in their queues and counters only: the fields that no operation
  on a queue may touch.
\<close>

definition queue_part_only :: "('q, 'r) task_group \<Rightarrow> ('q, 'r) task_group \<Rightarrow> bool" where
  "queue_part_only tg tg' \<longleftrightarrow>
     (\<exists>q r a b c d. tg' = tg\<lparr>tg_num_nosignal := a, tg_nsignaled := b, tg_rq := q, tg_remote_rq := r,
        tg_remote_num_nosignal := c, tg_remote_nsignaled := d\<rparr>)"

lemma queue_part_only_refl [simp, intro]: "queue_part_only tg tg"
  by (cases tg) (simp add: queue_part_only_def)

lemma queue_part_only_trans [trans]:
  "queue_part_only t u \<Longrightarrow> queue_part_only u v \<Longrightarrow> queue_part_only t v"
  by (cases t; cases u; cases v; auto simp: queue_part_only_def)

lemma queue_part_only_same:
  assumes "queue_part_only tg tg'"
  shows "tg_cur_meta tg' = tg_cur_meta tg" "tg_main_tid tg' = tg_main_tid tg"
    "tg_main_stack tg' = tg_main_stack tg" "tg_has_control tg' = tg_has_control tg"
    "tg_last_context_remained tg' = tg_last_context_remained tg"
    "tg_sched_recursive_guard tg' = tg_sched_recursive_guard tg"
    "tg_nswitch tg' = tg_nswitch tg" "tg_last_run_ns tg' = tg_last_run_ns tg"
    "tg_cumulated_cputime_ns tg' = tg_cumulated_cputime_ns tg"
  using assms by (auto simp: queue_part_only_def)

lemma queue_part_only_updates [simp, intro]:
  "queue_part_only tg (tg\<lparr>tg_rq := q\<rparr>)"
  "queue_part_only tg (tg\<lparr>tg_remote_rq := r\<rparr>)"
  "queue_part_only tg (tg\<lparr>tg_rq := q, tg_remote_rq := r\<rparr>)"
  "queue_part_only tg (tg\<lparr>tg_num_nosignal := a\<rparr>)"
  "queue_part_only tg (tg\<lparr>tg_num_nosignal := a, tg_nsignaled := b\<rparr>)"
  "queue_part_only tg (tg\<lparr>tg_remote_num_nosignal := a\<rparr>)"
  "queue_part_only tg (tg\<lparr>tg_remote_num_nosignal := a, tg_remote_nsignaled := b\<rparr>)"
  by (cases tg; simp add: queue_part_only_def)+

text \<open>
  \<open>steady w w'\<close>: the thread-local variables, the identifiers kept in metas and waiters, those of the main tasks and the
  private part of the group of this thread are the same, and the waiter lists are as consistent as before.
  \<open>moves X d w w'\<close>: moreover, from \<open>w\<close> to \<open>w'\<close> the tasks \<open>d\<close> entered the places and no other task entered
  or left them; \<open>takes X d w w'\<close>: they left them.
\<close>

definition steady :: "('q, 'r, 'x) world \<Rightarrow> ('q, 'r, 'x) world \<Rightarrow> bool" where
  "steady w w' \<longleftrightarrow>
     cur_tls w' = cur_tls w \<and> meta_tid w' = meta_tid w \<and> waiter_tid w' = waiter_tid w
   \<and> mains w' = mains w
   \<and> (butexes_ok w \<longrightarrow> butexes_ok w')
   \<and> (\<forall>g tg. tls_task_group (cur_tls w) = Some g \<longrightarrow> group_at w g = Some tg \<longrightarrow>
        (\<exists>tg'. group_at w' g = Some tg' \<and> queue_part_only tg tg'))"

definition moves ::
  "('q, 'r, 'x) ext \<Rightarrow> bthread_t multiset \<Rightarrow> ('q, 'r, 'x) world \<Rightarrow> ('q, 'r, 'x) world \<Rightarrow> bool" where
  "moves X d w w' \<longleftrightarrow> tasks X w' = tasks X w + d \<and> steady w w'"

definition takes ::
  "('q, 'r, 'x) ext \<Rightarrow> bthread_t multiset \<Rightarrow> ('q, 'r, 'x) world \<Rightarrow> ('q, 'r, 'x) world \<Rightarrow> bool" where
  "takes X d w w' \<longleftrightarrow> tasks X w = tasks X w' + d \<and> steady w w'"

lemma steady_refl [simp, intro]: "steady w w"
  by (auto simp: steady_def)

lemma steady_trans [trans]:
  assumes "steady u v" and "steady v w"
  shows "steady u w"
proof -
  have "\<exists>tg'. group_at w g = Some tg' \<and> queue_part_only tg tg'"
    if own: "tls_task_group (cur_tls u) = Some g" and g: "group_at u g = Some tg" for g tg
  proof -
    obtain v' where "group_at v g = Some v'" "queue_part_only tg v'"
      using assms(1) own g unfolding steady_def by blast
    moreover have "tls_task_group (cur_tls v) = Some g" using assms(1) own by (simp add: steady_def)
    ultimately show ?thesis using assms(2) queue_part_only_trans unfolding steady_def by blast
  qed
  then show ?thesis using assms by (simp add: steady_def)
qed

lemma steady_sels:
  assumes "steady w w'"
  shows "cur_tls w' = cur_tls w" "meta_tid w' = meta_tid w" "waiter_tid w' = waiter_tid w"
    "butexes_ok w \<Longrightarrow> butexes_ok w'"
  using assms by (simp_all add: steady_def)

lemma steady_own:
  assumes "steady w w'" and "tls_task_group (cur_tls w) = Some g" and "group_at w g = Some tg"
  obtains tg' where "group_at w' g = Some tg'" and "queue_part_only tg tg'"
  using assms unfolding steady_def by blast

lemma moves_refl [simp, intro]: "moves X {#} w w"
  by (auto simp: moves_def)

lemma moves_trans: "moves X d u v \<Longrightarrow> moves X e v w \<Longrightarrow> moves X (d + e) u w"
  unfolding moves_def by (auto intro: steady_trans)

lemma moves_trans_0:
  "moves X {#} u v \<Longrightarrow> moves X d v w \<Longrightarrow> moves X d u w"
  "moves X d u v \<Longrightarrow> moves X {#} v w \<Longrightarrow> moves X d u w"
  using moves_trans [of X "{#}" u v d w] moves_trans [of X d u v "{#}" w] by simp_all

lemma takes_moves:
  "takes X d u v \<Longrightarrow> moves X d v w \<Longrightarrow> moves X {#} u w"
  "takes X (d + e) u v \<Longrightarrow> moves X d v w \<Longrightarrow> takes X e u w"
  "takes X d u v \<Longrightarrow> moves X {#} v w \<Longrightarrow> takes X d u w"
  "moves X {#} u v \<Longrightarrow> takes X d v w \<Longrightarrow> takes X d u w"
  unfolding moves_def takes_def by (auto intro: steady_trans simp: ac_simps)

lemma takes_trans: "takes X d u v \<Longrightarrow> takes X e v w \<Longrightarrow> takes X (d + e) u w"
  unfolding takes_def by (auto intro: steady_trans simp: ac_simps)

lemma takes_0 [simp]: "takes X {#} u v = moves X {#} u v"
  by (auto simp: moves_def takes_def)

lemma moves_steady: "moves X d w w' \<Longrightarrow> steady w w'" "takes X d w w' \<Longrightarrow> steady w w'"
  by (simp_all add: moves_def takes_def)

lemmas moves_own = steady_own [OF moves_steady(1)]

lemma moves_cong:
  assumes "groups w' = groups w" and "metas w' = metas w" and "butexes w' = butexes w"
    and "waiters w' = waiters w" and "cur_tls w' = cur_tls w"
  shows "moves X {#} w w'"
proof -
  note mt = meta_tid_cong [OF assms(2)] and wt = waiter_tid_cong [OF assms(4)]
  show ?thesis
    using tasks_cong [OF assms(1) mt assms(3) wt] mains_cong [OF assms(1)] assms(1,5) mt wt butexes_ok_cong [OF assms(3,4)]
    by (auto simp: moves_def steady_def)
qed

lemma moves_signal_task [simp, intro]: "moves X {#} w (signal_task X n w)"
  by (rule moves_cong) simp_all

lemma moves_put_group:
  assumes "group_at w g = Some tg" and "queue_part_only tg tg'" and "queue_of X tg' = queue_of X tg + d"
  shows "moves X d w (put_group g tg' w)"
proof -
  have "group_tasks X mt wt tg' = group_tasks X mt wt tg + d" for mt wt
    using assms(3) queue_part_only_same [OF assms(2)]
    by (simp add: group_tasks_def running_in_def ac_simps split: option.split)
  then have "tasks X (put_group g tg' w) = tasks X w + d"
    using tasks_put_group [OF assms(1), of X tg'] by (simp add: ac_simps)
  moreover have "butexes_ok (put_group g tg' w) = butexes_ok w" by (rule butexes_ok_cong) simp_all
  moreover have "mains (put_group g tg' w) = mains w"
    using mains_put_group [OF assms(1)] queue_part_only_same [OF assms(2)] by simp
  ultimately show ?thesis using assms(1,2) by (auto simp: moves_def steady_def nth_opt_Some)
qed

text \<open>
  What is assumed of the other threads during a nap: they move tasks between the places, leave the
  private part and the local counters of the group of this thread alone, and start or end no bthread.
\<close>

definition naps_ok :: "('q, 'r, 'x) ext \<Rightarrow> bool" where
  "naps_ok X \<longleftrightarrow>
     (\<forall>w. moves X {#} w (nap X w)
        \<and> (\<forall>g tg tg'. tls_task_group (cur_tls w) = Some g \<longrightarrow> group_at w g = Some tg \<longrightarrow>
             group_at (nap X w) g = Some tg' \<longrightarrow>
             tg_num_nosignal tg' = tg_num_nosignal tg \<and> tg_nsignaled tg' = tg_nsignaled tg))"

lemma naps_ok_moves: "naps_ok X \<Longrightarrow> moves X {#} w (nap X w)"
  by (simp add: naps_ok_def)


section \<open>The laws hold of the concrete outside\<close>

lemma demo_queues_ok [simp]: "ext_queues_ok demo_ext"
proof -
  have push: "(demo_push q t = (q', True) \<longrightarrow> mset q' = add_mset t (mset q))"
    "(demo_push q t = (q', False) \<longrightarrow> mset q' = mset q)" for q t q'
    by (auto simp: demo_push_def)
  have pop: "(demo_pop q = (q', Some t) \<longrightarrow> mset q = add_mset t (mset q'))"
    "(demo_pop q = (q', None) \<longrightarrow> q = [] \<and> q' = [])" for q t q'
    by (cases q rule: rev_cases; auto simp: demo_pop_def)+
  have steal: "(demo_steal q = (q', Some t) \<longrightarrow> mset q = add_mset t (mset q'))"
    "(demo_steal q = (q', None) \<longrightarrow> q = [] \<and> q' = [])" for q t q'
    by (cases q; auto)+
  show ?thesis using push pop steal by (simp add: ext_queues_ok_def queue_laws_def demo_ext_def)
qed

text \<open>The nap moves one task from the first queue to the second.\<close>

lemma demo_nap_groups_sum:
  assumes "\<And>tg q. f (tg\<lparr>tg_rq := q\<rparr>) = f tg"
  shows "msum (\<lambda>tg. mset (tg_rq tg) + f tg) (demo_nap_groups tgs) = msum (\<lambda>tg. mset (tg_rq tg) + f tg) tgs"
  by (induction tgs rule: demo_nap_groups.induct) (simp_all add: assms split: list.split)

lemma demo_nap_groups_part:
  "length (demo_nap_groups tgs) = length tgs"
  "nth_opt tgs g = Some tg \<Longrightarrow> \<exists>q. nth_opt (demo_nap_groups tgs) g = Some (tg\<lparr>tg_rq := q\<rparr>)"
proof -
  show "length (demo_nap_groups tgs) = length tgs"
    by (induction tgs rule: demo_nap_groups.induct) (simp_all split: list.split)
  have same: "\<exists>q. tg = tg\<lparr>tg_rq := q\<rparr>" for tg :: demo_group by (intro exI [of _ "tg_rq tg"]) simp
  show "\<exists>q. nth_opt (demo_nap_groups tgs) g = Some (tg\<lparr>tg_rq := q\<rparr>)" if "nth_opt tgs g = Some tg"
    using that
  proof (induction tgs rule: demo_nap_groups.induct)
    case (1 a b tgs)
    have "g = 0 \<or> g = 1 \<or> (\<exists>k. g = Suc (Suc k))" by (cases g; cases "g - 1") auto
    with 1 same show ?case by (cases "tg_rq a") auto
  qed (use same in auto)
qed

lemma demo_nap_groups_mains: "map tg_main_tid (demo_nap_groups tgs) = map tg_main_tid tgs"
  by (induction tgs rule: demo_nap_groups.induct) (simp_all split: list.split)

lemma demo_naps_ok [simp]: "naps_ok demo_ext"
  unfolding naps_ok_def
proof (intro allI conjI impI)
  fix w :: demo_world
  let ?w = "w\<lparr>groups := demo_nap_groups (groups w)\<rparr>"
  have nap: "nap demo_ext w = ?w" by (simp add: demo_ext_def)
  have mt: "meta_tid ?w = meta_tid w" by (rule meta_tid_cong) simp
  have wt: "waiter_tid ?w = waiter_tid w" by (rule waiter_tid_cong) simp
  have bo: "butexes_ok ?w = butexes_ok w" by (rule butexes_ok_cong) simp_all
  have wa: "waiting ?w = waiting w" by (rule waiting_cong [OF _ wt]) simp
  have gt: "group_tasks demo_ext mt wt = (\<lambda>tg. mset (tg_rq tg) + (mset (tg_remote_rq tg)
      + running_in mt tg + remained_tids wt (tg_last_context_remained tg)))" for mt wt
    by (rule ext) (simp add: group_tasks_def queue_of_def demo_ext_def ac_simps)
  have r: "running_in mt (tg\<lparr>tg_rq := q\<rparr>) = running_in mt tg" for mt and tg :: demo_group and q
    by (simp add: running_in_def split: option.split)
  have "tasks demo_ext ?w = tasks demo_ext w"
    unfolding tasks_groups mt wt wa gt by (simp add: demo_nap_groups_sum r)
  moreover have mains: "mains ?w = mains w"
    unfolding mains_def by (simp add: demo_nap_groups_mains)
  ultimately show "moves demo_ext {#} w (nap demo_ext w)"
    unfolding nap moves_def steady_def using mt wt bo demo_nap_groups_part mains by fastforce
  fix g tg tg'
  assume "group_at w g = Some tg" and "group_at (nap demo_ext w) g = Some tg'"
  then show "tg_num_nosignal tg' = tg_num_nosignal tg" and "tg_nsignaled tg' = tg_nsignaled tg"
    using demo_nap_groups_part(2) [of "groups w" g tg] by (auto simp: nap)
qed

end
