(* ===== verification/GroupArray.thy ===== *)
theory GroupArray
  imports Tasks
begin

text \<open>
  TaskControl (\<open>task_control.cpp\<close>), second part: the array of groups, choosing a group from it and
  stealing a task from the groups in it.
\<close>

section \<open>The array of groups\<close>

text \<open>\<open>choose_one_group\<close>: None is NULL, returned after a failed CHECK when there is no group.\<close>

definition choose_one_group ::
  "('q, 'r, 'x) ext \<Rightarrow> ('q, 'r, 'x) world \<Rightarrow> (gid option \<times> ('q, 'r, 'x) world) option" where
  "choose_one_group X w =
     (let ngroup = tc_ngroup (control w)
      in (if ngroup \<noteq> 0 then
            let (x, i) = fast_rand_less_than X (outside w) ngroup
            in do {
              g \<leftarrow> nth_opt (tc_groups (control w)) i;
              Some (g, w\<lparr>outside := x\<rparr>)
            }
          else Some (None, log_fatal CheckNoGroup w)))"

text \<open>\<open>_add_group\<close>: a group that finds the array full is not added, and 0 is returned all the same.\<close>

definition add_group ::
  "('q, 'r, 'x) ext \<Rightarrow> gid option \<Rightarrow> ('q, 'r, 'x) world \<Rightarrow> int \<times> ('q, 'r, 'x) world" where
  "add_group X g w =
     (case g of
        None \<Rightarrow> (-1, w)
      | Some g' \<Rightarrow>
          if tc_stop (control w) then (-1, w)
          else
            let ngroup = tc_ngroup (control w);
                w1 = (if ngroup < max_concurrency X then
                        upd_control (\<lambda>c. c\<lparr>tc_groups := (tc_groups c)[ngroup := Some g'],
                                           tc_ngroup := ngroup + 1\<rparr>) w
                      else w)
            in (0, signal_task X 65536 w1))"

text \<open>
  The search loop of \<open>_delete_group\<close> (declared as \<open>_destroy_group\<close>), from index \<open>i\<close> on: the entry
  found is overwritten with the last one.
\<close>

function delete_group_loop :: "gid \<Rightarrow> nat \<Rightarrow> nat \<Rightarrow> task_control \<Rightarrow> bool \<times> task_control" where
  "delete_group_loop g ngroup i c =
     (if i < ngroup then
        if tc_groups c ! i = Some g then
          (True, c\<lparr>tc_groups := (tc_groups c)[i := tc_groups c ! (ngroup - 1)],
                   tc_ngroup := ngroup - 1\<rparr>)
        else delete_group_loop g ngroup (i + 1) c
      else (False, c))"
  by pat_completeness auto
termination by (relation "measure (\<lambda>(g, n, i, c). n - i)") auto

declare delete_group_loop.simps [simp del]

definition task_group_delete_delay_us :: int where
  "task_group_delete_delay_us = 1000000"

definition delete_group ::
  "('q, 'r, 'x) ext \<Rightarrow> gid option \<Rightarrow> ('q, 'r, 'x) world \<Rightarrow> (int \<times> ('q, 'r, 'x) world) option" where
  "delete_group X g w =
     (case g of
        None \<Rightarrow> Some (-1, w)
      | Some g' \<Rightarrow> do {
          tg \<leftarrow> group_at w g';
          (if \<not> tg_has_control tg then Some (-1, w)
           else
             let (erased, c) = delete_group_loop g' (tc_ngroup (control w)) 0 (control w);
                 w1 = w\<lparr>control := c\<rparr>
             in (if erased then
                   let (x, tid) = timer_schedule X (outside w1) (DeleteTaskGroup g')
                                    task_group_delete_delay_us
                   in Some (0, w1\<lparr>outside := x\<rparr>)
                 else Some (0, w1)))
        })"

section \<open>Stealing\<close>

text \<open>One victim: its run queue first, then its remote queue.\<close>

definition steal_from ::
  "('q, 'r, 'x) ext \<Rightarrow> ('q, 'r) task_group \<Rightarrow> bthread_t option \<times> ('q, 'r) task_group" where
  "steal_from X tg =
     (case wsq_steal X (tg_rq tg) of
        (q, Some t) \<Rightarrow> (Some t, tg\<lparr>tg_rq := q\<rparr>)
      | (q, None) \<Rightarrow>
          (case rrq_pop X (tg_remote_rq tg) of
             (r, t) \<Rightarrow> (t, tg\<lparr>tg_rq := q, tg_remote_rq := r\<rparr>)))"

text \<open>
  The loop of \<open>TaskControl::steal_task\<close> with \<open>k\<close> iterations left.  The seed is not advanced when a
  task is found.
\<close>

fun steal_loop ::
  "('q, 'r, 'x) ext \<Rightarrow> nat \<Rightarrow> nat \<Rightarrow> 64 word \<Rightarrow> 64 word \<Rightarrow> ('q, 'r, 'x) world
   \<Rightarrow> (bthread_t option \<times> 64 word \<times> ('q, 'r, 'x) world) option" where
  "steal_loop X 0 ngroup offset s w = Some (None, s, w)"
| "steal_loop X (Suc k) ngroup offset s w =
     do {
       e \<leftarrow> nth_opt (tc_groups (control w)) (unat s mod ngroup);
       (case e of
          None \<Rightarrow> steal_loop X k ngroup offset (s + offset) w
        | Some g \<Rightarrow> do {
            tg \<leftarrow> group_at w g;
            (case steal_from X tg of
               (Some t, tg') \<Rightarrow> Some (Some t, s, put_group g tg' w)
             | (None, tg') \<Rightarrow> steal_loop X k ngroup offset (s + offset) (put_group g tg' w))
          })
     }"

definition control_steal_task ::
  "('q, 'r, 'x) ext \<Rightarrow> 64 word \<Rightarrow> 64 word \<Rightarrow> ('q, 'r, 'x) world
   \<Rightarrow> (bthread_t option \<times> 64 word \<times> ('q, 'r, 'x) world) option" where
  "control_steal_task X seed offset w =
     (let ngroup = tc_ngroup (control w)
      in (if ngroup = 0 then Some (None, seed, w)
          else steal_loop X ngroup ngroup offset seed w))"

section \<open>Counters\<close>

text \<open>
  \<open>get_cumulated_worker_time\<close> (before the division by 1e9), \<open>get_cumulated_switch_count\<close> and
  \<open>get_cumulated_signal_count\<close>: sums over the first \<open>_ngroup\<close> entries that are not NULL.
\<close>

definition active_entries :: "('q, 'r, 'x) world \<Rightarrow> ('q, 'r) task_group option list" where
  "active_entries w =
     map (\<lambda>e. Option.bind e (group_at w)) (take (tc_ngroup (control w)) (tc_groups (control w)))"

definition sum_active :: "(('q, 'r) task_group \<Rightarrow> int) \<Rightarrow> ('q, 'r, 'x) world \<Rightarrow> int" where
  "sum_active f w = sum_list (map (case_option 0 f) (active_entries w))"

definition cumulated_worker_time_ns :: "('q, 'r, 'x) world \<Rightarrow> int" where
  "cumulated_worker_time_ns w = sum_active tg_cumulated_cputime_ns w"

definition get_cumulated_switch_count :: "('q, 'r, 'x) world \<Rightarrow> int" where
  "get_cumulated_switch_count w = sum_active (\<lambda>tg. uint (tg_nswitch tg)) w"

definition get_cumulated_signal_count :: "('q, 'r, 'x) world \<Rightarrow> int" where
  "get_cumulated_signal_count w =
     sum_active (\<lambda>tg. tg_nsignaled tg + tg_remote_nsignaled tg) w"


section \<open>The invariant of the array\<close>

definition listed :: "('q, 'r, 'x) world \<Rightarrow> gid option list" where
  "listed w = take (tc_ngroup (control w)) (tc_groups (control w))"

definition groups_ok :: "('q, 'r, 'x) ext \<Rightarrow> ('q, 'r, 'x) world \<Rightarrow> bool" where
  "groups_ok X w \<longleftrightarrow>
     length (tc_groups (control w)) = max_concurrency X
   \<and> tc_ngroup (control w) \<le> max_concurrency X
   \<and> distinct (listed w)
   \<and> (\<forall>e \<in> set (listed w). \<exists>g < length (groups w). e = Some g)"

lemma groups_ok_cong:
  assumes "tc_groups (control w') = tc_groups (control w)"
    and "tc_ngroup (control w') = tc_ngroup (control w)"
    and "length (groups w') = length (groups w)"
  shows "groups_ok X w' = groups_ok X w" and "listed w' = listed w"
  by (simp_all only: groups_ok_def listed_def assms)

lemma listed_nth:
  assumes "groups_ok X w" and "i < tc_ngroup (control w)"
  shows "tc_groups (control w) ! i \<in> set (listed w)"
    and "\<exists>g < length (groups w). tc_groups (control w) ! i = Some g"
proof -
  have "i < length (listed w)" and "listed w ! i = tc_groups (control w) ! i"
    using assms by (simp_all add: groups_ok_def listed_def)
  then show "tc_groups (control w) ! i \<in> set (listed w)" by (metis nth_mem)
  then show "\<exists>g < length (groups w). tc_groups (control w) ! i = Some g"
    using assms(1) by (simp add: groups_ok_def)
qed

text \<open>Appending an entry, and overwriting one with the last.\<close>

lemma take_append_new:
  "n < length gs \<Longrightarrow> take (n + 1) (gs[n := e]) = take n gs @ [e]"
  by (simp add: take_Suc_conv_app_nth)

lemma swap_last_set:
  assumes "i < n" and "n \<le> length xs" and "distinct (take n xs)"
  shows "distinct (take (n - 1) (xs[i := xs ! (n - 1)]))"
    and "set (take (n - 1) (xs[i := xs ! (n - 1)])) = set (take n xs) - {xs ! i}"
proof -
  define ys where "ys = take (n - 1) xs"
  define l where "l = xs ! (n - 1)"
  have n: "n = Suc (n - 1)" "n - 1 < length xs" using assms by auto
  have split: "take n xs = ys @ [l]"
    using take_Suc_conv_app_nth [OF n(2)] n(1) by (simp add: ys_def l_def)
  have ys: "distinct ys" "l \<notin> set ys" using assms(3) by (simp_all add: split)
  have len: "length ys = n - 1" using assms by (simp add: ys_def)
  have upd: "take (n - 1) (xs[i := l]) = ys[i := l]"
    by (simp add: ys_def take_update_swap)
  have "distinct (ys[i := l]) \<and> set (ys[i := l]) = set (take n xs) - {xs ! i}"
  proof (cases "i < n - 1")
    case True
    then have xi: "ys ! i = xs ! i" by (simp add: ys_def)
    have "set (ys[i := l]) = insert l (set ys - {xs ! i})"
      using ys True len xi by (simp add: set_update_distinct)
    moreover have "l \<noteq> xs ! i" using ys(2) True len xi by (metis nth_mem)
    ultimately show ?thesis using ys by (auto simp: split distinct_list_update)
  next
    case False
    then have "i = n - 1" using assms(1) by simp
    then have "ys[i := l] = ys" and "xs ! i = l" using len by (simp_all add: l_def list_update_beyond)
    then show ?thesis using ys by (auto simp: split)
  qed
  then show "distinct (take (n - 1) (xs[i := xs ! (n - 1)]))"
    and "set (take (n - 1) (xs[i := xs ! (n - 1)])) = set (take n xs) - {xs ! i}"
    unfolding l_def [symmetric] upd by blast+
qed

text \<open>The loop finds the first index that holds the group.\<close>

lemma delete_group_loop_spec:
  "(fst (delete_group_loop g n i c) \<longrightarrow>
     (\<exists>j. i \<le> j \<and> j < n \<and> tc_groups c ! j = Some g \<and>
        snd (delete_group_loop g n i c) =
          c\<lparr>tc_groups := (tc_groups c)[j := tc_groups c ! (n - 1)], tc_ngroup := n - 1\<rparr>))
   \<and> (\<not> fst (delete_group_loop g n i c) \<longrightarrow>
     snd (delete_group_loop g n i c) = c \<and> (\<forall>j. i \<le> j \<longrightarrow> j < n \<longrightarrow> tc_groups c ! j \<noteq> Some g))"
proof (induction g n i c rule: delete_group_loop.induct)
  case (1 g n i c)
  consider (out) "\<not> i < n" | (hit) "i < n" "tc_groups c ! i = Some g"
    | (skip) "i < n" "tc_groups c ! i \<noteq> Some g" by blast
  then show ?case
  proof cases
    case out
    then show ?thesis by (subst (1 2 3 4) delete_group_loop.simps) simp
  next
    case hit
    then show ?thesis by (subst (1 2 3 4) delete_group_loop.simps) auto
  next
    case skip
    then have step: "delete_group_loop g n i c = delete_group_loop g n (i + 1) c"
      by (subst delete_group_loop.simps) simp
    have "j = i \<or> i + 1 \<le> j" if "i \<le> j" for j using that by auto
    then show ?thesis unfolding step using "1.IH" [OF skip] skip(2) by (metis Suc_eq_plus1 Suc_leD)
  qed
qed


lemma add_group_spec:
  assumes "groups_ok X w" and "g < length (groups w)" and "Some g \<notin> set (listed w)"
    and "add_group X (Some g) w = (rc, w')"
  shows "groups_ok X w'
    \<and> (tc_stop (control w) \<longrightarrow> rc = -1 \<and> w' = w)
    \<and> (\<not> tc_stop (control w) \<longrightarrow> rc = 0 \<and>
         listed w' = (if tc_ngroup (control w) < max_concurrency X
                      then listed w @ [Some g] else listed w))"
proof (cases "tc_stop (control w)")
  case True
  then show ?thesis using assms by (simp add: add_group_def)
next
  case False
  define n where "n = tc_ngroup (control w)"
  define w1 where "w1 = (if n < max_concurrency X then
      w\<lparr>control := (control w)\<lparr>tc_groups := (tc_groups (control w))[n := Some g], tc_ngroup := n + 1\<rparr>\<rparr>
      else w)"
  have w': "w' = signal_task X 65536 w1" and rc: "rc = 0"
    using assms(4) False by (auto simp: add_group_def w1_def n_def Let_def)
  have same: "groups_ok X w' = groups_ok X w1" "listed w' = listed w1"
    using control_frame_signal_task [of w1 X 65536]
    by (intro groups_ok_cong; simp only: w' control_frame_def)+
  have listed: "listed w1 = (if n < max_concurrency X then listed w @ [Some g] else listed w)"
    using assms(1) take_append_new [of n "tc_groups (control w)" "Some g"]
    by (simp add: w1_def listed_def groups_ok_def n_def)
  have "groups_ok X w1"
    using assms(1-3) listed by (auto simp: groups_ok_def w1_def n_def)
  then show ?thesis using same listed rc False by (simp add: n_def)
qed

text \<open>
  Adding a group: NULL and a stopped control are refused with -1; otherwise 0 is returned, and
  the group is listed exactly if the array was not full.  The entries of the array stay distinct
  groups that exist.
\<close>

lemma add_group_correct:
  assumes "groups_ok X w" and "g < length (groups w)" and "Some g \<notin> set (listed w)"
    and "add_group X (Some g) w = (rc, w')"
  shows "groups_ok X w'
    \<and> (tc_stop (control w) \<longrightarrow> rc = -1 \<and> w' = w)
    \<and> (\<not> tc_stop (control w) \<longrightarrow> rc = 0 \<and>
         listed w' = (if tc_ngroup (control w) < max_concurrency X
                      then listed w @ [Some g] else listed w))"
  by (rule add_group_spec [OF assms])

text \<open>Two of three groups are listed; the third can be added, the first removed.\<close>

definition array_world :: demo_world where
  "array_world =
     (demo_world None [demo_group 1 (make_tid 1 1) [11, 12] [], demo_group 2 (make_tid 1 2) [] [13],
        demo_group 3 (make_tid 1 3) [] []] [] Map.empty)
     \<lparr>control := demo_control [Some 0, Some 1, None] 2\<rparr>"

lemma array_world_ok: "groups_ok demo_ext array_world"
  by (simp add: groups_ok_def listed_def array_world_def demo_defs)

lemma add_group_correct_witness:
  "\<exists>w'. add_group demo_ext (Some 2) array_world = (0, w') \<and> groups_ok demo_ext w'
    \<and> listed w' = [Some 0, Some 1, Some 2]"
proof -
  obtain rc w' where add: "add_group demo_ext (Some 2) array_world = (rc, w')" by fastforce
  have "2 < length (groups array_world)" and "Some 2 \<notin> set (listed array_world)"
    by (simp_all add: listed_def array_world_def demo_defs)
  from add_group_correct [OF array_world_ok this add] show ?thesis
    using add by (auto simp: array_world_def listed_def demo_defs)
qed

lemma delete_group_spec:
  assumes "groups_ok X w" and "group_at w g = Some tg" and "tg_has_control tg"
    and "delete_group X (Some g) w = Some (rc, w')"
  shows "rc = 0 \<and> groups_ok X w' \<and> set (listed w') = set (listed w) - {Some g}
    \<and> groups w' = groups w
    \<and> outside w' = (if Some g \<in> set (listed w)
         then fst (timer_schedule X (outside w) (DeleteTaskGroup g) task_group_delete_delay_us)
         else outside w)"
proof -
  define n where "n = tc_ngroup (control w)"
  define gs where "gs = tc_groups (control w)"
  obtain erased c where loop: "delete_group_loop g n 0 (control w) = (erased, c)" by fastforce
  note spec = delete_group_loop_spec [of g n 0 "control w", unfolded loop fst_conv snd_conv]
  have w': "rc = 0" "control w' = c" "groups w' = groups w"
    "outside w' = (if erased then fst (timer_schedule X (outside w) (DeleteTaskGroup g)
        task_group_delete_delay_us) else outside w)"
    using assms(2-4) loop by (auto simp: delete_group_def n_def Let_def split: if_splits prod.splits)
  have len: "n \<le> length gs" "distinct (take n gs)" and lw: "listed w = take n gs"
    using assms(1) by (simp_all add: groups_ok_def listed_def n_def gs_def)
  show ?thesis
  proof (cases erased)
    case True
    then obtain j where j: "j < n" "gs ! j = Some g"
      and c: "tc_groups c = gs[j := gs ! (n - 1)]" "tc_ngroup c = n - 1"
      using spec by (auto simp: gs_def)
    have mem: "Some g \<in> set (listed w)"
      using listed_nth(1) [OF assms(1), of j] j by (simp add: n_def gs_def)
    have "distinct (listed w')" and "set (listed w') = set (listed w) - {Some g}"
      using swap_last_set [OF j(1) len] by (simp_all add: listed_def w'(2) c j(2) lw [unfolded listed_def])
    then show ?thesis using assms(1) w' c True mem by (auto simp: groups_ok_def gs_def n_def)
  next
    case False
    then have "c = control w" and "\<forall>j < n. gs ! j \<noteq> Some g" using spec by (simp_all add: gs_def)
    moreover from this(2) have "Some g \<notin> set (listed w)"
      using len(1) by (auto simp: lw in_set_conv_nth)
    ultimately show ?thesis using assms(1) w' False by (simp add: groups_ok_def listed_def)
  qed
qed

text \<open>
  Deleting a group of this control always returns 0 and leaves exactly the other groups listed,
  in an array of distinct groups that exist; the group itself is given to the timer thread for
  deletion, after the delay of the flag, exactly if it was listed.
\<close>

lemma delete_group_correct:
  assumes "groups_ok X w" and "group_at w g = Some tg" and "tg_has_control tg"
    and "delete_group X (Some g) w = Some (rc, w')"
  shows "rc = 0 \<and> groups_ok X w' \<and> set (listed w') = set (listed w) - {Some g}
    \<and> groups w' = groups w
    \<and> outside w' = (if Some g \<in> set (listed w)
         then fst (timer_schedule X (outside w) (DeleteTaskGroup g) task_group_delete_delay_us)
         else outside w)"
  by (rule delete_group_spec [OF assms])

lemma delete_group_correct_witness:
  "\<exists>w'. delete_group demo_ext (Some 0) array_world = Some (0, w') \<and> groups_ok demo_ext w'
    \<and> set (listed w') = {Some 1} \<and> map snd (sim_timers (outside w')) = [DeleteTaskGroup 0]"
proof -
  obtain tg where tg: "group_at array_world 0 = Some tg" "tg_has_control tg"
    by (simp add: array_world_def demo_defs)
  have "delete_group demo_ext (Some 0) array_world \<noteq> None"
    using tg by (simp add: delete_group_def Let_def split: prod.split)
  then obtain rc w' where del: "delete_group demo_ext (Some 0) array_world = Some (rc, w')" by auto
  have "set (listed array_world) = {Some 0, Some 1}" by (simp add: listed_def array_world_def demo_defs)
  moreover have "outside array_world = demo_sim" by (simp add: array_world_def demo_world_def)
  moreover have "sim_timers (fst (timer_schedule demo_ext demo_sim cb us)) = [(1, cb)]" for cb us
    by (simp add: demo_defs)
  ultimately show ?thesis using delete_group_correct [OF array_world_ok tg del] del by auto
qed

section \<open>What stealing changes\<close>

text \<open>Nothing but the contents of queues.\<close>

definition queues_frame :: "('q, 'r, 'x) world \<Rightarrow> ('q, 'r, 'x) world \<Rightarrow> bool" where
  "queues_frame w w' \<longleftrightarrow>
     w' = w\<lparr>groups := groups w'\<rparr>
   \<and> (\<forall>q r. map (\<lambda>tg. tg\<lparr>tg_rq := q, tg_remote_rq := r\<rparr>) (groups w') =
            map (\<lambda>tg. tg\<lparr>tg_rq := q, tg_remote_rq := r\<rparr>) (groups w))"

lemma queues_frame_refl [simp, intro]: "queues_frame w w"
  by (simp add: queues_frame_def)

lemma queues_frame_trans [trans]:
  "queues_frame u v \<Longrightarrow> queues_frame v w \<Longrightarrow> queues_frame u w"
  by (cases u; cases v; cases w; simp add: queues_frame_def)

lemma queues_frame_put:
  "group_at w g = Some tg \<Longrightarrow> queues_frame w (put_group g (tg\<lparr>tg_rq := q, tg_remote_rq := r\<rparr>) w)"
  "group_at w g = Some tg \<Longrightarrow> queues_frame w (put_group g (tg\<lparr>tg_rq := q\<rparr>) w)"
  "group_at w g = Some tg \<Longrightarrow> queues_frame w (put_group g (tg\<lparr>tg_remote_rq := r\<rparr>) w)"
  by (auto simp: queues_frame_def put_group_def nth_opt_Some map_update intro!: nth_equalityI
      simp: nth_list_update)

lemma queues_frame_same:
  assumes "queues_frame w w'"
  shows "metas w' = metas w" "butexes w' = butexes w" "waiters w' = waiters w"
    "control w' = control w" "frames w' = frames w" "cur_tls w' = cur_tls w"
    "flag_concurrency w' = flag_concurrency w" "flag_min_concurrency w' = flag_min_concurrency w"
    "fatals w' = fatals w" "outside w' = outside w" "length (groups w') = length (groups w)"
proof -
  have eq: "w' = w\<lparr>groups := groups w'\<rparr>" using assms by (simp add: queues_frame_def)
  show "metas w' = metas w" "butexes w' = butexes w" "waiters w' = waiters w"
    "control w' = control w" "frames w' = frames w" "cur_tls w' = cur_tls w"
    "flag_concurrency w' = flag_concurrency w" "flag_min_concurrency w' = flag_min_concurrency w"
    "fatals w' = fatals w" "outside w' = outside w"
    by (subst eq, simp)+
  show "length (groups w') = length (groups w)"
    using assms unfolding queues_frame_def by (metis length_map)
qed

lemma queues_frame_group:
  assumes "queues_frame w w'" and "group_at w g = Some tg"
  obtains tg' where "group_at w' g = Some tg'"
    and "\<And>q r. tg'\<lparr>tg_rq := q, tg_remote_rq := r\<rparr> = tg\<lparr>tg_rq := q, tg_remote_rq := r\<rparr>"
proof
  have lt: "g < length (groups w')" "g < length (groups w)" "groups w ! g = tg"
    using queues_frame_same(11) [OF assms(1)] assms(2) by (simp_all add: nth_opt_Some)
  then show "group_at w' g = Some (groups w' ! g)" by (simp add: nth_opt_Some)
  show "(groups w' ! g)\<lparr>tg_rq := q, tg_remote_rq := r\<rparr> = tg\<lparr>tg_rq := q, tg_remote_rq := r\<rparr>" for q r
    using assms(1) lt unfolding queues_frame_def by (metis nth_map)
qed

text \<open>A function of a group that does not look at the queues has the same sum.\<close>

lemma queues_frame_msum:
  assumes "queues_frame w w'" and "\<And>tg q r. f (tg\<lparr>tg_rq := q, tg_remote_rq := r\<rparr>) = f tg"
  shows "msum f (groups w') = msum f (groups w)"
proof -
  obtain q r where "map (\<lambda>tg. tg\<lparr>tg_rq := q, tg_remote_rq := r\<rparr>) (groups w') =
      map (\<lambda>tg. tg\<lparr>tg_rq := q, tg_remote_rq := r\<rparr>) (groups w)"
    using assms(1) unfolding queues_frame_def by blast
  then have "map f (map (\<lambda>tg. tg\<lparr>tg_rq := q, tg_remote_rq := r\<rparr>) (groups w')) =
      map f (map (\<lambda>tg. tg\<lparr>tg_rq := q, tg_remote_rq := r\<rparr>) (groups w))" by simp
  then show ?thesis by (simp add: msum_def comp_def assms(2))
qed

lemma running_in_queues [simp]:
  "running_in mt (tg\<lparr>tg_rq := q\<rparr>) = running_in mt tg"
  "running_in mt (tg\<lparr>tg_remote_rq := r\<rparr>) = running_in mt tg"
  by (simp_all add: running_in_def split: option.split)

lemma queues_frame_places:
  assumes "queues_frame w w'"
  shows "running w' = running w" "waiting w' = waiting w" "pending w' = pending w"
    "groups_ok X w' = groups_ok X w" "listed w' = listed w"
proof -
  note same = queues_frame_same [OF assms]
  note mt = meta_tid_cong [OF same(1)] and wt = waiter_tid_cong [OF same(3)]
  show "running w' = running w"
    unfolding running_def mt by (rule queues_frame_msum [OF assms]) simp
  show "pending w' = pending w"
    unfolding pending_def wt by (rule queues_frame_msum [OF assms]) simp
  show "waiting w' = waiting w" by (rule waiting_cong [OF same(2) wt])
  show "groups_ok X w' = groups_ok X w" "listed w' = listed w"
    by (rule groups_ok_cong; simp only: same)+
qed


section \<open>Properties of stealing\<close>

lemma steal_from_spec:
  assumes "ext_queues_ok X" and "steal_from X tg = (r, tg')"
  shows "queue_of X tg = queue_of X tg' + opt_mset r"
    and "r = None \<Longrightarrow> queue_of X tg = {#}"
    and "\<exists>q p. tg' = tg\<lparr>tg_rq := q, tg_remote_rq := p\<rparr>"
proof -
  obtain q a where s: "wsq_steal X (tg_rq tg) = (q, a)" by fastforce
  obtain p b where p: "rrq_pop X (tg_remote_rq tg) = (p, b)" by fastforce
  note laws = ext_queues_take(2) [OF assms(1) s] ext_queues_take(3) [OF assms(1) p]
  show "queue_of X tg = queue_of X tg' + opt_mset r"
    using assms(2) s p laws ext_queues_fail(2) [OF assms(1), of "tg_rq tg" q]
    by (cases a) (auto simp: steal_from_def queue_of_def)
  show "queue_of X tg = {#}" if "r = None"
    using that assms(2) s p ext_queues_fail(2,3) [OF assms(1)]
    by (cases a) (auto simp: steal_from_def queue_of_def)
  have "tg' = tg\<lparr>tg_rq := q, tg_remote_rq := if a = None then p else tg_remote_rq tg\<rparr>"
    using assms(2) s p by (cases a) (auto simp: steal_from_def)
  then show "\<exists>q p. tg' = tg\<lparr>tg_rq := q, tg_remote_rq := p\<rparr>" by blast
qed

text \<open>
  One fact for the whole loop: only queues change, the stolen task leaves them, and a loop that
  finds nothing has found the queues of all the entries it looked at empty.
\<close>

definition entry_empty :: "('q, 'r, 'x) ext \<Rightarrow> ('q, 'r, 'x) world \<Rightarrow> nat \<Rightarrow> bool" where
  "entry_empty X w i \<longleftrightarrow>
     (\<forall>g tg. tc_groups (control w) ! i = Some g \<longrightarrow> group_at w g = Some tg \<longrightarrow> queue_of X tg = {#})"

lemma entry_empty_put_group:
  assumes "group_at w g = Some tg" and "queue_of X tg' = queue_of X tg"
  shows "entry_empty X (put_group g tg' w) i = entry_empty X w i"
  using assms by (auto simp: entry_empty_def nth_opt_Some)

lemma steal_loop_spec:
  assumes "ext_queues_ok X"
  shows "steal_loop X k n d s w = Some (r, s', w') \<Longrightarrow>
    queues_frame w w' \<and> queued X w = queued X w' + opt_mset r
    \<and> (r = None \<longrightarrow> s' = s + of_nat k * d \<and>
        (\<forall>i < k. entry_empty X w (unat (s + of_nat i * d) mod n)))"
proof (induction k arbitrary: s w)
  case 0
  then show ?case by simp
next
  case (Suc k)
  obtain e where e: "nth_opt (tc_groups (control w)) (unat s mod n) = Some e"
    using Suc.prems by (auto simp: bind_Some_conv)
  have shift: "(\<forall>i < Suc k. P i) \<longleftrightarrow> P 0 \<and> (\<forall>i < k. P (Suc i))" for P
    using less_Suc_eq_0_disj by auto
  show ?case
  proof (cases e)
    case None
    then have "steal_loop X k n d (s + d) w = Some (r, s', w')" using Suc.prems e by simp
    from Suc.IH [OF this] show ?thesis using e None
      by (simp add: shift entry_empty_def nth_opt_Some algebra_simps)
  next
    case (Some g)
    then obtain tg where tg: "group_at w g = Some tg"
      using Suc.prems e by (auto simp: bind_Some_conv)
    obtain a tg' where one: "steal_from X tg = (a, tg')" by fastforce
    note spec = steal_from_spec [OF assms one]
    have fr: "queues_frame w (put_group g tg' w)" using spec(3) queues_frame_put(1) [OF tg] by auto
    show ?thesis
    proof (cases a)
      case None
      let ?w1 = "put_group g tg' w"
      have "steal_loop X k n d (s + d) ?w1 = Some (r, s', w')"
        using Suc.prems e Some tg one None by simp
      from Suc.IH [OF this] have IH: "queues_frame ?w1 w'" "queued X ?w1 = queued X w' + opt_mset r"
        "r = None \<longrightarrow> s' = s + d + of_nat k * d \<and>
          (\<forall>i < k. entry_empty X ?w1 (unat (s + d + of_nat i * d) mod n))" by simp_all
      have q: "queue_of X tg' = queue_of X tg" using spec(1) None by simp
      have "queued X ?w1 = queued X w" using queued_put_group [OF tg, of X tg'] q by simp
      moreover have "entry_empty X w (unat s mod n)"
        using e Some tg spec(2) None by (auto simp: entry_empty_def nth_opt_Some)
      ultimately show ?thesis using IH queues_frame_trans [OF fr IH(1)]
        by (simp add: shift entry_empty_put_group [OF tg q] algebra_simps)
    next
      case (Some t)
      then have "r = Some t" "w' = put_group g tg' w"
        using Suc.prems e \<open>e = Some g\<close> tg one by simp_all
      then show ?thesis using fr queued_put_group_remove [OF tg spec(1)] Some by simp
    qed
  qed
qed


lemma steal_loop_returns:
  assumes "ext_queues_ok X" and "0 < n"
  shows "groups_ok X w \<Longrightarrow> n = tc_ngroup (control w) \<Longrightarrow> steal_loop X k n d s w \<noteq> None"
proof (induction k arbitrary: s w)
  case 0
  then show ?case by simp
next
  case (Suc k)
  have lt: "unat s mod n < tc_ngroup (control w)" using assms(2) Suc.prems(2) by simp
  then obtain g where g: "g < length (groups w)" "tc_groups (control w) ! (unat s mod n) = Some g"
    using listed_nth(2) [OF Suc.prems(1)] by blast
  have e: "nth_opt (tc_groups (control w)) (unat s mod n) = Some (Some g)"
    using lt g Suc.prems(1) by (auto simp: nth_opt_Some groups_ok_def)
  obtain tg where tg: "group_at w g = Some tg" using g(1) by (simp add: nth_opt_def)
  obtain a tg' where one: "steal_from X tg = (a, tg')" by fastforce
  have fr: "queues_frame w (put_group g tg' w)"
    using steal_from_spec(3) [OF assms(1) one] queues_frame_put(1) [OF tg] by auto
  show ?case
  proof (cases a)
    case None
    then show ?thesis using e tg one Suc.IH [of "put_group g tg' w" "s + d"] Suc.prems
        queues_frame_places(4) [OF fr, of X] by simp
  next
    case (Some t)
    then show ?thesis using e tg one by simp
  qed
qed

text \<open>
  C15.  Stealing always returns, whatever the array contains; it takes out exactly the task it
  returns, from one of the queues, and changes nothing but queues: no task is lost or duplicated.
\<close>

theorem control_steal_task_conserves:
  assumes "ext_queues_ok X" and "groups_ok X w"
  shows "\<exists>r s' w'. control_steal_task X seed offset w = Some (r, s', w')
    \<and> queued X w = queued X w' + opt_mset r
    \<and> queues_frame w w' \<and> groups_ok X w'"
proof (cases "tc_ngroup (control w) = 0")
  case True
  then show ?thesis using assms(2) by (simp add: control_steal_task_def)
next
  case False
  let ?n = "tc_ngroup (control w)"
  obtain r s' w' where loop: "steal_loop X ?n ?n offset seed w = Some (r, s', w')"
    using steal_loop_returns [OF assms(1) _ assms(2) refl] False by fastforce
  note spec = steal_loop_spec [OF assms(1) loop]
  then show ?thesis using False loop assms(2) queues_frame_places(4) [of w w' X]
    by (auto simp: control_steal_task_def)
qed

lemma steal_loop_2: "steal_loop X 2 n d s w = steal_loop X (Suc (Suc 0)) n d s w"
  by (simp only: numeral_2_eq_2)

lemma control_steal_task_conserves_witness:
  "\<exists>w'. control_steal_task demo_ext 5 7 array_world = Some (Some 13, 5, w')
    \<and> queued demo_ext array_world = queued demo_ext w' + {#13#}"
proof -
  have steal: "\<exists>w'. control_steal_task demo_ext 5 7 array_world = Some (Some 13, 5, w')"
    by (simp add: control_steal_task_def steal_loop_2 steal_from_def array_world_def demo_defs)
  show ?thesis
    using control_steal_task_conserves [OF demo_queues_ok array_world_ok, of 5 7] steal by auto
qed

text \<open>With an offset coprime to the number of groups the indices of one round are all the indices.\<close>

lemma round_visits_all:
  fixes d n s j :: nat
  assumes "coprime d n" and "j < n"
  shows "\<exists>i < n. (s + i * d) mod n = j"
proof -
  have inj: "inj_on (\<lambda>i. (s + i * d) mod n) {..<n}"
  proof (rule linorder_inj_onI)
    fix a b assume ab: "a < b" "b \<in> {..<n}"
    show "(s + a * d) mod n \<noteq> (s + b * d) mod n"
    proof
      assume "(s + a * d) mod n = (s + b * d) mod n"
      then have "n dvd (s + b * d) - (s + a * d)"
        using ab(1) by (metis add_le_mono le_refl less_imp_le mod_eq_dvd_iff_nat mult_le_mono1)
      then have "n dvd (b - a) * d" by (simp add: diff_mult_distrib)
      then have "n dvd b - a" using assms(1) by (simp add: coprime_commute coprime_dvd_mult_left_iff)
      then show False using ab by (auto dest: dvd_imp_le)
    qed
  qed auto
  have "(\<lambda>i. (s + i * d) mod n) ` {..<n} = {..<n}"
    using assms(2) by (intro endo_inj_surj inj) auto
  with assms(2) show ?thesis by (metis (no_types, lifting) imageE lessThan_iff)
qed

text \<open>
  When stealing finds nothing, the queues of every listed group were empty, provided that the
  offset is coprime to the number of groups and the seed does not overflow during the round: one
  round of the loop looks at every group.  The seed then starts the next round after this one.
\<close>

lemma control_steal_task_complete:
  assumes "ext_queues_ok X"
    and "coprime (unat offset) (tc_ngroup (control w))"
    and "unat seed + tc_ngroup (control w) * unat offset < 2 ^ 64"
    and "control_steal_task X seed offset w = Some (None, s', w')"
  shows "(\<forall>i < tc_ngroup (control w). entry_empty X w i)
    \<and> unat s' = unat seed + tc_ngroup (control w) * unat offset"
proof (cases "tc_ngroup (control w) = 0")
  case True
  then show ?thesis using assms(4) by (simp add: control_steal_task_def)
next
  case False
  let ?n = "tc_ngroup (control w)"
  have "steal_loop X ?n ?n offset seed w = Some (None, s', w')"
    using assms(4) False by (simp add: control_steal_task_def Let_def)
  note spec = steal_loop_spec [OF assms(1) this]
  have no_overflow: "unat (seed + of_nat i * offset) = unat seed + i * unat offset" if "i \<le> ?n" for i
  proof -
    have "unat seed + i * unat offset < 2 ^ 64"
      using assms(3) that mult_le_mono1 [of i ?n "unat offset"] by linarith
    moreover have "seed + of_nat i * offset = of_nat (unat seed + i * unat offset)" by simp
    ultimately show ?thesis by (simp only: unat_of_nat) simp
  qed
  have "entry_empty X w j" if j: "j < ?n" for j
  proof -
    obtain i where "i < ?n" "(unat seed + i * unat offset) mod ?n = j"
      using round_visits_all [OF assms(2) j] by blast
    then show ?thesis using spec no_overflow [of i] by auto
  qed
  then show ?thesis using spec no_overflow [of ?n] by simp
qed

definition idle_world :: demo_world where
  "idle_world =
     (demo_world None [demo_group 1 (make_tid 1 1) [] [], demo_group 2 (make_tid 1 2) [] []] [] Map.empty)
     \<lparr>control := demo_control [Some 0, Some 1, None] 2\<rparr>"

lemma control_steal_task_complete_witness:
  "\<exists>s' w'. control_steal_task demo_ext 5 7 idle_world = Some (None, s', w') \<and> unat s' = 19
    \<and> (\<forall>i < 2. entry_empty demo_ext idle_world i)"
proof -
  have n: "tc_ngroup (control idle_world) = 2" by (simp add: idle_world_def demo_defs)
  obtain s' w' where steal: "control_steal_task demo_ext 5 7 idle_world = Some (None, s', w')"
    by (simp add: control_steal_task_def steal_loop_2 steal_from_def put_group_def idle_world_def demo_defs)
  have "coprime (7::nat) 2" by (simp add: coprime_right_2_iff_odd)
  with steal show ?thesis using control_steal_task_complete [OF demo_queues_ok _ _ steal] n by simp
qed

end
