(* ===== verification/RunQueue.thy ===== *)
theory RunQueue
  imports GroupArray
begin

text \<open>
  Putting tasks into the queues of a group (\<open>task_group.cpp\<close>, \<open>task_group_inl.h\<close>): \<open>push_rq\<close>,
  \<open>ready_to_run\<close> and their remote counterparts, with the counters of tasks that were pushed but not
  yet signalled.  A push to a full queue is repeated after a nap for as long as it fails; whether the
  operation returns depends on what the other threads do during the naps.
\<close>

section \<open>The local queue\<close>

definition flush_nosignal_tasks ::
  "('q, 'r, 'x) ext \<Rightarrow> gid \<Rightarrow> ('q, 'r, 'x) world \<Rightarrow> ('q, 'r, 'x) world option" where
  "flush_nosignal_tasks X g w =
     do {
       tg \<leftarrow> group_at w g;
       let val = tg_num_nosignal tg;
       (if val \<noteq> 0 then
          Some (signal_task X val
            (put_group g (tg\<lparr>tg_num_nosignal := 0, tg_nsignaled := tg_nsignaled tg + val\<rparr>) w))
        else Some w)
     }"

text \<open>One attempt: \<open>_rq.push(tid)\<close>.\<close>

definition try_push ::
  "('q, 'r, 'x) ext \<Rightarrow> ('q, 'r) task_group \<Rightarrow> bthread_t \<Rightarrow> ('q, 'r) task_group \<times> bool" where
  "try_push X tg tid = (let (q, ok) = wsq_push X (tg_rq tg) tid in (tg\<lparr>tg_rq := q\<rparr>, ok))"

partial_function (option) push_rq ::
  "('q, 'r, 'x) ext \<Rightarrow> gid \<Rightarrow> bthread_t \<Rightarrow> ('q, 'r, 'x) world \<Rightarrow> ('q, 'r, 'x) world option" where
  "push_rq X g tid w =
     do {
       tg \<leftarrow> group_at w g;
       let (tg', ok) = try_push X tg tid;
       let w1 = put_group g tg' w;
       (if ok then Some w1
        else do {
          w2 \<leftarrow> flush_nosignal_tasks X g w1;
          push_rq X g tid (nap X w2)
        })
     }"

definition ready_to_run ::
  "('q, 'r, 'x) ext \<Rightarrow> gid \<Rightarrow> bthread_t \<Rightarrow> bool \<Rightarrow> ('q, 'r, 'x) world \<Rightarrow> ('q, 'r, 'x) world option" where
  "ready_to_run X g tid nosignal w =
     do {
       w1 \<leftarrow> push_rq X g tid w;
       tg \<leftarrow> group_at w1 g;
       (if nosignal then
          Some (put_group g (tg\<lparr>tg_num_nosignal := tg_num_nosignal tg + 1\<rparr>) w1)
        else
          let additional_signal = tg_num_nosignal tg
          in Some (signal_task X (1 + additional_signal)
               (put_group g (tg\<lparr>tg_num_nosignal := 0,
                  tg_nsignaled := tg_nsignaled tg + (1 + additional_signal)\<rparr>) w1)))
     }"

section \<open>The remote queue\<close>

text \<open>
  \<open>flush_nosignal_tasks_remote_locked\<close> is called with the lock of the queue held and releases it
  before it signals.
\<close>

definition flush_nosignal_tasks_remote_locked ::
  "('q, 'r, 'x) ext \<Rightarrow> gid \<Rightarrow> ('q, 'r, 'x) world \<Rightarrow> ('q, 'r, 'x) world option" where
  "flush_nosignal_tasks_remote_locked X g w =
     do {
       tg \<leftarrow> group_at w g;
       let val = tg_remote_num_nosignal tg;
       (if val = 0 then Some w
        else
          Some (signal_task X val
            (put_group g (tg\<lparr>tg_remote_num_nosignal := 0,
               tg_remote_nsignaled := tg_remote_nsignaled tg + val\<rparr>) w)))
     }"

definition flush_nosignal_tasks_remote ::
  "('q, 'r, 'x) ext \<Rightarrow> gid \<Rightarrow> ('q, 'r, 'x) world \<Rightarrow> ('q, 'r, 'x) world option" where
  "flush_nosignal_tasks_remote X g w =
     do {
       tg \<leftarrow> group_at w g;
       (if tg_remote_num_nosignal tg \<noteq> 0 then flush_nosignal_tasks_remote_locked X g w else Some w)
     }"

text \<open>One attempt, \<open>_remote_rq.push_locked(tid)\<close>, and the loop at the beginning of \<open>ready_to_run_remote\<close>.\<close>

definition try_push_locked ::
  "('q, 'r, 'x) ext \<Rightarrow> ('q, 'r) task_group \<Rightarrow> bthread_t \<Rightarrow> ('q, 'r) task_group \<times> bool" where
  "try_push_locked X tg tid =
     (let (r, ok) = rrq_push X (tg_remote_rq tg) tid in (tg\<lparr>tg_remote_rq := r\<rparr>, ok))"

partial_function (option) push_remote ::
  "('q, 'r, 'x) ext \<Rightarrow> gid \<Rightarrow> bthread_t \<Rightarrow> ('q, 'r, 'x) world \<Rightarrow> ('q, 'r, 'x) world option" where
  "push_remote X g tid w =
     do {
       tg \<leftarrow> group_at w g;
       let (tg', ok) = try_push_locked X tg tid;
       let w1 = put_group g tg' w;
       (if ok then Some w1
        else do {
          w2 \<leftarrow> flush_nosignal_tasks_remote_locked X g w1;
          push_remote X g tid (nap X w2)
        })
     }"

definition ready_to_run_remote ::
  "('q, 'r, 'x) ext \<Rightarrow> gid \<Rightarrow> bthread_t \<Rightarrow> bool \<Rightarrow> ('q, 'r, 'x) world \<Rightarrow> ('q, 'r, 'x) world option" where
  "ready_to_run_remote X g tid nosignal w =
     do {
       w1 \<leftarrow> push_remote X g tid w;
       tg \<leftarrow> group_at w1 g;
       (if nosignal then
          Some (put_group g (tg\<lparr>tg_remote_num_nosignal := tg_remote_num_nosignal tg + 1\<rparr>) w1)
        else
          let additional_signal = tg_remote_num_nosignal tg
          in Some (signal_task X (1 + additional_signal)
               (put_group g (tg\<lparr>tg_remote_num_nosignal := 0,
                  tg_remote_nsignaled := tg_remote_nsignaled tg + (1 + additional_signal)\<rparr>) w1)))
     }"

section \<open>Either of them\<close>

text \<open>The remote branch of \<open>ready_to_run_general\<close> does not pass on its arguments.\<close>

definition ready_to_run_general ::
  "('q, 'r, 'x) ext \<Rightarrow> gid \<Rightarrow> bthread_t \<Rightarrow> bool \<Rightarrow> ('q, 'r, 'x) world \<Rightarrow> ('q, 'r, 'x) world option" where
  "ready_to_run_general X g tid nosignal w =
     (if tls_task_group (cur_tls w) = Some g then ready_to_run X g tid nosignal w
      else ready_nosignal_tasks_remote X g w)"

definition flush_nosignal_tasks_general ::
  "('q, 'r, 'x) ext \<Rightarrow> gid \<Rightarrow> ('q, 'r, 'x) world \<Rightarrow> ('q, 'r, 'x) world option" where
  "flush_nosignal_tasks_general X g w =
     (if tls_task_group (cur_tls w) = Some g then flush_nosignal_tasks X g w
      else flush_nosignal_tasks_remote X g w)"

text \<open>The callbacks \<open>ready_to_run_in_worker\<close> and \<open>ready_to_run_in_worker_ignoresignal\<close>.\<close>

definition ready_to_run_in_worker ::
  "('q, 'r, 'x) ext \<Rightarrow> bthread_t \<Rightarrow> bool \<Rightarrow> ('q, 'r, 'x) world \<Rightarrow> ('q, 'r, 'x) world option" where
  "ready_to_run_in_worker X tid nosignal w =
     do { g \<leftarrow> tls_task_group (cur_tls w); ready_to_run X g tid nosignal w }"

definition ready_to_run_in_worker_ignoresignal ::
  "('q, 'r, 'x) ext \<Rightarrow> bthread_t \<Rightarrow> ('q, 'r, 'x) world \<Rightarrow> ('q, 'r, 'x) world option" where
  "ready_to_run_in_worker_ignoresignal X tid w =
     do { g \<leftarrow> tls_task_group (cur_tls w); push_rq X g tid w }"

section \<open>No task is lost or duplicated\<close>

lemma flush_moves:
  assumes "flush_nosignal_tasks X g w = Some w'"
  shows "moves X {#} w w'"
proof -
  obtain tg where tg: "group_at w g = Some tg"
    using assms by (auto simp: flush_nosignal_tasks_def bind_Some_conv)
  let ?tg = "tg\<lparr>tg_num_nosignal := 0, tg_nsignaled := tg_nsignaled tg + tg_num_nosignal tg\<rparr>"
  have "moves X {#} w (put_group g ?tg w)" using tg by (rule moves_put_group) (simp_all add: queue_of_def)
  then show ?thesis using assms tg
    by (auto simp: flush_nosignal_tasks_def Let_def split: if_splits intro: moves_trans_0(1))
qed

lemma flush_remote_locked_moves:
  assumes "flush_nosignal_tasks_remote_locked X g w = Some w'"
  shows "moves X {#} w w'"
proof -
  obtain tg where tg: "group_at w g = Some tg"
    using assms by (auto simp: flush_nosignal_tasks_remote_locked_def bind_Some_conv)
  let ?tg = "tg\<lparr>tg_remote_num_nosignal := 0,
      tg_remote_nsignaled := tg_remote_nsignaled tg + tg_remote_num_nosignal tg\<rparr>"
  have "moves X {#} w (put_group g ?tg w)" using tg by (rule moves_put_group) (simp_all add: queue_of_def)
  then show ?thesis using assms tg
    by (auto simp: flush_nosignal_tasks_remote_locked_def Let_def split: if_splits
        intro: moves_trans_0(1))
qed

lemma flush_remote_moves: "flush_nosignal_tasks_remote X g w = Some w' \<Longrightarrow> moves X {#} w w'"
  by (auto simp: flush_nosignal_tasks_remote_def bind_Some_conv split: if_splits
      intro: flush_remote_locked_moves)

lemma flush_general_moves: "flush_nosignal_tasks_general X g w = Some w' \<Longrightarrow> moves X {#} w w'"
  by (auto simp: flush_nosignal_tasks_general_def split: if_splits
      intro: flush_moves flush_remote_moves)

text \<open>
  The interface of the two loops that repeat a push: an attempt that succeeds adds the task to the
  queues of the group, one that fails changes no queue, and the flush between two attempts moves no task.
  The worlds that the attempts see are \<open>refused\<close>.
\<close>

fun refused ::
  "(('q, 'r) task_group \<Rightarrow> bthread_t \<Rightarrow> ('q, 'r) task_group \<times> bool)
   \<Rightarrow> (gid \<Rightarrow> ('q, 'r, 'x) world \<Rightarrow> ('q, 'r, 'x) world option)
   \<Rightarrow> (('q, 'r, 'x) world \<Rightarrow> ('q, 'r, 'x) world)
   \<Rightarrow> gid \<Rightarrow> bthread_t \<Rightarrow> nat \<Rightarrow> ('q, 'r, 'x) world \<Rightarrow> ('q, 'r, 'x) world option" where
  "refused attempt flush sleep g t 0 w = Some w"
| "refused attempt flush sleep g t (Suc k) w =
     do {
       tg \<leftarrow> group_at w g;
       let (tg', ok) = attempt tg t;
       (if ok then None
        else do { w2 \<leftarrow> flush g (put_group g tg' w); refused attempt flush sleep g t k (sleep w2) })
     }"

locale push_loop =
  fixes attempt :: "('q, 'r, 'x) ext \<Rightarrow> ('q, 'r) task_group \<Rightarrow> bthread_t \<Rightarrow> ('q, 'r) task_group \<times> bool"
    and flush :: "('q, 'r, 'x) ext \<Rightarrow> gid \<Rightarrow> ('q, 'r, 'x) world \<Rightarrow> ('q, 'r, 'x) world option"
    and loop :: "('q, 'r, 'x) ext \<Rightarrow> gid \<Rightarrow> bthread_t \<Rightarrow> ('q, 'r, 'x) world \<Rightarrow> ('q, 'r, 'x) world option"
  assumes attempt_queue: "ext_queues_ok X \<Longrightarrow> attempt X tg t = (tg', ok) \<Longrightarrow>
      queue_of X tg' = queue_of X tg + (if ok then {#t#} else {#})"
    and attempt_part: "attempt X tg t = (tg', ok) \<Longrightarrow> queue_part_only tg tg'"
    and flush_step: "flush X g w = Some w' \<Longrightarrow> moves X {#} w w'"
    and unfold: "loop X g t w =
      do {
        tg \<leftarrow> group_at w g;
        let (tg', ok) = attempt X tg t;
        let w1 = put_group g tg' w;
        (if ok then Some w1 else do { w2 \<leftarrow> flush X g w1; loop X g t (nap X w2) })
      }"
    and rule: "loop X g t w = Some w' \<Longrightarrow>
      (\<And>w tg tg'. group_at w g = Some tg \<Longrightarrow> attempt X tg t = (tg', True) \<Longrightarrow> P w (put_group g tg' w)) \<Longrightarrow>
      (\<And>w tg tg' w2 w'. group_at w g = Some tg \<Longrightarrow> attempt X tg t = (tg', False) \<Longrightarrow>
         flush X g (put_group g tg' w) = Some w2 \<Longrightarrow> P (nap X w2) w' \<Longrightarrow> P w w') \<Longrightarrow> P w w'"
begin

lemma loop_moves:
  assumes "ext_queues_ok X" and "naps_ok X" and "loop X g t w = Some w'"
  shows "moves X {#t#} w w'"
  using assms(3)
proof (rule rule)
  fix w :: "('q, 'r, 'x) world" and tg tg'
  assume tg: "group_at w g = Some tg" and at: "attempt X tg t = (tg', True)"
  show "moves X {#t#} w (put_group g tg' w)"
    using attempt_queue [OF assms(1) at] by (intro moves_put_group [OF tg attempt_part [OF at]]) simp
next
  fix w w2 w' :: "('q, 'r, 'x) world" and tg tg'
  assume tg: "group_at w g = Some tg" and at: "attempt X tg t = (tg', False)"
    and fl: "flush X g (put_group g tg' w) = Some w2" and IH: "moves X {#t#} (nap X w2) w'"
  have "moves X {#} w (put_group g tg' w)"
    using attempt_queue [OF assms(1) at] by (intro moves_put_group [OF tg attempt_part [OF at]]) simp
  also have "moves X {#} (put_group g tg' w) w2" by (rule flush_step [OF fl])
  finally (moves_trans_0(1)) show "moves X {#t#} w w'"
    using naps_ok_moves [OF assms(2)] IH moves_trans_0(1) by blast
qed

lemma loop_refused:
  "loop X g t w = Some w' \<longleftrightarrow>
   (\<exists>k wk tg tg'. refused (attempt X) (flush X) (nap X) g t k w = Some wk \<and> group_at wk g = Some tg
      \<and> attempt X tg t = (tg', True) \<and> w' = put_group g tg' wk)" (is "?L \<longleftrightarrow> ?R w w'")
proof
  assume ?L
  then show "?R w w'"
  proof (rule rule)
    fix w :: "('q, 'r, 'x) world" and tg tg'
  assume "group_at w g = Some tg" and "attempt X tg t = (tg', True)"
    then show "?R w (put_group g tg' w)" by (intro exI [of _ 0]) auto
  next
    fix w w2 w' :: "('q, 'r, 'x) world" and tg tg'
    assume at: "group_at w g = Some tg" "attempt X tg t = (tg', False)"
      "flush X g (put_group g tg' w) = Some w2" and "?R (nap X w2) w'"
    then obtain k wk u u' where "refused (attempt X) (flush X) (nap X) g t k (nap X w2) = Some wk"
      "group_at wk g = Some u" "attempt X u t = (u', True)" "w' = put_group g u' wk" by blast
    with at show "?R w w'" by (intro exI [of _ "Suc k"]) auto
  qed
next
  assume "?R w w'"
  then obtain k wk tg tg' where "refused (attempt X) (flush X) (nap X) g t k w = Some wk"
    "group_at wk g = Some tg" "attempt X tg t = (tg', True)" "w' = put_group g tg' wk" by blast
  then show ?L
  proof (induction k arbitrary: w)
    case 0
    then show ?case by (subst unfold) simp
  next
    case (Suc k)
    from Suc.prems(1) obtain u where u: "group_at w g = Some u" by (auto simp: bind_Some_conv)
    obtain u' ok where at: "attempt X u t = (u', ok)" by fastforce
    from Suc.prems(1) u at obtain w2 where "\<not> ok" "flush X g (put_group g u' w) = Some w2"
      and rest: "refused (attempt X) (flush X) (nap X) g t k (nap X w2) = Some wk"
      by (auto simp: bind_Some_conv split: if_splits)
    then show ?case using u at Suc.IH [OF rest Suc.prems(2-)] by (subst unfold) simp
  qed
qed

end

lemma try_push_laws:
  assumes "try_push X tg t = (tg', ok)"
  shows "ext_queues_ok X \<Longrightarrow> queue_of X tg' = queue_of X tg + (if ok then {#t#} else {#})"
    and "queue_part_only tg tg'"
  using assms by (auto simp: try_push_def queue_of_def dest: ext_queues_push(1) split: prod.splits)

lemma try_push_locked_laws:
  assumes "try_push_locked X tg t = (tg', ok)"
  shows "ext_queues_ok X \<Longrightarrow> queue_of X tg' = queue_of X tg + (if ok then {#t#} else {#})"
    and "queue_part_only tg tg'"
  using assms by (auto simp: try_push_locked_def queue_of_def dest: ext_queues_push(2) split: prod.splits)

lemma push_rq_rule:
  assumes "push_rq X g t w = Some w'"
    and "\<And>w tg tg'. group_at w g = Some tg \<Longrightarrow> try_push X tg t = (tg', True) \<Longrightarrow> P w (put_group g tg' w)"
    and "\<And>w tg tg' w2 w'. group_at w g = Some tg \<Longrightarrow> try_push X tg t = (tg', False) \<Longrightarrow>
      flush_nosignal_tasks X g (put_group g tg' w) = Some w2 \<Longrightarrow> P (nap X w2) w' \<Longrightarrow> P w w'"
  shows "P w w'"
proof -
  have "X' = X \<longrightarrow> g' = g \<longrightarrow> t' = t \<longrightarrow> P w w'" if "push_rq X' g' t' w = Some w'" for X' g' t' w w'
  proof (rule push_rq.raw_induct [OF _ that, where P = "\<lambda>X' g' t' w w'. X' = X \<longrightarrow> g' = g \<longrightarrow> t' = t \<longrightarrow> P w w'"],
      goal_cases)
    case (1 f X' g' t' w w')
    show ?case
    proof (intro impI)
      assume eq: "X' = X" "g' = g" "t' = t"
      obtain tg where tg: "group_at w g = Some tg" using 1(2) eq by (auto simp: bind_Some_conv)
      obtain tg' ok where at: "try_push X tg t = (tg', ok)" by fastforce
      show "P w w'"
      proof (cases ok)
        case True
        then show ?thesis using 1(2) eq tg at assms(2) by auto
      next
        case False
        then obtain w2 where "flush_nosignal_tasks X g (put_group g tg' w) = Some w2"
          "f X g t (nap X w2) = Some w'"
          using 1(2) eq tg at by (auto simp: bind_Some_conv)
        then show ?thesis using 1(1) assms(3) [OF tg] at False by simp
      qed
    qed
  qed
  then show ?thesis using assms(1) by blast
qed

lemma push_remote_rule:
  assumes "push_remote X g t w = Some w'"
    and "\<And>w tg tg'. group_at w g = Some tg \<Longrightarrow> try_push_locked X tg t = (tg', True) \<Longrightarrow>
      P w (put_group g tg' w)"
    and "\<And>w tg tg' w2 w'. group_at w g = Some tg \<Longrightarrow> try_push_locked X tg t = (tg', False) \<Longrightarrow>
      flush_nosignal_tasks_remote_locked X g (put_group g tg' w) = Some w2 \<Longrightarrow>
      P (nap X w2) w' \<Longrightarrow> P w w'"
  shows "P w w'"
proof -
  have "X' = X \<longrightarrow> g' = g \<longrightarrow> t' = t \<longrightarrow> P w w'" if "push_remote X' g' t' w = Some w'" for X' g' t' w w'
  proof (rule push_remote.raw_induct [OF _ that, where P = "\<lambda>X' g' t' w w'. X' = X \<longrightarrow> g' = g \<longrightarrow> t' = t \<longrightarrow> P w w'"],
      goal_cases)
    case (1 f X' g' t' w w')
    show ?case
    proof (intro impI)
      assume eq: "X' = X" "g' = g" "t' = t"
      obtain tg where tg: "group_at w g = Some tg" using 1(2) eq by (auto simp: bind_Some_conv)
      obtain tg' ok where at: "try_push_locked X tg t = (tg', ok)" by fastforce
      show "P w w'"
      proof (cases ok)
        case True
        then show ?thesis using 1(2) eq tg at assms(2) by auto
      next
        case False
        then obtain w2 where "flush_nosignal_tasks_remote_locked X g (put_group g tg' w) = Some w2"
          "f X g t (nap X w2) = Some w'"
          using 1(2) eq tg at by (auto simp: bind_Some_conv)
        then show ?thesis using 1(1) assms(3) [OF tg] at False by simp
      qed
    qed
  qed
  then show ?thesis using assms(1) by blast
qed

interpretation local_push: push_loop try_push flush_nosignal_tasks push_rq
proof (unfold_locales, goal_cases)
  case 1
  then show ?case by (rule try_push_laws(1) [rotated])
next
  case 2
  then show ?case by (rule try_push_laws(2))
next
  case 3
  then show ?case by (rule flush_moves)
next
  case 4
  show ?case by (subst push_rq.simps) (rule refl)
next
  case 5
  then show ?case by (rule push_rq_rule)
qed

interpretation remote_push: push_loop try_push_locked flush_nosignal_tasks_remote_locked push_remote
proof (unfold_locales, goal_cases)
  case 1
  then show ?case by (rule try_push_locked_laws(1) [rotated])
next
  case 2
  then show ?case by (rule try_push_locked_laws(2))
next
  case 3
  then show ?case by (rule flush_remote_locked_moves)
next
  case 4
  show ?case by (subst push_remote.simps) (rule refl)
next
  case 5
  then show ?case by (rule push_remote_rule)
qed

section \<open>Properties\<close>

lemma ready_to_run_moves:
  assumes "ext_queues_ok X" and "naps_ok X" and "ready_to_run X g t nosignal w = Some w'"
  shows "moves X {#t#} w w'"
proof -
  obtain w1 tg where w1: "push_rq X g t w = Some w1" and tg: "group_at w1 g = Some tg"
    using assms(3) by (auto simp: ready_to_run_def bind_Some_conv)
  have upd: "moves X {#} w1 (put_group g (tg\<lparr>tg_num_nosignal := a\<rparr>) w1)"
    "moves X {#} w1 (put_group g (tg\<lparr>tg_num_nosignal := a, tg_nsignaled := b\<rparr>) w1)" for a b
    using tg by (auto intro!: moves_put_group simp: queue_of_def)
  have "moves X {#} w1 w'" using assms(3) w1 tg upd
    by (auto simp: ready_to_run_def Let_def split: if_splits
        intro: moves_trans_0(1) [OF _ moves_signal_task])
  then show ?thesis using local_push.loop_moves [OF assms(1,2) w1] moves_trans_0(2) by blast
qed

lemma ready_to_run_remote_moves:
  assumes "ext_queues_ok X" and "naps_ok X" and "ready_to_run_remote X g t nosignal w = Some w'"
  shows "moves X {#t#} w w'"
proof -
  obtain w1 tg where w1: "push_remote X g t w = Some w1" and tg: "group_at w1 g = Some tg"
    using assms(3) by (auto simp: ready_to_run_remote_def bind_Some_conv)
  have upd: "moves X {#} w1 (put_group g (tg\<lparr>tg_remote_num_nosignal := a\<rparr>) w1)"
    "moves X {#} w1 (put_group g (tg\<lparr>tg_remote_num_nosignal := a, tg_remote_nsignaled := b\<rparr>) w1)" for a b
    using tg by (auto intro!: moves_put_group simp: queue_of_def)
  have "moves X {#} w1 w'" using assms(3) w1 tg upd
    by (auto simp: ready_to_run_remote_def Let_def split: if_splits
        intro: moves_trans_0(1) [OF _ moves_signal_task])
  then show ?thesis using remote_push.loop_moves [OF assms(1,2) w1] moves_trans_0(2) by blast
qed

text \<open>
  C17.  Making a task ready puts exactly this task, once, into the queues, whether or not the queue was
  full for a while: \<open>ready_to_run\<close> of the local queue and \<open>ready_to_run_remote\<close> of the remote one.
  No other task is lost or duplicated, and what belongs to the running bthread is not touched.
\<close>

theorem ready_to_run_conserves:
  assumes "ext_queues_ok X" and "naps_ok X"
    and "ready_to_run X g t nosignal w = Some w' \<or> ready_to_run_remote X g t nosignal w = Some w'"
  shows "moves X {#t#} w w'"
  using assms(3) ready_to_run_moves [OF assms(1,2)] ready_to_run_remote_moves [OF assms(1,2)] by blast

text \<open>The queue of the first group is full: the push succeeds after one nap.\<close>

definition full_world :: demo_world where
  "full_world = demo_world (Some 0)
     [demo_group 3 (make_tid 1 1) [11, 12, 13, 14] [], demo_group 2 (make_tid 1 2) [] []] [] Map.empty"

lemma full_world_push:
  "push_rq demo_ext 0 15 full_world \<noteq> None"
  "ready_to_run demo_ext 0 15 False full_world \<noteq> None"
proof -
  have "\<exists>w tg. push_rq demo_ext 0 15 full_world = Some w \<and> group_at w 0 = Some tg"
    by (simp add: push_rq.simps flush_nosignal_tasks_def try_push_def full_world_def put_group_def
        demo_defs Let_def)
  then show "push_rq demo_ext 0 15 full_world \<noteq> None"
    "ready_to_run demo_ext 0 15 False full_world \<noteq> None"
    by (auto simp: ready_to_run_def Let_def)
qed

lemma ready_to_run_conserves_witness:
  "\<exists>w'. ready_to_run demo_ext 0 15 False full_world = Some w'
    \<and> tasks demo_ext w' = tasks demo_ext full_world + {#15#}"
proof -
  obtain w' where "ready_to_run demo_ext 0 15 False full_world = Some w'" using full_world_push(2) by blast
  then show ?thesis using ready_to_run_conserves [of demo_ext 0 15 False full_world w'] by (simp add: moves_def)
qed

text \<open>
  A push to a queue returns exactly if one of its attempts, between which the other threads
  have their naps, finds room in the queue: it spins otherwise, and never gives up the task.
\<close>

lemma push_rq_returns_iff:
  "push_rq X g t w \<noteq> None \<longleftrightarrow>
   (\<exists>k wk tg. refused (try_push X) (flush_nosignal_tasks X) (nap X) g t k w = Some wk
      \<and> group_at wk g = Some tg \<and> snd (try_push X tg t))"
proof -
  have "(\<exists>w'. push_rq X g t w = Some w') \<longleftrightarrow>
   (\<exists>k wk tg. refused (try_push X) (flush_nosignal_tasks X) (nap X) g t k w = Some wk
      \<and> group_at wk g = Some tg \<and> snd (try_push X tg t))"
    (is "_ \<longleftrightarrow> ?R")
  proof
    assume "\<exists>w'. push_rq X g t w = Some w'"
    then show ?R unfolding local_push.loop_refused by force
  next
    assume ?R
    then obtain k wk tg where at: "refused (try_push X) (flush_nosignal_tasks X) (nap X) g t k w = Some wk"
      "group_at wk g = Some tg" "snd (try_push X tg t)" by blast
    then have "try_push X tg t = (fst (try_push X tg t), True)" by (simp add: prod_eq_iff)
    with at(1,2) show "\<exists>w'. push_rq X g t w = Some w'" unfolding local_push.loop_refused by blast
  qed
  then show ?thesis by simp
qed

text \<open>The counters of the group of this thread.\<close>

definition counted :: "gid \<Rightarrow> int \<Rightarrow> ('q, 'r, 'x) world \<Rightarrow> bool" where
  "counted g n w \<longleftrightarrow> tls_task_group (cur_tls w) = Some g
     \<and> (\<exists>tg. group_at w g = Some tg \<and> tg_nsignaled tg + tg_num_nosignal tg = n)"

lemma counted_nap: "naps_ok X \<Longrightarrow> counted g n w \<Longrightarrow> counted g n (nap X w)"
  using moves_own [OF naps_ok_moves, of X w g]
  unfolding counted_def naps_ok_def moves_def steady_def by metis

lemma counted_put_group:
  "counted g n w \<Longrightarrow> group_at w g = Some tg \<Longrightarrow>
   tg_nsignaled tg' + tg_num_nosignal tg' = tg_nsignaled tg + tg_num_nosignal tg \<Longrightarrow>
   counted g n (put_group g tg' w)"
  by (auto simp: counted_def nth_opt_Some)

lemma counted_flush: "counted g n w \<Longrightarrow> flush_nosignal_tasks X g w = Some w' \<Longrightarrow> counted g n w'"
  by (auto simp: counted_def flush_nosignal_tasks_def bind_Some_conv nth_opt_Some Let_def split: if_splits)

lemma push_rq_counts:
  assumes "naps_ok X" and "push_rq X g t w = Some w'"
  shows "counted g n w \<longrightarrow> counted g n w'"
  using assms(2)
proof (rule push_rq_rule)
  fix w tg tg' assume "group_at w g = Some tg" and "try_push X tg t = (tg', True)"
  then show "counted g n w \<longrightarrow> counted g n (put_group g tg' w)"
    by (auto intro!: counted_put_group simp: try_push_def split: prod.splits)
next
  fix w tg tg' w2 w'
  assume tg: "group_at w g = Some tg" and at: "try_push X tg t = (tg', False)"
    and fl: "flush_nosignal_tasks X g (put_group g tg' w) = Some w2"
    and IH: "counted g n (nap X w2) \<longrightarrow> counted g n w'"
  show "counted g n w \<longrightarrow> counted g n w'"
  proof
    assume "counted g n w"
    then have "counted g n (put_group g tg' w)"
      using tg by (rule counted_put_group) (use at in \<open>auto simp: try_push_def split: prod.splits\<close>)
    then show "counted g n w'" using counted_nap [OF assms(1)] counted_flush [OF _ fl] IH by blast
  qed
qed

text \<open>
  The tasks a worker pushes to its own queue are counted one by one, as signalled or as not yet
  signalled; a push that signals announces all those that were not, and leaves none.
\<close>

lemma ready_to_run_counts:
  assumes "naps_ok X" and "tls_task_group (cur_tls w) = Some g" and "group_at w g = Some tg"
    and "ready_to_run X g t nosignal w = Some w'"
  shows "\<exists>tg'. group_at w' g = Some tg'
    \<and> tg_nsignaled tg' + tg_num_nosignal tg' = tg_nsignaled tg + tg_num_nosignal tg + 1
    \<and> (\<not> nosignal \<longrightarrow> tg_num_nosignal tg' = 0)"
proof -
  obtain w1 u where w1: "push_rq X g t w = Some w1" and u: "group_at w1 g = Some u"
    using assms(4) by (auto simp: ready_to_run_def bind_Some_conv)
  have "tg_nsignaled u + tg_num_nosignal u = tg_nsignaled tg + tg_num_nosignal tg"
    using push_rq_counts [OF assms(1) w1] assms(2,3) u by (simp add: counted_def)
  then show ?thesis using assms(4) w1 u
    by (auto simp: ready_to_run_def Let_def nth_opt_Some split: if_splits)
qed

lemma ready_to_run_counts_witness:
  "\<exists>w' tg'. ready_to_run demo_ext 0 15 False full_world = Some w' \<and> group_at w' 0 = Some tg'
    \<and> tg_nsignaled tg' = 1 \<and> tg_num_nosignal tg' = 0"
proof -
  obtain w' where w': "ready_to_run demo_ext 0 15 False full_world = Some w'" using full_world_push(2) by blast
  have "tls_task_group (cur_tls full_world) = Some 0"
    and "group_at full_world 0 = Some (demo_group 3 (make_tid 1 1) [11, 12, 13, 14] [])"
    by (simp_all add: full_world_def demo_world_def demo_tls_def)
  from ready_to_run_counts [OF demo_naps_ok this w'] show ?thesis
    using w' by (auto simp: demo_group_def)
qed

text \<open>
  Called by a thread that does not run this group, \<open>ready_to_run_general\<close> does not depend on the task:
  it cannot put it anywhere.
\<close>

lemma ready_to_run_general_drops_task:
  "tls_task_group (cur_tls w) \<noteq> Some g \<Longrightarrow>
   ready_to_run_general X g t nosignal w = ready_to_run_general X g t' nosignal' w"
  by (simp add: ready_to_run_general_def)

end
