(* ===== verification/Butex.thy ===== *)
theory Butex
  imports RunQueue
begin

text \<open>
  Waiters and butexes (\<open>butex.cpp\<close>): putting a waiter into the list of a butex, taking one out because
  of a timeout or an interruption, and the waiting of pthreads.  A critical section of a
  \<open>waiter_lock\<close> is one step.
\<close>

section \<open>Waking one waiter\<close>

definition wakeup_pthread ::
  "('q, 'r, 'x) ext \<Rightarrow> wid \<Rightarrow> ('q, 'r, 'x) world \<Rightarrow> ('q, 'r, 'x) world option" where
  "wakeup_pthread X i w =
     do {
       pw \<leftarrow> waiters w i;
       let w1 = put_waiter i (pw\<lparr>w_sig := True\<rparr>) w;
       let (x, n) = futex_wake X (outside w1) (SigFutex i) 1;
       Some (w1\<lparr>outside := x\<rparr>)
     }"

text \<open>Returns 0 when there is no timer, or it is not running any more; -1 when its callback is running.\<close>

definition unsleep_if_necessary ::
  "('q, 'r, 'x) ext \<Rightarrow> wid \<Rightarrow> ('q, 'r, 'x) world \<Rightarrow> (int \<times> ('q, 'r, 'x) world) option" where
  "unsleep_if_necessary X i w =
     do {
       bw \<leftarrow> waiters w i;
       (if w_sleep_id bw = 0 then Some (0, w)
        else
          let (x, rc) = timer_unschedule X (outside w) (w_sleep_id bw);
              w1 = w\<lparr>outside := x\<rparr>
          in (if rc > 0 then Some (-1, w1)
              else Some (0, put_waiter i (bw\<lparr>w_sleep_id := 0\<rparr>) w1)))
     }"

definition get_task_group ::
  "('q, 'r, 'x) ext \<Rightarrow> ('q, 'r, 'x) world \<Rightarrow> (gid option \<times> ('q, 'r, 'x) world) option" where
  "get_task_group X w =
     (case tls_task_group (cur_tls w) of
        Some g \<Rightarrow> Some (Some g, w)
      | None \<Rightarrow> choose_one_group X w)"

section \<open>Entering and leaving the list\<close>

definition enqueue_waiter :: "bid \<Rightarrow> wid \<Rightarrow> waiter \<Rightarrow> butex \<Rightarrow> ('q, 'r, 'x) world \<Rightarrow> ('q, 'r, 'x) world" where
  "enqueue_waiter b i bw bx w =
     put_waiter i (bw\<lparr>w_container := Some b\<rparr>)
       (put_butex b (bx\<lparr>bx_waiters := bx_waiters bx @ [i]\<rparr>) w)"

text \<open>
  \<open>wait_for_butex\<close>, the callback that queues the waiter of a bthread that was switched away.  It is
  queued only if the value is the expected one and neither a timeout nor an interruption came
  first; otherwise the bthread is made ready again.
\<close>

definition wait_for_butex ::
  "('q, 'r, 'x) ext \<Rightarrow> wid \<Rightarrow> ('q, 'r, 'x) world \<Rightarrow> ('q, 'r, 'x) world option" where
  "wait_for_butex X i w =
     do {
       bw \<leftarrow> waiters w i;
       let b = w_initial_butex bw;
       bx \<leftarrow> butex_at w b;
       m \<leftarrow> metas w (w_task_meta bw);
       let unmatched = (bx_value bx \<noteq> w_expected_value bw);
       (if \<not> unmatched \<and> w_state bw = WAITER_STATE_READY \<and> \<not> tm_interrupted m
        then Some (enqueue_waiter b i bw bx w)
        else do {
          let w1 = (if unmatched then put_waiter i (bw\<lparr>w_state := WAITER_STATE_UNMATCHEDVALUE\<rparr>) w else w);
          (rc, w2) \<leftarrow> unsleep_if_necessary X i w1;
          g \<leftarrow> tls_task_group (cur_tls w2);
          ready_to_run X g (w_tid bw) False w2
        })
     }"

text \<open>
  The loop of \<open>erase_from_butex\<close>: \<open>grab X b\<close> is what happens between the first reading of the
  container and the acquisition of its lock.
\<close>

partial_function (option) erase_loop ::
  "('q, 'r, 'x) ext \<Rightarrow> wid \<Rightarrow> waiter_state \<Rightarrow> ('q, 'r, 'x) world \<Rightarrow> (bool \<times> ('q, 'r, 'x) world) option" where
  "erase_loop X i st w =
     do {
       bw \<leftarrow> waiters w i;
       (case w_container bw of
          None \<Rightarrow> Some (False, w)
        | Some b \<Rightarrow> do {
            let w1 = grab X b w;
            bw1 \<leftarrow> waiters w1 i;
            (if w_container bw1 = Some b then do {
               bx \<leftarrow> butex_at w1 b;
               Some (True, put_waiter i (bw1\<lparr>w_container := None,
                              w_state := (if w_tid bw1 \<noteq> 0 then st else w_state bw1)\<rparr>)
                             (put_butex b (bx\<lparr>bx_waiters := remove1 i (bx_waiters bx)\<rparr>) w1))
             }
             else erase_loop X i st w1)
          })
     }"

definition erase_from_butex ::
  "('q, 'r, 'x) ext \<Rightarrow> wid \<Rightarrow> bool \<Rightarrow> waiter_state \<Rightarrow> ('q, 'r, 'x) world
   \<Rightarrow> (bool \<times> ('q, 'r, 'x) world) option" where
  "erase_from_butex X i wakeup st w =
     do {
       let saved_errno = tls_errno (cur_tls w);
       (erased, w1) \<leftarrow> erase_loop X i st w;
       w2 \<leftarrow> (if erased \<and> wakeup then do {
                 bw \<leftarrow> waiters w1 i;
                 (if w_tid bw \<noteq> 0 then do {
                    (g, w2) \<leftarrow> get_task_group X w1;
                    g' \<leftarrow> g;
                    ready_to_run_general X g' (w_tid bw) False w2
                  }
                  else wakeup_pthread X i w1)
               }
               else Some w1);
       Some (erased, set_errno saved_errno w2)
     }"

definition erase_from_butex_and_wakeup ::
  "('q, 'r, 'x) ext \<Rightarrow> wid \<Rightarrow> ('q, 'r, 'x) world \<Rightarrow> ('q, 'r, 'x) world option" where
  "erase_from_butex_and_wakeup X i w =
     map_option snd (erase_from_butex X i True WAITER_STATE_INTERRUPTED w)"

definition erase_from_butex_because_of_interruption ::
  "('q, 'r, 'x) ext \<Rightarrow> wid \<Rightarrow> ('q, 'r, 'x) world \<Rightarrow> (bool \<times> ('q, 'r, 'x) world) option" where
  "erase_from_butex_because_of_interruption X i w = erase_from_butex X i True WAITER_STATE_INTERRUPTED w"

section \<open>Waiting from a pthread\<close>

text \<open>
  \<open>wait_pthread\<close>: \<open>timed\<close> says that \<open>ptimeout\<close> is not NULL.  The waiter can be erased by this thread
  after a timeout, or be signalled by another one, but not both.
\<close>

partial_function (option) wait_pthread ::
  "('q, 'r, 'x) ext \<Rightarrow> wid \<Rightarrow> bool \<Rightarrow> ('q, 'r, 'x) world \<Rightarrow> (int \<times> ('q, 'r, 'x) world) option" where
  "wait_pthread X i timed w =
     do {
       let (rc, w1) = futex_wait X i timed w;
       pw \<leftarrow> waiters w1 i;
       (if w_sig pw then Some (rc, w1)
        else if rc \<noteq> 0 \<and> tls_errno (cur_tls w1) = ETIMEDOUT then do {
          (erased, w2) \<leftarrow> erase_from_butex X i False WAITER_STATE_TIMEOUT w1;
          pw2 \<leftarrow> waiters w2 i;
          (if \<not> erased \<and> \<not> w_sig pw2 then wait_pthread X i False w2 else Some (rc, w2))
        }
        else wait_pthread X i timed w1)
     }"

text \<open>
  \<open>BT_LOOP_WHEN(task->current_waiter.exchange(NULL) == NULL)\<close>: spins while an interruption
  holds the waiter.
\<close>

partial_function (option) take_current_waiter ::
  "('q, 'r, 'x) ext \<Rightarrow> slot \<Rightarrow> ('q, 'r, 'x) world \<Rightarrow> ('q, 'r, 'x) world option" where
  "take_current_waiter X s w =
     do {
       m \<leftarrow> metas w s;
       let w1 = put_meta s (m\<lparr>tm_current_waiter := None\<rparr>) w;
       (if tm_current_waiter m = None then take_current_waiter X s (spin X w1) else Some w1)
     }"

definition MIN_SLEEP_US :: int where
  "MIN_SLEEP_US = 2"

definition new_pthread_waiter :: "bid \<Rightarrow> waiter" where
  "new_pthread_waiter b =
     \<lparr>w_tid = 0, w_container = None, w_task_meta = 0, w_sleep_id = 0, w_state = WAITER_STATE_NONE,
      w_expected_value = 0, w_initial_butex = b, w_sig = False\<rparr>"

text \<open>
  \<open>butex_wait_from_pthread\<close>: \<open>g\<close> is the group of the calling worker, if it is one, \<open>i\<close> the address of
  the waiter on its stack and \<open>abstime\<close> the deadline in microseconds.
\<close>

definition butex_wait_from_pthread ::
  "('q, 'r, 'x) ext \<Rightarrow> gid option \<Rightarrow> bid \<Rightarrow> 32 word \<Rightarrow> int option \<Rightarrow> wid \<Rightarrow> ('q, 'r, 'x) world
   \<Rightarrow> (int \<times> ('q, 'r, 'x) world) option" where
  "butex_wait_from_pthread X g b expected abstime i w =
     do {
       let (x, now) = (case abstime of None \<Rightarrow> (outside w, 0) | Some us \<Rightarrow> gettimeofday_us X (outside w));
       let w0 = w\<lparr>outside := x\<rparr>;
       (if abstime \<noteq> None \<and> the abstime - now < MIN_SLEEP_US then Some (-1, set_errno ETIMEDOUT w0)
        else do {
          let w1 = put_waiter i (new_pthread_waiter b) w0;
          task \<leftarrow> (case g of
                     None \<Rightarrow> Some None
                   | Some g' \<Rightarrow> do { tg \<leftarrow> group_at w1 g'; s \<leftarrow> tg_cur_meta tg; Some (Some s) });
          w2 \<leftarrow> (case task of
                   None \<Rightarrow> Some w1
                 | Some s \<Rightarrow> do { m \<leftarrow> metas w1 s; Some (put_meta s (m\<lparr>tm_current_waiter := Some i\<rparr>) w1) });
          bx \<leftarrow> butex_at w2 b;
          pw \<leftarrow> waiters w2 i;
          (rc, w3) \<leftarrow>
            (if bx_value bx \<noteq> expected then Some (-1, set_errno EWOULDBLOCK w2)
             else
               (case Option.bind task (metas w2) of
                  Some m \<Rightarrow>
                    if tm_interrupted m
                    then Some (-1, set_errno EINTR (put_meta (the task) (m\<lparr>tm_interrupted := False\<rparr>) w2))
                    else wait_pthread X i (abstime \<noteq> None) (enqueue_waiter b i pw bx w2)
                | None \<Rightarrow> wait_pthread X i (abstime \<noteq> None) (enqueue_waiter b i pw bx w2)));
          (case task of
             None \<Rightarrow> Some (rc, w3)
           | Some s \<Rightarrow> do {
               w4 \<leftarrow> take_current_waiter X s w3;
               m \<leftarrow> metas w4 s;
               (if tm_interrupted m then
                  let w5 = put_meta s (m\<lparr>tm_interrupted := False\<rparr>) w4
                  in Some (if rc = 0 then (-1, set_errno EINTR w5) else (rc, w5))
                else Some (rc, w4))
             })
        })
     }"

section \<open>Effects on the waiter lists\<close>

lemma waiter_tid_put_waiter:
  "waiters w i = Some bw \<Longrightarrow> w_tid bw' = w_tid bw \<Longrightarrow> waiter_tid (put_waiter i bw' w) = waiter_tid w"
  by (rule ext) (auto simp: waiter_tid_def)

lemma meta_tid_put_waiter [simp]: "meta_tid (put_waiter i bw w) = meta_tid w"
  by (rule meta_tid_cong) simp

lemma meta_tid_put_butex [simp]: "meta_tid (put_butex b bx w) = meta_tid w"
  by (rule meta_tid_cong) simp

lemma waiter_tid_put_butex [simp]: "waiter_tid (put_butex b bx w) = waiter_tid w"
  by (rule waiter_tid_cong) simp

lemma waiter_tid_at: "waiters w i = Some bw \<Longrightarrow> waiter_tid w i = w_tid bw"
  by (simp add: waiter_tid_def)

lemma bthreads_of_simps [simp]:
  "bthreads_of tid_of [] = {#}"
  "bthreads_of tid_of (i # ws) = (if tid_of i = 0 then {#} else {#tid_of i#}) + bthreads_of tid_of ws"
  "bthreads_of tid_of (ws @ vs) = bthreads_of tid_of ws + bthreads_of tid_of vs"
  by (auto simp: bthreads_of_def)

lemma bthreads_of_remove1:
  "i \<in> set ws \<Longrightarrow>
   bthreads_of tid_of ws = bthreads_of tid_of (remove1 i ws) + (if tid_of i = 0 then {#} else {#tid_of i#})"
  by (induction ws) auto

text \<open>A change of a waiter that keeps its tid and its container, and of the outside.\<close>

lemma moves_put_waiter:
  assumes "waiters w i = Some bw" and "w_tid bw' = w_tid bw" and "w_container bw' = w_container bw"
  shows "moves X {#} w (put_waiter i bw' w)"
proof -
  note wt = waiter_tid_put_waiter [OF assms(1,2)]
  have "tasks X (put_waiter i bw' w) = tasks X w"
    using wt by (intro tasks_cong) simp_all
  moreover have "butexes_ok (put_waiter i bw' w) = butexes_ok w"
  proof -
    have "(\<exists>u. waiters (put_waiter i bw' w) j = Some u \<and> w_container u = Some b) \<longleftrightarrow>
        (\<exists>u. waiters w j = Some u \<and> w_container u = Some b)" for j b
      using assms by auto
    then show ?thesis unfolding butexes_ok_def by simp
  qed
  ultimately show ?thesis using wt by (auto simp: moves_def steady_def)
qed

lemma moves_outside [simp]: "moves X {#} w (w'\<lparr>outside := x\<rparr>) = moves X {#} w w'"
proof -
  have *: "moves X {#} u (u\<lparr>outside := y\<rparr>)" for u :: "('a, 'b, 'c) world" and y by (rule moves_cong) simp_all
  have "w' = (w'\<lparr>outside := x\<rparr>)\<lparr>outside := outside w'\<rparr>" by simp
  then show ?thesis using * [of w' x] * [of "w'\<lparr>outside := x\<rparr>" "outside w'"] moves_trans_0(2) by metis
qed

text \<open>What the list of one butex contributes.\<close>

lemma tasks_butex_change:
  assumes "butex_at w b = Some bx" and "groups w' = groups w" and "butexes w' = (butexes w)[b := bx']"
    and "meta_tid w' = meta_tid w" and "waiter_tid w' = waiter_tid w"
  shows "tasks X w' + bthreads_of (waiter_tid w) (bx_waiters bx) =
    tasks X w + bthreads_of (waiter_tid w) (bx_waiters bx')"
proof -
  have "waiting w' + bthreads_of (waiter_tid w) (bx_waiters bx) =
      waiting w + bthreads_of (waiter_tid w) (bx_waiters bx')"
    using msum_update [of b "butexes w" "\<lambda>b. bthreads_of (waiter_tid w) (bx_waiters b)" bx'] assms
    by (simp add: waiting_def nth_opt_Some)
  moreover have "queued X w' = queued X w" by (rule queued_cong [OF assms(2)])
  moreover have "running w' = running w" by (rule running_cong [OF assms(2,4)])
  moreover have "pending w' = pending w" by (rule pending_cong [OF assms(2,5)])
  ultimately show ?thesis by (simp add: tasks_def ac_simps)
qed

lemma tasks_put_butex:
  assumes "butex_at w b = Some bx" and "waiters w i = Some bw" and "w_tid bw' = w_tid bw"
  shows "tasks X (put_waiter i bw' (put_butex b bx' w)) + bthreads_of (waiter_tid w) (bx_waiters bx) =
    tasks X w + bthreads_of (waiter_tid w) (bx_waiters bx')"
  using waiter_tid_put_waiter [of "put_butex b bx' w" i bw bw'] assms(2,3)
  by (intro tasks_butex_change [OF assms(1)]) simp_all

lemma butexes_ok_enqueue:
  assumes "butexes_ok w" and "butex_at w b = Some bx" and "waiters w i = Some bw" and "w_container bw = None"
  shows "butexes_ok (enqueue_waiter b i bw bx w)"
proof -
  have "i \<notin> set (bx_waiters bx')" if "butex_at w b' = Some bx'" for b' bx'
    using butexes_okD(2) [OF assms(1) that] assms(3,4) by simp
  then show ?thesis using assms
    by (auto simp: butexes_ok_def enqueue_waiter_def nth_opt_Some split: if_splits)
qed

lemma butexes_ok_dequeue:
  assumes "butexes_ok w" and "butex_at w b = Some bx" and "waiters w i = Some bw"
    and "w_container bw = Some b" and "w_container bw' = None"
  shows "butexes_ok (put_waiter i bw' (put_butex b (bx\<lparr>bx_waiters := remove1 i (bx_waiters bx)\<rparr>) w))"
proof -
  have "i \<notin> set (bx_waiters bx')" if "butex_at w b' = Some bx'" "b' \<noteq> b" for b' bx'
    using butexes_okD(2) [OF assms(1) that(1)] assms(3,4) that(2) by simp
  then show ?thesis using assms
    by (auto simp: butexes_ok_def nth_opt_Some distinct_remove1 split: if_splits)
qed

lemma enqueue_moves:
  assumes "butex_at w b = Some bx" and "waiters w i = Some bw" and "w_container bw = None" and "w_tid bw \<noteq> 0"
  shows "moves X {#w_tid bw#} w (enqueue_waiter b i bw bx w)"
proof -
  let ?w = "enqueue_waiter b i bw bx w"
  have "tasks X ?w = tasks X w + {#w_tid bw#}"
    using tasks_put_butex [OF assms(1,2), of "bw\<lparr>w_container := Some b\<rparr>" X
        "bx\<lparr>bx_waiters := bx_waiters bx @ [i]\<rparr>"] assms(4)
    by (simp add: enqueue_waiter_def waiter_tid_at [OF assms(2)] ac_simps)
  moreover have "waiter_tid ?w = waiter_tid w" and "meta_tid ?w = meta_tid w"
    using waiter_tid_put_waiter [of "put_butex b (bx\<lparr>bx_waiters := bx_waiters bx @ [i]\<rparr>) w" i bw] assms(2)
    by (simp_all add: enqueue_waiter_def)
  ultimately show ?thesis using butexes_ok_enqueue [OF _ assms(1-3)]
    by (auto simp: moves_def steady_def enqueue_waiter_def)
qed

lemma dequeue_takes:
  assumes "butexes_ok w" and "butex_at w b = Some bx" and "waiters w i = Some bw"
    and "w_container bw = Some b" and "w_container bw' = None" and "w_tid bw' = w_tid bw"
  shows "takes X (if w_tid bw = 0 then {#} else {#w_tid bw#}) w
    (put_waiter i bw' (put_butex b (bx\<lparr>bx_waiters := remove1 i (bx_waiters bx)\<rparr>) w))" (is "takes X ?d w ?w")
proof -
  have "i \<in> set (bx_waiters bx)" using butexes_okD(2) [OF assms(1,2)] assms(3,4) by simp
  from bthreads_of_remove1 [OF this, of "waiter_tid w"]
  have "tasks X w = tasks X ?w + ?d"
    using tasks_put_butex [OF assms(2,3,6), of X "bx\<lparr>bx_waiters := remove1 i (bx_waiters bx)\<rparr>"]
    by (auto simp: waiter_tid_at [OF assms(3)] split: if_splits)
  moreover have "waiter_tid ?w = waiter_tid w" and "meta_tid ?w = meta_tid w"
    using waiter_tid_put_waiter [of "put_butex b (bx\<lparr>bx_waiters := remove1 i (bx_waiters bx)\<rparr>) w" i bw bw']
      assms(3,6) by simp_all
  ultimately show ?thesis using butexes_ok_dequeue [OF assms(1-5)]
    by (auto simp: takes_def steady_def)
qed

section \<open>Where the tasks go\<close>

lemma unsleep_cases:
  assumes "unsleep_if_necessary X i w = Some (rc, w')"
  obtains (none) "w' = w"
  | (running) x where "w' = w\<lparr>outside := x\<rparr>"
  | (removed) x bw where "waiters w i = Some bw"
      and "w' = put_waiter i (bw\<lparr>w_sleep_id := 0\<rparr>) (w\<lparr>outside := x\<rparr>)"
proof -
  obtain bw where bw: "waiters w i = Some bw"
    using assms by (auto simp: unsleep_if_necessary_def bind_Some_conv)
  obtain x k where un: "timer_unschedule X (outside w) (w_sleep_id bw) = (x, k)" by fastforce
  show thesis
  proof (cases "w_sleep_id bw = 0")
    case True
    then show thesis using assms bw none by (simp add: unsleep_if_necessary_def)
  next
    case False
    then have "w' = w\<lparr>outside := x\<rparr> \<or> w' = put_waiter i (bw\<lparr>w_sleep_id := 0\<rparr>) (w\<lparr>outside := x\<rparr>)"
      using assms bw un by (cases "k > 0") (simp_all add: unsleep_if_necessary_def Let_def)
    then show thesis using running removed [OF bw] by blast
  qed
qed

lemma unsleep_moves:
  assumes "unsleep_if_necessary X i w = Some (rc, w')"
  shows "moves X {#} w w'"
  using assms
proof (cases rule: unsleep_cases)
  case (removed x bw)
  have "moves X {#} (w\<lparr>outside := x\<rparr>) w'" unfolding removed(2)
    by (rule moves_put_waiter [of _ i bw]) (simp_all add: removed(1))
  then show ?thesis using moves_trans_0(1) [of X w "w\<lparr>outside := x\<rparr>"] by simp
qed simp_all

lemma unsleep_same:
  assumes "unsleep_if_necessary X i w = Some (rc, w')"
  shows "butexes w' = butexes w" "groups w' = groups w" "metas w' = metas w" "cur_tls w' = cur_tls w"
    "control w' = control w" "frames w' = frames w" "fatals w' = fatals w"
  using assms by (cases rule: unsleep_cases; simp)+

lemma wakeup_pthread_result:
  "wakeup_pthread X i w = Some w' \<Longrightarrow>
   \<exists>pw x. waiters w i = Some pw \<and> w' = (put_waiter i (pw\<lparr>w_sig := True\<rparr>) w)\<lparr>outside := x\<rparr>"
  unfolding wakeup_pthread_def Let_def case_prod_beta bind_Some_conv by blast

lemma wakeup_pthread_moves: "wakeup_pthread X i w = Some w' \<Longrightarrow> moves X {#} w w'"
  by (auto dest!: wakeup_pthread_result intro!: moves_put_waiter)

lemma choose_one_group_moves: "choose_one_group X w = Some (g, w') \<Longrightarrow> moves X {#} w w'"
  by (auto simp: choose_one_group_def bind_Some_conv Let_def split: if_splits prod.splits intro: moves_cong)

lemma get_task_group_moves: "get_task_group X w = Some (g, w') \<Longrightarrow> moves X {#} w w'"
  by (auto simp: get_task_group_def intro: choose_one_group_moves split: option.splits)

definition queueable :: "('q, 'r, 'x) world \<Rightarrow> waiter \<Rightarrow> bool" where
  "queueable w bw \<longleftrightarrow>
     (\<exists>bx m. butex_at w (w_initial_butex bw) = Some bx \<and> metas w (w_task_meta bw) = Some m
        \<and> bx_value bx = w_expected_value bw \<and> w_state bw = WAITER_STATE_READY \<and> \<not> tm_interrupted m)"

lemma wait_for_butex_cases:
  assumes "ext_queues_ok X" and "naps_ok X"
    and "waiters w i = Some bw" and "w_tid bw \<noteq> 0" and "w_container bw = None"
    and "wait_for_butex X i w = Some w'"
  shows "moves X {#w_tid bw#} w w'
    \<and> (if queueable w bw
       then (\<exists>bx. butex_at w (w_initial_butex bw) = Some bx \<and> w' = enqueue_waiter (w_initial_butex bw) i bw bx w)
       else (\<exists>g w2. butexes w2 = butexes w \<and> ready_to_run X g (w_tid bw) False w2 = Some w'))"
proof -
  obtain bx m where bx: "butex_at w (w_initial_butex bw) = Some bx" and m: "metas w (w_task_meta bw) = Some m"
    using assms(3,6) by (auto simp: wait_for_butex_def bind_Some_conv Let_def)
  show ?thesis
  proof (cases "queueable w bw")
    case True
    then have "w' = enqueue_waiter (w_initial_butex bw) i bw bx w"
      using assms(3,6) bx m by (auto simp: wait_for_butex_def queueable_def Let_def)
    then show ?thesis using True enqueue_moves [OF bx assms(3,5,4)] bx by simp
  next
    case False
    define w1 where "w1 = (if bx_value bx \<noteq> w_expected_value bw
      then put_waiter i (bw\<lparr>w_state := WAITER_STATE_UNMATCHEDVALUE\<rparr>) w else w)"
    obtain rc w2 g where un: "unsleep_if_necessary X i w1 = Some (rc, w2)"
      and rr: "ready_to_run X g (w_tid bw) False w2 = Some w'"
      using assms(3,6) bx m False
      by (auto simp: wait_for_butex_def queueable_def Let_def bind_Some_conv w1_def split: if_splits)
    have "moves X {#} w w1" using assms(3) by (auto simp: w1_def intro: moves_put_waiter)
    then have "moves X {#} w w2" using unsleep_moves [OF un] moves_trans_0(1) by blast
    then have "moves X {#w_tid bw#} w w'" using ready_to_run_moves [OF assms(1,2) rr] moves_trans_0(1) by blast
    moreover have "butexes w2 = butexes w" using unsleep_same(1) [OF un] by (simp add: w1_def)
    ultimately show ?thesis using False rr by auto
  qed
qed

lemmas wait_for_butex_moves = wait_for_butex_cases [THEN conjunct1]

text \<open>
  C10.  The callback that suspends a bthread on a butex puts it in exactly one place: at the end of the
  list of the butex, if the value still is the expected one and the waiter was neither timed out nor
  interrupted, and into the run queue otherwise.  In the second case no list was changed.
\<close>

theorem wait_for_butex_correct:
  assumes "ext_queues_ok X" and "naps_ok X"
    and "waiters w i = Some bw" and "w_tid bw \<noteq> 0" and "w_container bw = None"
    and "wait_for_butex X i w = Some w'"
  shows "moves X {#w_tid bw#} w w'
    \<and> (if queueable w bw
       then (\<exists>bx. butex_at w (w_initial_butex bw) = Some bx \<and> w' = enqueue_waiter (w_initial_butex bw) i bw bx w)
       else (\<exists>g w2. butexes w2 = butexes w \<and> ready_to_run X g (w_tid bw) False w2 = Some w'))"
  by (rule wait_for_butex_cases [OF assms])

text \<open>The waiter 8, of the bthread in slot 3, is about to be queued; the value of butex 0 is the expected one.\<close>

definition enqueue_world :: demo_world where
  "enqueue_world = demo_world (Some 0) [demo_group 5 (make_tid 1 1) [] []] []
     [8 \<mapsto> demo_waiter (make_tid 1 3) None 3]"

lemma wait_for_butex_correct_witness:
  "\<exists>w'. wait_for_butex demo_ext 8 enqueue_world = Some w'
    \<and> tasks demo_ext w' = tasks demo_ext enqueue_world + {#make_tid 1 3#}
    \<and> map_option bx_waiters (butex_at w' 0) = Some [8]"
proof -
  let ?bw = "demo_waiter (make_tid 1 3) None 3"
  have bw: "waiters enqueue_world 8 = Some ?bw" "w_tid ?bw \<noteq> 0" "w_container ?bw = None"
    by (simp_all add: enqueue_world_def demo_world_def demo_waiter_def make_tid_def)
  have q: "queueable enqueue_world ?bw"
    by (simp add: queueable_def enqueue_world_def demo_defs)
  have "wait_for_butex demo_ext 8 enqueue_world \<noteq> None"
    by (simp add: wait_for_butex_def enqueue_world_def demo_defs Let_def)
  then obtain w' where w': "wait_for_butex demo_ext 8 enqueue_world = Some w'" by blast
  from wait_for_butex_correct [OF demo_queues_ok demo_naps_ok bw w'] q w' show ?thesis
    by (auto simp: moves_def enqueue_waiter_def demo_waiter_def nth_opt_Some)
      (simp_all add: enqueue_world_def demo_defs)
qed

text \<open>What is assumed of the other threads while this one waits for the lock of a butex.\<close>

definition grabs_ok :: "('q, 'r, 'x) ext \<Rightarrow> bool" where
  "grabs_ok X \<longleftrightarrow> (\<forall>b w. moves X {#} w (grab X b w))"

definition detached :: "wid \<Rightarrow> ('q, 'r, 'x) world \<Rightarrow> bool" where
  "detached i w \<longleftrightarrow> (\<exists>bw. waiters w i = Some bw \<and> w_container bw = None)"

definition tid_part :: "('q, 'r, 'x) world \<Rightarrow> wid \<Rightarrow> bthread_t multiset" where
  "tid_part w i = (if waiter_tid w i = 0 then {#} else {#waiter_tid w i#})"

lemma erase_loop_spec:
  assumes "grabs_ok X" and "erase_loop X i st w = Some (erased, w')"
  shows "butexes_ok w \<longrightarrow> detached i w' \<and> takes X (if erased then tid_part w i else {#}) w w'"
proof -
  have "X' = X \<longrightarrow> j = i \<longrightarrow> butexes_ok w \<longrightarrow>
      detached i (snd r) \<and> takes X (if fst r then tid_part w i else {#}) w (snd r)"
    if "erase_loop X' j st w = Some r" for X' j st w r
  proof (rule erase_loop.raw_induct [OF _ that, where P = "\<lambda>X' j st w r. X' = X \<longrightarrow> j = i \<longrightarrow>
      butexes_ok w \<longrightarrow> detached i (snd r) \<and> takes X (if fst r then tid_part w i else {#}) w (snd r)"], goal_cases)
    case (1 f X' j st w r)
    show ?case
    proof (intro impI)
      assume eq: "X' = X" "j = i" and ok: "butexes_ok w"
      obtain bw where bw: "waiters w i = Some bw" using 1(2) eq by (auto simp: bind_Some_conv)
      show "detached i (snd r) \<and> takes X (if fst r then tid_part w i else {#}) w (snd r)"
      proof (cases "w_container bw")
        case None
        then show ?thesis using 1(2) eq bw by (auto simp: detached_def)
      next
        case (Some b)
        let ?w1 = "grab X b w"
        have gr: "moves X {#} w ?w1" using assms(1) by (simp add: grabs_ok_def)
        note st1 = steady_sels [OF moves_steady(1) [OF gr]]
        obtain bw1 where bw1: "waiters ?w1 i = Some bw1" using 1(2) eq bw Some by (auto simp: bind_Some_conv Let_def)
        show ?thesis
        proof (cases "w_container bw1 = Some b")
          case True
          then obtain bx where bx: "butex_at ?w1 b = Some bx"
            and r: "r = (True, put_waiter i (bw1\<lparr>w_container := None,
                w_state := (if w_tid bw1 \<noteq> 0 then st else w_state bw1)\<rparr>)
                (put_butex b (bx\<lparr>bx_waiters := remove1 i (bx_waiters bx)\<rparr>) ?w1))"
            using 1(2) eq bw Some bw1 by (auto simp: bind_Some_conv Let_def)
          have "takes X (if w_tid bw1 = 0 then {#} else {#w_tid bw1#}) ?w1 (snd r)"
            unfolding r snd_conv by (rule dequeue_takes [OF st1(4) [OF ok] bx bw1 True]) simp_all
          moreover have "waiter_tid w i = w_tid bw1" using waiter_tid_at [OF bw1] st1(3) by simp
          ultimately show ?thesis using takes_moves(4) [OF gr] moves_trans_0(1) [OF gr] r
            by (auto simp: detached_def tid_part_def)
        next
          case False
          then have "f X i st ?w1 = Some r" using 1(2) eq bw Some bw1 by (simp add: bind_Some_conv Let_def)
          from 1(1) [OF this] have "detached i (snd r) \<and> takes X (if fst r then tid_part ?w1 i else {#}) ?w1 (snd r)"
            using st1(4) [OF ok] by simp
          moreover have "tid_part ?w1 i = tid_part w i" by (simp add: tid_part_def st1(3))
          ultimately show ?thesis using takes_moves(4) [OF gr] moves_trans_0(1) [OF gr] by auto
        qed
      qed
    qed
  qed
  then show ?thesis using assms(2) by fastforce
qed

lemma tls_errno_same: "cur_tls w' = cur_tls w \<Longrightarrow> set_errno (tls_errno (cur_tls w)) w' = w'"
  by (cases w') (simp add: set_errno_def)

lemma erase_wakeup_moves:
  assumes "ext_queues_ok X" and "naps_ok X" and "tls_task_group (cur_tls w) = Some g"
    and "waiters w i = Some bw" and "w_tid bw \<noteq> 0"
    and "get_task_group X w = Some (go, w2)" and "go = Some g'"
    and "ready_to_run_general X g' (w_tid bw) False w2 = Some w'"
  shows "moves X {#w_tid bw#} w w'"
  using assms ready_to_run_moves [OF assms(1,2)]
  by (simp add: get_task_group_def ready_to_run_general_def)

lemma erase_from_butex_spec:
  assumes "ext_queues_ok X" and "naps_ok X" and "grabs_ok X" and "butexes_ok w"
    and "tls_task_group (cur_tls w) = Some g"
    and "erase_from_butex X i wakeup st w = Some (erased, w')"
  shows "butexes_ok w' \<and> cur_tls w' = cur_tls w \<and> (\<not> wakeup \<longrightarrow> detached i w')
    \<and> takes X (if erased \<and> \<not> wakeup then tid_part w i else {#}) w w'"
proof -
  obtain w1 where loop: "erase_loop X i st w = Some (erased, w1)"
    using assms(6) by (auto simp: erase_from_butex_def bind_Some_conv Let_def)
  note spec = erase_loop_spec [OF assms(3) loop, THEN mp, OF assms(4)]
  note st1 = steady_sels [OF moves_steady(2) [OF conjunct2 [OF spec]]]
  have tp: "tid_part w1 i = tid_part w i" by (simp add: tid_part_def st1(3))
  have "\<exists>w2. w' = set_errno (tls_errno (cur_tls w)) w2 \<and> (\<not> wakeup \<longrightarrow> detached i w2) \<and>
      takes X (if erased \<and> \<not> wakeup then tid_part w i else {#}) w w2"
  proof (cases "erased \<and> wakeup")
    case False
    then have "w' = set_errno (tls_errno (cur_tls w)) w1"
      using assms(6) loop by (auto simp: erase_from_butex_def bind_Some_conv Let_def)
    then show ?thesis using False spec by auto
  next
    case True
    then obtain bw where bw: "waiters w1 i = Some bw" using spec by (auto simp: detached_def)
    have tid: "waiter_tid w1 i = w_tid bw" by (rule waiter_tid_at [OF bw])
    show ?thesis
    proof (cases "w_tid bw = 0")
      case z: True
      then obtain w2 where "wakeup_pthread X i w1 = Some w2" "w' = set_errno (tls_errno (cur_tls w)) w2"
        using assms(6) loop True bw by (auto simp: erase_from_butex_def bind_Some_conv Let_def)
      moreover have "tid_part w i = {#}" using z tid tp by (simp add: tid_part_def)
      ultimately show ?thesis using spec True wakeup_pthread_moves moves_trans_0(1) by fastforce
    next
      case nz: False
      then obtain go w2 g' w3 where "get_task_group X w1 = Some (go, w2)" "go = Some g'"
        "ready_to_run_general X g' (w_tid bw) False w2 = Some w3"
        and w': "w' = set_errno (tls_errno (cur_tls w)) w3"
        using assms(6) loop True bw by (auto simp: erase_from_butex_def bind_Some_conv Let_def)
      then have "moves X {#w_tid bw#} w1 w3"
        using erase_wakeup_moves [OF assms(1,2) _ bw nz] assms(5) st1(1) by metis
      moreover have "tid_part w i = {#w_tid bw#}" using nz tid tp by (simp add: tid_part_def)
      moreover have "takes X {#w_tid bw#} w w1" using spec True \<open>tid_part w i = {#w_tid bw#}\<close> by simp
      ultimately show ?thesis using w' True takes_moves(1) [of X "{#w_tid bw#}" w w1 w3] by auto
    qed
  qed
  then obtain w2 where w': "w' = set_errno (tls_errno (cur_tls w)) w2"
    and det: "\<not> wakeup \<longrightarrow> detached i w2" and tk: "takes X (if erased \<and> \<not> wakeup then tid_part w i else {#}) w w2" by blast
  note st2 = steady_sels [OF moves_steady(2) [OF tk]]
  have "w' = w2" using w' tls_errno_same [OF st2(1)] by simp
  then show ?thesis using tk st2 det assms(4) by simp
qed

text \<open>
  C13.  Erasing a waiter (timeout or interruption) from a worker: if this call erased it and was asked
  to wake it up, its bthread went from the list of the butex to a run queue; if it was not asked to, the
  bthread left the list and the waiter is in no list; a call that comes too late moves nothing.
  The lists stay consistent and \<open>errno\<close> is preserved.
\<close>

theorem erase_from_butex_correct:
  assumes "ext_queues_ok X" and "naps_ok X" and "grabs_ok X" and "butexes_ok w"
    and "tls_task_group (cur_tls w) = Some g"
    and "erase_from_butex X i wakeup st w = Some (erased, w')"
  shows "butexes_ok w' \<and> cur_tls w' = cur_tls w \<and> (\<not> wakeup \<longrightarrow> detached i w')
    \<and> takes X (if erased \<and> \<not> wakeup then tid_part w i else {#}) w w'"
  by (rule erase_from_butex_spec [OF assms])

text \<open>The waiter 7, of the bthread in slot 3, is in the list of butex 0.\<close>

definition wait_world :: "gid option \<Rightarrow> demo_world" where
  "wait_world own = demo_world own
     [demo_group 5 (make_tid 1 1) [] [], demo_group 2 (make_tid 1 2) [] []]
     [7] [7 \<mapsto> demo_waiter (make_tid 1 3) (Some 0) 3]"

lemma wait_world_ok: "butexes_ok (wait_world own)"
  by (auto simp: butexes_ok_def wait_world_def demo_defs nth_opt_def nth_Cons split: nat.splits if_splits)

lemma demo_grabs_ok [simp]: "grabs_ok demo_ext"
  by (simp add: grabs_ok_def demo_ext_def)

lemma erase_from_butex_correct_witness:
  "\<exists>w'. erase_from_butex demo_ext 7 True WAITER_STATE_INTERRUPTED (wait_world (Some 0)) = Some (True, w')
    \<and> butexes_ok w' \<and> tasks demo_ext w' = tasks demo_ext (wait_world (Some 0))"
proof -
  have tid: "make_tid 1 3 \<noteq> 0" by (simp add: make_tid_def)
  have "\<exists>w'. erase_from_butex demo_ext 7 True WAITER_STATE_INTERRUPTED (wait_world (Some 0)) = Some (True, w')"
    using tid by (simp add: erase_from_butex_def erase_loop.simps get_task_group_def ready_to_run_general_def
        ready_to_run_def push_rq.simps try_push_def wait_world_def put_group_def put_waiter_def put_butex_def
        demo_defs Let_def)
  then obtain w' where e: "erase_from_butex demo_ext 7 True WAITER_STATE_INTERRUPTED (wait_world (Some 0)) = Some (True, w')"
    by blast
  have "tls_task_group (cur_tls (wait_world (Some 0))) = Some 0" by (simp add: wait_world_def demo_defs)
  from erase_from_butex_correct [OF demo_queues_ok demo_naps_ok demo_grabs_ok wait_world_ok this e]
  show ?thesis using e by (simp add: moves_def)
qed

text \<open>
  The same call from a thread that is not a worker, where the undeclared function moves no task: a
  bthread that is erased is in no list and in no queue any more.
\<close>

lemma erase_from_non_worker_loses_task:
  assumes "grabs_ok X" and "butexes_ok w" and "tls_task_group (cur_tls w) = None"
    and "\<And>g u u'. ready_nosignal_tasks_remote X g u = Some u' \<Longrightarrow> moves X {#} u u'"
    and "erase_from_butex X i True st w = Some (True, w')"
  shows "tasks X w = tasks X w' + tid_part w i"
proof -
  obtain w1 w2 where loop: "erase_loop X i st w = Some (True, w1)"
    and w': "w' = set_errno (tls_errno (cur_tls w)) w2" and moved: "moves X {#} w1 w2"
  proof -
    obtain w1 where loop: "erase_loop X i st w = Some (True, w1)"
      using assms(5) by (auto simp: erase_from_butex_def bind_Some_conv Let_def)
    note spec = erase_loop_spec [OF assms(1) loop, THEN mp, OF assms(2)]
    have none: "tls_task_group (cur_tls w1) = None"
      using steady_sels(1) [OF moves_steady(2) [OF conjunct2 [OF spec]]] assms(3) by simp
    obtain bw where bw: "waiters w1 i = Some bw" using spec by (auto simp: detached_def)
    show thesis
    proof (cases "w_tid bw = 0")
      case True
      then obtain w2 where "wakeup_pthread X i w1 = Some w2" "w' = set_errno (tls_errno (cur_tls w)) w2"
        using assms(5) loop bw by (auto simp: erase_from_butex_def bind_Some_conv Let_def)
      then show thesis using that [OF loop] wakeup_pthread_moves by blast
    next
      case False
      then obtain go w2 g w3 where g: "get_task_group X w1 = Some (go, w2)"
        and r: "ready_to_run_general X g (w_tid bw) False w2 = Some w3"
        and w': "w' = set_errno (tls_errno (cur_tls w)) w3"
        using assms(5) loop bw by (auto simp: erase_from_butex_def bind_Some_conv Let_def)
      have m: "moves X {#} w1 w2" by (rule get_task_group_moves [OF g])
      then have "tls_task_group (cur_tls w2) = None" using none by (simp add: moves_def steady_def)
      then have "moves X {#} w2 w3" using r assms(4) by (simp add: ready_to_run_general_def)
      then show thesis using that [OF loop w'] m moves_trans_0(1) by blast
    qed
  qed
  have "tasks X w = tasks X w1 + tid_part w i"
    using erase_loop_spec [OF assms(1) loop] assms(2) by (simp add: takes_def)
  moreover have "tasks X w2 = tasks X w1" using moved by (simp add: moves_def)
  moreover have "tasks X w' = tasks X w2" unfolding w'
    by (rule tasks_cong) (auto intro: meta_tid_cong waiter_tid_cong)
  ultimately show ?thesis by simp
qed

section \<open>Pthreads that wait\<close>

text \<open>
  What the system call and the other threads keep: the lists are consistent, and a waiter of a
  pthread that was signalled is in no list (\<open>wakeup_pthread\<close> is called after the removal).
\<close>

definition signal_ok :: "wid \<Rightarrow> ('q, 'r, 'x) world \<Rightarrow> bool" where
  "signal_ok i w \<longleftrightarrow> butexes_ok w \<and> (\<forall>pw. waiters w i = Some pw \<longrightarrow> w_sig pw \<longrightarrow> w_container pw = None)"

definition pthread_waits_ok :: "('q, 'r, 'x) ext \<Rightarrow> bool" where
  "pthread_waits_ok X \<longleftrightarrow>
     (\<forall>i timed w. signal_ok i w \<longrightarrow> signal_ok i (snd (futex_wait X i timed w)))
   \<and> (\<forall>i b w. signal_ok i w \<longrightarrow> signal_ok i (grab X b w))"

lemma erase_False_wait:
  assumes "grabs_ok X" and "pthread_waits_ok X" and "signal_ok i w"
    and "erase_from_butex X i False st w = Some (erased, w')"
  shows "detached i w' \<and> signal_ok i w'"
proof -
  obtain w1 where loop: "erase_loop X i st w = Some (erased, w1)"
    and w': "w' = set_errno (tls_errno (cur_tls w)) w1"
    using assms(4) by (auto simp: erase_from_butex_def bind_Some_conv Let_def)
  have ok: "butexes_ok w" using assms(3) by (simp add: signal_ok_def)
  note spec = erase_loop_spec [OF assms(1) loop, THEN mp, OF ok]
  have "detached i w1" and "butexes_ok w1"
    using spec steady_sels(4) [OF moves_steady(2) [OF conjunct2 [OF spec]] ok] by simp_all
  moreover have "butexes_ok w' = butexes_ok w1" unfolding w' by (rule butexes_ok_cong) simp_all
  ultimately show ?thesis by (auto simp: detached_def signal_ok_def w')
qed

text \<open>
  C18.  When \<open>wait_pthread\<close> returns, whatever its result, the waiter it waited with is in no list: the
  caller can give up the memory of the waiter, which is on its stack.
\<close>

theorem wait_pthread_detached:
  assumes "grabs_ok X" and "pthread_waits_ok X" and "signal_ok i w"
    and "wait_pthread X i timed w = Some (rc, w')"
  shows "detached i w' \<and> butexes_ok w'"
proof -
  have "X' = X \<longrightarrow> j = i \<longrightarrow> signal_ok i w \<longrightarrow> detached i (snd r) \<and> signal_ok i (snd r)"
    if "wait_pthread X' j timed w = Some r" for X' j timed w r
  proof (rule wait_pthread.raw_induct [OF _ that, where P = "\<lambda>X' j timed w r. X' = X \<longrightarrow> j = i \<longrightarrow>
      signal_ok i w \<longrightarrow> detached i (snd r) \<and> signal_ok i (snd r)"], goal_cases)
    case (1 f X' j timed w r)
    show ?case
    proof (intro impI)
      assume eq: "X' = X" "j = i" and ok: "signal_ok i w"
      obtain k w1 where fw: "futex_wait X i timed w = (k, w1)" by fastforce
      have ok1: "signal_ok i w1" using assms(2) ok fw by (metis pthread_waits_ok_def snd_conv)
      obtain pw where pw: "waiters w1 i = Some pw" using 1(2) [unfolded eq] fw by (cases "waiters w1 i") auto
      define A where "A = do { (erased, w2) \<leftarrow> erase_from_butex X i False WAITER_STATE_TIMEOUT w1;
          pw2 \<leftarrow> waiters w2 i;
          (if \<not> erased \<and> \<not> w_sig pw2 then f X i False w2 else Some (k, w2)) }"
      have body: "(if w_sig pw then Some (k, w1)
          else if k \<noteq> 0 \<and> tls_errno (cur_tls w1) = ETIMEDOUT then A else f X i timed w1) = Some r"
        unfolding A_def using 1(2) [unfolded eq fw] pw by (simp only: Let_def prod.case bind.simps)
      consider (sig) "w_sig pw" | (timeout) "A = Some r" | (again) "f X i timed w1 = Some r"
        using body by (auto split: if_splits)
      then show "detached i (snd r) \<and> signal_ok i (snd r)"
      proof cases
        case sig
        then have "r = (k, w1)" using body by simp
        then show ?thesis using ok1 pw sig by (auto simp: detached_def signal_ok_def)
      next
        case again
        from 1(1) [OF this] show ?thesis using ok1 by simp
      next
        case timeout
        then obtain erased w2 where er: "erase_from_butex X i False WAITER_STATE_TIMEOUT w1 = Some (erased, w2)"
          unfolding A_def bind_Some_conv by auto
        with timeout have "Option.bind (waiters w2 i) (\<lambda>pw2. if \<not> erased \<and> \<not> w_sig pw2 then f X i False w2
            else Some (k, w2)) = Some r"
          unfolding A_def by simp
        then obtain pw2 :: waiter where r: "(if \<not> erased \<and> \<not> w_sig pw2 then f X i False w2 else Some (k, w2)) = Some r"
          unfolding bind_Some_conv by blast
        have ok2: "detached i w2 \<and> signal_ok i w2" by (rule erase_False_wait [OF assms(1,2) ok1 er])
        show ?thesis
        proof (cases "\<not> erased \<and> \<not> w_sig pw2")
          case True
          then have "f X i False w2 = Some r" using r by simp
          from 1(1) [OF this] show ?thesis using ok2 by simp
        next
          case False
          then have "r = (k, w2)" using r by (simp only: if_False option.inject)
          then show ?thesis using ok2 by simp
        qed
      qed
    qed
  qed
  from this [OF assms(4)] assms(3) have "detached i w' \<and> signal_ok i w'" by simp
  then show ?thesis unfolding signal_ok_def by blast
qed

text \<open>A timed wait of waiter 9 on butex 0 that times out: the futex call fails with \<open>ETIMEDOUT\<close>.\<close>

definition timeout_ext :: "(bthread_t list, bthread_t list, sim) ext" where
  "timeout_ext = demo_ext\<lparr>futex_wait := \<lambda>i timed w. (-1, set_errno ETIMEDOUT w)\<rparr>"

definition timeout_world :: demo_world where
  "timeout_world = demo_world None [demo_group 1 (make_tid 1 1) [] []] [9] [9 \<mapsto> demo_waiter 0 (Some 0) 0]"

lemma wait_pthread_detached_witness:
  "\<exists>w'. wait_pthread timeout_ext 9 True timeout_world = Some (-1, w') \<and> detached 9 w'
    \<and> map_option bx_waiters (butex_at w' 0) = Some []"
proof -
  have er: "\<exists>w'. wait_pthread timeout_ext 9 True timeout_world = Some (-1, w')
      \<and> map_option bx_waiters (butex_at w' 0) = Some []"
    by (simp add: wait_pthread.simps erase_from_butex_def erase_loop.simps timeout_ext_def timeout_world_def
        put_waiter_def put_butex_def set_errno_def demo_defs Let_def)
  have grab: "grab timeout_ext b w = w" and fw: "snd (futex_wait timeout_ext i t w) = set_errno ETIMEDOUT w"
    for b i t and w :: demo_world
    by (simp_all add: timeout_ext_def demo_ext_def)
  have "signal_ok i (set_errno ETIMEDOUT w) = signal_ok i w" for i and w :: demo_world
    using butexes_ok_cong [of "set_errno ETIMEDOUT w" w] by (simp add: signal_ok_def)
  then have w: "pthread_waits_ok timeout_ext" by (simp add: pthread_waits_ok_def grab fw)
  have g: "grabs_ok timeout_ext" by (simp add: grabs_ok_def grab)
  have s: "signal_ok 9 timeout_world"
    by (auto simp: signal_ok_def butexes_ok_def timeout_world_def demo_defs nth_opt_def nth_Cons
        split: nat.splits if_splits)
  from er show ?thesis using wait_pthread_detached [OF g w s] by blast
qed

end
