(* ===== verification/Sched.thy ===== *)
theory Sched
  imports Butex
begin

text \<open>
  Switching between bthreads (\<open>task_group.cpp\<close>, \<open>task_group_inl.h\<close>).  \<open>sched_to\<close> is cut where the stack is
  switched: what is executed before the jump belongs to the bthread that is left, what comes after it to
  the bthread that is entered, which runs the callback the other one set, restores its own errno and goes
  on.  The boolean of the results says whether there was a jump; without one the caller goes on.
\<close>

section \<open>The callbacks\<close>

definition set_remained ::
  "gid \<Rightarrow> remained \<Rightarrow> ('q, 'r, 'x) world \<Rightarrow> ('q, 'r, 'x) world option" where
  "set_remained g r w =
     do { tg \<leftarrow> group_at w g; Some (put_group g (tg\<lparr>tg_last_context_remained := Some r\<rparr>) w) }"

text \<open>\<open>_release_last_context\<close>: \<open>release_stack\<close> takes the stack out of the meta.\<close>

definition release_last_context ::
  "('q, 'r, 'x) ext \<Rightarrow> slot \<Rightarrow> ('q, 'r, 'x) world \<Rightarrow> ('q, 'r, 'x) world option" where
  "release_last_context X s w =
     do {
       m \<leftarrow> metas w s;
       let w1 = put_meta s (m\<lparr>tm_stack := None\<rparr>)
                  (if attr_stack_type (tm_attr m) \<noteq> STACK_TYPE_PTHREAD
                   then w\<lparr>outside := return_stack X (outside w) (tm_stack m)\<rparr> else w);
       Some (w1\<lparr>outside := return_meta X (outside w1) (get_slot (tm_tid m))\<rparr>)
     }"

definition add_sleep_event ::
  "('q, 'r, 'x) ext \<Rightarrow> sleep_args \<Rightarrow> ('q, 'r, 'x) world \<Rightarrow> ('q, 'r, 'x) world option" where
  "add_sleep_event X e w =
     do {
       let g = sa_group e;
       let (x, sleep_id) = timer_schedule X (outside w) (ReadyToRunFromTimerThread e) (uint (sa_timeout_us e));
       let w1 = w\<lparr>outside := x\<rparr>;
       (if sleep_id = 0 then ready_to_run X g (sa_tid e) False w1
        else do {
          m \<leftarrow> metas w1 (sa_meta e);
          v \<leftarrow> butex_at w1 (tm_version_butex m);
          (if get_version (sa_tid e) = bx_value v \<and> \<not> tm_interrupted m
           then Some (put_meta (sa_meta e) (m\<lparr>tm_current_sleep := sleep_id\<rparr>) w1)
           else
             let (x2, rc) = timer_unschedule X (outside w1) sleep_id;
                 w2 = w1\<lparr>outside := x2\<rparr>
             in (if rc = 0 then ready_to_run X g (sa_tid e) False w2 else Some w2))
        })
     }"

fun run_callback ::
  "('q, 'r, 'x) ext \<Rightarrow> remained \<Rightarrow> ('q, 'r, 'x) world \<Rightarrow> ('q, 'r, 'x) world option" where
  "run_callback X (ReadyToRunInWorker t ns) w = ready_to_run_in_worker X t ns w"
| "run_callback X (ReadyToRunInWorkerIgnoresignal t ns) w = ready_to_run_in_worker_ignoresignal X t w"
| "run_callback X (WaitForButex i) w = wait_for_butex X i w"
| "run_callback X (AddSleepEvent e) w = add_sleep_event X e w"
| "run_callback X (ReleaseLastContext s) w = release_last_context X s w"

text \<open>The loop \<open>while (g->_last_context_remained)\<close> of \<open>sched_to\<close> and \<open>task_runner\<close>.\<close>

partial_function (option) run_remained ::
  "('q, 'r, 'x) ext \<Rightarrow> gid \<Rightarrow> ('q, 'r, 'x) world \<Rightarrow> (gid \<times> ('q, 'r, 'x) world) option" where
  "run_remained X g w =
     do {
       tg \<leftarrow> group_at w g;
       (case tg_last_context_remained tg of
          None \<Rightarrow> Some (g, w)
        | Some r \<Rightarrow> do {
            w1 \<leftarrow> run_callback X r (put_group g (tg\<lparr>tg_last_context_remained := None\<rparr>) w);
            g1 \<leftarrow> tls_task_group (cur_tls w1);
            run_remained X g1 w1
          })
     }"

section \<open>\<open>sched_to\<close>\<close>

text \<open>The accounting at its beginning: the guard against recursion, the times and the counters.\<close>

definition sched_account ::
  "('q, 'r, 'x) ext \<Rightarrow> gid \<Rightarrow> slot \<Rightarrow> ('q, 'r, 'x) world \<Rightarrow> ('q, 'r, 'x) world option" where
  "sched_account X g cur w =
     do {
       tg \<leftarrow> group_at w g;
       mc \<leftarrow> metas w cur;
       let guard = tg_sched_recursive_guard tg + 1;
       let (x, now) = cpuwide_time_ns X (outside w);
       let elp_ns = now - tg_last_run_ns tg;
       let mc' = mc\<lparr>tm_stat := \<lparr>cputime_ns = cputime_ns (tm_stat mc) + elp_ns,
                                nswitch = nswitch (tm_stat mc) + 1\<rparr>\<rparr>;
       let tg' = tg\<lparr>tg_sched_recursive_guard := guard, tg_last_run_ns := now,
                    tg_cumulated_cputime_ns := tg_cumulated_cputime_ns tg +
                      (if tm_tid mc \<noteq> tg_main_tid tg then elp_ns else 0),
                    tg_nswitch := tg_nswitch tg + 1\<rparr>;
       let w1 = (if guard > 1 then log_fatal (FatalRecursiveSched (guard - 1)) w else w);
       Some (put_group g tg' (put_meta cur mc' (w1\<lparr>outside := x\<rparr>)))
     }"

text \<open>
  The switch: \<open>_cur_meta\<close> and the local storage always, the stack if the bthread that is left still has
  one and the next has another one.  The saved errno stays on the stack that is left.
\<close>

definition sched_switch ::
  "gid \<Rightarrow> slot \<Rightarrow> slot \<Rightarrow> ('q, 'r, 'x) world \<Rightarrow> (bool \<times> ('q, 'r, 'x) world) option" where
  "sched_switch g cur next w =
     do {
       tg \<leftarrow> group_at w g;
       mc \<leftarrow> metas w cur;
       mn \<leftarrow> metas w next;
       let w1 = put_meta cur (mc\<lparr>tm_local_storage := tls_bls (cur_tls w)\<rparr>)
                  (put_group g (tg\<lparr>tg_cur_meta := Some next\<rparr>) w);
       let w2 = w1\<lparr>cur_tls := (cur_tls w1)\<lparr>tls_bls := tm_local_storage mn\<rparr>\<rparr>;
       (if tm_stack mc \<noteq> None then
          if tm_stack mn \<noteq> tm_stack mc then
            Some (True, w2\<lparr>frames := (frames w2)(cur \<mapsto>
              \<lparr>sf_errno = tls_errno (cur_tls w), sf_unique_user_ptr = tls_unique_user_ptr (cur_tls w)\<rparr>)\<rparr>)
          else
            Some (False, if tm_stack mc = Some (tg_main_stack tg) then w2 else log_fatal CheckMainStack w2)
        else Some (False, log_fatal (FatalSchedToItself (tm_tid mn)) w2))
     }"

text \<open>
  What follows the switch, in the bthread that goes on: the callback, its errno (\<open>None\<close> when the bthread
  just starts in \<open>task_runner\<close>, which has nothing to restore) and the guard.
\<close>

definition sched_arrive ::
  "('q, 'r, 'x) ext \<Rightarrow> gid \<Rightarrow> sched_frame option \<Rightarrow> ('q, 'r, 'x) world \<Rightarrow> (gid \<times> ('q, 'r, 'x) world) option" where
  "sched_arrive X g frame w =
     do {
       (g1, w1) \<leftarrow> run_remained X g w;
       let w2 = (case frame of
                   None \<Rightarrow> w1
                 | Some f \<Rightarrow> w1\<lparr>cur_tls := (cur_tls w1)\<lparr>tls_errno := sf_errno f,
                                tls_unique_user_ptr := sf_unique_user_ptr f\<rparr>\<rparr>);
       tg \<leftarrow> group_at w2 g1;
       Some (g1, put_group g1 (tg\<lparr>tg_sched_recursive_guard := tg_sched_recursive_guard tg - 1\<rparr>) w2)
     }"

definition sched_to_meta ::
  "('q, 'r, 'x) ext \<Rightarrow> gid \<Rightarrow> slot \<Rightarrow> ('q, 'r, 'x) world \<Rightarrow> (bool \<times> gid \<times> ('q, 'r, 'x) world) option" where
  "sched_to_meta X g next w =
     do {
       tg \<leftarrow> group_at w g;
       cur \<leftarrow> tg_cur_meta tg;
       w1 \<leftarrow> sched_account X g cur w;
       (if next \<noteq> cur then do {
          (jumped, w2) \<leftarrow> sched_switch g cur next w1;
          (if jumped then do {
             g2 \<leftarrow> tls_task_group (cur_tls w2);
             r \<leftarrow> sched_arrive X g2 (frames w2 next) (w2\<lparr>frames := (frames w2)(next := None)\<rparr>);
             Some (True, r)
           }
           else do {
             r \<leftarrow> sched_arrive X g (Some \<lparr>sf_errno = tls_errno (cur_tls w),
                    sf_unique_user_ptr = tls_unique_user_ptr (cur_tls w)\<rparr>) w2;
             Some (False, r)
           })
        }
        else Some (False, g, w1))
     }"

text \<open>The overload for a tid: a bthread that has no stack yet gets one, or runs on the stack of the pthread.\<close>

definition give_stack ::
  "('q, 'r, 'x) ext \<Rightarrow> gid \<Rightarrow> slot \<Rightarrow> ('q, 'r, 'x) world \<Rightarrow> ('q, 'r, 'x) world option" where
  "give_stack X g s w =
     do {
       m \<leftarrow> metas w s;
       tg \<leftarrow> group_at w g;
       (case get_stack X (outside w) (attr_stack_type (tm_attr m)) of
          (x, Some stk) \<Rightarrow> Some (put_meta s (m\<lparr>tm_stack := Some stk\<rparr>) (w\<lparr>outside := x\<rparr>))
        | (x, None) \<Rightarrow>
            Some (put_meta s (m\<lparr>tm_stack := Some (tg_main_stack tg),
                              tm_attr := (tm_attr m)\<lparr>attr_stack_type := STACK_TYPE_PTHREAD\<rparr>\<rparr>)
                   (w\<lparr>outside := x\<rparr>)))
     }"

definition sched_to ::
  "('q, 'r, 'x) ext \<Rightarrow> gid \<Rightarrow> bthread_t \<Rightarrow> ('q, 'r, 'x) world \<Rightarrow> (bool \<times> gid \<times> ('q, 'r, 'x) world) option" where
  "sched_to X g next_tid w =
     do {
       next_meta \<leftarrow> address_meta w next_tid;
       w1 \<leftarrow> (if tm_stack next_meta = None then give_stack X g (get_slot next_tid) w else Some w);
       sched_to_meta X g (get_slot next_tid) w1
     }"

text \<open>\<open>exchange\<close>: in a pthread task the bthread is only made ready.\<close>

definition exchange ::
  "('q, 'r, 'x) ext \<Rightarrow> gid \<Rightarrow> bthread_t \<Rightarrow> ('q, 'r, 'x) world \<Rightarrow> (bool \<times> gid \<times> ('q, 'r, 'x) world) option" where
  "exchange X g next_tid w =
     do {
       tg \<leftarrow> group_at w g;
       cur \<leftarrow> tg_cur_meta tg;
       (if is_current_pthread_task X tg (metas w cur) then do {
          w1 \<leftarrow> ready_to_run X g next_tid False w;
          Some (False, g, w1)
        }
        else do {
          m \<leftarrow> metas w cur;
          w1 \<leftarrow> set_remained g
                 ((if tm_about_to_quit m then ReadyToRunInWorkerIgnoresignal else ReadyToRunInWorker)
                   (tm_tid m) False) w;
          sched_to X g next_tid w1
        })
     }"

section \<open>Choosing the next bthread\<close>

definition group_steal_task ::
  "('q, 'r, 'x) ext \<Rightarrow> gid \<Rightarrow> ('q, 'r, 'x) world \<Rightarrow> (bthread_t option \<times> ('q, 'r, 'x) world) option" where
  "group_steal_task X g w =
     do {
       tg \<leftarrow> group_at w g;
       (case rrq_pop X (tg_remote_rq tg) of
          (r, Some t) \<Rightarrow> Some (Some t, put_group g (tg\<lparr>tg_remote_rq := r\<rparr>) w)
        | (r, None) \<Rightarrow> do {
            let w1 = put_group g (tg\<lparr>tg_remote_rq := r, tg_last_pl_state := pl_value w (tg_pl tg)\<rparr>) w;
            (t, seed, w2) \<leftarrow> control_steal_task X (tg_steal_seed tg) (tg_steal_offset tg) w1;
            tg2 \<leftarrow> group_at w2 g;
            Some (t, put_group g (tg2\<lparr>tg_steal_seed := seed\<rparr>) w2)
          })
     }"

definition next_task ::
  "('q, 'r, 'x) ext \<Rightarrow> gid \<Rightarrow> ('q, 'r, 'x) world \<Rightarrow> (bthread_t \<times> ('q, 'r, 'x) world) option" where
  "next_task X g w =
     do {
       tg \<leftarrow> group_at w g;
       let (q, popped) = wsq_pop X (tg_rq tg);
       let w1 = put_group g (tg\<lparr>tg_rq := q\<rparr>) w;
       (case popped of
          Some t \<Rightarrow> Some (t, w1)
        | None \<Rightarrow> do {
            (t, w2) \<leftarrow> group_steal_task X g w1;
            Some (case t of None \<Rightarrow> tg_main_tid tg | Some t \<Rightarrow> t, w2)
          })
     }"

definition sched ::
  "('q, 'r, 'x) ext \<Rightarrow> gid \<Rightarrow> ('q, 'r, 'x) world \<Rightarrow> (bool \<times> gid \<times> ('q, 'r, 'x) world) option" where
  "sched X g w = do { (t, w1) \<leftarrow> next_task X g w; sched_to X g t w1 }"

definition yield ::
  "('q, 'r, 'x) ext \<Rightarrow> gid \<Rightarrow> ('q, 'r, 'x) world \<Rightarrow> (bool \<times> gid \<times> ('q, 'r, 'x) world) option" where
  "yield X g w =
     do {
       tg \<leftarrow> group_at w g;
       cur \<leftarrow> tg_cur_meta tg;
       m \<leftarrow> metas w cur;
       w1 \<leftarrow> set_remained g (ReadyToRunInWorker (tm_tid m) False) w;
       sched X g w1
     }"

text \<open>
  \<open>ending_sched\<close>: a next bthread that has no stack takes over the one of the bthread that ends, if it
  wants one of the same type.
\<close>

definition ending_sched ::
  "('q, 'r, 'x) ext \<Rightarrow> gid \<Rightarrow> ('q, 'r, 'x) world \<Rightarrow> (bool \<times> gid \<times> ('q, 'r, 'x) world) option" where
  "ending_sched X g w =
     do {
       (next_tid, w1) \<leftarrow> next_task X g w;
       tg \<leftarrow> group_at w1 g;
       cur \<leftarrow> tg_cur_meta tg;
       mc \<leftarrow> metas w1 cur;
       let next = get_slot next_tid;
       mn \<leftarrow> metas w1 next;
       w2 \<leftarrow> (if tm_stack mn \<noteq> None then Some w1
              else if attr_stack_type (tm_attr mn) = attr_stack_type (tm_attr mc) then
                Some (put_meta next (mn\<lparr>tm_stack := tm_stack mc\<rparr>) (put_meta cur (mc\<lparr>tm_stack := None\<rparr>) w1))
              else give_stack X g next w1);
       sched_to_meta X g next w2
     }"

section \<open>The idle loop\<close>

text \<open>
  \<open>wait_task\<close>: the worker sleeps in its lot, on the state it saved before its last attempt to steal,
  until it finds a task (Some) or the lot is stopped (None).
\<close>

partial_function (option) wait_task ::
  "('q, 'r, 'x) ext \<Rightarrow> gid \<Rightarrow> ('q, 'r, 'x) world \<Rightarrow> (bthread_t option \<times> ('q, 'r, 'x) world) option" where
  "wait_task X g w =
     do {
       tg \<leftarrow> group_at w g;
       (if pl_stopped (tg_last_pl_state tg) then Some (None, w)
        else do {
          let w1 = pl_wait X (tg_pl tg) (tg_last_pl_state tg) w;
          (t, w2) \<leftarrow> group_steal_task X g w1;
          (if t \<noteq> None then Some (t, w2) else wait_task X g w2)
        })
     }"

section \<open>Conservation of tasks across a switch\<close>

text \<open>
  \<open>switches X d e w w'\<close>: the tasks \<open>d\<close> enter the places and the tasks \<open>e\<close> leave them; the identifiers in metas and
  waiters stay, the thread keeps its group, and the waiter lists stay consistent.
\<close>

definition switches ::
  "('q, 'r, 'x) ext \<Rightarrow> bthread_t multiset \<Rightarrow> bthread_t multiset \<Rightarrow> ('q, 'r, 'x) world
   \<Rightarrow> ('q, 'r, 'x) world \<Rightarrow> bool" where
  "switches X d e w w' \<longleftrightarrow>
     tasks X w' + e = tasks X w + d
   \<and> tls_task_group (cur_tls w') = tls_task_group (cur_tls w)
   \<and> meta_tid w' = meta_tid w \<and> waiter_tid w' = waiter_tid w \<and> mains w' = mains w
   \<and> (butexes_ok w \<longrightarrow> butexes_ok w')"

lemma switches_trans:
  assumes "switches X d e u v" and "switches X d' e' v w"
  shows "switches X (d + d') (e + e') u w"
proof -
  have "tasks X w + e' + e = tasks X v + d' + e" using assms(2) by (simp add: switches_def)
  also have "\<dots> = (tasks X v + e) + d'" by (simp add: ac_simps)
  also have "\<dots> = tasks X u + d + d'" using assms(1) by (simp add: switches_def)
  finally show ?thesis using assms by (simp add: switches_def ac_simps)
qed

lemma switches_trans_0:
  "switches X {#} {#} u v \<Longrightarrow> switches X d e v w \<Longrightarrow> switches X d e u w"
  "switches X d e u v \<Longrightarrow> switches X {#} {#} v w \<Longrightarrow> switches X d e u w"
  "switches X d {#} u v \<Longrightarrow> switches X {#} e v w \<Longrightarrow> switches X d e u w"
  "switches X {#} e u v \<Longrightarrow> switches X d {#} v w \<Longrightarrow> switches X d e u w"
  using switches_trans by fastforce+

text \<open>What enters and leaves cancels.\<close>

lemma switches_cancel: "switches X (d + c) (e + c) u w \<Longrightarrow> switches X d e u w"
  by (simp add: switches_def)

lemma switches_cancel_0: "switches X c c u w \<Longrightarrow> switches X {#} {#} u w"
  using switches_cancel [of X "{#}" c "{#}" u w] by simp

lemma moves_switches: "moves X d w w' \<Longrightarrow> switches X d {#} w w'"
  by (simp add: moves_def switches_def steady_def)

lemma takes_switches: "takes X d w w' \<Longrightarrow> switches X {#} d w w'"
  by (simp add: takes_def switches_def steady_def)

lemma switches_cong:
  assumes "groups w' = groups w" and "meta_tid w' = meta_tid w" and "butexes w' = butexes w"
    and "waiters w' = waiters w" and "tls_task_group (cur_tls w') = tls_task_group (cur_tls w)"
  shows "switches X {#} {#} w w'"
  using assms tasks_cong [OF assms(1,2,3) waiter_tid_cong [OF assms(4)]] waiter_tid_cong [OF assms(4)]
    butexes_ok_cong [OF assms(3,4)] mains_cong [OF assms(1)] by (simp add: switches_def)

text \<open>Replacing a group.\<close>

lemma switches_put_group:
  assumes "group_at w g = Some tg" and "tg_main_tid tg' = tg_main_tid tg"
    and "group_tasks X (meta_tid w) (waiter_tid w) tg' + e = group_tasks X (meta_tid w) (waiter_tid w) tg + d"
  shows "switches X d e w (put_group g tg' w)"
proof -
  let ?G = "group_tasks X (meta_tid w) (waiter_tid w)" and ?w = "put_group g tg' w"
  have "tasks X ?w + e + ?G tg = (tasks X ?w + ?G tg) + e" by (simp add: ac_simps)
  also have "\<dots> = tasks X w + (?G tg' + e)" by (simp add: tasks_put_group [OF assms(1)] ac_simps)
  also have "\<dots> = tasks X w + d + ?G tg" by (simp only: assms(3)) (simp add: ac_simps)
  finally have "tasks X ?w + e + ?G tg = tasks X w + d + ?G tg" .
  then have "tasks X ?w + e = tasks X w + d" by simp
  then show ?thesis using butexes_ok_cong [of ?w w] mains_put_group [OF assms(1,2)] by (simp add: switches_def)
qed

lemma meta_tid_put_meta:
  "meta_tid w s = Some (tm_tid m) \<Longrightarrow> meta_tid (put_meta s m w) = meta_tid w"
  by (rule ext) (auto simp: meta_tid_def)

lemma meta_tid_Some: "metas w s = Some m \<Longrightarrow> meta_tid w s = Some (tm_tid m)"
  by (simp add: meta_tid_def)

lemma switches_put_meta:
  assumes "metas w s = Some m0" and "tm_tid m = tm_tid m0"
  shows "switches X {#} {#} w (put_meta s m w)"
  by (rule switches_cong) (simp_all add: meta_tid_put_meta meta_tid_Some [OF assms(1)] assms(2))

lemma run_callback_moves:
  assumes "ext_queues_ok X" and "naps_ok X" and "run_callback X r w = Some w'"
    and "\<And>i. r = WaitForButex i \<Longrightarrow> detached i w \<and> waiter_tid w i \<noteq> 0"
    and "\<And>e. r \<noteq> AddSleepEvent e"
  shows "moves X (remained_tids (waiter_tid w) (Some r)) w w'"
proof (cases r)
  case (ReadyToRunInWorker t ns)
  then show ?thesis using assms(3) ready_to_run_moves [OF assms(1,2)]
    by (auto simp: ready_to_run_in_worker_def bind_Some_conv remained_tids_def)
next
  case (ReadyToRunInWorkerIgnoresignal t ns)
  then show ?thesis using assms(3) local_push.loop_moves [OF assms(1,2)]
    by (auto simp: ready_to_run_in_worker_ignoresignal_def bind_Some_conv remained_tids_def)
next
  case (WaitForButex i)
  then obtain bw where bw: "waiters w i = Some bw" "w_container bw = None" "w_tid bw \<noteq> 0"
    using assms(4) by (auto simp: detached_def waiter_tid_def)
  then show ?thesis using assms(3) WaitForButex wait_for_butex_moves [OF assms(1,2) bw(1,3,2)]
    by (simp add: remained_tids_def waiter_tid_at)
next
  case (AddSleepEvent e)
  then show ?thesis using assms(5) by blast
next
  case (ReleaseLastContext s)
  then obtain m where m: "metas w s = Some m" using assms(3) by (auto simp: release_last_context_def bind_Some_conv)
  then have "meta_tid w' = meta_tid w" using assms(3) ReleaseLastContext
    by (auto simp: release_last_context_def Let_def meta_tid_def)
  moreover have "groups w' = groups w" "butexes w' = butexes w" "waiters w' = waiters w" "cur_tls w' = cur_tls w"
    using assms(3) ReleaseLastContext m by (auto simp: release_last_context_def Let_def)
  ultimately have "moves X {#} w w'"
    using tasks_cong [of w' w X] waiter_tid_cong [of w' w] butexes_ok_cong [of w' w] mains_cong [of w' w]
    by (auto simp: moves_def steady_def)
  then show ?thesis using ReleaseLastContext by (simp add: remained_tids_def)
qed

text \<open>The parts of a switch.\<close>

lemma sched_account_switches:
  assumes "sched_account X g cur w = Some w'"
  shows "switches X {#} {#} w w' \<and> cur_tls w' = cur_tls w \<and> frames w' = frames w \<and> waiters w' = waiters w
    \<and> (\<exists>tg tg'. group_at w g = Some tg \<and> group_at w' g = Some tg' \<and> tg_cur_meta tg' = tg_cur_meta tg
        \<and> tg_last_context_remained tg' = tg_last_context_remained tg \<and> tg_main_tid tg' = tg_main_tid tg
        \<and> tg_sched_recursive_guard tg' = tg_sched_recursive_guard tg + 1)"
proof -
  obtain tg mc where tg: "group_at w g = Some tg" and mc: "metas w cur = Some mc"
    using assms by (auto simp: sched_account_def bind_Some_conv)
  obtain x now where clk: "cpuwide_time_ns X (outside w) = (x, now)" by fastforce
  let ?guard = "tg_sched_recursive_guard tg + 1"
  let ?w1 = "if ?guard > 1 then log_fatal (FatalRecursiveSched (?guard - 1)) w else w"
  obtain mc' tg' where w': "w' = put_group g tg' (put_meta cur mc' (?w1\<lparr>outside := x\<rparr>))"
    and mc': "tm_tid mc' = tm_tid mc"
    and tg': "tg_cur_meta tg' = tg_cur_meta tg" "tg_last_context_remained tg' = tg_last_context_remained tg"
      "tg_main_tid tg' = tg_main_tid tg" "tg_sched_recursive_guard tg' = ?guard"
      "queue_of X tg' = queue_of X tg"
    using assms tg mc clk by (auto simp: sched_account_def Let_def queue_of_def)
  let ?w2 = "put_meta cur mc' (?w1\<lparr>outside := x\<rparr>)"
  have s1: "switches X {#} {#} w ?w2"
    by (rule switches_cong) (simp_all add: meta_tid_def fun_eq_iff mc mc')
  have "group_tasks X mt wt tg' = group_tasks X mt wt tg" for mt wt
    using tg' by (simp add: group_tasks_def running_in_def split: option.split)
  then have "switches X {#} {#} ?w2 w'" unfolding w' using tg tg'(3) by (intro switches_put_group) auto
  then show ?thesis using switches_trans_0(1) [OF s1] tg tg' w' by (auto simp: nth_opt_Some)
qed

definition run_part :: "('q, 'r, 'x) world \<Rightarrow> gid \<Rightarrow> slot \<Rightarrow> bthread_t multiset" where
  "run_part w g s =
     (case group_at w g of
        None \<Rightarrow> {#}
      | Some tg \<Rightarrow> running_in (meta_tid w) (tg\<lparr>tg_cur_meta := Some s\<rparr>))"

lemma run_part_cong:
  assumes "meta_tid w' = meta_tid w" and "group_at w g = Some tg" and "group_at w' g = Some tg'"
    and "tg_main_tid tg' = tg_main_tid tg"
  shows "run_part w' g s = run_part w g s"
  using assms by (simp add: run_part_def running_in_def split: option.split)

lemma sched_switch_switches:
  assumes "group_at w g = Some tg" and "tg_cur_meta tg = Some cur"
    and "sched_switch g cur next w = Some (jumped, w')"
  shows "switches X (run_part w g next) (run_part w g cur) w w'
    \<and> waiters w' = waiters w
    \<and> group_at w' g = Some (tg\<lparr>tg_cur_meta := Some next\<rparr>)"
proof -
  obtain mc mn where mc: "metas w cur = Some mc" and mn: "metas w next = Some mn"
    using assms(1,3) by (auto simp: sched_switch_def bind_Some_conv)
  let ?tg = "tg\<lparr>tg_cur_meta := Some next\<rparr>"
  let ?w1 = "put_group g ?tg w"
  have "tg = tg\<lparr>tg_cur_meta := Some cur\<rparr>" using assms(2) by simp
  then have "run_part w g cur = running_in (meta_tid w) tg" using assms(1) by (simp add: run_part_def)
  moreover have "run_part w g next = running_in (meta_tid w) ?tg" using assms(1) by (simp add: run_part_def)
  ultimately have s1: "switches X (run_part w g next) (run_part w g cur) w ?w1"
    by (intro switches_put_group [OF assms(1)]) (simp_all add: group_tasks_def queue_of_def ac_simps)
  have eqs: "groups w' = groups ?w1" "butexes w' = butexes ?w1" "waiters w' = waiters ?w1"
      "tls_task_group (cur_tls w') = tls_task_group (cur_tls ?w1)"
      "metas w' = (metas w)(cur \<mapsto> mc\<lparr>tm_local_storage := tls_bls (cur_tls w)\<rparr>)"
    using assms(1,3) mc mn by (auto simp: sched_switch_def Let_def split: if_splits)
  have "meta_tid w' = meta_tid ?w1" using eqs(5) mc by (auto simp: meta_tid_def fun_eq_iff)
  then have "switches X {#} {#} ?w1 w'" using eqs by (intro switches_cong) auto
  then show ?thesis using switches_trans_0(2) [OF s1] eqs(1,3) assms(1) by (auto simp: nth_opt_Some)
qed

text \<open>
  What a switch does apart from moving tasks.  \<open>quiet_call X x x'\<close>: a call of a function of the outside that has nothing
  to do with the timer led from \<open>x\<close> to \<open>x'\<close>.  \<open>calm X g w w'\<close>: from \<open>w\<close> to \<open>w'\<close> only such calls took place, and waiters, butexes, the fields
  of metas that say what a bthread waits for, and the callbacks of other groups than \<open>g\<close> are the same.
\<close>

inductive quiet_call :: "('q, 'r, 'x) ext \<Rightarrow> 'x \<Rightarrow> 'x \<Rightarrow> bool" for X x where
  quiet_same: "quiet_call X x x"
| quiet_clock: "cpuwide_time_ns X x = (x', ns) \<Longrightarrow> quiet_call X x x'"
| quiet_rand: "fast_rand X x = (x', n) \<Longrightarrow> quiet_call X x x'"
| quiet_time: "gettimeofday_us X x = (x', us) \<Longrightarrow> quiet_call X x x'"
| quiet_pthread: "new_pthread X x = (x', p) \<Longrightarrow> quiet_call X x x'"
| quiet_group: "new_task_group X x = (x', raw) \<Longrightarrow> quiet_call X x x'"
| quiet_rand_less: "fast_rand_less_than X x n = (x', i) \<Longrightarrow> quiet_call X x x'"
| quiet_get_stack: "get_stack X x t = (x', stk) \<Longrightarrow> quiet_call X x x'"
| quiet_return_stack: "quiet_call X x (return_stack X x stk)"
| quiet_return_meta: "quiet_call X x (return_meta X x s)"
| quiet_futex_wake: "futex_wake X x a n = (x', r) \<Longrightarrow> quiet_call X x x'"
| quiet_keytable: "quiet_call X x (return_keytable X x kt kn)"

lemmas quiet_callI = quiet_call.intros

definition meta_key :: "task_meta \<Rightarrow> bthread_t \<times> 64 word \<times> bid \<times> bool" where
  "meta_key m = (tm_tid m, tm_current_sleep m, tm_version_butex m, tm_interrupted m)"

definition calm :: "('q, 'r, 'x) ext \<Rightarrow> gid \<Rightarrow> ('q, 'r, 'x) world \<Rightarrow> ('q, 'r, 'x) world \<Rightarrow> bool" where
  "calm X g w w' \<longleftrightarrow>
     waiters w' = waiters w \<and> butexes w' = butexes w \<and> (quiet_call X)\<^sup>*\<^sup>* (outside w) (outside w')
   \<and> (\<forall>s. map_option meta_key (metas w' s) = map_option meta_key (metas w s))
   \<and> (\<forall>h. h \<noteq> g \<longrightarrow> map_option tg_last_context_remained (group_at w' h) = map_option tg_last_context_remained (group_at w h))"

lemma calm_refl [simp, intro]: "calm X g w w"
  by (simp add: calm_def)

lemma calm_trans [trans]: "calm X g u v \<Longrightarrow> calm X g v w \<Longrightarrow> calm X g u w"
  by (auto simp: calm_def)

lemma calm_quiet: "quiet_call X (outside w) x \<Longrightarrow> calm X g w (w\<lparr>outside := x\<rparr>)"
  by (simp add: calm_def)

lemma calm_put_group: "calm X g u w \<Longrightarrow> calm X g u (put_group g tg w)"
  by (simp add: calm_def)

lemma calm_put_meta: "calm X g u w \<Longrightarrow> metas w s = Some m \<Longrightarrow> meta_key m' = meta_key m \<Longrightarrow> calm X g u (put_meta s m' w)"
  by (clarsimp simp: calm_def) (metis option.simps(9))

lemma calm_same:
  assumes "calm X g u w" and "waiters w' = waiters w" and "butexes w' = butexes w" and "outside w' = outside w"
    and "metas w' = metas w" and "groups w' = groups w"
  shows "calm X g u w'"
  using assms by (simp add: calm_def)

lemma sched_account_calm:
  assumes "sched_account X g cur w = Some w'"
  shows "calm X g w w'"
proof -
  obtain tg mc where tg: "group_at w g = Some tg" and mc: "metas w cur = Some mc"
    using assms by (auto simp: sched_account_def bind_Some_conv)
  obtain x now where clk: "cpuwide_time_ns X (outside w) = (x, now)" by fastforce
  have 1: "calm X g w (w\<lparr>outside := x\<rparr>)" using quiet_clock [OF clk] by (rule calm_quiet)
  have 2: "calm X g w (log_fatal f w\<lparr>outside := x\<rparr>)" for f by (rule calm_same [OF 1]) simp_all
  from 1 2 show ?thesis using assms tg mc clk
    by (auto simp: sched_account_def Let_def meta_key_def intro!: calm_put_group calm_put_meta)
qed

lemma sched_switch_calm:
  assumes "sched_switch g cur next w = Some (j, w')"
  shows "calm X g w w'"
proof -
  obtain tg mc mn where tg: "group_at w g = Some tg" and mc: "metas w cur = Some mc" and mn: "metas w next = Some mn"
    using assms by (auto simp: sched_switch_def bind_Some_conv)
  let ?v = "put_meta cur (mc\<lparr>tm_local_storage := tls_bls (cur_tls w)\<rparr>) (put_group g (tg\<lparr>tg_cur_meta := Some next\<rparr>) w)"
  have "calm X g w ?v" using mc by (intro calm_put_meta calm_put_group) (simp_all add: meta_key_def)
  then show ?thesis using assms tg mc mn
    by (auto simp: sched_switch_def Let_def split: if_splits intro: calm_same [of X g w ?v])
qed

lemma give_stack_calm:
  assumes "give_stack X g s w = Some w'"
  shows "calm X g w w'"
proof -
  obtain m where m: "metas w s = Some m" using assms by (auto simp: give_stack_def bind_Some_conv)
  obtain x stk where st: "get_stack X (outside w) (attr_stack_type (tm_attr m)) = (x, stk)" by fastforce
  have "calm X g w (w\<lparr>outside := x\<rparr>)" using quiet_get_stack [OF st] by (rule calm_quiet)
  then have "calm X g w (put_meta s m' (w\<lparr>outside := x\<rparr>))" if "meta_key m' = meta_key m" for m'
    using that m by (intro calm_put_meta) simp_all
  then show ?thesis using assms m st
    by (cases stk) (auto simp: give_stack_def bind_Some_conv meta_key_def)
qed

lemma give_stack_spec:
  assumes "give_stack X g s w = Some w'"
  shows "switches X {#} {#} w w'" "groups w' = groups w" "waiters w' = waiters w" "cur_tls w' = cur_tls w"
proof -
  obtain m tg where m: "metas w s = Some m" and tg: "group_at w g = Some tg"
    using assms by (auto simp: give_stack_def bind_Some_conv)
  obtain x stk where st: "get_stack X (outside w) (attr_stack_type (tm_attr m)) = (x, stk)" by fastforce
  have "\<exists>m'. tm_tid m' = tm_tid m \<and> w' = put_meta s m' (w\<lparr>outside := x\<rparr>)"
  proof (cases stk)
    case None
    then show ?thesis using assms m tg st
      by (intro exI [of _ "m\<lparr>tm_stack := Some (tg_main_stack tg),
          tm_attr := (tm_attr m)\<lparr>attr_stack_type := STACK_TYPE_PTHREAD\<rparr>\<rparr>"]) (auto simp: give_stack_def)
  next
    case (Some k)
    then show ?thesis using assms m tg st
      by (intro exI [of _ "m\<lparr>tm_stack := Some k\<rparr>"]) (auto simp: give_stack_def)
  qed
  then obtain m' where m': "tm_tid m' = tm_tid m" "w' = put_meta s m' (w\<lparr>outside := x\<rparr>)" by blast
  have "switches X {#} {#} w (w\<lparr>outside := x\<rparr>)" by (rule switches_cong) (auto intro: meta_tid_cong)
  moreover have "switches X {#} {#} (w\<lparr>outside := x\<rparr>) w'"
    unfolding m'(2) by (rule switches_put_meta [of _ s m]) (simp_all add: m m')
  ultimately show "switches X {#} {#} w w'" by (rule switches_trans_0(1))
  show "groups w' = groups w" "waiters w' = waiters w" "cur_tls w' = cur_tls w" by (simp_all add: m')
qed

text \<open>
  The callback that was set, if any, is run in a world in which the group has none.  What follows is stated for any callback
  that leaves the private part of the group alone.
\<close>

definition callback_run ::
  "('q, 'r, 'x) ext \<Rightarrow> remained option \<Rightarrow> ('q, 'r, 'x) world \<Rightarrow> ('q, 'r, 'x) world \<Rightarrow> bool" where
  "callback_run X r w w' \<longleftrightarrow> (case r of None \<Rightarrow> w' = w | Some r \<Rightarrow> run_callback X r w = Some w')"

definition callback_moves :: "('q, 'r, 'x) ext \<Rightarrow> remained option \<Rightarrow> ('q, 'r, 'x) world \<Rightarrow> bool" where
  "callback_moves X r w \<longleftrightarrow>
     (\<forall>v v'. waiters v = waiters w \<longrightarrow> callback_run X r v v' \<longrightarrow> (\<exists>d. moves X d v v'))"

lemma callback_moves_cong: "waiters w' = waiters w \<Longrightarrow> callback_moves X r w' = callback_moves X r w"
  by (simp add: callback_moves_def)

lemma run_remained_none:
  "group_at w g = Some tg \<Longrightarrow> tg_last_context_remained tg = None \<Longrightarrow> run_remained X g w = Some (g, w)"
  by (subst run_remained.simps) simp

lemma put_group_same: "group_at w g = Some tg \<Longrightarrow> put_group g tg w = w"
  by (cases w) (auto simp: put_group_def nth_opt_Some list_update_same_conv)

lemma run_remained_splits:
  assumes "tls_task_group (cur_tls w) = Some g" and "group_at w g = Some tg"
    and "callback_moves X (tg_last_context_remained tg) w" and "run_remained X g w = Some (g', w')"
  shows "callback_run X (tg_last_context_remained tg) (put_group g (tg\<lparr>tg_last_context_remained := None\<rparr>) w) w' \<and> g' = g
    \<and> cur_tls w' = cur_tls w
    \<and> (\<exists>tg'. group_at w' g = Some tg' \<and> queue_part_only (tg\<lparr>tg_last_context_remained := None\<rparr>) tg')"
proof -
  let ?tg = "tg\<lparr>tg_last_context_remained := None\<rparr>"
  let ?w1 = "put_group g ?tg w"
  have own: "tls_task_group (cur_tls ?w1) = Some g" "group_at ?w1 g = Some ?tg"
    using assms(1,2) by (simp_all add: nth_opt_Some)
  show ?thesis
  proof (cases "tg_last_context_remained tg")
    case None
    then have "tg = ?tg" by simp
    then have "put_group g ?tg w = w" "queue_part_only ?tg tg" using put_group_same [OF assms(2)] queue_part_only_refl by metis+
    then show ?thesis using run_remained_none [OF assms(2) None, of X] assms(2,4) None by (auto simp: callback_run_def)
  next
    case (Some r)
    obtain w2 where cb: "run_callback X r ?w1 = Some w2"
      and loop: "Option.bind (tls_task_group (cur_tls w2)) (\<lambda>g1. run_remained X g1 w2) = Some (g', w')"
      using assms(4) by (subst (asm) run_remained.simps) (auto simp: assms(2) Some bind_Some_conv)
    have cr: "callback_run X (tg_last_context_remained tg) ?w1 w2" using cb Some by (simp add: callback_run_def)
    then obtain d where mv: "moves X d ?w1 w2"
      using assms(3) [unfolded callback_moves_def, rule_format, of ?w1 w2] by auto
    obtain tg2 where tg2: "group_at w2 g = Some tg2" "queue_part_only ?tg tg2" using moves_own [OF mv own] by blast
    have tls: "cur_tls w2 = cur_tls w" using steady_sels(1) [OF moves_steady(1) [OF mv]] by simp
    have "tg_last_context_remained tg2 = None" using queue_part_only_same(5) [OF tg2(2)] by simp
    then have "g' = g" "w' = w2" using loop tls assms(1) run_remained_none [OF tg2(1), of X] by simp_all
    then show ?thesis using cr tls tg2 by simp
  qed
qed

text \<open>What a bthread may have set before it calls \<open>sched_to\<close>; the callback of \<open>usleep\<close> is treated with the timer.\<close>

definition remained_ok :: "('q, 'r, 'x) world \<Rightarrow> remained option \<Rightarrow> bool" where
  "remained_ok w r \<longleftrightarrow>
     (\<forall>i. r = Some (WaitForButex i) \<longrightarrow> detached i w \<and> waiter_tid w i \<noteq> 0)
   \<and> (\<forall>e. r \<noteq> Some (AddSleepEvent e))"

lemma remained_ok_cong:
  "waiters w' = waiters w \<Longrightarrow> remained_ok w' r = remained_ok w r"
  by (simp add: remained_ok_def detached_def waiter_tid_def)

lemma callback_run_moves:
  assumes "ext_queues_ok X" and "naps_ok X" and "remained_ok w r" and "waiters v = waiters w" and "callback_run X r v v'"
  shows "moves X (remained_tids (waiter_tid w) r) v v'"
proof (cases r)
  case None
  then show ?thesis using assms(5) by (simp add: callback_run_def remained_tids_def moves_refl)
next
  case (Some c)
  have "waiter_tid v = waiter_tid w" by (rule waiter_tid_cong [OF assms(4)])
  then show ?thesis using run_callback_moves [OF assms(1,2), of c v v'] assms(3-5) Some
    by (auto simp: callback_run_def remained_ok_def detached_def)
qed

lemma remained_ok_moves: "ext_queues_ok X \<Longrightarrow> naps_ok X \<Longrightarrow> remained_ok w r \<Longrightarrow> callback_moves X r w"
  unfolding callback_moves_def using callback_run_moves by blast

definition arrives_in :: "gid \<Rightarrow> ('q, 'r) task_group \<Rightarrow> slot \<Rightarrow> ('q, 'r, 'x) world \<Rightarrow> bool" where
  "arrives_in g tg next w \<longleftrightarrow>
     (\<exists>tg'. group_at w g = Some tg' \<and> tg_cur_meta tg' = Some next \<and> tg_last_context_remained tg' = None
        \<and> tg_main_tid tg' = tg_main_tid tg
        \<and> tg_sched_recursive_guard tg' = tg_sched_recursive_guard tg - 1)"

lemma sched_arrive_splits:
  assumes "tls_task_group (cur_tls w) = Some g" and "group_at w g = Some tg"
    and "callback_moves X (tg_last_context_remained tg) w"
    and "sched_arrive X g fr w = Some (g', w')" and "tg_cur_meta tg = Some next"
  shows "\<exists>v. callback_run X (tg_last_context_remained tg) (put_group g (tg\<lparr>tg_last_context_remained := None\<rparr>) w) v
    \<and> switches X {#} {#} v w' \<and> calm X g v w' \<and> g' = g \<and> arrives_in g tg next w'
    \<and> (\<forall>f. fr = Some f \<longrightarrow> tls_errno (cur_tls w') = sf_errno f
         \<and> tls_unique_user_ptr (cur_tls w') = sf_unique_user_ptr f)"
proof -
  obtain g1 w1 where rem: "run_remained X g w = Some (g1, w1)"
    using assms(4) by (auto simp: sched_arrive_def bind_Some_conv)
  note ex = run_remained_splits [OF assms(1-3) rem]
  then obtain u where u: "group_at w1 g = Some u" "queue_part_only (tg\<lparr>tg_last_context_remained := None\<rparr>) u" by blast
  define w2 where "w2 = (case fr of None \<Rightarrow> w1 | Some f \<Rightarrow> w1\<lparr>cur_tls := (cur_tls w1)\<lparr>tls_errno := sf_errno f,
      tls_unique_user_ptr := sf_unique_user_ptr f\<rparr>\<rparr>)"
  have w2: "groups w2 = groups w1" "metas w2 = metas w1" "butexes w2 = butexes w1" "waiters w2 = waiters w1"
    "tls_task_group (cur_tls w2) = tls_task_group (cur_tls w1)" "outside w2 = outside w1"
    by (auto simp: w2_def split: option.split)
  let ?u = "u\<lparr>tg_sched_recursive_guard := tg_sched_recursive_guard u - 1\<rparr>"
  have w': "g' = g" "w' = put_group g ?u w2"
    using assms(4) rem ex u(1) w2(1) by (auto simp: sched_arrive_def w2_def [symmetric] bind_Some_conv Let_def)
  have "switches X {#} {#} w1 w2" using w2 by (intro switches_cong meta_tid_cong) auto
  moreover have "switches X {#} {#} w2 w'" unfolding w'(2) using u(1) w2(1)
    by (intro switches_put_group [of w2 g u])
      (auto simp: group_tasks_def queue_of_def running_in_def split: option.split)
  ultimately have sw: "switches X {#} {#} w1 w'" using switches_trans_0(1) by blast
  have cm: "calm X g w1 w'" unfolding w'(2) using w2 by (intro calm_put_group calm_same [OF calm_refl]) simp_all
  have "arrives_in g tg next w'"
    using u w2(1) assms(5) queue_part_only_same [OF u(2)]
    by (auto simp: arrives_in_def w' nth_opt_Some)
  then show ?thesis using ex sw cm by (auto simp: w' w2_def)
qed

lemma cleared_switches:
  assumes "group_at w g = Some tg"
  shows "switches X {#} (remained_tids (waiter_tid w) (tg_last_context_remained tg)) w
    (put_group g (tg\<lparr>tg_last_context_remained := None\<rparr>) w)"
  by (intro switches_put_group [OF assms])
    (simp_all add: group_tasks_def queue_of_def running_in_def remained_tids_def split: option.split)

lemma sched_arrive_switches:
  assumes "ext_queues_ok X" and "naps_ok X" and "tls_task_group (cur_tls w) = Some g"
    and "group_at w g = Some tg" and "remained_ok w (tg_last_context_remained tg)"
    and "sched_arrive X g fr w = Some (g', w')" and "tg_cur_meta tg = Some next"
  shows "\<forall>f. fr = Some f \<longrightarrow> tls_errno (cur_tls w') = sf_errno f
         \<and> tls_unique_user_ptr (cur_tls w') = sf_unique_user_ptr f"
  using sched_arrive_splits [OF assms(3,4) remained_ok_moves [OF assms(1,2,5)] assms(6,7)] by blast

text \<open>
  \<open>switch_splits\<close>: the switch leads to \<open>v\<close>, in which the group has its callback still; then the callback is run, and a calm rest
  leads to \<open>w'\<close>.
\<close>

definition switch_splits ::
  "('q, 'r, 'x) ext \<Rightarrow> gid \<Rightarrow> ('q, 'r) task_group \<Rightarrow> slot \<Rightarrow> slot \<Rightarrow> ('q, 'r, 'x) world \<Rightarrow> ('q, 'r, 'x) world \<Rightarrow> bool" where
  "switch_splits X g tg cur next w w' \<longleftrightarrow>
     (\<exists>v tgv v'. switches X (run_part w g next) (run_part w g cur) w v \<and> calm X g w v
        \<and> group_at v g = Some tgv \<and> tg_last_context_remained tgv = tg_last_context_remained tg
        \<and> callback_run X (tg_last_context_remained tg) (put_group g (tgv\<lparr>tg_last_context_remained := None\<rparr>) v) v'
        \<and> switches X {#} {#} v' w' \<and> calm X g v' w')
   \<and> (\<exists>tg'. group_at w' g = Some tg' \<and> tg_cur_meta tg' = Some next \<and> tg_last_context_remained tg' = None
        \<and> tg_main_tid tg' = tg_main_tid tg
        \<and> tg_sched_recursive_guard tg' = tg_sched_recursive_guard tg)"

lemma switch_splitsI:
  assumes "switches X (run_part w g next) (run_part w g cur) w v" and "calm X g w v"
    and "group_at v g = Some tgv" and "tg_last_context_remained tgv = tg_last_context_remained tg"
    and "callback_run X (tg_last_context_remained tg) (put_group g (tgv\<lparr>tg_last_context_remained := None\<rparr>) v) v'"
    and "switches X {#} {#} v' w'" and "calm X g v' w'"
    and "group_at w' g = Some tg'" and "tg_cur_meta tg' = Some next" and "tg_last_context_remained tg' = None"
    and "tg_main_tid tg' = tg_main_tid tg" and "tg_sched_recursive_guard tg' = tg_sched_recursive_guard tg"
  shows "switch_splits X g tg cur next w w'"
  unfolding switch_splits_def using assms by blast

lemma sched_to_meta_splits:
  assumes "tls_task_group (cur_tls w) = Some g"
    and "group_at w g = Some tg" and "tg_cur_meta tg = Some cur" and "next \<noteq> cur"
    and "callback_moves X (tg_last_context_remained tg) w"
    and "sched_to_meta X g next w = Some (jumped, g', w')"
  shows "switch_splits X g tg cur next w w' \<and> g' = g"
proof -
  obtain w1 where acc: "sched_account X g cur w = Some w1"
    using assms(2,3,6) by (auto simp: sched_to_meta_def bind_Some_conv)
  obtain j w2 where sw: "sched_switch g cur next w1 = Some (j, w2)"
    using assms(2-4,6) acc by (auto simp: sched_to_meta_def bind_Some_conv)
  obtain tg1 where tg1: "group_at w1 g = Some tg1" "tg_cur_meta tg1 = Some cur" "tg_main_tid tg1 = tg_main_tid tg"
      "tg_last_context_remained tg1 = tg_last_context_remained tg"
      "tg_sched_recursive_guard tg1 = tg_sched_recursive_guard tg + 1"
    and s1: "switches X {#} {#} w w1" "waiters w1 = waiters w"
    using sched_account_switches [OF acc] assms(2,3) by auto
  note s2 = sched_switch_switches [OF tg1(1,2) sw, of X]
  have part: "run_part w1 g s = run_part w g s" for s
    using s1(1) by (intro run_part_cong [OF _ assms(2) tg1(1) tg1(3)]) (simp add: switches_def)
  let ?tg2 = "tg1\<lparr>tg_cur_meta := Some next\<rparr>"
  have own: "tls_task_group (cur_tls w2) = Some g"
    using s1(1) s2 assms(1) by (simp add: switches_def)
  define w3 where "w3 = (if j then w2\<lparr>frames := (frames w2)(next := None)\<rparr> else w2)"
  have w3: "groups w3 = groups w2" "waiters w3 = waiters w2" "cur_tls w3 = cur_tls w2" "metas w3 = metas w2"
    "butexes w3 = butexes w2" "outside w3 = outside w2" by (simp_all add: w3_def)
  have "\<exists>fr. sched_arrive X g fr w3 = Some (g', w')"
    using assms(2-4,6) acc sw own by (auto simp: sched_to_meta_def bind_Some_conv w3_def split: if_splits)
  then obtain fr where arr: "sched_arrive X g fr w3 = Some (g', w')" by blast
  have cb: "callback_moves X (tg_last_context_remained ?tg2) w3"
    using assms(5) tg1(4) callback_moves_cong [of w3 w] w3(2) s2 s1(2) by simp
  have g3: "group_at w3 g = Some ?tg2" using w3(1) s2 by simp
  obtain v where v: "callback_run X (tg_last_context_remained ?tg2) (put_group g (?tg2\<lparr>tg_last_context_remained := None\<rparr>) w3) v"
    and s3: "switches X {#} {#} v w'" "calm X g v w'" "g' = g" "arrives_in g ?tg2 next w'"
    using sched_arrive_splits [OF _ g3 cb arr] own w3(3) by auto
  have "switches X {#} {#} w2 w3" using w3 by (intro switches_cong meta_tid_cong) auto
  then have "switches X (run_part w g next) (run_part w g cur) w w3"
    using s1(1) s2 switches_trans_0(1,2) unfolding part by blast
  moreover have "calm X g w w3"
    by (rule calm_same [OF calm_trans [OF sched_account_calm [OF acc] sched_switch_calm [OF sw]]]) (simp_all add: w3)
  moreover obtain tg' where "group_at w' g = Some tg'" "tg_cur_meta tg' = Some next" "tg_last_context_remained tg' = None"
    "tg_main_tid tg' = tg_main_tid tg" "tg_sched_recursive_guard tg' = tg_sched_recursive_guard tg"
    using s3(4) tg1(3,5) by (auto simp: arrives_in_def)
  ultimately show ?thesis using switch_splitsI [OF _ _ g3 _ _ s3(1,2)] v s3(3) tg1(4) by simp
qed

lemma switch_splits_after:
  assumes "switches X {#} {#} w w1" and "calm X g w w1" and "\<And>s. run_part w1 g s = run_part w g s"
    and "switch_splits X g tg cur next w1 w'"
  shows "switch_splits X g tg cur next w w'"
proof -
  obtain v tgv v' tg' where s: "switches X (run_part w1 g next) (run_part w1 g cur) w1 v" "calm X g w1 v"
    "group_at v g = Some tgv" "tg_last_context_remained tgv = tg_last_context_remained tg"
    "callback_run X (tg_last_context_remained tg) (put_group g (tgv\<lparr>tg_last_context_remained := None\<rparr>) v) v'"
    "switches X {#} {#} v' w'" "calm X g v' w'"
    "group_at w' g = Some tg'" "tg_cur_meta tg' = Some next" "tg_last_context_remained tg' = None"
    "tg_main_tid tg' = tg_main_tid tg" "tg_sched_recursive_guard tg' = tg_sched_recursive_guard tg"
    using assms(4) unfolding switch_splits_def by blast
  have "switches X (run_part w g next) (run_part w g cur) w v"
    using switches_trans_0(1) [OF assms(1) s(1)] by (simp add: assms(3))
  then show ?thesis using calm_trans [OF assms(2) s(2)] s(3-) by (rule switch_splitsI)
qed

lemma sched_to_splits:
  assumes "tls_task_group (cur_tls w) = Some g"
    and "group_at w g = Some tg" and "tg_cur_meta tg = Some cur" and "get_slot t \<noteq> cur"
    and "callback_moves X (tg_last_context_remained tg) w"
    and "sched_to X g t w = Some (jumped, g', w')"
  shows "switch_splits X g tg cur (get_slot t) w w' \<and> g' = g"
proof -
  obtain m where m: "metas w (get_slot t) = Some m"
    using assms(6) by (auto simp: sched_to_def address_meta_def bind_Some_conv)
  show ?thesis
  proof (cases "tm_stack m = None")
    case False
    then have "sched_to_meta X g (get_slot t) w = Some (jumped, g', w')"
      using assms(6) m by (auto simp: sched_to_def address_meta_def)
    then show ?thesis by (rule sched_to_meta_splits [OF assms(1-5)])
  next
    case True
    then obtain w1 where gs: "give_stack X g (get_slot t) w = Some w1"
      and sm: "sched_to_meta X g (get_slot t) w1 = Some (jumped, g', w')"
      using assms(6) m by (auto simp: sched_to_def address_meta_def bind_Some_conv)
    note same = give_stack_spec [OF gs] and c1 = give_stack_calm [OF gs]
    have "callback_moves X (tg_last_context_remained tg) w1" using assms(5) callback_moves_cong [OF same(3)] by simp
    then have "switch_splits X g tg cur (get_slot t) w1 w' \<and> g' = g"
      using assms(1,2) same(2,4) by (intro sched_to_meta_splits [OF _ _ assms(3,4) _ sm]) simp_all
    moreover have "run_part w1 g s = run_part w g s" for s
      using same(1,2) assms(2) by (intro run_part_cong [OF _ assms(2)]) (auto simp: switches_def)
    ultimately show ?thesis using switch_splits_after [OF same(1) c1] by blast
  qed
qed

text \<open>For the other callbacks the three parts together move no task but the two that are switched.\<close>

lemma switch_splits_switches:
  assumes "ext_queues_ok X" and "naps_ok X" and "remained_ok w (tg_last_context_remained tg)"
    and "switch_splits X g tg cur next w w'"
  shows "switches X (run_part w g next) (run_part w g cur) w w'
    \<and> (\<exists>tg'. group_at w' g = Some tg' \<and> tg_cur_meta tg' = Some next \<and> tg_last_context_remained tg' = None
         \<and> tg_main_tid tg' = tg_main_tid tg
         \<and> tg_sched_recursive_guard tg' = tg_sched_recursive_guard tg)"
proof -
  let ?r = "tg_last_context_remained tg"
  obtain v tgv v' where s1: "switches X (run_part w g next) (run_part w g cur) w v" and cm: "calm X g w v"
    and tgv: "group_at v g = Some tgv" "tg_last_context_remained tgv = ?r"
    and cb: "callback_run X ?r (put_group g (tgv\<lparr>tg_last_context_remained := None\<rparr>) v) v'"
    and s3: "switches X {#} {#} v' w'"
    using assms(4) by (auto simp: switch_splits_def)
  have "waiters v = waiters w" using cm by (simp add: calm_def)
  then have mv: "moves X (remained_tids (waiter_tid w) ?r) (put_group g (tgv\<lparr>tg_last_context_remained := None\<rparr>) v) v'"
    and wt: "waiter_tid v = waiter_tid w"
    using callback_run_moves [OF assms(1-3) _ cb] by (simp_all add: waiter_tid_def fun_eq_iff)
  have "switches X {#} (remained_tids (waiter_tid w) ?r) v (put_group g (tgv\<lparr>tg_last_context_remained := None\<rparr>) v)"
    using cleared_switches [OF tgv(1), of X] wt tgv(2) by simp
  from switches_cancel_0 [OF switches_trans_0(4) [OF this moves_switches [OF mv]]]
  have "switches X {#} {#} v w'" using s3 switches_trans_0(1) by blast
  then show ?thesis using s1 assms(4) switches_trans_0(2) unfolding switch_splits_def by blast
qed

lemma sched_to_meta_switches:
  assumes "ext_queues_ok X" and "naps_ok X" and "tls_task_group (cur_tls w) = Some g"
    and "group_at w g = Some tg" and "tg_cur_meta tg = Some cur" and "next \<noteq> cur"
    and "remained_ok w (tg_last_context_remained tg)"
    and "sched_to_meta X g next w = Some (jumped, g', w')"
  shows "switches X (run_part w g next) (run_part w g cur) w w' \<and> g' = g
    \<and> (\<exists>tg'. group_at w' g = Some tg' \<and> tg_cur_meta tg' = Some next \<and> tg_last_context_remained tg' = None
         \<and> tg_main_tid tg' = tg_main_tid tg
         \<and> tg_sched_recursive_guard tg' = tg_sched_recursive_guard tg)"
  using switch_splits_switches [OF assms(1,2,7)]
    sched_to_meta_splits [OF assms(3-6) remained_ok_moves [OF assms(1,2,7)] assms(8)] by blast

lemma sched_to_switches:
  assumes "ext_queues_ok X" and "naps_ok X" and "tls_task_group (cur_tls w) = Some g"
    and "group_at w g = Some tg" and "tg_cur_meta tg = Some cur" and "get_slot t \<noteq> cur"
    and "remained_ok w (tg_last_context_remained tg)"
    and "sched_to X g t w = Some (jumped, g', w')"
  shows "switches X (run_part w g (get_slot t)) (run_part w g cur) w w' \<and> g' = g
    \<and> (\<exists>tg'. group_at w' g = Some tg' \<and> tg_cur_meta tg' = Some (get_slot t)
         \<and> tg_last_context_remained tg' = None \<and> tg_main_tid tg' = tg_main_tid tg
         \<and> tg_sched_recursive_guard tg' = tg_sched_recursive_guard tg)"
  using switch_splits_switches [OF assms(1,2,7)]
    sched_to_splits [OF assms(3-6) remained_ok_moves [OF assms(1,2,7)] assms(8)] by blast

text \<open>A bthread that is alive, and the one that runs now.\<close>

definition live_task :: "('q, 'r, 'x) world \<Rightarrow> bthread_t \<Rightarrow> bool" where
  "live_task w t \<longleftrightarrow> meta_tid w (get_slot t) = Some t"

lemma run_part_live:
  "group_at w g = Some tg \<Longrightarrow> live_task w t \<Longrightarrow>
   run_part w g (get_slot t) = (if t = tg_main_tid tg then {#} else {#t#})"
  by (simp add: run_part_def running_in_def live_task_def)

lemma run_part_cur:
  "group_at w g = Some tg \<Longrightarrow> metas w cur = Some m \<Longrightarrow>
   run_part w g cur = (if tm_tid m = tg_main_tid tg then {#} else {#tm_tid m#})"
  by (simp add: run_part_def running_in_def meta_tid_def)

text \<open>Setting the callback that makes the running bthread ready again.\<close>

lemma set_remained_switches:
  assumes "group_at w g = Some tg" and "tg_last_context_remained tg = None"
    and "set_remained g r w = Some w'"
  shows "switches X (remained_tids (waiter_tid w) (Some r)) {#} w w'
    \<and> w' = put_group g (tg\<lparr>tg_last_context_remained := Some r\<rparr>) w"
proof -
  have w': "w' = put_group g (tg\<lparr>tg_last_context_remained := Some r\<rparr>) w"
    using assms by (simp add: set_remained_def)
  have "remained_tids (waiter_tid w) None = {#}" by (simp add: remained_tids_def)
  then show ?thesis unfolding w' using assms(2)
    by (intro conjI switches_put_group [OF assms(1)])
      (auto simp: group_tasks_def queue_of_def running_in_def split: option.split)
qed

lemma yield_to_switches:
  assumes "ext_queues_ok X" and "naps_ok X" and "tls_task_group (cur_tls w) = Some g"
    and "group_at w g = Some tg" and "tg_cur_meta tg = Some cur" and "metas w cur = Some m"
    and "tm_tid m \<noteq> tg_main_tid tg" and "tg_last_context_remained tg = None"
    and "get_slot t \<noteq> cur" and "live_task w t"
    and "r = ReadyToRunInWorker (tm_tid m) ns \<or> r = ReadyToRunInWorkerIgnoresignal (tm_tid m) ns"
    and "set_remained g r w = Some w1" and "sched_to X g t w1 = Some (jumped, g', w')"
  shows "switches X (if t = tg_main_tid tg then {#} else {#t#}) {#} w w' \<and> g' = g
    \<and> map_option tg_cur_meta (group_at w' g) = Some (Some (get_slot t))"
proof -
  note s1 = set_remained_switches [OF assms(4,8,12), of X]
  let ?tg = "tg\<lparr>tg_last_context_remained := Some r\<rparr>"
  have rem: "remained_tids (waiter_tid w) (Some r) = {#tm_tid m#}" using assms(11) by (auto simp: remained_tids_def)
  have g1: "group_at w1 g = Some ?tg" and own: "tls_task_group (cur_tls w1) = Some g"
    and live: "live_task w1 t" and m1: "metas w1 cur = Some m"
    using s1 assms(3,4,6,10) by (auto simp: live_task_def nth_opt_Some)
  have "remained_ok w1 (tg_last_context_remained ?tg)" using assms(11) by (auto simp: remained_ok_def)
  from sched_to_switches [OF assms(1,2) own g1 _ assms(9) this assms(13)] assms(5)
  have sw: "switches X (run_part w1 g (get_slot t)) (run_part w1 g cur) w1 w' \<and> g' = g"
    and now: "map_option tg_cur_meta (group_at w' g) = Some (Some (get_slot t))" by auto
  note sw moreover have "run_part w1 g (get_slot t) = (if t = tg_main_tid tg then {#} else {#t#})"
    using run_part_live [OF g1 live] by simp
  moreover have "run_part w1 g cur = {#tm_tid m#}" using run_part_cur [OF g1 m1] assms(7) by simp
  ultimately have s2: "switches X (if t = tg_main_tid tg then {#} else {#t#}) {#tm_tid m#} w1 w'" and "g' = g"
    by simp_all
  have "switches X {#tm_tid m#} {#} w w1" using s1 unfolding rem by blast
  from switches_trans [OF this s2] \<open>g' = g\<close> now show ?thesis
    using switches_cancel [of X "if t = tg_main_tid tg then {#} else {#t#}" "{#tm_tid m#}" "{#}" w w']
    by (simp add: ac_simps)
qed

lemma exchange_switches:
  assumes "ext_queues_ok X" and "naps_ok X" and "tls_task_group (cur_tls w) = Some g"
    and "group_at w g = Some tg" and "tg_cur_meta tg = Some cur" and "metas w cur = Some m"
    and "is_current_pthread_task X tg (Some m) \<or> tm_tid m \<noteq> tg_main_tid tg"
    and "tg_last_context_remained tg = None"
    and "live_task w t" and "t \<noteq> tm_tid m" and "t \<noteq> tg_main_tid tg"
    and "exchange X g t w = Some (jumped, g', w')"
  shows "switches X {#t#} {#} w w' \<and> g' = g"
proof (cases "is_current_pthread_task X tg (Some m)")
  case True
  then show ?thesis using assms(4-6,12) moves_switches [OF ready_to_run_moves [OF assms(1,2)]]
    by (auto simp: exchange_def bind_Some_conv)
next
  case False
  define r where "r = (if tm_about_to_quit m then ReadyToRunInWorkerIgnoresignal else ReadyToRunInWorker) (tm_tid m) False"
  obtain w1 where w1: "set_remained g r w = Some w1" and st: "sched_to X g t w1 = Some (jumped, g', w')"
    using assms(4-6,12) False by (auto simp: exchange_def bind_Some_conv r_def)
  have "get_slot t \<noteq> cur" using assms(6,9,10) by (auto simp: live_task_def meta_tid_def)
  moreover have "r = ReadyToRunInWorker (tm_tid m) False \<or> r = ReadyToRunInWorkerIgnoresignal (tm_tid m) False"
    by (simp add: r_def)
  ultimately show ?thesis
    using yield_to_switches [OF assms(1-6) _ assms(8) _ assms(9) _ w1 st] assms(7,11) False by auto
qed

text \<open>
  C6.  \<open>exchange\<close> hands the processor to a bthread that was taken out of a list and makes the running
  one ready, or, in a pthread task, makes the other one ready: either way exactly that one bthread
  enters the places, the running one is not lost, and the waiter lists stay consistent.
\<close>

theorem exchange_conserves:
  assumes "ext_queues_ok X" and "naps_ok X" and "tls_task_group (cur_tls w) = Some g"
    and "group_at w g = Some tg" and "tg_cur_meta tg = Some cur" and "metas w cur = Some m"
    and "is_current_pthread_task X tg (Some m) \<or> tm_tid m \<noteq> tg_main_tid tg"
    and "tg_last_context_remained tg = None"
    and "live_task w t" and "t \<noteq> tm_tid m" and "t \<noteq> tg_main_tid tg"
    and "exchange X g t w = Some (jumped, g', w')"
  shows "switches X {#t#} {#} w w' \<and> g' = g"
  by (rule exchange_switches [OF assms])

section \<open>Choosing the next bthread loses none\<close>

text \<open>What choosing leaves alone of the group.\<close>

definition same_run :: "('q, 'r) task_group \<Rightarrow> ('q, 'r) task_group \<Rightarrow> bool" where
  "same_run tg tg' \<longleftrightarrow>
     tg_cur_meta tg' = tg_cur_meta tg \<and> tg_last_context_remained tg' = tg_last_context_remained tg
   \<and> tg_main_tid tg' = tg_main_tid tg \<and> tg_sched_recursive_guard tg' = tg_sched_recursive_guard tg"

definition picks ::
  "('q, 'r, 'x) ext \<Rightarrow> gid \<Rightarrow> bthread_t option \<Rightarrow> ('q, 'r, 'x) world \<Rightarrow> ('q, 'r, 'x) world \<Rightarrow> bool" where
  "picks X g t w w' \<longleftrightarrow>
     queued X w = queued X w' + opt_mset t \<and> switches X {#} (opt_mset t) w w'
   \<and> metas w' = metas w \<and> waiters w' = waiters w \<and> cur_tls w' = cur_tls w \<and> frames w' = frames w
   \<and> (\<forall>tg. group_at w g = Some tg \<longrightarrow> (\<exists>tg'. group_at w' g = Some tg' \<and> same_run tg tg'))"

lemma picks_put_group:
  assumes "group_at w g = Some tg" and "same_run tg tg'" and "queue_of X tg = queue_of X tg' + opt_mset t"
  shows "picks X g t w (put_group g tg' w)"
proof -
  have "running_in mt tg' = running_in mt tg" for mt
    using assms(2) by (simp add: same_run_def running_in_def split: option.split)
  then have "switches X {#} (opt_mset t) w (put_group g tg' w)"
    using assms(2,3) by (intro switches_put_group [OF assms(1)])
      (simp_all add: group_tasks_def same_run_def ac_simps)
  then show ?thesis using queued_put_group_remove [OF assms(1,3)] assms(1,2)
    by (auto simp: picks_def nth_opt_Some)
qed

lemma picks_trans:
  assumes "picks X g None u v" and "picks X g t v w"
  shows "picks X g t u w"
proof -
  have "\<exists>tg'. group_at w g = Some tg' \<and> same_run tg tg'" if "group_at u g = Some tg" for tg
    using assms that unfolding picks_def same_run_def by metis
  then show ?thesis using assms switches_trans_0(1) [of X u v "{#}" "opt_mset t" w]
    by (simp add: picks_def)
qed

lemma picks_trans':
  assumes "picks X g t u v" and "picks X g None v w"
  shows "picks X g t u w"
proof -
  have "\<exists>tg'. group_at w g = Some tg' \<and> same_run tg tg'" if "group_at u g = Some tg" for tg
    using assms that unfolding picks_def same_run_def by metis
  then show ?thesis using assms switches_trans_0(2) [of X "{#}" "opt_mset t" u v w]
    by (simp add: picks_def)
qed

lemma queues_frame_picks:
  assumes "queues_frame w w'" and "queued X w = queued X w' + opt_mset t"
  shows "picks X g t w w'"
proof -
  note same = queues_frame_same [OF assms(1)] and places = queues_frame_places [OF assms(1)]
  have "tasks X w' + opt_mset t = tasks X w"
    using assms(2) places(1-3) by (simp add: tasks_def ac_simps)
  moreover have "meta_tid w' = meta_tid w" "waiter_tid w' = waiter_tid w" "butexes_ok w' = butexes_ok w"
    using meta_tid_cong [OF same(1)] waiter_tid_cong [OF same(3)] butexes_ok_cong [OF same(2,3)] by simp_all
  moreover have group: "\<exists>tg'. group_at w' h = Some tg' \<and> same_run tg tg'" if tg: "group_at w h = Some tg" for h tg
  proof (rule queues_frame_group [OF assms(1) tg], goal_cases)
    case (1 tg')
    have "same_run tg tg'" using 1(2) [of "tg_remote_rq tg" "tg_rq tg"]
      by (cases tg; cases tg') (simp add: same_run_def)
    then show ?case using 1(1) by blast
  qed
  moreover have "mains w' = mains w" unfolding mains_def
  proof (rule nth_equalityI)
    show "length (map tg_main_tid (groups w')) = length (map tg_main_tid (groups w))" using same(11) by simp
    fix h
    assume "h < length (map tg_main_tid (groups w'))"
    then have "group_at w h = Some (groups w ! h)" "group_at w' h = Some (groups w' ! h)" "h < length (groups w)"
      using same(11) by (simp_all add: nth_opt_Some)
    then show "map tg_main_tid (groups w') ! h = map tg_main_tid (groups w) ! h"
      using group [of h] same(11) by (auto simp: same_run_def)
  qed
  ultimately show ?thesis using assms(2) same group by (simp add: picks_def switches_def)
qed

lemma control_steal_task_picks:
  assumes "ext_queues_ok X" and "control_steal_task X seed off w = Some (t, s', w')"
  shows "picks X g t w w'"
proof (cases "tc_ngroup (control w) = 0")
  case True
  then show ?thesis using assms(2) queues_frame_picks [of w w X None g] by (simp add: control_steal_task_def)
next
  case False
  then have "steal_loop X (tc_ngroup (control w)) (tc_ngroup (control w)) off seed w = Some (t, s', w')"
    using assms(2) by (simp add: control_steal_task_def Let_def)
  from steal_loop_spec [OF assms(1) this] show ?thesis by (blast intro: queues_frame_picks)
qed

lemma group_steal_task_picks:
  assumes "ext_queues_ok X" and "group_steal_task X g w = Some (t, w')"
  shows "picks X g t w w'"
proof -
  obtain tg where tg: "group_at w g = Some tg"
    using assms(2) by (auto simp: group_steal_task_def bind_Some_conv)
  obtain r a where pop: "rrq_pop X (tg_remote_rq tg) = (r, a)" by fastforce
  note law = ext_queues_take(3) [OF assms(1) pop]
  show ?thesis
  proof (cases a)
    case (Some b)
    then show ?thesis using assms(2) tg pop law
      by (auto simp: group_steal_task_def queue_of_def same_run_def intro!: picks_put_group)
  next
    case None
    let ?tg = "tg\<lparr>tg_remote_rq := r, tg_last_pl_state := pl_value w (tg_pl tg)\<rparr>"
    let ?w1 = "put_group g ?tg w"
    obtain s w2 tg2 where st: "control_steal_task X (tg_steal_seed tg) (tg_steal_offset tg) ?w1 = Some (t, s, w2)"
      and tg2: "group_at w2 g = Some tg2" and w': "w' = put_group g (tg2\<lparr>tg_steal_seed := s\<rparr>) w2"
      using assms(2) tg pop None by (auto simp: group_steal_task_def bind_Some_conv Let_def)
    have "picks X g None w ?w1" using law None
      by (intro picks_put_group [OF tg]) (simp_all add: queue_of_def same_run_def)
    moreover have "picks X g t ?w1 w2" by (rule control_steal_task_picks [OF assms(1) st])
    moreover have "picks X g None w2 w'" unfolding w'
      by (intro picks_put_group [OF tg2]) (simp_all add: queue_of_def same_run_def)
    ultimately show ?thesis using picks_trans picks_trans' by blast
  qed
qed

lemma next_task_picks:
  assumes "ext_queues_ok X" and "group_at w g = Some tg" and "next_task X g w = Some (t, w')"
  shows "picks X g (Some t) w w' \<or> t = tg_main_tid tg \<and> picks X g None w w'"
proof -
  obtain q a where pop: "wsq_pop X (tg_rq tg) = (q, a)" by fastforce
  note law = ext_queues_take(1) [OF assms(1) pop]
  let ?w1 = "put_group g (tg\<lparr>tg_rq := q\<rparr>) w"
  have p1: "picks X g a w ?w1" using law
    by (intro picks_put_group [OF assms(2)]) (simp_all add: queue_of_def same_run_def)
  show ?thesis
  proof (cases a)
    case (Some b)
    then show ?thesis using assms(2,3) pop p1 by (simp add: next_task_def)
  next
    case None
    then obtain b where st: "group_steal_task X g ?w1 = Some (b, w')"
      and t: "t = (case b of None \<Rightarrow> tg_main_tid tg | Some t \<Rightarrow> t)"
      using assms(2,3) pop by (auto simp: next_task_def bind_Some_conv)
    have "picks X g b w w'" using picks_trans [OF p1 [unfolded None] group_steal_task_picks [OF assms(1) st]] .
    then show ?thesis using t by (cases b) auto
  qed
qed

text \<open>
  What a running bthread finds: it is no main task, has set no callback, neither it nor the main task is
  queued, and the tasks that are queued are alive.
\<close>

definition running_ok :: "('q, 'r, 'x) ext \<Rightarrow> gid \<Rightarrow> ('q, 'r) task_group \<Rightarrow> slot \<Rightarrow> task_meta
    \<Rightarrow> ('q, 'r, 'x) world \<Rightarrow> bool" where
  "running_ok X g tg cur m w \<longleftrightarrow>
     tls_task_group (cur_tls w) = Some g \<and> group_at w g = Some tg \<and> tg_cur_meta tg = Some cur
   \<and> metas w cur = Some m \<and> tm_tid m \<noteq> tg_main_tid tg \<and> tg_last_context_remained tg = None
   \<and> tm_tid m \<notin># queued X w \<and> tg_main_tid tg \<notin># queued X w \<and> live_task w (tg_main_tid tg)
   \<and> (\<forall>t. t \<in># queued X w \<longrightarrow> live_task w t)"

text \<open>Choosing is calm, too.\<close>

lemma queues_frame_calm:
  assumes "queues_frame w w'"
  shows "calm X g w w'"
proof -
  note same = queues_frame_same [OF assms]
  have "map_option tg_last_context_remained (group_at w' h) = map_option tg_last_context_remained (group_at w h)" for h
  proof (cases "group_at w h")
    case None
    then have n: "group_at w' h = None" using same(11) by simp
    show ?thesis unfolding n None ..
  next
    case (Some tg)
    show ?thesis
    proof (rule queues_frame_group [OF assms Some])
      fix tg2 assume "group_at w' h = Some tg2"
        and eq: "\<And>q r. tg2\<lparr>tg_rq := q, tg_remote_rq := r\<rparr> = tg\<lparr>tg_rq := q, tg_remote_rq := r\<rparr>"
      moreover have "tg_last_context_remained tg2 = tg_last_context_remained tg"
        using arg_cong [OF eq, of tg_last_context_remained] by simp
      ultimately show ?thesis using Some by simp
    qed
  qed
  then show ?thesis using same by (simp add: calm_def)
qed

lemma control_steal_task_calm:
  assumes "ext_queues_ok X" and "control_steal_task X seed off w = Some (t, s', w')"
  shows "calm X g w w'"
proof (cases "tc_ngroup (control w) = 0")
  case True
  then show ?thesis using assms(2) by (simp add: control_steal_task_def)
next
  case False
  then have "steal_loop X (tc_ngroup (control w)) (tc_ngroup (control w)) off seed w = Some (t, s', w')"
    using assms(2) by (simp add: control_steal_task_def Let_def)
  from steal_loop_spec [OF assms(1) this] show ?thesis by (blast intro: queues_frame_calm)
qed

lemma next_task_calm:
  assumes "ext_queues_ok X" and "next_task X g w = Some (t, w')"
  shows "calm X g w w'"
proof -
  have control: "calm X g u v'" if "control_steal_task X s off v = Some (a, s', v')" "calm X g u v" for a s off s' u v v'
    using calm_trans [OF that(2) control_steal_task_calm [OF assms(1) that(1)]] .
  have steal: "calm X g u v'" if "group_steal_task X g v = Some (a, v')" "calm X g u v" for a u v v'
    using that by (auto simp: group_steal_task_def Let_def elim!: bind_SomeE split: cases_asm intro!: calm_put_group
        dest!: control [where u = u])
  show ?thesis using assms(2)
    by (auto simp: next_task_def Let_def elim!: bind_SomeE split: cases_asm intro!: calm_put_group dest!: steal [where u = w])
qed

text \<open>
  A bthread that blocks or yields: it leaves its worker, its callback is run in a world \<open>v\<close> in which it is nowhere, and the rest is calm.
\<close>

lemma block_splits:
  assumes "ext_queues_ok X" and "running_ok X g tg cur m w"
    and "remained_tids (waiter_tid w) (Some r) = {#tm_tid m#}" and "callback_moves X (Some r) w"
    and "set_remained g r w = Some w1" and "sched X g w1 = Some (jumped, g', w')"
  shows "\<exists>v v'. switches X {#} {#tm_tid m#} w v \<and> calm X g w v
    \<and> map_option tg_last_context_remained (group_at v g) = Some None
    \<and> run_callback X r v = Some v' \<and> switches X {#} {#} v' w' \<and> calm X g v' w' \<and> g' = g
    \<and> map_option tg_last_context_remained (group_at w' g) = Some None"
proof -
  note run = assms(2) [unfolded running_ok_def]
  note rem = assms(3) and w1 = assms(5)
  obtain t w2 where nt: "next_task X g w1 = Some (t, w2)" and st: "sched_to X g t w2 = Some (jumped, g', w')"
    using assms(6) by (auto simp: sched_def bind_Some_conv)
  have gr: "group_at w g = Some tg" and none: "tg_last_context_remained tg = None" using run by simp_all
  let ?tg = "tg\<lparr>tg_last_context_remained := Some r\<rparr>"
  note s1 = set_remained_switches [OF gr none w1, of X]
  have w1': "w1 = put_group g ?tg w" using s1 by simp
  have g1: "group_at w1 g = Some ?tg" using gr by (simp add: w1' nth_opt_Some)
  have q1: "queued X w1 = queued X w" using queued_put_group_add [OF gr, of X ?tg "{#}"]
    by (simp add: w1' queue_of_def)
  have pk: "picks X g (Some t) w1 w2 \<or> t = tg_main_tid tg \<and> picks X g None w1 w2"
    using next_task_picks [OF assms(1) g1 nt] by simp
  define d where "d = (if picks X g (Some t) w1 w2 then {#t#} else {#})"
  have d: "d = {#t#} \<and> t \<in># queued X w \<or> d = {#} \<and> t = tg_main_tid tg" and s2: "switches X {#} d w1 w2"
    and same: "metas w2 = metas w" "cur_tls w2 = cur_tls w" and wt: "waiters w2 = waiters w"
    using pk q1 by (auto simp: d_def picks_def w1')
  obtain tg2 where tg2: "group_at w2 g = Some tg2" "same_run ?tg tg2"
    using pk g1 by (auto simp: picks_def)
  have rem2: "tg_last_context_remained tg2 = Some r" using tg2(2) by (simp add: same_run_def)
  have mt: "meta_tid w2 = meta_tid w" by (rule meta_tid_cong [OF same(1)])
  have live: "live_task w2 t" and neq: "t \<noteq> tm_tid m" using d run by (auto simp: live_task_def mt)
  have "get_slot t \<noteq> cur" using live neq run by (auto simp: live_task_def mt meta_tid_def)
  moreover have "callback_moves X (tg_last_context_remained tg2) w2"
    using assms(4) callback_moves_cong [OF wt] rem2 by simp
  moreover have "tls_task_group (cur_tls w2) = Some g" "tg_cur_meta tg2 = Some cur"
    using same(2) run tg2(2) by (simp_all add: same_run_def)
  ultimately have "switch_splits X g tg2 cur (get_slot t) w2 w'" and g': "g' = g"
    using sched_to_splits [OF _ tg2(1) _ _ _ st] by auto
  then obtain v tgv v' where s3: "switches X (run_part w2 g (get_slot t)) (run_part w2 g cur) w2 v" and c3: "calm X g w2 v"
    and tgv: "group_at v g = Some tgv" "tg_last_context_remained tgv = Some r"
    and cb: "run_callback X r (put_group g (tgv\<lparr>tg_last_context_remained := None\<rparr>) v) = Some v'"
    and end_part: "switches X {#} {#} v' w'" "calm X g v' w'"
      "map_option tg_last_context_remained (group_at w' g) = Some None"
    unfolding switch_splits_def by (auto simp: callback_run_def rem2)
  let ?v = "put_group g (tgv\<lparr>tg_last_context_remained := None\<rparr>) v"
  have main: "tg_main_tid tg2 = tg_main_tid tg" using tg2(2) by (simp add: same_run_def)
  have cur: "run_part w2 g cur = {#tm_tid m#}" using run_part_cur [OF tg2(1)] run same(1) main by simp
  have nxt: "run_part w2 g (get_slot t) = d"
    using run_part_live [OF tg2(1) live] d main run by auto
  have "waiter_tid v = waiter_tid w" using c3 wt by (simp add: calm_def waiter_tid_def fun_eq_iff)
  then have "switches X {#} {#tm_tid m#} v ?v" using cleared_switches [OF tgv(1), of X] tgv(2) rem by simp
  moreover have "switches X d {#tm_tid m#} w2 v" using s3 unfolding cur nxt .
  ultimately have s4: "switches X (d + {#}) ({#tm_tid m#} + {#tm_tid m#}) w2 ?v" using switches_trans by blast
  have "switches X {#tm_tid m#} {#} w w1" using conjunct1 [OF s1] unfolding rem by simp
  from switches_trans [OF switches_trans_0(3) [OF this s2] s4]
  have "switches X ({#} + (d + {#tm_tid m#})) ({#tm_tid m#} + (d + {#tm_tid m#})) w ?v" by (simp add: ac_simps)
  then have "switches X {#} {#tm_tid m#} w ?v" by (rule switches_cancel)
  moreover have "calm X g w ?v" unfolding w1'
    using next_task_calm [OF assms(1) nt] c3 calm_put_group [OF calm_refl, of X g w] w1' by (metis calm_put_group calm_trans)
  moreover have "map_option tg_last_context_remained (group_at ?v g) = Some None" using tgv(1) by (simp add: nth_opt_Some)
  ultimately show ?thesis using cb end_part g' by blast
qed

lemma block_switches:
  assumes "ext_queues_ok X" and "naps_ok X" and "running_ok X g tg cur m w"
    and "remained_tids (waiter_tid w) (Some r) = {#tm_tid m#}" and "remained_ok w (Some r)"
    and "set_remained g r w = Some w1" and "sched X g w1 = Some (jumped, g', w')"
  shows "switches X {#} {#} w w' \<and> g' = g"
proof -
  obtain v v' where s1: "switches X {#} {#tm_tid m#} w v" and cm: "calm X g w v" and cb: "run_callback X r v = Some v'"
    and s3: "switches X {#} {#} v' w'" and g': "g' = g"
    using block_splits [OF assms(1,3,4) remained_ok_moves [OF assms(1,2,5)] assms(6,7)] by blast
  have "moves X {#tm_tid m#} v v'"
    using callback_run_moves [OF assms(1,2,5), of v v'] cm cb assms(4) by (simp add: callback_run_def calm_def)
  from switches_cancel_0 [OF switches_trans_0(4) [OF s1 moves_switches [OF this]]] s3 g'
  show ?thesis using switches_trans_0(1) by blast
qed

lemma yield_switches:
  assumes "ext_queues_ok X" and "naps_ok X" and "running_ok X g tg cur m w"
    and "yield X g w = Some (jumped, g', w')"
  shows "switches X {#} {#} w w' \<and> g' = g"
proof -
  obtain w1 where w1: "set_remained g (ReadyToRunInWorker (tm_tid m) False) w = Some w1" and st: "sched X g w1 = Some (jumped, g', w')"
    using assms(3,4) by (auto simp: yield_def running_ok_def bind_Some_conv)
  show ?thesis
    by (rule block_switches [OF assms(1-3) _ _ w1 st]) (simp_all add: remained_tids_def remained_ok_def)
qed

text \<open>
  \<open>yield\<close> loses and duplicates no bthread: the one that yields is made ready by the next one, the
  next one was taken out of a queue or is the main task.
\<close>

lemma yield_conserves:
  assumes "ext_queues_ok X" and "naps_ok X" and "running_ok X g tg cur m w"
    and "yield X g w = Some (jumped, g', w')"
  shows "tasks X w' = tasks X w \<and> g' = g \<and> (butexes_ok w \<longrightarrow> butexes_ok w')"
  using yield_switches [OF assms] by (simp add: switches_def)


text \<open>The bthread in slot 3 runs in group 0; the one in slot 5 is queued there.\<close>

definition run_world :: "bthread_t list \<Rightarrow> demo_world" where
  "run_world q = demo_world (Some 0)
     [demo_group 3 (make_tid 1 1) q [], demo_group 2 (make_tid 1 2) [] []] [] Map.empty"

lemma make_tid_demo:
  "make_tid 1 1 = 4294967297" "make_tid 1 2 = 4294967298" "make_tid 1 3 = 4294967299"
  "make_tid 1 4 = 4294967300" "make_tid 1 5 = 4294967301"
  "get_slot 4294967297 = 1" "get_slot 4294967298 = 2" "get_slot 4294967299 = 3"
  "get_slot 4294967300 = 4" "get_slot 4294967301 = 5"
  by (simp_all add: make_tid_def get_slot_def)

lemma run_world_ok:
  "running_ok demo_ext 0 (demo_group 3 (make_tid 1 1) [make_tid 1 5] []) 3
     (demo_meta (make_tid 1 3) 3 (Some 63)) (run_world [make_tid 1 5])"
  by (simp add: running_ok_def run_world_def queued_def queue_of_def live_task_def meta_tid_def make_tid_demo demo_defs)

lemma yield_conserves_witness:
  "\<exists>w'. yield demo_ext 0 (run_world [make_tid 1 5]) = Some (True, 0, w')
    \<and> tasks demo_ext w' = tasks demo_ext (run_world [make_tid 1 5])"
proof -
  have "\<exists>w'. yield demo_ext 0 (run_world [make_tid 1 5]) = Some (True, 0, w')"
    by (simp add: yield_def set_remained_def sched_def next_task_def sched_to_def sched_to_meta_def
        sched_account_def sched_switch_def sched_arrive_def run_remained.simps ready_to_run_in_worker_def
        ready_to_run_def push_rq.simps try_push_def address_meta_def run_world_def make_tid_demo
        put_group_def put_meta_def demo_defs Let_def EMPTY_STAT_def)
  then show ?thesis using yield_conserves [OF demo_queues_ok demo_naps_ok run_world_ok] by blast
qed

lemmas demo_sched_defs = sched_to_def sched_to_meta_def sched_account_def sched_switch_def
  sched_arrive_def run_remained.simps ready_to_run_in_worker_def ready_to_run_def push_rq.simps
  try_push_def address_meta_def run_world_def make_tid_demo put_group_def put_meta_def demo_defs
  EMPTY_STAT_def

lemma exchange_conserves_witness:
  "\<exists>w'. exchange demo_ext 0 (make_tid 1 5) (run_world []) = Some (True, 0, w')
    \<and> tasks demo_ext w' = tasks demo_ext (run_world []) + {#make_tid 1 5#}"
proof -
  let ?w = "run_world []" and ?tg = "demo_group 3 (make_tid 1 1) [] []"
    and ?m = "demo_meta (make_tid 1 3) 3 (Some 63)"
  have "\<exists>w'. exchange demo_ext 0 (make_tid 1 5) ?w = Some (True, 0, w')"
    by (simp add: exchange_def set_remained_def demo_sched_defs Let_def)
  then obtain w' where ex: "exchange demo_ext 0 (make_tid 1 5) ?w = Some (True, 0, w')" by blast
  have "switches demo_ext {#make_tid 1 5#} {#} ?w w' \<and> 0 = (0::gid)"
    by (rule exchange_conserves [OF demo_queues_ok demo_naps_ok _ _ _ _ _ _ _ _ _ ex, of ?tg 3 ?m])
      (simp_all add: live_task_def meta_tid_def run_world_def make_tid_demo demo_defs)
  then show ?thesis using ex by (simp add: switches_def)
qed

section \<open>errno belongs to the bthread\<close>



section \<open>Where the code departs from its intent\<close>

text \<open>
  \<open>sched_to\<close> with the bthread that already runs skips the end of the function: the guard keeps its
  increment, and the callback is left for the next switch.
\<close>

lemma sched_to_itself_leaks_guard:
  assumes "group_at w g = Some tg" and "tg_cur_meta tg = Some cur"
    and "sched_to_meta X g cur w = Some (jumped, g', w')"
  shows "\<not> jumped \<and> (\<exists>tg'. group_at w' g = Some tg'
    \<and> tg_sched_recursive_guard tg' = tg_sched_recursive_guard tg + 1
    \<and> tg_last_context_remained tg' = tg_last_context_remained tg)"
proof -
  obtain w1 where acc: "sched_account X g cur w = Some w1"
    using assms by (auto simp: sched_to_meta_def bind_Some_conv)
  then have "\<not> jumped" "w' = w1" using assms by (auto simp: sched_to_meta_def)
  then show ?thesis using sched_account_switches [OF acc] assms(1) by auto
qed

text \<open>The end of a bthread whose stack was taken over by the next one is logged as a fatal error.\<close>

lemma sched_switch_without_stack_logs:
  assumes "group_at w g = Some tg" and "metas w cur = Some mc" and "tm_stack mc = None"
    and "metas w next = Some mn" and "sched_switch g cur next w = Some (jumped, w')"
  shows "\<not> jumped \<and> fatals w' = fatals w @ [FatalSchedToItself (tm_tid mn)]"
  using assms by (auto simp: sched_switch_def Let_def)

end
