(* ===== verification/ButexWake.thy ===== *)
theory ButexWake
  imports Sched
begin

text \<open>
  Waking the waiters of a butex (\<open>butex.cpp\<close>): one, all, all but one, and moving them to another
  butex.  The integer of a result is what the function returns; the boolean says that the caller was
  switched away before the end and gets it later.
\<close>

section \<open>\<open>butex_wake\<close>\<close>

text \<open>The end of \<open>butex_wake\<close> and \<open>butex_requeue\<close>: waking the waiter that was taken out.\<close>

definition wake_front ::
  "('q, 'r, 'x) ext \<Rightarrow> wid \<Rightarrow> ('q, 'r, 'x) world \<Rightarrow> (int \<times> bool \<times> ('q, 'r, 'x) world) option" where
  "wake_front X front w =
     do {
       bw \<leftarrow> waiters w front;
       (if w_tid bw = 0 then do {
          w1 \<leftarrow> wakeup_pthread X front w;
          Some (1, False, w1)
        }
        else do {
          (rc, w1) \<leftarrow> unsleep_if_necessary X front w;
          (case tls_task_group (cur_tls w1) of
             Some g \<Rightarrow> do {
               (jumped, g', w2) \<leftarrow> exchange X g (w_tid bw) w1;
               Some (1, jumped, w2)
             }
           | None \<Rightarrow> do {
               (go, w2) \<leftarrow> choose_one_group X w1;
               g \<leftarrow> go;
               w3 \<leftarrow> ready_to_run_remote X g (w_tid bw) False w2;
               Some (1, False, w3)
             })
        })
     }"

definition pop_waiter ::
  "bid \<Rightarrow> butex \<Rightarrow> wid \<Rightarrow> wid list \<Rightarrow> ('q, 'r, 'x) world \<Rightarrow> ('q, 'r, 'x) world option" where
  "pop_waiter b bx front rest w =
     do {
       bw \<leftarrow> waiters w front;
       Some (put_waiter front (bw\<lparr>w_container := None\<rparr>) (put_butex b (bx\<lparr>bx_waiters := rest\<rparr>) w))
     }"

definition butex_wake ::
  "('q, 'r, 'x) ext \<Rightarrow> bid \<Rightarrow> ('q, 'r, 'x) world \<Rightarrow> (int \<times> bool \<times> ('q, 'r, 'x) world) option" where
  "butex_wake X b w =
     do {
       bx \<leftarrow> butex_at w b;
       (case bx_waiters bx of
          [] \<Rightarrow> Some (0, False, w)
        | front # rest \<Rightarrow> do {
            w1 \<leftarrow> pop_waiter b bx front rest w;
            wake_front X front w1
          })
     }"

section \<open>\<open>butex_wake_all\<close> and \<open>butex_wake_except\<close>\<close>

text \<open>
  The loop under the lock: the waiters go to a list of bthreads or of pthreads; a waiter of the
  excluded bthread stays (0, which excludes none, for \<open>butex_wake_all\<close>).
\<close>

fun split_waiters ::
  "bthread_t \<Rightarrow> wid list \<Rightarrow> wid list \<Rightarrow> wid list \<Rightarrow> wid option \<Rightarrow> ('q, 'r, 'x) world
   \<Rightarrow> (wid list \<times> wid list \<times> wid option \<times> ('q, 'r, 'x) world) option" where
  "split_waiters excl [] bs ps ex w = Some (bs, ps, ex, w)"
| "split_waiters excl (i # ws) bs ps ex w =
     do {
       bw \<leftarrow> waiters w i;
       let w1 = put_waiter i (bw\<lparr>w_container := None\<rparr>) w;
       (if w_tid bw \<noteq> 0 then
          if w_tid bw \<noteq> excl then split_waiters excl ws (bs @ [i]) ps ex w1
          else split_waiters excl ws bs ps (Some i) w
        else split_waiters excl ws bs (ps @ [i]) ex w1)
     }"

definition take_waiters ::
  "bid \<Rightarrow> bthread_t \<Rightarrow> ('q, 'r, 'x) world \<Rightarrow> (wid list \<times> wid list \<times> ('q, 'r, 'x) world) option" where
  "take_waiters b excl w =
     do {
       bx \<leftarrow> butex_at w b;
       (bs, ps, ex, w1) \<leftarrow> split_waiters excl (bx_waiters bx) [] [] None w;
       Some (bs, ps, put_butex b (bx\<lparr>bx_waiters := (case ex of None \<Rightarrow> [] | Some i \<Rightarrow> [i])\<rparr>) w1)
     }"

fun wake_pthreads ::
  "('q, 'r, 'x) ext \<Rightarrow> wid list \<Rightarrow> int \<Rightarrow> ('q, 'r, 'x) world \<Rightarrow> (int \<times> ('q, 'r, 'x) world) option" where
  "wake_pthreads X [] nwakeup w = Some (nwakeup, w)"
| "wake_pthreads X (i # ps) nwakeup w =
     do { w1 \<leftarrow> wakeup_pthread X i w; wake_pthreads X ps (nwakeup + 1) w1 }"

text \<open>The loops that make bthreads ready without signalling; the list is given in the order of the pops.\<close>

fun ready_waiters ::
  "('q, 'r, 'x) ext \<Rightarrow> gid \<Rightarrow> wid list \<Rightarrow> int \<Rightarrow> ('q, 'r, 'x) world \<Rightarrow> (int \<times> ('q, 'r, 'x) world) option" where
  "ready_waiters X g [] nwakeup w = Some (nwakeup, w)"
| "ready_waiters X g (i # ws) nwakeup w =
     do {
       (rc, w1) \<leftarrow> unsleep_if_necessary X i w;
       bw \<leftarrow> waiters w1 i;
       w2 \<leftarrow> ready_to_run_general X g (w_tid bw) True w1;
       ready_waiters X g ws (nwakeup + 1) w2
     }"

definition butex_wake_all ::
  "('q, 'r, 'x) ext \<Rightarrow> bid \<Rightarrow> ('q, 'r, 'x) world \<Rightarrow> (int \<times> bool \<times> ('q, 'r, 'x) world) option" where
  "butex_wake_all X b w =
     do {
       (bs, ps, w1) \<leftarrow> take_waiters b 0 w;
       (n1, w2) \<leftarrow> wake_pthreads X ps 0 w1;
       (case bs of
          [] \<Rightarrow> Some (n1, False, w2)
        | next # rest \<Rightarrow> do {
            (rc, w3) \<leftarrow> unsleep_if_necessary X next w2;
            (go, w4) \<leftarrow> get_task_group X w3;
            g \<leftarrow> go;
            let saved_nwakeup = n1 + 1;
            (n2, w5) \<leftarrow> ready_waiters X g (rev rest) saved_nwakeup w4;
            w6 \<leftarrow> (if saved_nwakeup \<noteq> n2 then flush_nosignal_tasks_general X g w5 else Some w5);
            bw \<leftarrow> waiters w6 next;
            (if tls_task_group (cur_tls w6) = Some g then do {
               (jumped, g', w7) \<leftarrow> exchange X g (w_tid bw) w6;
               Some (n2, jumped, w7)
             }
             else do {
               w7 \<leftarrow> ready_to_run_remote X g (w_tid bw) False w6;
               Some (n2, False, w7)
             })
          })
     }"

definition butex_wake_except ::
  "('q, 'r, 'x) ext \<Rightarrow> bid \<Rightarrow> bthread_t \<Rightarrow> ('q, 'r, 'x) world \<Rightarrow> (int \<times> ('q, 'r, 'x) world) option" where
  "butex_wake_except X b excluded w =
     do {
       (bs, ps, w1) \<leftarrow> take_waiters b excluded w;
       (n1, w2) \<leftarrow> wake_pthreads X ps 0 w1;
       (if bs = [] then Some (n1, w2)
        else do {
          (go, w3) \<leftarrow> get_task_group X w2;
          g \<leftarrow> go;
          (n2, w4) \<leftarrow> ready_waiters X g (rev bs) n1 w3;
          w5 \<leftarrow> (if n1 \<noteq> n2 then flush_nosignal_tasks_general X g w4 else Some w4);
          Some (n2, w5)
        })
     }"

section \<open>\<open>butex_requeue\<close>\<close>

text \<open>The loop \<open>while (!b->waiters.empty())\<close> that moves the waiters of \<open>b\<close> to \<open>m\<close>.\<close>

partial_function (option) requeue_loop ::
  "bid \<Rightarrow> bid \<Rightarrow> ('q, 'r, 'x) world \<Rightarrow> ('q, 'r, 'x) world option" where
  "requeue_loop b m w =
     do {
       bx \<leftarrow> butex_at w b;
       (case bx_waiters bx of
          [] \<Rightarrow> Some w
        | i # rest \<Rightarrow> do {
            bw \<leftarrow> waiters w i;
            let w1 = put_butex b (bx\<lparr>bx_waiters := rest\<rparr>) w;
            mx \<leftarrow> butex_at w1 m;
            requeue_loop b m (enqueue_waiter m i bw mx w1)
          })
     }"

text \<open>Both butexes are computed from \<open>arg\<close>; \<open>arg2\<close> is not used.\<close>

definition butex_requeue ::
  "('q, 'r, 'x) ext \<Rightarrow> bid \<Rightarrow> bid \<Rightarrow> ('q, 'r, 'x) world \<Rightarrow> (int \<times> bool \<times> ('q, 'r, 'x) world) option" where
  "butex_requeue X arg arg2 w =
     (let b = arg; m = arg
      in do {
        w0 \<leftarrow> double_lock X b m w;
        bx \<leftarrow> butex_at w0 b;
        (case bx_waiters bx of
           [] \<Rightarrow> Some (0, False, w0)
         | front # rest \<Rightarrow> do {
             w1 \<leftarrow> pop_waiter b bx front rest w0;
             w2 \<leftarrow> requeue_loop b m w1;
             wake_front X front w2
           })
      })"

section \<open>What the loop under the lock does\<close>

definition detach_all :: "wid set \<Rightarrow> ('q, 'r, 'x) world \<Rightarrow> ('q, 'r, 'x) world" where
  "detach_all S w =
     w\<lparr>waiters := \<lambda>i. if i \<in> S then map_option (\<lambda>bw. bw\<lparr>w_container := None\<rparr>) (waiters w i) else waiters w i\<rparr>"

lemma detach_all_sel [simp]:
  "groups (detach_all S w) = groups w" "metas (detach_all S w) = metas w"
  "butexes (detach_all S w) = butexes w" "control (detach_all S w) = control w"
  "frames (detach_all S w) = frames w" "cur_tls (detach_all S w) = cur_tls w"
  "waiter_tid (detach_all S w) = waiter_tid w"
  by (simp_all add: detach_all_def waiter_tid_def fun_eq_iff split: option.split)

lemma detach_all_empty [simp]: "detach_all {} w = w"
  by (simp add: detach_all_def)

lemma detach_all_put_waiter:
  "waiters w i = Some bw \<Longrightarrow>
   detach_all S (put_waiter i (bw\<lparr>w_container := None\<rparr>) w) = detach_all (insert i S) w"
  by (cases w) (auto simp: detach_all_def put_waiter_def fun_eq_iff)

lemma split_waiters_spec:
  assumes "split_waiters excl ws bs ps ex w = Some (bs', ps', ex', w')"
  shows "bs' = bs @ filter (\<lambda>i. waiter_tid w i \<noteq> 0 \<and> waiter_tid w i \<noteq> excl) ws
    \<and> ps' = ps @ filter (\<lambda>i. waiter_tid w i = 0) ws
    \<and> ex' = (case rev (filter (\<lambda>i. waiter_tid w i \<noteq> 0 \<and> waiter_tid w i = excl) ws) of [] \<Rightarrow> ex | i # _ \<Rightarrow> Some i)
    \<and> w' = detach_all {i \<in> set ws. waiter_tid w i = 0 \<or> waiter_tid w i \<noteq> excl} w"
  using assms
proof (induction ws arbitrary: bs ps ex w)
  case Nil
  then show ?case by simp
next
  case (Cons i ws)
  obtain bw where bw: "waiters w i = Some bw" using Cons.prems by (auto simp: bind_Some_conv)
  let ?w1 = "put_waiter i (bw\<lparr>w_container := None\<rparr>) w"
  have tid: "waiter_tid w i = w_tid bw" by (rule waiter_tid_at [OF bw])
  have same: "waiter_tid ?w1 = waiter_tid w" by (rule waiter_tid_put_waiter [OF bw]) simp
  have ins: "insert i {j \<in> set ws. P j} = {j \<in> set (i # ws). P j}" if "P i" for P using that by auto
  have skip: "{j \<in> set (i # ws). P j} = {j \<in> set ws. P j}" if "\<not> P i" for P using that by auto
  consider (pt) "w_tid bw = 0" | (bt) "w_tid bw \<noteq> 0" "w_tid bw \<noteq> excl" | (ex) "w_tid bw \<noteq> 0" "w_tid bw = excl"
    by blast
  then show ?case
  proof cases
    case pt
    then have "split_waiters excl ws bs (ps @ [i]) ex ?w1 = Some (bs', ps', ex', w')"
      using Cons.prems bw by (simp add: Let_def)
    from Cons.IH [OF this] pt tid show ?thesis
      unfolding same detach_all_put_waiter [OF bw] by (subst ins [symmetric]) auto
  next
    case bt
    then have "split_waiters excl ws (bs @ [i]) ps ex ?w1 = Some (bs', ps', ex', w')"
      using Cons.prems bw by (simp add: Let_def)
    from Cons.IH [OF this] bt tid show ?thesis
      unfolding same detach_all_put_waiter [OF bw] by (subst ins [symmetric]) auto
  next
    case ex
    then have "split_waiters excl ws bs ps (Some i) w = Some (bs', ps', ex', w')"
      using Cons.prems bw by (simp add: Let_def)
    from Cons.IH [OF this] ex tid show ?thesis
      by (subst skip) (auto split: list.split)
  qed
qed

text \<open>The waiters of a butex that are taken, and those that stay.\<close>

definition woken_bthreads :: "('q, 'r, 'x) world \<Rightarrow> bthread_t \<Rightarrow> wid list \<Rightarrow> wid list" where
  "woken_bthreads w excl ws = filter (\<lambda>i. waiter_tid w i \<noteq> 0 \<and> waiter_tid w i \<noteq> excl) ws"

definition woken_pthreads :: "('q, 'r, 'x) world \<Rightarrow> wid list \<Rightarrow> wid list" where
  "woken_pthreads w ws = filter (\<lambda>i. waiter_tid w i = 0) ws"

definition left_waiters :: "('q, 'r, 'x) world \<Rightarrow> bthread_t \<Rightarrow> wid list \<Rightarrow> wid list" where
  "left_waiters w excl ws = filter (\<lambda>i. waiter_tid w i \<noteq> 0 \<and> waiter_tid w i = excl) ws"

lemma bthreads_of_split:
  "bthreads_of (waiter_tid w) ws =
   bthreads_of (waiter_tid w) (woken_bthreads w excl ws) + bthreads_of (waiter_tid w) (left_waiters w excl ws)"
  by (induction ws) (auto simp: woken_bthreads_def left_waiters_def)

lemma take_waiters_takes:
  assumes "butexes_ok w" and "butex_at w b = Some bx" and "length (left_waiters w excl (bx_waiters bx)) \<le> 1"
    and "take_waiters b excl w = Some (bs, ps, w')"
  shows "bs = woken_bthreads w excl (bx_waiters bx)" and "ps = woken_pthreads w (bx_waiters bx)"
    and "map_option bx_waiters (butex_at w' b) = Some (left_waiters w excl (bx_waiters bx))"
    and "takes X (bthreads_of (waiter_tid w) bs) w w'"
proof -
  let ?ws = "bx_waiters bx" and ?left = "left_waiters w excl (bx_waiters bx)"
  let ?S = "{i \<in> set (bx_waiters bx). waiter_tid w i = 0 \<or> waiter_tid w i \<noteq> excl}"
  obtain ex w1 where sp: "split_waiters excl ?ws [] [] None w = Some (bs, ps, ex, w1)"
    and w': "w' = put_butex b (bx\<lparr>bx_waiters := (case ex of None \<Rightarrow> [] | Some i \<Rightarrow> [i])\<rparr>) w1"
    using assms(2,4) by (auto simp: take_waiters_def bind_Some_conv)
  note spec = split_waiters_spec [OF sp]
  then show bs: "bs = woken_bthreads w excl ?ws" and "ps = woken_pthreads w ?ws"
    by (simp_all add: woken_bthreads_def woken_pthreads_def)
  have "?left = [] \<or> (\<exists>i. ?left = [i])" using assms(3) by (cases ?left rule: list.exhaust; cases "tl ?left") auto
  then have left: "(case ex of None \<Rightarrow> [] | Some i \<Rightarrow> [i]) = ?left"
    using spec by (auto simp: left_waiters_def)
  have w1: "w1 = detach_all ?S w" using spec by blast
  show "map_option bx_waiters (butex_at w' b) = Some ?left"
    using assms(2) by (simp add: w' left w1 nth_opt_Some)
  have eqs: "groups w' = groups w" "butexes w' = (butexes w)[b := bx\<lparr>bx_waiters := ?left\<rparr>]"
    "meta_tid w' = meta_tid w" "waiter_tid w' = waiter_tid w" "cur_tls w' = cur_tls w"
    by (simp_all add: w' w1 left meta_tid_def fun_eq_iff)
  have "tasks X w = tasks X w' + bthreads_of (waiter_tid w) bs"
    using tasks_butex_change [OF assms(2) eqs(1,2,3,4), of X] bthreads_of_split [of w ?ws excl] bs
    by (simp add: ac_simps)
  moreover have "butexes_ok w'"
    unfolding butexes_ok_def
  proof (intro conjI allI impI)
    fix i c assume "\<exists>bw. waiters w' i = Some bw \<and> w_container bw = Some c"
    then have "\<exists>bw. waiters w i = Some bw \<and> w_container bw = Some c"
      by (auto simp: w' w1 detach_all_def split: if_splits)
    then show "c < length (butexes w')" using butexes_ok_container [OF assms(1)] eqs(2) by auto
  next
    fix c cx assume c: "butex_at w' c = Some cx"
    have mem: "(\<exists>bw. waiters w' i = Some bw \<and> w_container bw = Some c) \<longleftrightarrow>
        i \<notin> ?S \<and> (\<exists>bw. waiters w i = Some bw \<and> w_container bw = Some c)" for i c
      by (auto simp: w' w1 detach_all_def)
    have "distinct (bx_waiters cx) \<and>
        (\<forall>i. (i \<in> set (bx_waiters cx)) = (\<exists>bw. waiters w' i = Some bw \<and> w_container bw = Some c))"
    proof (cases "c = b")
      case True
      then have "bx_waiters cx = ?left" using c eqs(2) assms(2) by (auto simp: nth_opt_Some)
      then show ?thesis using butexes_okD [OF assms(1,2)] True
        unfolding mem by (auto simp: left_waiters_def)
    next
      case False
      then have cx: "butex_at w c = Some cx" using c eqs(2) by simp
      have "i \<notin> ?S" if "\<exists>bw. waiters w i = Some bw \<and> w_container bw = Some c" for i
        using that butexes_okD(2) [OF assms(1,2), of i] False by auto
      then show ?thesis using butexes_okD [OF assms(1) cx] unfolding mem by blast
    qed
    then show "distinct (bx_waiters cx)"
      "(i \<in> set (bx_waiters cx)) = (\<exists>bw. waiters w' i = Some bw \<and> w_container bw = Some c)" for i by auto
  qed
  ultimately show "takes X (bthreads_of (waiter_tid w) bs) w w'"
    using eqs mains_cong [OF eqs(1)] by (auto simp: takes_def steady_def)
qed

section \<open>The loops that wake\<close>

lemma wake_pthreads_moves:
  "wake_pthreads X ps n w = Some (n', w') \<Longrightarrow> moves X {#} w w' \<and> n' = n + int (length ps)"
proof (induction ps arbitrary: n w)
  case Nil
  then show ?case by simp
next
  case (Cons i ps)
  then obtain w1 where w1: "wakeup_pthread X i w = Some w1" "wake_pthreads X ps (n + 1) w1 = Some (n', w')"
    by (auto simp: bind_Some_conv)
  from Cons.IH [OF w1(2)] wakeup_pthread_moves [OF w1(1)] show ?case
    using moves_trans_0(1) by fastforce
qed

lemma ready_waiters_moves:
  assumes "ext_queues_ok X" and "naps_ok X"
  shows "ready_waiters X g ws n w = Some (n', w') \<Longrightarrow> tls_task_group (cur_tls w) = Some g \<Longrightarrow>
    \<forall>i \<in> set ws. waiter_tid w i \<noteq> 0 \<Longrightarrow>
    moves X (bthreads_of (waiter_tid w) ws) w w' \<and> n' = n + int (length ws)"
proof (induction ws arbitrary: n w)
  case Nil
  then show ?case by simp
next
  case (Cons i ws)
  obtain rc w1 bw w2 where un: "unsleep_if_necessary X i w = Some (rc, w1)" and bw: "waiters w1 i = Some bw"
    and rr: "ready_to_run_general X g (w_tid bw) True w1 = Some w2"
    and rest: "ready_waiters X g ws (n + 1) w2 = Some (n', w')"
    using Cons.prems(1) by (auto simp: bind_Some_conv)
  have m1: "moves X {#} w w1" by (rule unsleep_moves [OF un])
  note s1 = steady_sels [OF moves_steady(1) [OF m1]]
  have tid: "w_tid bw = waiter_tid w i" using waiter_tid_at [OF bw] s1(3) by simp
  have m2: "moves X {#waiter_tid w i#} w1 w2"
    using rr Cons.prems(2) s1(1) ready_to_run_moves [OF assms] by (simp add: ready_to_run_general_def tid)
  have m12: "moves X {#waiter_tid w i#} w w2" by (rule moves_trans_0(1) [OF m1 m2])
  note s2 = steady_sels [OF moves_steady(1) [OF m12]]
  have m3: "moves X (bthreads_of (waiter_tid w) ws) w2 w' \<and> n' = n + 1 + int (length ws)"
    using Cons.IH [OF rest] Cons.prems(2,3) s2(1,3) by simp
  have nz: "waiter_tid w i \<noteq> 0" using Cons.prems(3) by simp
  from moves_trans [OF m12 conjunct1 [OF m3]] m3 nz show ?case by (simp add: ac_simps)
qed

lemma bthreads_of_rev [simp]: "bthreads_of tid_of (rev ws) = bthreads_of tid_of ws"
  by (simp add: bthreads_of_def)

text \<open>What a caller that may be switched away needs: it is a bthread that has set no callback, and the
  bthread that is woken is another one that is alive.  A thread that is no worker needs nothing.\<close>

definition waker_ok :: "('q, 'r, 'x) world \<Rightarrow> bthread_t \<Rightarrow> bool" where
  "waker_ok w t \<longleftrightarrow>
     (\<forall>g. tls_task_group (cur_tls w) = Some g \<longrightarrow>
        (\<exists>tg cur t0. group_at w g = Some tg \<and> tg_cur_meta tg = Some cur \<and> meta_tid w cur = Some t0
           \<and> t0 \<noteq> tg_main_tid tg \<and> tg_last_context_remained tg = None
           \<and> live_task w t \<and> t \<noteq> t0 \<and> t \<noteq> tg_main_tid tg))"

lemma waker_ok_steady:
  assumes "steady w w'" and "waker_ok w t"
  shows "waker_ok w' t"
  unfolding waker_ok_def
proof (intro allI impI)
  fix g assume "tls_task_group (cur_tls w') = Some g"
  then have own: "tls_task_group (cur_tls w) = Some g" using steady_sels(1) [OF assms(1)] by simp
  then obtain tg cur t0 where tg: "group_at w g = Some tg" "tg_cur_meta tg = Some cur" "meta_tid w cur = Some t0"
    "t0 \<noteq> tg_main_tid tg" "tg_last_context_remained tg = None" "live_task w t" "t \<noteq> t0" "t \<noteq> tg_main_tid tg"
    using assms(2) unfolding waker_ok_def by blast
  obtain tg' where tg': "group_at w' g = Some tg'" "queue_part_only tg tg'"
    using steady_own [OF assms(1) own tg(1)] by blast
  have "meta_tid w' = meta_tid w" by (rule steady_sels(2) [OF assms(1)])
  then show "\<exists>tg cur t0. group_at w' g = Some tg \<and> tg_cur_meta tg = Some cur \<and> meta_tid w' cur = Some t0
           \<and> t0 \<noteq> tg_main_tid tg \<and> tg_last_context_remained tg = None
           \<and> live_task w' t \<and> t \<noteq> t0 \<and> t \<noteq> tg_main_tid tg"
    using tg tg'(1) queue_part_only_same [OF tg'(2)]
    by (intro exI [of _ tg'] exI [of _ cur] exI [of _ t0]) (simp add: live_task_def)
qed

lemma exchange_waker:
  assumes "ext_queues_ok X" and "naps_ok X" and "tls_task_group (cur_tls w) = Some g" and "waker_ok w t"
    and "exchange X g t w = Some (jumped, g', w')"
  shows "switches X {#t#} {#} w w'"
proof -
  obtain tg cur t0 where tg: "group_at w g = Some tg" "tg_cur_meta tg = Some cur" "meta_tid w cur = Some t0"
    "t0 \<noteq> tg_main_tid tg" "tg_last_context_remained tg = None" "live_task w t" "t \<noteq> t0" "t \<noteq> tg_main_tid tg"
    using assms(3,4) unfolding waker_ok_def by blast
  obtain m where m: "metas w cur = Some m" "tm_tid m = t0" using tg(3) by (auto simp: meta_tid_def)
  show ?thesis
    using exchange_switches [OF assms(1-3) tg(1,2) m(1) _ tg(5,6) _ tg(8) assms(5)] m(2) tg(4,7) by simp
qed

lemma wake_front_switches:
  assumes "ext_queues_ok X" and "naps_ok X" and "waiter_tid w i \<noteq> 0 \<longrightarrow> waker_ok w (waiter_tid w i)"
    and "wake_front X i w = Some (n, jumped, w')"
  shows "n = 1 \<and> switches X (if waiter_tid w i = 0 then {#} else {#waiter_tid w i#}) {#} w w'"
proof -
  obtain bw where bw: "waiters w i = Some bw" using assms(4) by (auto simp: wake_front_def bind_Some_conv)
  note tid = waiter_tid_at [OF bw]
  show ?thesis
  proof (cases "w_tid bw = 0")
    case True
    then show ?thesis using assms(4) bw tid wakeup_pthread_moves moves_switches
      by (fastforce simp: wake_front_def bind_Some_conv)
  next
    case False
    obtain rc w1 where un: "unsleep_if_necessary X i w = Some (rc, w1)"
      using assms(4) bw False by (auto simp: wake_front_def bind_Some_conv)
    have m1: "moves X {#} w w1" by (rule unsleep_moves [OF un])
    have wk: "waker_ok w1 (w_tid bw)"
      using waker_ok_steady [OF moves_steady(1) [OF m1]] assms(3) False tid by simp
    have "n = 1 \<and> switches X {#w_tid bw#} {#} w1 w'"
    proof (cases "tls_task_group (cur_tls w1)")
      case (Some g)
      then obtain g' where "exchange X g (w_tid bw) w1 = Some (jumped, g', w')" "n = 1"
        using assms(4) bw False un by (auto simp: wake_front_def bind_Some_conv)
      then show ?thesis using exchange_waker [OF assms(1,2) Some wk] by simp
    next
      case None
      then obtain go w2 g where "choose_one_group X w1 = Some (go, w2)" "n = 1"
        "ready_to_run_remote X g (w_tid bw) False w2 = Some w'"
        using assms(4) bw False un by (auto simp: wake_front_def bind_Some_conv)
      then show ?thesis
        using choose_one_group_moves ready_to_run_remote_moves [OF assms(1,2)] moves_trans_0(1) moves_switches
        by blast
    qed
    then show ?thesis using switches_trans_0(1) [OF moves_switches [OF m1]] False tid by simp
  qed
qed

lemma pop_waiter_takes:
  assumes "butexes_ok w" and "butex_at w b = Some bx" and "bx_waiters bx = front # rest"
    and "pop_waiter b bx front rest w = Some w'"
  shows "takes X (if waiter_tid w front = 0 then {#} else {#waiter_tid w front#}) w w'"
    and "detached front w'"
proof -
  obtain bw where bw: "waiters w front = Some bw"
    and w': "w' = put_waiter front (bw\<lparr>w_container := None\<rparr>) (put_butex b (bx\<lparr>bx_waiters := rest\<rparr>) w)"
    using assms(4) by (auto simp: pop_waiter_def bind_Some_conv)
  have "w_container bw = Some b" using butexes_okD(2) [OF assms(1,2), of front] assms(3) bw by simp
  from dequeue_takes [OF assms(1,2) bw this, of "bw\<lparr>w_container := None\<rparr>" X]
  have "takes X (if w_tid bw = 0 then {#} else {#w_tid bw#}) w
      (put_waiter front (bw\<lparr>w_container := None\<rparr>)
        (put_butex b (bx\<lparr>bx_waiters := remove1 front (bx_waiters bx)\<rparr>) w))" by simp
  moreover have "remove1 front (bx_waiters bx) = rest" by (simp add: assms(3))
  ultimately show "takes X (if waiter_tid w front = 0 then {#} else {#waiter_tid w front#}) w w'"
    unfolding w' waiter_tid_at [OF bw] by (simp only:)
  show "detached front w'" by (simp add: detached_def w')
qed

section \<open>Properties\<close>

lemma butex_wake_switches:
  assumes "ext_queues_ok X" and "naps_ok X" and "butexes_ok w" and "butex_at w b = Some bx"
    and "\<forall>i \<in> set (bx_waiters bx). waiter_tid w i \<noteq> 0 \<longrightarrow> waker_ok w (waiter_tid w i)"
    and "butex_wake X b w = Some (n, jumped, w')"
  shows "switches X {#} {#} w w' \<and> n = (if bx_waiters bx = [] then 0 else 1) \<and> (bx_waiters bx = [] \<longrightarrow> w' = w)"
proof (cases "bx_waiters bx")
  case Nil
  then show ?thesis using assms(4,6) moves_switches [OF moves_refl] by (simp add: butex_wake_def)
next
  case (Cons front rest)
  then obtain w1 where pop: "pop_waiter b bx front rest w = Some w1" and fr: "wake_front X front w1 = Some (n, jumped, w')"
    using assms(4,6) by (auto simp: butex_wake_def bind_Some_conv)
  note tk = pop_waiter_takes(1) [OF assms(3,4) Cons pop, of X]
  note st = moves_steady(2) [OF tk]
  have tid: "waiter_tid w1 = waiter_tid w" by (rule steady_sels(3) [OF st])
  have "waiter_tid w1 front \<noteq> 0 \<longrightarrow> waker_ok w1 (waiter_tid w1 front)"
    using assms(5) Cons waker_ok_steady [OF st] tid by simp
  from wake_front_switches [OF assms(1,2) this fr]
  have "n = 1 \<and> switches X (if waiter_tid w front = 0 then {#} else {#waiter_tid w front#}) {#} w1 w'"
    unfolding tid .
  then have n: "n = 1" and sw: "switches X (if waiter_tid w front = 0 then {#} else {#waiter_tid w front#}) {#} w1 w'"
    by blast+
  from switches_cancel_0 [OF switches_trans_0(4) [OF takes_switches [OF tk] sw]] n Cons show ?thesis by simp
qed


lemma wait_world_waker: "waker_ok (wait_world (Some 0)) (make_tid 1 3)"
  by (simp add: waker_ok_def wait_world_def live_task_def meta_tid_def make_tid_demo demo_defs)


lemma flush_general_worker_moves:
  "(if c then flush_nosignal_tasks_general X g w else Some w) = Some w' \<Longrightarrow> moves X {#} w w'"
  by (auto split: if_splits intro: flush_general_moves)

lemma woken_counts:
  "length (woken_bthreads w excl ws) + length (woken_pthreads w ws) + length (left_waiters w excl ws) = length ws"
  by (induction ws) (auto simp: woken_bthreads_def woken_pthreads_def left_waiters_def)

lemma butex_wake_except_moves:
  assumes "ext_queues_ok X" and "naps_ok X" and "butexes_ok w" and "butex_at w b = Some bx"
    and "tls_task_group (cur_tls w) = Some g"
    and "length (left_waiters w excl (bx_waiters bx)) \<le> 1"
    and "butex_wake_except X b excl w = Some (n, w')"
  shows "moves X {#} w w'
    \<and> n = int (length (bx_waiters bx)) - int (length (left_waiters w excl (bx_waiters bx)))"
proof -
  let ?ws = "bx_waiters bx"
  obtain bs ps w1 n1 w2 where tw: "take_waiters b excl w = Some (bs, ps, w1)"
    and wp: "wake_pthreads X ps 0 w1 = Some (n1, w2)"
    using assms(7) by (auto simp: butex_wake_except_def bind_Some_conv)
  note tk = take_waiters_takes [OF assms(3,4,6) tw]
  have m2: "moves X {#} w1 w2" and n1: "n1 = int (length ps)" using wake_pthreads_moves [OF wp] by simp_all
  have tk2: "takes X (bthreads_of (waiter_tid w) bs) w w2" by (rule takes_moves(3) [OF tk(4) m2])
  note st = steady_sels [OF moves_steady(2) [OF tk2]]
  have n: "int (length bs) + int (length ps) = int (length ?ws) - int (length (left_waiters w excl ?ws))"
    using woken_counts [of w excl ?ws] tk(1,2) by simp
  have "moves X {#} w w' \<and> n = int (length bs) + int (length ps)"
  proof (cases "bs = []")
    case True
    then show ?thesis using assms(7) tw wp tk2 n1 by (auto simp: butex_wake_except_def)
  next
    case False
    have "get_task_group X w2 = Some (Some g, w2)" using st(1) assms(5) by (simp add: get_task_group_def)
    then obtain n2 w4 where rw: "ready_waiters X g (rev bs) n1 w2 = Some (n2, w4)"
      and fl: "(if n1 \<noteq> n2 then flush_nosignal_tasks_general X g w4 else Some w4) = Some w'" and "n = n2"
      using assms(7) tw wp False by (auto simp: butex_wake_except_def bind_Some_conv)
    have nz: "\<forall>i \<in> set (rev bs). waiter_tid w2 i \<noteq> 0" using tk(1) st(3) by (simp add: woken_bthreads_def)
    have "tls_task_group (cur_tls w2) = Some g" using st(1) assms(5) by simp
    from ready_waiters_moves [OF assms(1,2) rw this nz]
    have m4: "moves X (bthreads_of (waiter_tid w) bs) w2 w4" and n2: "n2 = n1 + int (length bs)"
      using st(3) by simp_all
    have "moves X {#} w w4" by (rule takes_moves(1) [OF tk2 m4])
    then show ?thesis using flush_general_worker_moves [OF fl] moves_trans_0(1) \<open>n = n2\<close> n1 n2 by fastforce
  qed
  then show ?thesis using n by simp
qed


text \<open>The waiters 7 and 8 of bthreads and 9 of a pthread are in the list of butex 0.\<close>

definition crowd_world :: "gid option \<Rightarrow> demo_world" where
  "crowd_world own = demo_world own
     [demo_group 5 (make_tid 1 1) [] [], demo_group 2 (make_tid 1 2) [] []]
     [7, 9, 8] [7 \<mapsto> demo_waiter (make_tid 1 3) (Some 0) 3, 8 \<mapsto> demo_waiter (make_tid 1 4) (Some 0) 4,
       9 \<mapsto> demo_waiter 0 (Some 0) 0]"

lemma crowd_world_ok: "butexes_ok (crowd_world own)"
  by (auto simp: butexes_ok_def crowd_world_def demo_defs nth_opt_def nth_Cons split: nat.splits if_splits)

lemma crowd_tids:
  "waiter_tid (crowd_world own) 7 = make_tid 1 3" "waiter_tid (crowd_world own) 8 = make_tid 1 4"
  "waiter_tid (crowd_world own) 9 = 0"
  "butex_at (crowd_world own) 0 = Some (demo_butex 1 [7, 9, 8])"
  "tls_task_group (cur_tls (crowd_world own)) = own"
  by (simp_all add: crowd_world_def waiter_tid_def demo_defs)

lemmas demo_wake_defs = take_waiters_def wakeup_pthread_def get_task_group_def ready_to_run_general_def
  flush_nosignal_tasks_general_def flush_nosignal_tasks_def unsleep_if_necessary_def exchange_def
  set_remained_def signal_task_def signal_lots_def pl_signal_def own_lot_def set_pl_def pl_value_def
  PARKING_LOT_NUM_def add_workers_def signal_loop.simps add_workers_loop.simps
  crowd_world_def put_waiter_def put_butex_def


lemma butex_wake_all_switches:
  assumes "ext_queues_ok X" and "naps_ok X" and "butexes_ok w" and "butex_at w b = Some bx"
    and "tls_task_group (cur_tls w) = Some g"
    and "\<forall>i \<in> set (bx_waiters bx). waiter_tid w i \<noteq> 0 \<longrightarrow> waker_ok w (waiter_tid w i)"
    and "butex_wake_all X b w = Some (n, jumped, w')"
  shows "switches X {#} {#} w w' \<and> n = int (length (bx_waiters bx))"
proof -
  let ?ws = "bx_waiters bx"
  have none: "left_waiters w 0 ?ws = []" by (simp add: left_waiters_def filter_empty_conv)
  obtain bs ps w1 n1 w2 where tw: "take_waiters b 0 w = Some (bs, ps, w1)"
    and wp: "wake_pthreads X ps 0 w1 = Some (n1, w2)"
    using assms(7) by (auto simp: butex_wake_all_def bind_Some_conv)
  have "length (left_waiters w 0 ?ws) \<le> 1" by (simp add: none)
  note tk = take_waiters_takes [OF assms(3,4) this tw]
  have m2: "moves X {#} w1 w2" and n1: "n1 = int (length ps)" using wake_pthreads_moves [OF wp] by simp_all
  have tk2: "takes X (bthreads_of (waiter_tid w) bs) w w2" by (rule takes_moves(3) [OF tk(4) m2])
  have n: "int (length bs) + int (length ps) = int (length ?ws)"
    using woken_counts [of w 0 ?ws] tk(1,2) none by simp
  show ?thesis
  proof (cases bs)
    case Nil
    then have "n = n1" "w' = w2" using assms(7) tw wp by (auto simp: butex_wake_all_def)
    then show ?thesis using Nil tk2 n n1 moves_switches by simp
  next
    case (Cons fst_w rest)
    obtain rc w3 where un: "unsleep_if_necessary X fst_w w2 = Some (rc, w3)"
      using assms(7) tw wp Cons by (auto simp: butex_wake_all_def bind_Some_conv)
    have tk3: "takes X (bthreads_of (waiter_tid w) bs) w w3" by (rule takes_moves(3) [OF tk2 unsleep_moves [OF un]])
    note st3 = steady_sels [OF moves_steady(2) [OF tk3]]
    have own3: "tls_task_group (cur_tls w3) = Some g" using st3(1) assms(5) by simp
    then have tg: "get_task_group X w3 = Some (Some g, w3)" by (simp add: get_task_group_def)
    obtain n2 w5 w6 bw where rw: "ready_waiters X g (rev rest) (n1 + 1) w3 = Some (n2, w5)"
      and fl: "(if n1 + 1 \<noteq> n2 then flush_nosignal_tasks_general X g w5 else Some w5) = Some w6"
      and bw: "waiters w6 fst_w = Some bw"
      and last: "(if tls_task_group (cur_tls w6) = Some g then do {
               (jumped, g', w7) \<leftarrow> exchange X g (w_tid bw) w6; Some (n2, jumped, w7) }
             else do { w7 \<leftarrow> ready_to_run_remote X g (w_tid bw) False w6; Some (n2, False, w7) })
           = Some (n, jumped, w')"
      using assms(7) tw wp Cons un tg by (auto simp: butex_wake_all_def bind_Some_conv Let_def)
    have bsw: "\<forall>i \<in> set bs. i \<in> set ?ws \<and> waiter_tid w i \<noteq> 0" using tk(1) by (simp add: woken_bthreads_def)
    then have "\<forall>i \<in> set (rev rest). waiter_tid w3 i \<noteq> 0" using Cons st3(3) by simp
    from ready_waiters_moves [OF assms(1,2) rw own3 this]
    have m5: "moves X (bthreads_of (waiter_tid w) rest) w3 w5" and n2: "n2 = n1 + 1 + int (length rest)"
      using st3(3) by simp_all
    have m6: "moves X (bthreads_of (waiter_tid w) rest) w3 w6"
      by (rule moves_trans_0(2) [OF m5 flush_general_worker_moves [OF fl]])
    have nz: "waiter_tid w fst_w \<noteq> 0" using bsw Cons by simp
    then have "takes X (bthreads_of (waiter_tid w) rest + {#waiter_tid w fst_w#}) w w3"
      using tk3 Cons by (simp add: ac_simps)
    then have tk6: "takes X {#waiter_tid w fst_w#} w w6" by (rule takes_moves(2) [OF _ m6])
    note st6 = steady_sels [OF moves_steady(2) [OF tk6]]
    have tid: "w_tid bw = waiter_tid w fst_w" using waiter_tid_at [OF bw] st6(3) by simp
    have own6: "tls_task_group (cur_tls w6) = Some g" using st6(1) assms(5) by simp
    then obtain g' where ex: "exchange X g (waiter_tid w fst_w) w6 = Some (jumped, g', w')" and nn: "n = n2"
      using last tid by (auto simp: bind_Some_conv)
    have "waker_ok w6 (waiter_tid w fst_w)"
      using waker_ok_steady [OF moves_steady(2) [OF tk6]] assms(6) bsw Cons by simp
    from exchange_waker [OF assms(1,2) own6 this ex]
    have "switches X {#} {#} w w'"
      using switches_cancel_0 [OF switches_trans_0(4) [OF takes_switches [OF tk6]]] by blast
    then show ?thesis using n n1 n2 nn Cons by simp
  qed
qed



section \<open>\<open>butex_requeue\<close>\<close>

lemma requeue_step:
  assumes "butexes_ok w" and "b \<noteq> m" and "butex_at w b = Some bx" and "butex_at w m = Some mx"
    and "bx_waiters bx = i # rest" and "waiters w i = Some bw"
  defines "v \<equiv> enqueue_waiter m i bw mx (put_butex b (bx\<lparr>bx_waiters := rest\<rparr>) w)"
  shows "butexes_ok v" and "tasks X v = tasks X w"
    and "butex_at v b = Some (bx\<lparr>bx_waiters := rest\<rparr>)"
    and "butex_at v m = Some (mx\<lparr>bx_waiters := bx_waiters mx @ [i]\<rparr>)"
    and "waiter_tid v = waiter_tid w"
    and "\<And>j. waiters v j = None \<longleftrightarrow> waiters w j = None"
proof -
  have cont: "w_container bw = Some b" using butexes_okD(2) [OF assms(1,3), of i] assms(5,6) by simp
  let ?w1 = "put_butex b (bx\<lparr>bx_waiters := rest\<rparr>) w"
  have wt1: "waiter_tid ?w1 = waiter_tid w" by simp
  have t1: "tasks X ?w1 + bthreads_of (waiter_tid w) (bx_waiters bx) = tasks X w + bthreads_of (waiter_tid w) rest"
    using tasks_butex_change [OF assms(3), of ?w1 "bx\<lparr>bx_waiters := rest\<rparr>" X] by simp
  have m1: "butex_at ?w1 m = Some mx" "waiters ?w1 i = Some bw" using assms(2,4,6) by auto
  have t2: "tasks X v + bthreads_of (waiter_tid w) (bx_waiters mx) =
      tasks X ?w1 + bthreads_of (waiter_tid w) (bx_waiters mx @ [i])"
    using tasks_put_butex [OF m1, of "bw\<lparr>w_container := Some m\<rparr>" X "mx\<lparr>bx_waiters := bx_waiters mx @ [i]\<rparr>"]
    by (simp add: v_def enqueue_waiter_def)
  show "tasks X v = tasks X w" using t1 t2 assms(5) by (auto split: if_splits)
  show "butex_at v b = Some (bx\<lparr>bx_waiters := rest\<rparr>)"
    "butex_at v m = Some (mx\<lparr>bx_waiters := bx_waiters mx @ [i]\<rparr>)"
    using assms(2-4) by (auto simp: v_def enqueue_waiter_def nth_opt_Some)
  show "waiter_tid v = waiter_tid w"
    using waiter_tid_put_waiter [of "put_butex m (mx\<lparr>bx_waiters := bx_waiters mx @ [i]\<rparr>) ?w1" i bw] m1
    by (simp add: v_def enqueue_waiter_def)
  show "waiters v j = None \<longleftrightarrow> waiters w j = None" for j
    using assms(6) by (simp add: v_def enqueue_waiter_def)
  have wv: "waiters v = (waiters w)(i \<mapsto> bw\<lparr>w_container := Some m\<rparr>)" by (simp add: v_def enqueue_waiter_def)
  show "butexes_ok v"
    unfolding butexes_ok_def
  proof (intro conjI allI impI)
    fix j c assume "\<exists>u. waiters v j = Some u \<and> w_container u = Some c"
    then show "c < length (butexes v)"
      using butexes_ok_container [OF assms(1), of j] assms(4)
      by (cases "j = i") (auto simp: v_def enqueue_waiter_def nth_opt_Some)
  next
    fix c cx assume c: "butex_at v c = Some cx"
    have mem: "(\<exists>u. waiters v j = Some u \<and> w_container u = Some c) \<longleftrightarrow>
        (if j = i then c = m else (\<exists>u. waiters w j = Some u \<and> w_container u = Some c))" for j
      by (auto simp: wv)
    have i_at: "i \<notin> set (bx_waiters cx')" if "butex_at w c' = Some cx'" "c' \<noteq> b" for c' cx'
      using butexes_okD(2) [OF assms(1) that(1), of i] assms(6) cont that(2) by simp
    note okb = butexes_okD [OF assms(1,3)] and okm = butexes_okD [OF assms(1,4)]
    consider (b) "c = b" "cx = bx\<lparr>bx_waiters := rest\<rparr>" | (m) "c = m" "cx = mx\<lparr>bx_waiters := bx_waiters mx @ [i]\<rparr>"
      | (o) "c \<noteq> b" "c \<noteq> m" "butex_at w c = Some cx"
      using c assms(2-4) by (auto simp: v_def enqueue_waiter_def nth_opt_Some split: if_splits)
    then have "distinct (bx_waiters cx) \<and>
        (\<forall>j. (j \<in> set (bx_waiters cx)) = (\<exists>u. waiters v j = Some u \<and> w_container u = Some c))"
    proof cases
      case b
      then show ?thesis using okb assms(2,5) unfolding mem by (auto split: if_splits)
    next
      case m
      then show ?thesis using okm i_at [OF assms(4)] assms(2) unfolding mem by (auto split: if_splits)
    next
      case o
      then show ?thesis using butexes_okD [OF assms(1) o(3)] i_at [OF o(3)] unfolding mem by (auto split: if_splits)
    qed
    then show "distinct (bx_waiters cx)"
      "(j \<in> set (bx_waiters cx)) = (\<exists>u. waiters v j = Some u \<and> w_container u = Some c)" for j by auto
  qed
qed

text \<open>
  The loop, for two different butexes: it ends, with the first list empty, the second one followed by the
  waiters in their order, every waiter knowing its new butex, and no bthread lost.
\<close>

lemma requeue_loop_correct:
  assumes "b \<noteq> m"
  shows "butexes_ok w \<Longrightarrow> butex_at w b = Some bx \<Longrightarrow> butex_at w m = Some mx \<Longrightarrow>
    \<exists>w'. requeue_loop b m w = Some w' \<and> butexes_ok w' \<and> tasks X w' = tasks X w
    \<and> map_option bx_waiters (butex_at w' b) = Some []
    \<and> map_option bx_waiters (butex_at w' m) = Some (bx_waiters mx @ bx_waiters bx)"
proof (induction "bx_waiters bx" arbitrary: w bx mx)
  case Nil
  then show ?case by (subst requeue_loop.simps) simp
next
  case (Cons i rest)
  obtain bw where bw: "waiters w i = Some bw"
    using butexes_okD(2) [OF Cons.prems(1,2), of i] Cons.hyps(2) by (metis list.set_intros(1))
  let ?v = "enqueue_waiter m i bw mx (put_butex b (bx\<lparr>bx_waiters := rest\<rparr>) w)"
  note step = requeue_step [OF Cons.prems(1) assms Cons.prems(2,3) Cons.hyps(2) [symmetric] bw]
  have unfold: "requeue_loop b m w = requeue_loop b m ?v"
    using Cons.prems(2,3) Cons.hyps(2) [symmetric] bw assms by (subst requeue_loop.simps) (simp add: Let_def)
  show ?case unfolding unfold
    using Cons.hyps(1) [OF _ step(1,3,4)] step(2) [of X] Cons.hyps(2) [symmetric] by simp
qed

text \<open>With one butex in both roles, as the code calls it, the loop ends only on an empty list.\<close>

lemma requeue_loop_same:
  assumes "requeue_loop b b w = Some w'" and "butex_at w b = Some bx"
  shows "bx_waiters bx = []"
proof -
  have "b = m \<longrightarrow> (\<forall>bx. butex_at w b = Some bx \<longrightarrow> bx_waiters bx = [])"
    if "requeue_loop b m w = Some w'" for b m and w w' :: "('a, 'b, 'c) world"
  proof (rule requeue_loop.raw_induct [OF _ that,
        where P = "\<lambda>b m w w'. b = m \<longrightarrow> (\<forall>bx. butex_at w b = Some bx \<longrightarrow> bx_waiters bx = [])"], goal_cases)
    case (1 f b m w w')
    show ?case
    proof (intro impI allI)
      fix bx assume eq: "b = m" and bx: "butex_at w b = Some bx"
      show "bx_waiters bx = []"
      proof (cases "bx_waiters bx")
        case (Cons i rest)
        let ?w1 = "put_butex b (bx\<lparr>bx_waiters := rest\<rparr>) w"
        obtain bw where "f b m (enqueue_waiter m i bw (bx\<lparr>bx_waiters := rest\<rparr>) ?w1) = Some w'"
          using 1(2) bx Cons eq by (auto simp: bind_Some_conv Let_def nth_opt_Some)
        from 1(1) [OF this] eq bx have False by (auto simp: enqueue_waiter_def nth_opt_Some)
        then show ?thesis ..
      qed
    qed
  qed
  from this [OF assms(1)] assms(2) show ?thesis by blast
qed

lemma butex_requeue_ignores_arg2: "butex_requeue X b m w = butex_requeue X b m' w"
  by (simp add: butex_requeue_def)



section \<open>Waking from a thread that is no worker\<close>

text \<open>
  There \<open>ready_to_run_general\<close> drops the task: all the bthreads that \<open>butex_wake_except\<close> takes out of the list
  are lost, if the undeclared function moves none.
\<close>

lemma ready_waiters_lost:
  assumes "\<And>g u u'. ready_nosignal_tasks_remote X g u = Some u' \<Longrightarrow> moves X {#} u u'"
  shows "ready_waiters X g ws n w = Some (n', w') \<Longrightarrow> tls_task_group (cur_tls w) = None \<Longrightarrow> moves X {#} w w'"
proof (induction ws arbitrary: n w)
  case Nil
  then show ?case by simp
next
  case (Cons i ws)
  obtain rc w1 w2 and bw :: waiter where un: "unsleep_if_necessary X i w = Some (rc, w1)"
    and rr: "ready_to_run_general X g (w_tid bw) True w1 = Some w2"
    and rest: "ready_waiters X g ws (n + 1) w2 = Some (n', w')"
    using Cons.prems(1) by (auto simp: bind_Some_conv)
  have m1: "moves X {#} w w1" by (rule unsleep_moves [OF un])
  have own: "tls_task_group (cur_tls w1) = None" using steady_sels(1) [OF moves_steady(1) [OF m1]] Cons.prems(2) by simp
  then have m2: "moves X {#} w1 w2" using rr assms by (simp add: ready_to_run_general_def)
  have "tls_task_group (cur_tls w2) = None" using steady_sels(1) [OF moves_steady(1) [OF m2]] own by simp
  from Cons.IH [OF rest this] show ?case using m1 m2 moves_trans_0(1) by blast
qed

lemma butex_wake_except_non_worker_loses:
  assumes "butexes_ok w" and "butex_at w b = Some bx" and "tls_task_group (cur_tls w) = None"
    and "\<And>g u u'. ready_nosignal_tasks_remote X g u = Some u' \<Longrightarrow> moves X {#} u u'"
    and "length (left_waiters w excl (bx_waiters bx)) \<le> 1"
    and "butex_wake_except X b excl w = Some (n, w')"
  shows "tasks X w = tasks X w' + bthreads_of (waiter_tid w) (woken_bthreads w excl (bx_waiters bx))"
proof -
  obtain bs ps w1 n1 w2 where tw: "take_waiters b excl w = Some (bs, ps, w1)"
    and wp: "wake_pthreads X ps 0 w1 = Some (n1, w2)"
    using assms(6) by (auto simp: butex_wake_except_def bind_Some_conv)
  note tk = take_waiters_takes [OF assms(1,2,5) tw]
  have tk2: "takes X (bthreads_of (waiter_tid w) bs) w w2"
    by (rule takes_moves(3) [OF tk(4) conjunct1 [OF wake_pthreads_moves [OF wp]]])
  have own: "tls_task_group (cur_tls w2) = None"
    using steady_sels(1) [OF moves_steady(2) [OF tk2]] assms(3) by simp
  have "moves X {#} w2 w'"
  proof (cases "bs = []")
    case True
    then show ?thesis using assms(6) tw wp by (auto simp: butex_wake_except_def)
  next
    case False
    obtain g w3 where tg: "get_task_group X w2 = Some (Some g, w3)"
      using assms(6) tw wp False
      by (cases "get_task_group X w2") (auto simp: butex_wake_except_def bind_Some_conv)
    obtain n2 w4 where rw: "ready_waiters X g (rev bs) n1 w3 = Some (n2, w4)"
      using assms(6) tw wp False tg
      by (cases "ready_waiters X g (rev bs) n1 w3") (auto simp: butex_wake_except_def)
    have fl: "(if n1 \<noteq> n2 then flush_nosignal_tasks_general X g w4 else Some w4) = Some w'"
      using assms(6) tw wp False tg rw
      by (cases "if n1 \<noteq> n2 then flush_nosignal_tasks_general X g w4 else Some w4")
        (simp_all add: butex_wake_except_def)
    have m3: "moves X {#} w2 w3" by (rule get_task_group_moves [OF tg])
    have "tls_task_group (cur_tls w3) = None" using steady_sels(1) [OF moves_steady(1) [OF m3]] own by simp
    from ready_waiters_lost [OF assms(4) rw this] have m4: "moves X {#} w3 w4" .
    show ?thesis by (rule moves_trans_0(1) [OF m3 moves_trans_0(1) [OF m4 flush_general_worker_moves [OF fl]]])
  qed
  then show ?thesis using tk2 tk(1) by (simp add: takes_def moves_def)
qed

end
