(* ===== verification/Queries.thy ===== *)
theory Queries
  imports ButexWake
begin

text \<open>
  Questions about a bthread by its identifier (\<open>task_group.cpp\<close>): does it exist, was it stopped, its attributes,
  and waiting for its end.  An identifier is of a living bthread exactly if its version is the value of
  the butex of its slot.
\<close>

section \<open>The operations\<close>

text \<open>\<open>*m->version_butex\<close>\<close>

definition version_of :: "('q, 'r, 'x) world \<Rightarrow> task_meta \<Rightarrow> 32 word option" where
  "version_of w m = map_option bx_value (butex_at w (tm_version_butex m))"

text \<open>\<open>get_attr\<close> compares with the word of the lock, not with the butex.\<close>

definition get_attr ::
  "bthread_t \<Rightarrow> ('q, 'r, 'x) world \<Rightarrow> int \<times> bthread_attr option \<times> ('q, 'r, 'x) world" where
  "get_attr tid w =
     (case address_meta w tid of
        None \<Rightarrow> (-1, None, set_errno EINVAL w)
      | Some m \<Rightarrow>
          if get_version tid = tm_version_lock m then (0, Some (tm_attr m), w)
          else (-1, None, set_errno EINVAL w))"

definition set_stopped :: "bthread_t \<Rightarrow> ('q, 'r, 'x) world \<Rightarrow> ('q, 'r, 'x) world option" where
  "set_stopped tid w =
     (case address_meta w tid of
        None \<Rightarrow> Some w
      | Some m \<Rightarrow> do {
          v \<leftarrow> version_of w m;
          Some (if get_version tid = v then put_meta (get_slot tid) (m\<lparr>tm_stop := True\<rparr>) w else w)
        })"

definition is_stopped :: "bthread_t \<Rightarrow> ('q, 'r, 'x) world \<Rightarrow> bool option" where
  "is_stopped tid w =
     (case address_meta w tid of
        None \<Rightarrow> Some True
      | Some m \<Rightarrow> do {
          v \<leftarrow> version_of w m;
          Some (if get_version tid = v then tm_stop m else True)
        })"

definition exists :: "bthread_t \<Rightarrow> ('q, 'r, 'x) world \<Rightarrow> bool option" where
  "exists tid w =
     (if tid = 0 then Some False
      else case address_meta w tid of
        None \<Rightarrow> Some False
      | Some m \<Rightarrow> do { v \<leftarrow> version_of w m; Some (v = get_version tid) })"

definition main_stat :: "('q, 'r) task_group \<Rightarrow> ('q, 'r, 'x) world \<Rightarrow> task_statistics" where
  "main_stat tg w =
     (case address_meta w (tg_main_tid tg) of None \<Rightarrow> EMPTY_STAT | Some m \<Rightarrow> tm_stat m)"

definition current_tid :: "gid \<Rightarrow> ('q, 'r, 'x) world \<Rightarrow> bthread_t option" where
  "current_tid g w =
     do { tg \<leftarrow> group_at w g; cur \<leftarrow> tg_cur_meta tg; m \<leftarrow> metas w cur; Some (tm_tid m) }"

definition current_uptime_ns ::
  "('q, 'r, 'x) ext \<Rightarrow> gid \<Rightarrow> ('q, 'r, 'x) world \<Rightarrow> (int \<times> ('q, 'r, 'x) world) option" where
  "current_uptime_ns X g w =
     do {
       tg \<leftarrow> group_at w g;
       cur \<leftarrow> tg_cur_meta tg;
       m \<leftarrow> metas w cur;
       let (x, now) = cpuwide_time_ns X (outside w);
       Some (now - tm_cpuwide_start_ns m, w\<lparr>outside := x\<rparr>)
     }"

text \<open>
  \<open>join\<close>.  What it stores through \<open>return_value\<close> is always NULL and left out.
\<close>

partial_function (option) join_loop ::
  "('q, 'r, 'x) ext \<Rightarrow> slot \<Rightarrow> 32 word \<Rightarrow> ('q, 'r, 'x) world \<Rightarrow> (errcode \<times> ('q, 'r, 'x) world) option" where
  "join_loop X s expected w =
     do {
       m \<leftarrow> metas w s;
       v \<leftarrow> version_of w m;
       (if v = expected then do {
          (rc, w1) \<leftarrow> butex_wait X (tm_version_butex m) expected None w;
          (if rc < 0 \<and> tls_errno (cur_tls w1) \<noteq> EWOULDBLOCK \<and> tls_errno (cur_tls w1) \<noteq> EINTR
           then Some (tls_errno (cur_tls w1), w1)
           else join_loop X s expected w1)
        }
        else Some (E0, w))
     }"

definition joins_itself :: "bthread_t \<Rightarrow> ('q, 'r, 'x) world \<Rightarrow> bool option" where
  "joins_itself tid w =
     (case tls_task_group (cur_tls w) of
        None \<Rightarrow> Some False
      | Some g \<Rightarrow> do { t \<leftarrow> current_tid g w; Some (t = tid) })"

definition join ::
  "('q, 'r, 'x) ext \<Rightarrow> bthread_t \<Rightarrow> ('q, 'r, 'x) world \<Rightarrow> (errcode \<times> ('q, 'r, 'x) world) option" where
  "join X tid w =
     (if tid = 0 \<or> address_meta w tid = None then Some (EINVAL, w)
      else do {
        self \<leftarrow> joins_itself tid w;
        (if self then Some (EINVAL, w) else join_loop X (get_slot tid) (get_version tid) w)
      })"

section \<open>Stopping\<close>

lemma address_meta_put_meta:
  "address_meta (put_meta s m w) t = (if get_slot t = s then Some m else address_meta w t)"
  by (simp add: address_meta_def)

lemma version_of_put_meta [simp]: "version_of (put_meta s m w) = version_of w"
  by (rule ext) (simp add: version_of_def)

text \<open>
  Stopping a bthread that exists makes it stopped, changes the answer for no other identifier and no
  identifier's existence; an identifier whose bthread ended (or never was) counts as stopped, and stopping it
  changes nothing.
\<close>

lemma set_stopped_correct:
  assumes "set_stopped tid w = Some w'" and "exists tid w = Some ex" and "tid \<noteq> 0"
  shows "is_stopped tid w' = Some True
    \<and> (\<forall>t. exists t w' = exists t w)
    \<and> (\<forall>t. t \<noteq> tid \<longrightarrow> is_stopped t w' = is_stopped t w)
    \<and> (\<not> ex \<longrightarrow> w' = w)"
proof (cases "address_meta w tid")
  case None
  then show ?thesis using assms(1) by (simp add: set_stopped_def is_stopped_def)
next
  case (Some m)
  then obtain v where v: "version_of w m = Some v" and ex: "ex = (v = get_version tid)"
    using assms(2,3) by (auto simp: exists_def bind_Some_conv)
  show ?thesis
  proof (cases ex)
    case False
    then show ?thesis using assms(1) Some v ex by (auto simp: set_stopped_def is_stopped_def)
  next
    case True
    let ?m = "m\<lparr>tm_stop := True\<rparr>"
    have w': "w' = put_meta (get_slot tid) ?m w"
      using assms(1) Some v ex True by (simp add: set_stopped_def)
    have m': "version_of w ?m = Some v" using v by (simp add: version_of_def)
    have slot: "address_meta w t = Some m" if "get_slot t = get_slot tid" for t
      using Some that by (simp add: address_meta_def)
    have other: "get_version t \<noteq> v" if "get_slot t = get_slot tid" "t \<noteq> tid" for t
      using that True ex make_tid_get [of t] make_tid_get [of tid] by metis
    have "is_stopped t w' = is_stopped t w" if "t \<noteq> tid" for t
      using slot [of t] other [of t] that v m'
      by (cases "get_slot t = get_slot tid") (simp_all add: is_stopped_def w' address_meta_put_meta split: option.split)
    moreover have "exists t w' = exists t w" for t
      using slot [of t] v m'
      by (cases "get_slot t = get_slot tid") (simp_all add: exists_def w' address_meta_put_meta split: option.split)
    ultimately show ?thesis using True ex m' by (simp add: is_stopped_def w' address_meta_put_meta)
  qed
qed

lemmas query_defs = set_stopped_def is_stopped_def exists_def version_of_def address_meta_def

lemma set_stopped_correct_witness:
  "\<exists>w'. set_stopped (make_tid 1 3) (run_world []) = Some w' \<and> is_stopped (make_tid 1 3) (run_world []) = Some False
    \<and> is_stopped (make_tid 1 3) w' = Some True \<and> is_stopped (make_tid 1 5) w' = Some False"
proof -
  let ?w = "run_world []"
  obtain w' where w': "set_stopped (make_tid 1 3) ?w = Some w'"
    by (simp add: query_defs run_world_def make_tid_demo demo_defs get_version_def)
  have ex: "exists (make_tid 1 3) ?w = Some True"
    by (simp add: query_defs run_world_def make_tid_demo demo_defs get_version_def)
  have "is_stopped (make_tid 1 3) ?w = Some False" "is_stopped (make_tid 1 5) ?w = Some False"
    by (simp_all add: query_defs run_world_def make_tid_demo demo_defs get_version_def)
  moreover have "make_tid 1 3 \<noteq> 0" "make_tid 1 5 \<noteq> make_tid 1 3" by (simp_all add: make_tid_demo)
  ultimately show ?thesis using set_stopped_correct [OF w' ex] w' by auto
qed

section \<open>Attributes\<close>

text \<open>
  The word of the lock has nothing to do with the version: a bthread that exists is not found by \<open>get_attr\<close> unless the
  two happen to be equal.
\<close>

lemma get_attr_misses_existing:
  assumes "exists tid w = Some True" and "address_meta w tid = Some m" and "get_version tid \<noteq> tm_version_lock m"
  shows "get_attr tid w = (-1, None, set_errno EINVAL w)"
  using assms by (simp add: get_attr_def)

section \<open>Joining\<close>

text \<open>What \<open>butex.h\<close> promises of \<open>butex_wait\<close>: on error it returns -1 and sets errno.\<close>

definition butex_wait_sets_errno :: "('q, 'r, 'x) ext \<Rightarrow> bool" where
  "butex_wait_sets_errno X \<longleftrightarrow>
     (\<forall>b v t w rc w'. butex_wait X b v t w = Some (rc, w') \<longrightarrow> rc < 0 \<longrightarrow> tls_errno (cur_tls w') \<noteq> E0)"

lemma join_loop_returns:
  assumes "butex_wait_sets_errno X" and "join_loop X s ver w = Some r"
  shows "(fst r = E0 \<longrightarrow> (\<exists>m v. metas (snd r) s = Some m \<and> version_of (snd r) m = Some v \<and> v \<noteq> ver))
    \<and> fst r \<noteq> EWOULDBLOCK \<and> fst r \<noteq> EINTR"
proof -
  have "X' = X \<longrightarrow> s' = s \<longrightarrow> v' = ver \<longrightarrow>
      (fst r = E0 \<longrightarrow> (\<exists>m v. metas (snd r) s = Some m \<and> version_of (snd r) m = Some v \<and> v \<noteq> ver))
      \<and> fst r \<noteq> EWOULDBLOCK \<and> fst r \<noteq> EINTR"
    if "join_loop X' s' v' w = Some r" for X' s' v' w r
  proof (rule join_loop.raw_induct [OF _ that, where P = "\<lambda>X' s' v' w r. X' = X \<longrightarrow> s' = s \<longrightarrow> v' = ver \<longrightarrow>
      (fst r = E0 \<longrightarrow> (\<exists>m v. metas (snd r) s = Some m \<and> version_of (snd r) m = Some v \<and> v \<noteq> ver))
      \<and> fst r \<noteq> EWOULDBLOCK \<and> fst r \<noteq> EINTR"], goal_cases)
    case (1 f X' s' v' w r)
    show ?case
    proof (intro impI)
      assume eq: "X' = X" "s' = s" "v' = ver"
      obtain m v where m: "metas w s = Some m" "version_of w m = Some v" using 1(2) eq by (auto simp: bind_Some_conv)
      show "(fst r = E0 \<longrightarrow> (\<exists>m v. metas (snd r) s = Some m \<and> version_of (snd r) m = Some v \<and> v \<noteq> ver))
          \<and> fst r \<noteq> EWOULDBLOCK \<and> fst r \<noteq> EINTR"
      proof (cases "v = ver")
        case True
        then obtain rc w1 where bw: "butex_wait X (tm_version_butex m) ver None w = Some (rc, w1)"
          using 1(2) eq m by (auto simp: bind_Some_conv)
        have "rc < 0 \<Longrightarrow> tls_errno (cur_tls w1) \<noteq> E0" using assms(1) bw by (auto simp: butex_wait_sets_errno_def)
        then show ?thesis using 1 eq m True bw by (auto split: if_splits)
      next
        case False
        then show ?thesis using 1(2) eq m by auto
      qed
    qed
  qed
  from this [OF assms(2)] show ?thesis by simp
qed

text \<open>
  C30.  When \<open>join\<close> returns 0 the bthread does not exist any more; it never returns because of an interruption or a changed
  value; and joining a bthread that has ended already returns 0 at once without waiting.
\<close>

theorem join_correct:
  assumes "butex_wait_sets_errno X" and "join X tid w = Some (r, w')"
  shows "(r = E0 \<longrightarrow> tid \<noteq> 0 \<and> exists tid w' = Some False)
    \<and> r \<noteq> EINTR \<and> r \<noteq> EWOULDBLOCK
    \<and> (exists tid w = Some False \<longrightarrow> w' = w \<and> r \<in> {E0, EINVAL})"
proof (cases "tid = 0 \<or> address_meta w tid = None \<or> joins_itself tid w = Some True")
  case True
  then have "r = EINVAL \<and> w' = w" using assms(2) by (auto simp: join_def split: if_splits)
  then show ?thesis by simp
next
  case False
  then obtain m where m: "address_meta w tid = Some m" and tid: "tid \<noteq> 0" by auto
  have self: "joins_itself tid w = Some False" using assms(2) False m
    by (auto simp: join_def bind_Some_conv split: if_splits)
  have jl: "join_loop X (get_slot tid) (get_version tid) w = Some (r, w')"
    using assms(2) False m self by (simp add: join_def)
  have "exists tid w' = Some False" if "r = E0"
    using join_loop_returns [OF assms(1) jl] that tid by (auto simp: exists_def address_meta_def)
  moreover have "w' = w \<and> r = E0" if "exists tid w = Some False"
  proof -
    have "Option.bind (version_of w m) (\<lambda>v. Some (v = get_version tid)) = Some False"
      using that m tid by (simp add: exists_def)
    then obtain v where "version_of w m = Some v" "v \<noteq> get_version tid"
      by (cases "version_of w m") auto
    then show ?thesis using jl m by (subst (asm) join_loop.simps) (simp add: address_meta_def)
  qed
  ultimately show ?thesis using join_loop_returns [OF assms(1) jl] tid by auto
qed

lemma demo_butex_wait_errno: "butex_wait_sets_errno demo_ext"
  unfolding butex_wait_sets_errno_def
  by (auto simp: demo_ext_def demo_butex_wait_def bind_Some_conv split: if_splits)

text \<open>The caller waits once; the value of the butex has changed when it returns.\<close>

lemma join_correct_witness:
  "\<exists>w'. exists (make_tid 1 5) (run_world []) = Some True \<and> join demo_ext (make_tid 1 5) (run_world []) = Some (E0, w')
    \<and> exists (make_tid 1 5) w' = Some False"
proof -
  have ex: "exists (make_tid 1 5) (run_world []) = Some True"
    by (simp add: query_defs run_world_def make_tid_demo demo_defs get_version_def)
  obtain w' where w': "join demo_ext (make_tid 1 5) (run_world []) = Some (E0, w')"
    by (simp add: join_def joins_itself_def current_tid_def join_loop.simps query_defs run_world_def make_tid_demo
        put_butex_def demo_defs get_version_def Let_def)
  show ?thesis using join_correct [OF demo_butex_wait_errno w'] ex w' by blast
qed

end
