(* ===== verification/Start.thy ===== *)
theory Start
  imports Queries
begin

text \<open>
  Starting bthreads (\<open>task_group.cpp\<close>): \<open>start_foreground\<close> switches to the new bthread and makes the caller
  ready, \<open>start_background\<close> makes the new one ready.  What both share, filling the TaskMeta, is one
  definition here.
\<close>

section \<open>The operations\<close>

text \<open>The TaskMeta of a new bthread; what is not assigned keeps the value of the last bthread of the slot.\<close>

definition init_meta ::
  "('q, 'r, 'x) ext \<Rightarrow> slot \<Rightarrow> nat \<Rightarrow> nat \<Rightarrow> bthread_attr \<Rightarrow> int \<Rightarrow> ('q, 'r, 'x) world
   \<Rightarrow> (bthread_t \<times> ('q, 'r, 'x) world) option" where
  "init_meta X s fn arg attr start_ns w =
     do {
       m \<leftarrow> metas w s;
       v \<leftarrow> version_of w m;
       let w1 = (if tm_current_waiter m \<noteq> None then log_fatal CheckCurrentWaiter w else w);
       let w2 = (if tm_stack m \<noteq> None then log_fatal CheckStack w1 else w1);
       let tid = make_tid v s;
       Some (tid, put_meta s (m\<lparr>tm_stop := False, tm_interrupted := False, tm_about_to_quit := False,
                    tm_fn := Some fn, tm_arg := arg, tm_attr := attr, tm_local_storage := local_storage_init X,
                    tm_cpuwide_start_ns := start_ns, tm_stat := EMPTY_STAT, tm_tid := tid\<rparr>) w2)
     }"

text \<open>The beginning of \<open>start_foreground\<close> and \<open>start_background\<close>: an error, or the identifier of the new bthread.\<close>

definition create_task ::
  "('q, 'r, 'x) ext \<Rightarrow> bthread_attr \<Rightarrow> nat option \<Rightarrow> nat \<Rightarrow> ('q, 'r, 'x) world
   \<Rightarrow> ((errcode + bthread_t) \<times> ('q, 'r, 'x) world) option" where
  "create_task X using_attr fn arg w =
     (case fn of
        None \<Rightarrow> Some (Inl EINVAL, w)
      | Some f \<Rightarrow>
          let (x, start_ns) = cpuwide_time_ns X (outside w) in
          (case get_meta X (w\<lparr>outside := x\<rparr>) of
             (w1, None) \<Rightarrow> Some (Inl ENOMEM, w1)
           | (w1, Some s) \<Rightarrow> do {
               (tid, w2) \<leftarrow> init_meta X s f arg using_attr start_ns w1;
               Some (Inr tid, w2)
             }))"

definition using_attr :: "('q, 'r, 'x) ext \<Rightarrow> bthread_attr option \<Rightarrow> bthread_attr" where
  "using_attr X attr = (case attr of None \<Rightarrow> attr_normal X | Some a \<Rightarrow> a)"

definition count_bthreads :: "int \<Rightarrow> ('q, 'r, 'x) world \<Rightarrow> ('q, 'r, 'x) world" where
  "count_bthreads n w = w\<lparr>control := (control w)\<lparr>tc_nbthreads := tc_nbthreads (control w) + n\<rparr>\<rparr>"

text \<open>The boolean says whether the caller was switched away; it goes on and returns 0 when it is entered again.\<close>

definition start_foreground ::
  "('q, 'r, 'x) ext \<Rightarrow> gid \<Rightarrow> bthread_attr option \<Rightarrow> nat option \<Rightarrow> nat \<Rightarrow> ('q, 'r, 'x) world
   \<Rightarrow> (errcode \<times> bthread_t option \<times> bool \<times> gid \<times> ('q, 'r, 'x) world) option" where
  "start_foreground X g attr fn arg w =
     do {
       (r, w1) \<leftarrow> create_task X (using_attr X attr) fn arg w;
       (case r of
          Inl e \<Rightarrow> Some (e, None, False, g, w1)
        | Inr tid \<Rightarrow> do {
            let w2 = count_bthreads 1 w1;
            let nosignal = attr_nosignal (using_attr X attr);
            tg \<leftarrow> group_at w2 g;
            cur \<leftarrow> tg_cur_meta tg;
            (if is_current_pthread_task X tg (metas w2 cur) then do {
               w3 \<leftarrow> ready_to_run X g tid nosignal w2;
               Some (E0, Some tid, False, g, w3)
             }
             else do {
               m \<leftarrow> metas w2 cur;
               w3 \<leftarrow> set_remained g
                      ((if tm_about_to_quit m then ReadyToRunInWorkerIgnoresignal else ReadyToRunInWorker)
                        (tm_tid m) nosignal) w2;
               (jumped, g', w4) \<leftarrow> sched_to X g tid w3;
               Some (E0, Some tid, jumped, g', w4)
             })
          })
     }"

definition start_background ::
  "('q, 'r, 'x) ext \<Rightarrow> bool \<Rightarrow> gid \<Rightarrow> bthread_attr option \<Rightarrow> nat option \<Rightarrow> nat \<Rightarrow> ('q, 'r, 'x) world
   \<Rightarrow> (errcode \<times> bthread_t option \<times> ('q, 'r, 'x) world) option" where
  "start_background X remote g attr fn arg w =
     do {
       (r, w1) \<leftarrow> create_task X (using_attr X attr) fn arg w;
       (case r of
          Inl e \<Rightarrow> Some (e, None, w1)
        | Inr tid \<Rightarrow> do {
            let w2 = count_bthreads 1 w1;
            let nosignal = attr_nosignal (using_attr X attr);
            w3 \<leftarrow> (if remote then ready_to_run_remote X g tid nosignal w2
                   else ready_to_run X g tid nosignal w2);
            Some (E0, Some tid, w3)
          })
     }"

section \<open>The pool of TaskMetas\<close>

text \<open>
  What the resource pool promises: it touches nothing that exists; the slot it hands out has a TaskMeta,
  whose butex exists and holds a version that is not 0; new butexes have no waiters; and slots fit 32 bits.
\<close>

definition pool_ok :: "('q, 'r, 'x) ext \<Rightarrow> bool" where
  "pool_ok X \<longleftrightarrow>
     (\<forall>w w' r. get_meta X w = (w', r) \<longrightarrow>
        groups w' = groups w \<and> waiters w' = waiters w \<and> control w' = control w \<and> cur_tls w' = cur_tls w
      \<and> frames w' = frames w \<and> fatals w' = fatals w
      \<and> (\<exists>bs. butexes w' = butexes w @ bs \<and> (\<forall>bx \<in> set bs. bx_waiters bx = []))
      \<and> (\<forall>t m. metas w t = Some m \<longrightarrow> metas w' t = Some m)
      \<and> (\<forall>t. r \<noteq> Some t \<longrightarrow> metas w' t = metas w t)
      \<and> (\<forall>s. r = Some s \<longrightarrow>
           slot_ok s \<and> (\<exists>m v. metas w' s = Some m \<and> version_of w' m = Some v \<and> v \<noteq> 0)))"

text \<open>
  \<open>pool_fresh X w\<close>: what it hands out now is not in use, that is, it is neither the slot of a bthread that runs on
  some worker nor that of a main task.
\<close>

definition unused :: "slot \<Rightarrow> ('q, 'r, 'x) world \<Rightarrow> bool" where
  "unused s w \<longleftrightarrow> (\<forall>tg \<in> set (groups w). tg_cur_meta tg \<noteq> Some s \<and> get_slot (tg_main_tid tg) \<noteq> s)"

definition pool_fresh :: "('q, 'r, 'x) ext \<Rightarrow> ('q, 'r, 'x) world \<Rightarrow> bool" where
  "pool_fresh X w \<longleftrightarrow> (\<forall>x w' s. get_meta X (w\<lparr>outside := x\<rparr>) = (w', Some s) \<longrightarrow> unused s w)"

text \<open>A TaskMeta that no worker runs may get another identifier.\<close>

lemma running_other_slot:
  assumes "groups w' = groups w" and "meta_tid w' = (meta_tid w)(s \<mapsto> t)" and "unused s w"
  shows "running w' = running w"
proof -
  have "running_in (meta_tid w') tg = running_in (meta_tid w) tg" if "tg \<in> set (groups w)" for tg
    using assms(2,3) that by (cases "tg_cur_meta tg") (auto simp: running_in_def unused_def)
  from msum_cong [OF this] show ?thesis by (simp add: running_def assms(1))
qed

lemma msum_empty: "(\<And>x. x \<in> set xs \<Longrightarrow> f x = {#}) \<Longrightarrow> msum f xs = {#}"
  by (induction xs) auto

lemma new_butexes_waiting:
  assumes "butexes w' = butexes w @ bs" and "\<forall>bx \<in> set bs. bx_waiters bx = []" and "waiters w' = waiters w"
  shows "waiting w' = waiting w" and "butexes_ok w \<Longrightarrow> butexes_ok w'"
proof -
  have wt: "waiter_tid w' = waiter_tid w" by (rule waiter_tid_cong [OF assms(3)])
  have "msum (\<lambda>b. bthreads_of (waiter_tid w) (bx_waiters b)) bs = {#}"
    using assms(2) by (intro msum_empty) auto
  then show "waiting w' = waiting w" by (simp add: waiting_def wt assms(1))
  assume ok: "butexes_ok w"
  have old: "butex_at w' b = butex_at w b" if "b < length (butexes w)" for b
    using that by (simp add: assms(1) nth_opt_def nth_append)
  have new: "bx_waiters bx = []" if "butex_at w' b = Some bx" "\<not> b < length (butexes w)" for b bx
    using that assms(2) by (auto simp: assms(1) nth_opt_Some nth_append)
  have cont: "b < length (butexes w)" if "\<exists>bw. waiters w i = Some bw \<and> w_container bw = Some b" for i b
    using that butexes_ok_container [OF ok] by blast
  show "butexes_ok w'"
    unfolding butexes_ok_def assms(3)
  proof (intro conjI allI impI)
    fix b bx assume b: "butex_at w' b = Some bx"
    have "distinct (bx_waiters bx) \<and>
        (i \<in> set (bx_waiters bx)) = (\<exists>bw. waiters w i = Some bw \<and> w_container bw = Some b)" for i
      using butexes_okD [OF ok, of b bx] b old [of b] new [OF b] cont [of i b]
      by (cases "b < length (butexes w)") auto
    then show "distinct (bx_waiters bx)"
      "(i \<in> set (bx_waiters bx)) = (\<exists>bw. waiters w i = Some bw \<and> w_container bw = Some b)" for i by auto
  next
    fix i b assume "\<exists>bw. waiters w i = Some bw \<and> w_container bw = Some b"
    then show "b < length (butexes w')" using cont by (simp add: assms(1) trans_less_add1)
  qed
qed

lemma init_meta_cases:
  assumes "init_meta X s f arg a ns w = Some (tid, w')" and "metas w s = Some m" and "version_of w m = Some v"
  obtains m' where "tid = make_tid v s" "metas w' = (metas w)(s \<mapsto> m')" "groups w' = groups w"
    "waiters w' = waiters w" "butexes w' = butexes w" "cur_tls w' = cur_tls w" "control w' = control w"
    "tm_tid m' = tid" "tm_stop m' = False" "tm_version_butex m' = tm_version_butex m"
proof -
  define w2 where "w2 = (let w1 = (if tm_current_waiter m \<noteq> None then log_fatal CheckCurrentWaiter w else w)
      in if tm_stack m \<noteq> None then log_fatal CheckStack w1 else w1)"
  have "metas w2 = metas w" "groups w2 = groups w" "waiters w2 = waiters w" "butexes w2 = butexes w"
    "cur_tls w2 = cur_tls w" "control w2 = control w" by (simp_all add: w2_def Let_def)
  moreover define m' where "m' = m\<lparr>tm_stop := False, tm_interrupted := False, tm_about_to_quit := False,
      tm_fn := Some f, tm_arg := arg, tm_attr := a, tm_local_storage := local_storage_init X,
      tm_cpuwide_start_ns := ns, tm_stat := EMPTY_STAT, tm_tid := make_tid v s\<rparr>"
  moreover have "tid = make_tid v s" "w' = put_meta s m' w2"
    using assms by (auto simp: init_meta_def w2_def m'_def Let_def)
  ultimately show thesis using that [of m'] by simp
qed

text \<open>What creating a task does: nothing is lost or gained yet, and one TaskMeta has the new identifier.\<close>

lemma create_task_spec:
  assumes "pool_ok X" and "pool_fresh X w" and "create_task X a fn arg w = Some (Inr tid, w')"
  shows "tasks X w' = tasks X w" and "meta_tid w' = (meta_tid w)(get_slot tid \<mapsto> tid)"
    and "unused (get_slot tid) w" and "tid \<noteq> 0" and "butexes_ok w \<Longrightarrow> butexes_ok w'"
    and "groups w' = groups w" and "cur_tls w' = cur_tls w" and "waiters w' = waiters w"
    and "exists tid w' = Some True" and "is_stopped tid w' = Some False"
    and "control w' = control w"
proof -
  obtain f where f: "fn = Some f" using assms(3) by (auto simp: create_task_def split: option.splits)
  obtain x ns where clk: "cpuwide_time_ns X (outside w) = (x, ns)" by fastforce
  obtain w1 r where gm: "get_meta X (w\<lparr>outside := x\<rparr>) = (w1, r)" by fastforce
  obtain s where s: "r = Some s" and im: "init_meta X s f arg a ns w1 = Some (tid, w')"
    using assms(3) f clk gm by (cases r) (auto simp: create_task_def bind_Some_conv)
  note law = assms(1) [unfolded pool_ok_def, rule_format, OF gm]
  obtain m v where m: "metas w1 s = Some m" and v: "version_of w1 m = Some v" "v \<noteq> 0" and slot: "slot_ok s"
    using law s by blast
  obtain bs where bs: "butexes w1 = butexes w @ bs" "\<forall>bx \<in> set bs. bx_waiters bx = []" using law by auto
  obtain m' where tid: "tid = make_tid v s"
    and w'sel: "metas w' = (metas w1)(s \<mapsto> m')" "groups w' = groups w1" "waiters w' = waiters w1"
      "butexes w' = butexes w1" "cur_tls w' = cur_tls w1" "control w' = control w1"
    and m': "tm_tid m' = tid" "tm_stop m' = False" "tm_version_butex m' = tm_version_butex m"
    by (rule init_meta_cases [OF im m v(1)])
  have gs: "get_slot tid = s" and gv: "get_version tid = v" using slot by (simp_all add: tid)
  show un: "unused (get_slot tid) w" using assms(2) gm s by (auto simp: pool_fresh_def gs)
  show "tid \<noteq> 0" using gv v(2) by auto
  have eqs: "groups w1 = groups w" "waiters w1 = waiters w" "cur_tls w1 = cur_tls w" "control w1 = control w"
    using law by simp_all
  have other: "metas w1 t = metas w t" if "t \<noteq> s" for t using law s that by simp
  show mt: "meta_tid w' = (meta_tid w)(get_slot tid \<mapsto> tid)"
    by (rule HOL.ext) (simp add: meta_tid_def w'sel(1) m'(1) gs other)
  show "groups w' = groups w" "cur_tls w' = cur_tls w" "waiters w' = waiters w" "control w' = control w"
    by (simp_all add: w'sel eqs)
  note nb = new_butexes_waiting [of w' w bs, OF _ bs(2)]
  have "queued X w' = queued X w" "pending w' = pending w"
    using waiter_tid_cong [of w' w] by (simp_all add: queued_def pending_def w'sel eqs)
  moreover have "running w' = running w" by (rule running_other_slot [OF _ mt un]) (simp add: w'sel eqs)
  ultimately show "tasks X w' = tasks X w" using nb(1) by (simp add: tasks_def w'sel bs(1) eqs)
  show "butexes_ok w'" if "butexes_ok w" using nb(2) that by (simp add: w'sel bs(1) eqs)
  have am: "address_meta w' tid = Some m'" by (simp add: address_meta_def w'sel(1) gs)
  have vv: "version_of w' m' = Some v" using v(1) by (simp add: version_of_def m'(3) w'sel(4))
  show "exists tid w' = Some True" using am vv gv v(2) by (auto simp: exists_def)
  show "is_stopped tid w' = Some False" using am vv gv m'(2) by (simp add: is_stopped_def)
qed

lemma create_task_fails:
  assumes "pool_ok X" and "create_task X a fn arg w = Some (Inl e, w')"
  shows "tasks X w' = tasks X w" and "meta_tid w' = meta_tid w" and "butexes_ok w \<Longrightarrow> butexes_ok w'"
    and "mains w' = mains w" and "fn = None \<and> e = EINVAL \<and> w' = w \<or> fn \<noteq> None \<and> e = ENOMEM"
proof -
  have "fn = None \<and> e = EINVAL \<and> w' = w \<or> fn \<noteq> None \<and> e = ENOMEM \<and> (\<exists>x. get_meta X (w\<lparr>outside := x\<rparr>) = (w', None))"
    using assms(2) by (auto simp: create_task_def bind_Some_conv Let_def split: option.splits prod.splits)
  then consider "fn = None" "e = EINVAL" "w' = w"
    | x where "fn \<noteq> None" "e = ENOMEM" "get_meta X (w\<lparr>outside := x\<rparr>) = (w', None)" by blast
  then have "tasks X w' = tasks X w \<and> meta_tid w' = meta_tid w \<and> (butexes_ok w \<longrightarrow> butexes_ok w') \<and> mains w' = mains w
    \<and> (fn = None \<and> e = EINVAL \<and> w' = w \<or> fn \<noteq> None \<and> e = ENOMEM)"
  proof cases
    case 2
    note law = assms(1) [unfolded pool_ok_def, rule_format, OF 2(3)]
    obtain bs where bs: "butexes w' = butexes w @ bs" "\<forall>bx \<in> set bs. bx_waiters bx = []" using law by auto
    have same: "groups w' = groups w" "waiters w' = waiters w" "metas w' = metas w"
      using law by (auto simp: fun_eq_iff)
    note mt = meta_tid_cong [OF same(3)] and wt = waiter_tid_cong [OF same(2)]
    have "tasks X w' = tasks X w" using new_butexes_waiting(1) [OF bs same(2)]
      by (simp add: tasks_def queued_def pending_def running_def same(1) mt wt)
    then show ?thesis using 2 mt new_butexes_waiting(2) [OF bs same(2)] mains_cong [OF same(1)] by blast
  qed simp
  then show "tasks X w' = tasks X w" "meta_tid w' = meta_tid w" "butexes_ok w \<Longrightarrow> butexes_ok w'"
    "mains w' = mains w" "fn = None \<and> e = EINVAL \<and> w' = w \<or> fn \<noteq> None \<and> e = ENOMEM" by simp_all
qed

lemma count_bthreads_sel [simp]:
  "groups (count_bthreads n w) = groups w" "metas (count_bthreads n w) = metas w"
  "butexes (count_bthreads n w) = butexes w" "waiters (count_bthreads n w) = waiters w"
  "cur_tls (count_bthreads n w) = cur_tls w" "outside (count_bthreads n w) = outside w"
  "tc_nbthreads (control (count_bthreads n w)) = tc_nbthreads (control w) + n"
  by (simp_all add: count_bthreads_def)

lemma count_bthreads_moves [simp]: "moves X {#} w (count_bthreads n w)"
  by (rule moves_cong) simp_all

text \<open>The places after the start of bthread \<open>t\<close> (if any), seen from before.\<close>

definition started ::
  "('q, 'r, 'x) ext \<Rightarrow> errcode \<Rightarrow> bthread_t option \<Rightarrow> ('q, 'r, 'x) world \<Rightarrow> ('q, 'r, 'x) world \<Rightarrow> bool" where
  "started X r th w w' \<longleftrightarrow>
     (case th of
        None \<Rightarrow> r \<in> {EINVAL, ENOMEM} \<and> tasks X w' = tasks X w \<and> meta_tid w' = meta_tid w
      | Some t \<Rightarrow> r = E0 \<and> t \<noteq> 0 \<and> tasks X w' = add_mset t (tasks X w)
                \<and> meta_tid w' = (meta_tid w)(get_slot t \<mapsto> t))
   \<and> mains w' = mains w \<and> (butexes_ok w \<longrightarrow> butexes_ok w')"

text \<open>
  \<open>start_background\<close> fails with \<open>EINVAL\<close> without a function and with \<open>ENOMEM\<close> without a TaskMeta, and then leaves
  the places alone.  Otherwise it returns 0 and the identifier of a bthread that did not exist before: exactly
  this one entered the places, and no other TaskMeta changed its identifier.
\<close>

lemma start_background_spec:
  assumes "ext_queues_ok X" and "naps_ok X" and "pool_ok X" and "pool_fresh X w"
    and "start_background X remote g attr fn arg w = Some (r, th, w')"
  shows "started X r th w w' \<and> (fn = None \<longrightarrow> r = EINVAL \<and> w' = w) \<and> (\<forall>t. th = Some t \<longrightarrow> unused (get_slot t) w)"
proof -
  obtain e w1 where ct: "create_task X (using_attr X attr) fn arg w = Some (e, w1)"
    using assms(5) by (auto simp: start_background_def bind_Some_conv)
  show ?thesis
  proof (cases e)
    case (Inl d)
    then have "r = d" "th = None" "w' = w1" using assms(5) ct by (simp_all add: start_background_def)
    then show ?thesis using create_task_fails [OF assms(3) ct [unfolded Inl]] by (auto simp: started_def)
  next
    case (Inr t)
    note new = create_task_spec [OF assms(3,4) ct [unfolded Inr]]
    let ?w2 = "count_bthreads 1 w1"
    have res: "r = E0" "th = Some t" and push: "(if remote then ready_to_run_remote X g t (attr_nosignal (using_attr X attr)) ?w2
        else ready_to_run X g t (attr_nosignal (using_attr X attr)) ?w2) = Some w'"
      using assms(5) ct Inr by (auto simp: start_background_def Let_def bind_Some_conv split del: if_split)
    have "moves X {#t#} ?w2 w'"
      using push ready_to_run_moves [OF assms(1,2)] ready_to_run_remote_moves [OF assms(1,2)] by (auto split: if_splits)
    then have "moves X {#t#} w1 w'" using moves_trans_0(1) [OF count_bthreads_moves] by blast
    moreover have "fn \<noteq> None" using ct Inr by (cases fn) (simp_all add: create_task_def)
    ultimately show ?thesis using new res mains_cong [OF new(6)] by (simp add: started_def moves_def steady_def)
  qed
qed

lemma demo_pool_ok: "pool_ok demo_ext"
proof -
  have slot: "slot_ok (of_nat n)" if "n < 8" for n
  proof -
    have "n \<in> {0, 1, 2, 3, 4, 5, 6, 7}" using that by auto
    then show ?thesis by (auto simp: slot_ok_def)
  qed
  show ?thesis unfolding pool_ok_def
    by (auto simp: demo_ext_def demo_get_meta_def Let_def slot demo_butex_def demo_meta_def version_of_def split: if_splits)
qed

lemma run_world_fresh: "pool_fresh demo_ext (run_world q)"
  by (auto simp: pool_fresh_def unused_def run_world_def make_tid_demo demo_defs Let_def)

text \<open>The new bthread gets slot 6 and goes to the queue of the worker, whose nap is not needed.\<close>

lemma start_background_example:
  "\<exists>w'. start_background demo_ext False 0 None (Some 9) 0 (run_world []) = Some (E0, Some (make_tid 1 6), w')
    \<and> tasks demo_ext w' = add_mset (make_tid 1 6) (tasks demo_ext (run_world []))"
proof -
  obtain w' where w': "start_background demo_ext False 0 None (Some 9) 0 (run_world []) = Some (E0, Some (make_tid 1 6), w')"
    by (simp add: start_background_def create_task_def init_meta_def using_attr_def version_of_def
        count_bthreads_def demo_sched_defs Let_def)
  show ?thesis using start_background_spec [OF demo_queues_ok demo_naps_ok demo_pool_ok run_world_fresh w'] w'
    by (simp add: started_def)
qed

section \<open>\<open>start_foreground\<close>\<close>

lemma start_foreground_spec:
  assumes "ext_queues_ok X" and "naps_ok X" and "pool_ok X" and "pool_fresh X w"
    and "tls_task_group (cur_tls w) = Some g" and "group_at w g = Some tg" and "tg_cur_meta tg = Some cur"
    and "meta_tid w cur = Some self" and "self \<noteq> tg_main_tid tg" and "tg_last_context_remained tg = None"
    and "start_foreground X g attr fn arg w = Some (r, th, jumped, g', w')"
  shows "started X r th w w' \<and> (fn = None \<longrightarrow> r = EINVAL \<and> w' = w) \<and> g' = g
    \<and> (\<forall>t. th = Some t \<longrightarrow> (\<forall>m. \<not> is_current_pthread_task X tg m) \<longrightarrow>
         map_option tg_cur_meta (group_at w' g) = Some (Some (get_slot t)))"
proof -
  obtain e w1 where ct: "create_task X (using_attr X attr) fn arg w = Some (e, w1)"
    using assms(11) by (auto simp: start_foreground_def bind_Some_conv)
  show ?thesis
  proof (cases e)
    case (Inl d)
    then have "r = d" "th = None" "w' = w1" "g' = g" using assms(11) ct by (simp_all add: start_foreground_def)
    then show ?thesis using create_task_fails [OF assms(3) ct [unfolded Inl]] by (auto simp: started_def)
  next
    case (Inr t)
    note new = create_task_spec [OF assms(3,4) ct [unfolded Inr]]
    let ?w2 = "count_bthreads 1 w1" and ?ns = "attr_nosignal (using_attr X attr)"
    have fn: "fn \<noteq> None" using ct Inr by (cases fn) (simp_all add: create_task_def)
    have "tg \<in> set (groups w)" using assms(6) by (auto simp: nth_opt_Some)
    then have slot: "get_slot t \<noteq> cur" "get_slot (tg_main_tid tg) \<noteq> get_slot t"
      using new(3) assms(7) by (auto simp: unused_def)
    have g2: "group_at ?w2 g = Some tg" and own: "tls_task_group (cur_tls ?w2) = Some g"
      using assms(5,6) new(6,7) by simp_all
    have "meta_tid w1 cur = Some self" using assms(8) new(2) slot(1) by simp
    then obtain m where m: "metas ?w2 cur = Some m" "tm_tid m = self" by (auto simp: meta_tid_def)
    have sw: "switches X {#t#} {#} ?w2 w' \<and> g' = g \<and> r = E0 \<and> th = Some t
      \<and> (\<not> is_current_pthread_task X tg (Some m) \<longrightarrow> map_option tg_cur_meta (group_at w' g) = Some (Some (get_slot t)))"
    proof (cases "is_current_pthread_task X tg (Some m)")
      case True
      then show ?thesis using assms(7,11) ct Inr g2 m moves_switches [OF ready_to_run_moves [OF assms(1,2)]]
        by (auto simp: start_foreground_def bind_Some_conv)
    next
      case False
      define k where "k = (if tm_about_to_quit m then ReadyToRunInWorkerIgnoresignal else ReadyToRunInWorker) self ?ns"
      obtain w3 where w3: "set_remained g k ?w2 = Some w3" and st: "sched_to X g t w3 = Some (jumped, g', w')"
        and res: "r = E0" "th = Some t"
        using assms(7,11) ct Inr g2 m False by (auto simp: start_foreground_def bind_Some_conv k_def)
      have live: "live_task ?w2 t" using new(2) by (simp add: live_task_def meta_tid_cong [of ?w2 w1])
      have k: "k = ReadyToRunInWorker (tm_tid m) ?ns \<or> k = ReadyToRunInWorkerIgnoresignal (tm_tid m) ?ns"
        by (simp add: k_def m(2))
      have "tm_tid m \<noteq> tg_main_tid tg" "t \<noteq> tg_main_tid tg" using assms(9) m(2) slot(2) by auto
      then show ?thesis
        using yield_to_switches [OF assms(1,2) own g2 assms(7) m(1) _ assms(10) slot(1) live k w3 st] res by simp
    qed
    have "switches X {#} {#} w1 ?w2" using moves_switches [OF count_bthreads_moves] .
    then have "switches X {#t#} {#} w1 w'" using sw switches_trans_0(1) by blast
    then show ?thesis using new fn sw mains_cong [OF new(6)] by (auto simp: started_def switches_def)
  qed
qed


lemma make_tid_new: "get_slot (make_tid 1 6) = 6"
  by (simp add: make_tid_def get_slot_def)


end
