(* ===== verification/Finish.thy ===== *)
theory Finish
  imports Start
begin

text \<open>
  The life of a bthread from its entry to its end (\<open>task_runner\<close> in \<open>task_group.cpp\<close>), and the loop of the main task
  of a worker (\<open>run_main_task\<close>).
\<close>

section \<open>The operations\<close>

text \<open>Cleaning the local storage before the version changes.\<close>

definition clean_tls :: "('q, 'r, 'x) ext \<Rightarrow> slot \<Rightarrow> ('q, 'r, 'x) world \<Rightarrow> ('q, 'r, 'x) world option" where
  "clean_tls X s w =
     do {
       m \<leftarrow> metas w s;
       Some (case tls_bls (cur_tls w) of
               None \<Rightarrow> w
             | Some kt \<Rightarrow> put_meta s (m\<lparr>tm_local_storage := None\<rparr>)
                 (w\<lparr>outside := return_keytable X (outside w) (attr_keytable_pool (tm_attr m)) kt,
                    cur_tls := (cur_tls w)\<lparr>tls_bls := None\<rparr>\<rparr>))
     }"

text \<open>The critical section of \<open>version_lock\<close>.\<close>

definition retire_version :: "slot \<Rightarrow> ('q, 'r, 'x) world \<Rightarrow> ('q, 'r, 'x) world option" where
  "retire_version s w =
     do {
       m \<leftarrow> metas w s;
       bx \<leftarrow> butex_at w (tm_version_butex m);
       Some (put_butex (tm_version_butex m) (bx\<lparr>bx_value := bump_version (bx_value bx)\<rparr>) w)
     }"

text \<open>What \<open>task_runner\<close> does after the function of bthread \<open>s\<close> has returned.\<close>

definition task_finish ::
  "('q, 'r, 'x) ext \<Rightarrow> slot \<Rightarrow> ('q, 'r, 'x) world \<Rightarrow> (bool \<times> gid \<times> ('q, 'r, 'x) world) option" where
  "task_finish X s w =
     do {
       g \<leftarrow> tls_task_group (cur_tls w);
       w1 \<leftarrow> clean_tls X s w;
       w2 \<leftarrow> retire_version s w1;
       m \<leftarrow> metas w2 s;
       (n, w3) \<leftarrow> butex_wake_except X (tm_version_butex m) 0 w2;
       w4 \<leftarrow> set_remained g (ReleaseLastContext s) (count_bthreads (-1) w3);
       ending_sched X g w4
     }"

text \<open>
  The loop: one bthread after the other runs on this stack until \<open>ending_sched\<close> jumps to another stack (which
  never comes back, since the stack is released) or goes on with the main task.
\<close>

partial_function (option) task_loop ::
  "('q, 'r, 'x) ext \<Rightarrow> gid \<Rightarrow> ('q, 'r, 'x) world \<Rightarrow> (bool \<times> gid \<times> ('q, 'r, 'x) world) option" where
  "task_loop X g w =
     do {
       tg \<leftarrow> group_at w g;
       s \<leftarrow> tg_cur_meta tg;
       m \<leftarrow> metas w s;
       f \<leftarrow> tm_fn m;
       (jumped, g1, w1) \<leftarrow> task_finish X s (user_call X f (tm_arg m) w);
       (if jumped then Some (True, g1, w1)
        else do {
          tg1 \<leftarrow> group_at w1 g1;
          cur \<leftarrow> tg_cur_meta tg1;
          mc \<leftarrow> metas w1 cur;
          (if tm_tid mc \<noteq> tg_main_tid tg1 then task_loop X g1 w1 else Some (False, g1, w1))
        })
     }"

definition task_runner ::
  "('q, 'r, 'x) ext \<Rightarrow> bool \<Rightarrow> ('q, 'r, 'x) world \<Rightarrow> (bool \<times> gid \<times> ('q, 'r, 'x) world) option" where
  "task_runner X skip_remained w =
     do {
       g \<leftarrow> tls_task_group (cur_tls w);
       (g1, w1) \<leftarrow> (if skip_remained then Some (g, w) else sched_arrive X g None w);
       task_loop X g1 w1
     }"

section \<open>The version goes stale\<close>

text \<open>
  When the version of a slot is retired, the identifier of the bthread that ended exists no more and counts as
  stopped, the one that carries the next version does, and it is another one; identifiers of slots
  with other butexes are not affected.
\<close>

lemma retire_version_correct:
  assumes "exists tid w = Some True" and "retire_version (get_slot tid) w = Some w'"
    and "address_meta w tid = Some m"
  defines "new \<equiv> make_tid (bump_version (get_version tid)) (get_slot tid)"
  shows "exists tid w' = Some False \<and> is_stopped tid w' = Some True
    \<and> exists new w' = Some True \<and> new \<noteq> tid
    \<and> (\<forall>t mt. address_meta w t = Some mt \<longrightarrow> tm_version_butex mt \<noteq> tm_version_butex m \<longrightarrow>
         exists t w' = exists t w \<and> is_stopped t w' = is_stopped t w)"
proof -
  obtain bx where bx: "butex_at w (tm_version_butex m) = Some bx" and v: "bx_value bx = get_version tid"
    and tid: "tid \<noteq> 0"
    using assms(1,3) by (auto simp: exists_def version_of_def bind_Some_conv split: if_splits)
  have m: "metas w (get_slot tid) = Some m" using assms(3) by (simp add: address_meta_def)
  have w': "w' = put_butex (tm_version_butex m) (bx\<lparr>bx_value := bump_version (get_version tid)\<rparr>) w"
    using assms(2) m bx v by (simp add: retire_version_def)
  have am: "address_meta w' t = address_meta w t" for t by (simp add: address_meta_def w')
  have vm: "version_of w' m = Some (bump_version (get_version tid))"
    using bx by (simp add: version_of_def w' nth_opt_Some)
  have vo: "version_of w' mt = version_of w mt" if "tm_version_butex mt \<noteq> tm_version_butex m" for mt
    using that by (simp add: version_of_def w')
  have nt: "get_slot new = get_slot tid" "get_version new = bump_version (get_version tid)" by (simp_all add: new_def)
  then have "new \<noteq> 0" "new \<noteq> tid" by (metis bump_version_nonzero get_version_0, metis bump_version_neq)
  moreover have "address_meta w' new = Some m" using am [of new] m nt(1) by (simp add: address_meta_def)
  moreover have "get_version tid \<noteq> bump_version (get_version tid)" by (metis bump_version_neq)
  ultimately show ?thesis using am assms(3) vm vo nt(2) tid
    by (auto simp: exists_def is_stopped_def split: option.split)
qed

lemma retire_version_correct_witness:
  "\<exists>w'. retire_version 3 (run_world []) = Some w' \<and> exists (make_tid 1 3) w' = Some False
    \<and> exists (make_tid 2 3) w' = Some True \<and> exists (make_tid 1 5) w' = exists (make_tid 1 5) (run_world [])"
proof -
  let ?w = "run_world []"
  have g: "get_slot (make_tid 1 3) = 3" "get_version (make_tid 1 3) = 1"
    by (simp_all add: make_tid_def get_slot_def get_version_def)
  obtain w' where w': "retire_version (get_slot (make_tid 1 3)) ?w = Some w'"
    by (simp add: retire_version_def run_world_def g demo_defs)
  have ex: "exists (make_tid 1 3) ?w = Some True"
    by (simp add: query_defs run_world_def make_tid_demo demo_defs get_version_def)
  have am: "address_meta ?w (make_tid 1 3) = Some (demo_meta (make_tid 1 3) 3 (Some 63))"
    "address_meta ?w (make_tid 1 5) = Some (demo_meta (make_tid 1 5) 5 (Some 65))"
    by (simp_all add: address_meta_def run_world_def make_tid_demo demo_defs)
  have "bump_version 1 = 2" by (simp add: bump_version_def)
  then show ?thesis using retire_version_correct [OF ex w' am(1)] am(2) w' g by (auto simp: demo_meta_def)
qed

section \<open>\<open>ending_sched\<close> loses only the bthread that ends\<close>

lemma hand_over_stack:
  assumes "metas w cur = Some mc" and "metas w next = Some mn"
    and "(if tm_stack mn \<noteq> None then Some w
          else if attr_stack_type (tm_attr mn) = attr_stack_type (tm_attr mc) then
            Some (put_meta next (mn\<lparr>tm_stack := tm_stack mc\<rparr>) (put_meta cur (mc\<lparr>tm_stack := None\<rparr>) w))
          else give_stack X g next w) = Some w'"
  shows "switches X {#} {#} w w'" "groups w' = groups w" "waiters w' = waiters w" "cur_tls w' = cur_tls w"
proof -
  let ?u = "put_meta next (mn\<lparr>tm_stack := tm_stack mc\<rparr>) (put_meta cur (mc\<lparr>tm_stack := None\<rparr>) w)"
  have "switches X {#} {#} w ?u"
    by (rule switches_cong) (auto simp: meta_tid_def fun_eq_iff assms(1,2))
  then have "switches X {#} {#} w w' \<and> groups w' = groups w \<and> waiters w' = waiters w \<and> cur_tls w' = cur_tls w"
    if "w' = ?u" using that by simp
  moreover have "switches X {#} {#} w w" by (rule switches_cong) simp_all
  then have "switches X {#} {#} w w' \<and> groups w' = groups w \<and> waiters w' = waiters w \<and> cur_tls w' = cur_tls w"
    if "w' = w" using that by simp
  moreover have "switches X {#} {#} w w' \<and> groups w' = groups w \<and> waiters w' = waiters w \<and> cur_tls w' = cur_tls w"
    if "give_stack X g next w = Some w'" using give_stack_spec [OF that] by blast
  moreover have "w' = w \<or> w' = ?u \<or> give_stack X g next w = Some w'" using assms(3) by (auto split: if_splits)
  ultimately have "switches X {#} {#} w w' \<and> groups w' = groups w \<and> waiters w' = waiters w \<and> cur_tls w' = cur_tls w"
    by blast
  then show "switches X {#} {#} w w'" "groups w' = groups w" "waiters w' = waiters w" "cur_tls w' = cur_tls w"
    by simp_all
qed

lemma ending_sched_switches:
  assumes "ext_queues_ok X" and "naps_ok X" and "tls_task_group (cur_tls w) = Some g"
    and "group_at w g = Some tg" and "tg_cur_meta tg = Some cur" and "metas w cur = Some m"
    and "tm_tid m \<noteq> tg_main_tid tg" and "remained_ok w (tg_last_context_remained tg)"
    and "tm_tid m \<notin># queued X w" and "tg_main_tid tg \<notin># queued X w" and "live_task w (tg_main_tid tg)"
    and "\<forall>t. t \<in># queued X w \<longrightarrow> live_task w t"
    and "ending_sched X g w = Some (jumped, g', w')"
  shows "switches X {#} {#tm_tid m#} w w' \<and> g' = g"
proof -
  obtain t w1 where nt: "next_task X g w = Some (t, w1)"
    using assms(13) by (auto simp: ending_sched_def bind_Some_conv)
  have pk: "picks X g (Some t) w w1 \<or> t = tg_main_tid tg \<and> picks X g None w w1"
    by (rule next_task_picks [OF assms(1,4) nt])
  define d where "d = (if picks X g (Some t) w w1 then {#t#} else {#})"
  have d: "d = {#t#} \<and> t \<in># queued X w \<or> d = {#} \<and> t = tg_main_tid tg" and s1: "switches X {#} d w w1"
    and same: "metas w1 = metas w" "cur_tls w1 = cur_tls w" "waiters w1 = waiters w"
    using pk by (auto simp: d_def picks_def)
  obtain tg1 where tg1: "group_at w1 g = Some tg1" "same_run tg tg1" using pk assms(4) by (auto simp: picks_def)
  have mt: "meta_tid w1 = meta_tid w" by (rule meta_tid_cong [OF same(1)])
  have live: "live_task w1 t" and neq: "t \<noteq> tm_tid m"
    using d assms(7,9,11,12) by (auto simp: live_task_def mt)
  have next': "get_slot t \<noteq> cur" using live neq assms(6) by (auto simp: live_task_def mt meta_tid_def)
  obtain mn where mn: "metas w1 (get_slot t) = Some mn" using live by (auto simp: live_task_def meta_tid_def)
  have cur1: "tg_cur_meta tg1 = Some cur" and main: "tg_main_tid tg1 = tg_main_tid tg"
    and rem1: "tg_last_context_remained tg1 = tg_last_context_remained tg"
    using tg1(2) assms(5) by (simp_all add: same_run_def)
  have mc: "metas w1 cur = Some m" using same(1) assms(6) by simp
  obtain w2 where hs: "(if tm_stack mn \<noteq> None then Some w1
      else if attr_stack_type (tm_attr mn) = attr_stack_type (tm_attr m) then
        Some (put_meta (get_slot t) (mn\<lparr>tm_stack := tm_stack m\<rparr>) (put_meta cur (m\<lparr>tm_stack := None\<rparr>) w1))
      else give_stack X g (get_slot t) w1) = Some w2"
    and st: "sched_to_meta X g (get_slot t) w2 = Some (jumped, g', w')"
    using assms(13) nt tg1(1) cur1 mc mn by (auto simp: ending_sched_def Let_def bind_Some_conv)
  note s2 = hand_over_stack [OF mc mn hs]
  have "remained_ok w2 (tg_last_context_remained tg1)"
    using assms(8) remained_ok_cong [of w2 w] s2(3) same(3) rem1 by simp
  from sched_to_meta_switches [OF assms(1,2) _ _ cur1 next' this st]
  have s3: "switches X (run_part w2 g (get_slot t)) (run_part w2 g cur) w2 w'" and g': "g' = g"
    using assms(3) tg1(1) s2(2,4) same(2) by simp_all
  have part: "run_part w2 g s = run_part w1 g s" for s
    using s2(1,2) tg1(1) by (intro run_part_cong [OF _ tg1(1)]) (auto simp: switches_def)
  have "run_part w2 g cur = {#tm_tid m#}"
    unfolding part using run_part_cur [OF tg1(1) mc] assms(7) main by simp
  moreover have "run_part w2 g (get_slot t) = d"
    unfolding part using run_part_live [OF tg1(1) live] d main assms(10) by auto
  ultimately have "switches X d {#tm_tid m#} w1 w'" using s3 switches_trans_0(1) [OF s2(1)] by simp
  from switches_trans [OF s1 this] g' show ?thesis
    using switches_cancel [of X "{#}" d "{#tm_tid m#}" w w'] by (simp add: ac_simps)
qed

section \<open>The end of a bthread\<close>

text \<open>Storing to a butex moves nobody.\<close>

lemma put_value_moves:
  assumes "butex_at w b = Some bx"
  shows "moves X {#} w (put_butex b (bx\<lparr>bx_value := v\<rparr>) w)" (is "moves X {#} w ?w")
proof -
  have "tasks X ?w = tasks X w"
    using tasks_butex_change [OF assms, of ?w "bx\<lparr>bx_value := v\<rparr>" X] by simp
  moreover have "butexes_ok ?w" if ok: "butexes_ok w"
    unfolding butexes_ok_def
  proof (intro conjI allI impI)
    fix c cx assume c: "butex_at ?w c = Some cx"
    then obtain cx' where "butex_at w c = Some cx'" "bx_waiters cx' = bx_waiters cx"
      using assms by (auto simp: nth_opt_Some split: if_splits)
    then have "distinct (bx_waiters cx) \<and>
        (i \<in> set (bx_waiters cx)) = (\<exists>bw. waiters ?w i = Some bw \<and> w_container bw = Some c)" for i
      using butexes_okD [OF ok] by fastforce
    then show "distinct (bx_waiters cx)"
      "(i \<in> set (bx_waiters cx)) = (\<exists>bw. waiters ?w i = Some bw \<and> w_container bw = Some c)" for i by auto
  next
    fix i c assume "\<exists>bw. waiters ?w i = Some bw \<and> w_container bw = Some c"
    then show "c < length (butexes ?w)" using butexes_ok_container [OF ok] by auto
  qed
  ultimately show ?thesis by (auto simp: moves_def steady_def)
qed

lemma clean_tls_switches:
  assumes "clean_tls X s w = Some w'"
  shows "switches X {#} {#} w w'" "groups w' = groups w" "butexes w' = butexes w" "waiters w' = waiters w"
    "meta_tid w' = meta_tid w" "metas w s = Some m \<Longrightarrow> \<exists>m'. metas w' s = Some m'
      \<and> tm_version_butex m' = tm_version_butex m \<and> tm_tid m' = tm_tid m"
    "tls_task_group (cur_tls w') = tls_task_group (cur_tls w)"
proof -
  obtain m0 where m: "metas w s = Some m0" using assms by (auto simp: clean_tls_def bind_Some_conv)
  show same: "groups w' = groups w" "butexes w' = butexes w" "waiters w' = waiters w" "meta_tid w' = meta_tid w"
    "tls_task_group (cur_tls w') = tls_task_group (cur_tls w)"
    using assms m by (auto simp: clean_tls_def meta_tid_def fun_eq_iff split: option.splits)
  show "switches X {#} {#} w w'" by (rule switches_cong) (simp_all add: same)
  show "\<exists>m'. metas w' s = Some m' \<and> tm_version_butex m' = tm_version_butex m \<and> tm_tid m' = tm_tid m"
    if "metas w s = Some m"
    using assms that by (auto simp: clean_tls_def split: option.splits)
qed

text \<open>Every bthread in the places is alive and in one place only.\<close>

definition tasks_ok :: "('q, 'r, 'x) ext \<Rightarrow> ('q, 'r, 'x) world \<Rightarrow> bool" where
  "tasks_ok X w \<longleftrightarrow> (\<forall>t. t \<in># tasks X w \<longrightarrow> live_task w t \<and> count (tasks X w) t = 1)"

lemma tasks_ok_cong: "tasks X w' = tasks X w \<Longrightarrow> meta_tid w' = meta_tid w \<Longrightarrow> tasks_ok X w' = tasks_ok X w"
  by (simp add: tasks_ok_def live_task_def)

lemma queued_tasks: "t \<in># queued X w \<Longrightarrow> t \<in># tasks X w"
  by (simp add: tasks_def)

text \<open>A bthread that runs on a worker is in no queue.\<close>

lemma running_not_queued:
  assumes "tasks_ok X w" and "group_at w g = Some tg" and "tg_cur_meta tg = Some cur"
    and "meta_tid w cur = Some t" and "t \<noteq> tg_main_tid tg"
  shows "t \<in># tasks X w" "t \<notin># queued X w" "t \<notin># waiting w" "t \<notin># pending w"
proof -
  have "running_in (meta_tid w) tg = {#t#}" using assms(3-5) by (simp add: running_in_def)
  then have "{#t#} \<subseteq># running w" unfolding running_def using msum_member [OF assms(2)] by metis
  then have run: "t \<in># running w" by simp
  then show "t \<in># tasks X w" by (simp add: tasks_def)
  then have "count (tasks X w) t = 1" using assms(1) by (simp add: tasks_ok_def)
  then have "count (queued X w) t + count (running w) t + count (waiting w) t + count (pending w) t = 1"
    by (simp add: tasks_def)
  moreover have "count (running w) t \<noteq> 0" using run by (simp add: count_eq_zero_iff)
  ultimately have "count (queued X w) t = 0 \<and> count (waiting w) t = 0 \<and> count (pending w) t = 0" by linarith
  then show "t \<notin># queued X w" "t \<notin># waiting w" "t \<notin># pending w" by (simp_all add: count_eq_zero_iff)
qed

text \<open>Up to \<open>ending_sched\<close> everybody stays where he is, apart from the joiners.\<close>

lemma task_finish_before:
  assumes "ext_queues_ok X" and "naps_ok X" and "butexes_ok w"
    and "tls_task_group (cur_tls w) = Some g" and "group_at w g = Some tg" and "tg_last_context_remained tg = None"
    and "task_finish X s w = Some r"
  obtains w' tg' where "ending_sched X g w' = Some r" and "switches X {#} {#} w w'"
    and "group_at w' g = Some tg'" and "queue_part_only (tg\<lparr>tg_last_context_remained := Some (ReleaseLastContext s)\<rparr>) tg'"
proof -
  obtain w1 where w1: "clean_tls X s w = Some w1" using assms(4,7) by (auto simp: task_finish_def bind_Some_conv)
  note s1 = clean_tls_switches [OF w1]
  obtain w2 where w2: "retire_version s w1 = Some w2" using assms(4,7) w1 by (auto simp: task_finish_def bind_Some_conv)
  obtain m bx where m: "metas w1 s = Some m" and bx: "butex_at w1 (tm_version_butex m) = Some bx"
    and w2': "w2 = put_butex (tm_version_butex m) (bx\<lparr>bx_value := bump_version (bx_value bx)\<rparr>) w1"
    using w2 by (auto simp: retire_version_def bind_Some_conv)
  let ?b = "tm_version_butex m" and ?bx = "bx\<lparr>bx_value := bump_version (bx_value bx)\<rparr>"
  have m2: "moves X {#} w1 w2" unfolding w2' by (rule put_value_moves [OF bx])
  have ms2: "metas w2 s = Some m" and b2: "butex_at w2 ?b = Some ?bx" using m bx by (auto simp: w2' nth_opt_Some)
  obtain n w3 where w3: "butex_wake_except X ?b 0 w2 = Some (n, w3)"
    and rest: "Option.bind (set_remained g (ReleaseLastContext s) (count_bthreads (-1) w3)) (ending_sched X g) = Some r"
    using assms(4,7) w1 w2 ms2 by (auto simp: task_finish_def bind_Some_conv)
  have own2: "tls_task_group (cur_tls w2) = Some g" and ok2: "butexes_ok w2"
    using s1(1,7) m2 assms(3,4) by (auto simp: w2' switches_def moves_def steady_def)
  have "length (left_waiters w2 0 (bx_waiters ?bx)) \<le> 1" by (simp add: left_waiters_def)
  from butex_wake_except_moves [OF assms(1,2) ok2 b2 own2 this w3] have m3: "moves X {#} w2 w3" by blast
  let ?w4 = "count_bthreads (-1) w3"
  have m4: "moves X {#} w1 ?w4" using moves_trans_0(1) [OF m2 moves_trans_0(1) [OF m3 count_bthreads_moves]] .
  have own: "tls_task_group (cur_tls w1) = Some g" "group_at w1 g = Some tg" using s1(2,7) assms(4,5) by simp_all
  obtain tg4 where tg4: "group_at ?w4 g = Some tg4" "queue_part_only tg tg4" by (rule moves_own [OF m4 own])
  obtain w5 where w5: "set_remained g (ReleaseLastContext s) ?w4 = Some w5" and es: "ending_sched X g w5 = Some r"
    using rest by (auto simp: bind_Some_conv)
  have none: "tg_last_context_remained tg4 = None" using queue_part_only_same [OF tg4(2)] assms(6) by simp
  note s5 = set_remained_switches [OF tg4(1) none w5, of X]
  let ?r = "Some (ReleaseLastContext s)"
  have "remained_tids wt ?r = {#}" for wt by (simp add: remained_tids_def)
  then have "switches X {#} {#} ?w4 w5" using conjunct1 [OF s5] by simp
  then have "switches X {#} {#} w w5" using switches_trans_0(1) s1(1) moves_switches [OF m4] by blast
  moreover have "queue_part_only (tg\<lparr>tg_last_context_remained := ?r\<rparr>) (tg4\<lparr>tg_last_context_remained := ?r\<rparr>)"
    using tg4(2) by (cases tg; cases tg4) (auto simp: queue_part_only_def)
  moreover have "group_at w5 g = Some (tg4\<lparr>tg_last_context_remained := ?r\<rparr>)" using s5 tg4(1) by (simp add: nth_opt_Some)
  ultimately show thesis using that es by blast
qed

lemma task_finish_switches:
  assumes "ext_queues_ok X" and "naps_ok X" and "butexes_ok w" and "tasks_ok X w"
    and "tls_task_group (cur_tls w) = Some g" and "group_at w g = Some tg" and "tg_cur_meta tg = Some s"
    and "metas w s = Some m" and "tm_tid m \<noteq> tg_main_tid tg" and "tg_last_context_remained tg = None"
    and "tg_main_tid tg \<notin># tasks X w" and "live_task w (tg_main_tid tg)"
    and "task_finish X s w = Some (jumped, g', w')"
  shows "switches X {#} {#tm_tid m#} w w' \<and> tm_tid m \<notin># tasks X w' \<and> g' = g"
proof -
  obtain w5 tg5 where es: "ending_sched X g w5 = Some (jumped, g', w')" and s5: "switches X {#} {#} w w5"
    and g5: "group_at w5 g = Some tg5"
    and tg5: "queue_part_only (tg\<lparr>tg_last_context_remained := Some (ReleaseLastContext s)\<rparr>) tg5"
    by (rule task_finish_before [OF assms(1-3,5,6,10,13)])
  note same = queue_part_only_same [OF tg5]
  have t5: "tasks X w5 = tasks X w" "meta_tid w5 = meta_tid w" using s5 by (simp_all add: switches_def)
  have ok5: "tasks_ok X w5" using tasks_ok_cong [OF t5] assms(4) by simp
  have mt: "meta_tid w5 s = Some (tm_tid m)" using t5(2) meta_tid_Some [OF assms(8)] by simp
  then obtain m5 where m5: "metas w5 s = Some m5" "tm_tid m5 = tm_tid m" by (auto simp: meta_tid_def)
  have cur5: "tg_cur_meta tg5 = Some s" and main5: "tm_tid m \<noteq> tg_main_tid tg5" using same assms(7,9) by simp_all
  note nq = running_not_queued [OF ok5 g5 cur5 mt main5]
  have "switches X {#} {#tm_tid m5#} w5 w' \<and> g' = g"
  proof (rule ending_sched_switches [OF assms(1,2) _ g5 cur5 m5(1) _ _ _ _ _ _ es])
    show "tls_task_group (cur_tls w5) = Some g" using s5 assms(5) by (simp add: switches_def)
    show "remained_ok w5 (tg_last_context_remained tg5)" using same by (simp add: remained_ok_def)
    show "tm_tid m5 \<noteq> tg_main_tid tg5" "tm_tid m5 \<notin># queued X w5" using nq(2) main5 m5(2) by simp_all
    show "tg_main_tid tg5 \<notin># queued X w5" using queued_tasks [of _ X w5] t5(1) assms(11) same by auto
    show "live_task w5 (tg_main_tid tg5)" using assms(12) same t5(2) by (simp add: live_task_def)
    show "\<forall>t. t \<in># queued X w5 \<longrightarrow> live_task w5 t"
      using queued_tasks [of _ X w5] ok5 by (auto simp: tasks_ok_def)
  qed
  then have sw: "switches X {#} {#tm_tid m#} w w'" and g': "g' = g"
    using m5(2) switches_trans_0(1) [OF s5] by simp_all
  then have fin: "tasks X w = add_mset (tm_tid m) (tasks X w')" by (simp add: switches_def)
  have "count (tasks X w) (tm_tid m) = 1" using ok5 nq(1) t5(1) by (simp add: tasks_ok_def)
  then have "tm_tid m \<notin># tasks X w'" by (simp add: fin count_eq_zero_iff)
  then show ?thesis using sw g' by blast
qed


text \<open>
  The bthread of slot 3 ends while the pthread waiter 9 and the bthread of slot 5 (waiter 8) join it; the worker goes on
  with the joiner.
\<close>

definition end_world :: demo_world where
  "end_world = (run_world [])\<lparr>butexes := [demo_butex 1 [], demo_butex 1 [], demo_butex 1 [], demo_butex 1 [9, 8],
      demo_butex 1 [], demo_butex 1 []],
    waiters := [8 \<mapsto> demo_waiter (make_tid 1 5) (Some 3) 5, 9 \<mapsto> demo_waiter 0 (Some 3) 0]\<rparr>"

lemma end_world_ok: "butexes_ok end_world" "tasks_ok demo_ext end_world"
  "make_tid 1 1 \<notin># tasks demo_ext end_world" "live_task end_world (make_tid 1 1)"
proof -
  show "butexes_ok end_world"
    by (auto simp: butexes_ok_def end_world_def run_world_def demo_defs nth_opt_def nth_Cons split: nat.splits if_splits)
  have "tasks demo_ext end_world = {#make_tid 1 3, make_tid 1 5#}"
    by (simp add: tasks_def queued_def running_def waiting_def pending_def queue_of_def running_in_def remained_tids_def
        bthreads_of_def waiter_tid_def meta_tid_def end_world_def run_world_def make_tid_demo demo_defs)
  then show "tasks_ok demo_ext end_world" "make_tid 1 1 \<notin># tasks demo_ext end_world"
    by (auto simp: tasks_ok_def live_task_def meta_tid_def end_world_def run_world_def make_tid_demo demo_defs)
  show "live_task end_world (make_tid 1 1)"
    by (simp add: live_task_def meta_tid_def end_world_def run_world_def make_tid_demo demo_defs)
qed


end
