(* ===== verification/Sleep.thy ===== *)
theory Sleep
  imports Finish
begin

text \<open>
  Sleeping and interruption (\<open>task_group.cpp\<close>).  A bthread that sleeps is known to the timer only, whose callback
  makes it ready; an interruption takes it out of the timer, out of the list of the butex it waits on, or is
  remembered until it blocks.
\<close>

section \<open>The operations\<close>

definition ready_to_run_from_timer_thread ::
  "('q, 'r, 'x) ext \<Rightarrow> sleep_args \<Rightarrow> ('q, 'r, 'x) world \<Rightarrow> ('q, 'r, 'x) world option" where
  "ready_to_run_from_timer_thread X e w =
     do {
       let w0 = (if tls_task_group (cur_tls w) = None then w else log_fatal CheckTimerHasGroup w);
       (go, w1) \<leftarrow> choose_one_group X w0;
       g \<leftarrow> go;
       ready_to_run_remote X g (sa_tid e) False w1
     }"

text \<open>
  \<open>usleep\<close> up to the switch, which sets the callback that schedules the timer, and from the return of \<open>sched\<close> on.
\<close>

definition usleep_begin ::
  "('q, 'r, 'x) ext \<Rightarrow> gid \<Rightarrow> 64 word \<Rightarrow> ('q, 'r, 'x) world
   \<Rightarrow> (sleep_args option \<times> bool \<times> gid \<times> ('q, 'r, 'x) world) option" where
  "usleep_begin X g timeout_us w =
     (if timeout_us = 0 then do { (jumped, g', w') \<leftarrow> yield X g w; Some (None, jumped, g', w') }
      else do {
        tg \<leftarrow> group_at w g;
        cur \<leftarrow> tg_cur_meta tg;
        m \<leftarrow> metas w cur;
        let e = \<lparr>sa_timeout_us = timeout_us, sa_tid = tm_tid m, sa_meta = cur, sa_group = g\<rparr>;
        w1 \<leftarrow> set_remained g (AddSleepEvent e) w;
        (jumped, g', w') \<leftarrow> sched X g w1;
        Some (Some e, jumped, g', w')
      })"

definition usleep_end ::
  "sleep_args option \<Rightarrow> ('q, 'r, 'x) world \<Rightarrow> (int \<times> ('q, 'r, 'x) world) option" where
  "usleep_end e w =
     (case e of
        None \<Rightarrow> Some (0, w)
      | Some e \<Rightarrow> do {
          m \<leftarrow> metas w (sa_meta e);
          (if tm_interrupted m then
             Some (-1, set_errno (if tm_stop m then ESTOP else EINTR)
                         (put_meta (sa_meta e) (m\<lparr>tm_current_sleep := 0, tm_interrupted := False\<rparr>) w))
           else Some (0, put_meta (sa_meta e) (m\<lparr>tm_current_sleep := 0\<rparr>) w))
        })"

text \<open>The critical section at the beginning of an interruption: an error, or the waiter and the sleep it found.\<close>

definition interrupt_and_consume_waiters ::
  "bthread_t \<Rightarrow> ('q, 'r, 'x) world \<Rightarrow> ((errcode + (wid option \<times> 64 word)) \<times> ('q, 'r, 'x) world) option" where
  "interrupt_and_consume_waiters tid w =
     (case address_meta w tid of
        None \<Rightarrow> Some (Inl EINVAL, w)
      | Some m \<Rightarrow> do {
          v \<leftarrow> version_of w m;
          (if get_version tid = v then
             Some (Inr (tm_current_waiter m, tm_current_sleep m),
               put_meta (get_slot tid) (m\<lparr>tm_current_waiter := None, tm_current_sleep := 0, tm_interrupted := True\<rparr>) w)
           else Some (Inl EINVAL, w))
        })"

definition set_butex_waiter ::
  "bthread_t \<Rightarrow> wid \<Rightarrow> ('q, 'r, 'x) world \<Rightarrow> (errcode \<times> ('q, 'r, 'x) world) option" where
  "set_butex_waiter tid i w =
     (case address_meta w tid of
        None \<Rightarrow> Some (EINVAL, w)
      | Some m \<Rightarrow> do {
          v \<leftarrow> version_of w m;
          (if get_version tid = v
           then Some (E0, put_meta (get_slot tid) (m\<lparr>tm_current_waiter := Some i\<rparr>) w)
           else Some (EINVAL, w))
        })"

text \<open>The end of an interruption of a sleeping bthread.\<close>

definition wake_sleeper ::
  "('q, 'r, 'x) ext \<Rightarrow> bthread_t \<Rightarrow> bool \<Rightarrow> ('q, 'r, 'x) world \<Rightarrow> (errcode \<times> ('q, 'r, 'x) world) option" where
  "wake_sleeper X tid has_c w =
     (case tls_task_group (cur_tls w) of
        Some g \<Rightarrow> do { w1 \<leftarrow> ready_to_run X g tid False w; Some (E0, w1) }
      | None \<Rightarrow>
          if \<not> has_c then Some (EINVAL, w)
          else do {
            (go, w1) \<leftarrow> choose_one_group X w;
            g \<leftarrow> go;
            w2 \<leftarrow> ready_to_run_remote X g tid False w1;
            Some (E0, w2)
          })"

text \<open>\<open>has_c\<close>: the pointer to the TaskControl is not NULL.\<close>

definition interrupt ::
  "('q, 'r, 'x) ext \<Rightarrow> bthread_t \<Rightarrow> bool \<Rightarrow> ('q, 'r, 'x) world \<Rightarrow> (errcode \<times> ('q, 'r, 'x) world) option" where
  "interrupt X tid has_c w =
     do {
       (r, w1) \<leftarrow> interrupt_and_consume_waiters tid w;
       (case r of
          Inl e \<Rightarrow> Some (e, w1)
        | Inr (bw, sleep_id) \<Rightarrow>
            let w2 = (if sleep_id = 0 \<or> bw = None then w1 else log_fatal CheckSleepAndWait w1) in
            (case bw of
               Some i \<Rightarrow> do {
                 (erased, w3) \<leftarrow> erase_from_butex_because_of_interruption X i w2;
                 (rc, w4) \<leftarrow> set_butex_waiter tid i w3;
                 Some (rc, if rc \<noteq> E0 then log_fatal FatalInterruptWaiterLost w4 else w4)
               }
             | None \<Rightarrow>
                 if sleep_id = 0 then Some (E0, w2)
                 else
                   let (x, rc) = timer_unschedule X (outside w2) sleep_id;
                       w3 = w2\<lparr>outside := x\<rparr>
                   in (if rc \<noteq> 0 then Some (E0, w3) else wake_sleeper X tid has_c w3)))
     }"

section \<open>What pushes keep\<close>

text \<open>
  A relation between worlds that every elementary step of a push has (an update of the queues and counters of a group, a
  signal, a nap) holds between the worlds before and after all the operations that make a bthread ready.
\<close>

locale kept_by_pushes =
  fixes Q :: "('q, 'r, 'x) ext \<Rightarrow> ('q, 'r, 'x) world \<Rightarrow> ('q, 'r, 'x) world \<Rightarrow> bool"
  assumes refl: "Q X w w"
    and trans: "Q X u v \<Longrightarrow> Q X v w \<Longrightarrow> Q X u w"
    and group: "group_at w g = Some tg \<Longrightarrow> queue_part_only tg tg' \<Longrightarrow> Q X w (put_group g tg' w)"
    and signal: "Q X w (signal_task X n w)"
    and nap: "Q X w (nap X w)"
begin

lemma signalled_group:
  "group_at w g = Some tg \<Longrightarrow> queue_part_only tg tg' \<Longrightarrow> Q X w (signal_task X n (put_group g tg' w))"
  by (rule trans [OF group signal])

lemma flush: "flush_nosignal_tasks X g w = Some w' \<Longrightarrow> Q X w w'"
  by (auto simp: flush_nosignal_tasks_def bind_Some_conv Let_def refl split: if_splits intro: signalled_group)

lemma flush_remote: "flush_nosignal_tasks_remote_locked X g w = Some w' \<Longrightarrow> Q X w w'"
  by (auto simp: flush_nosignal_tasks_remote_locked_def bind_Some_conv Let_def refl split: if_splits intro: signalled_group)

lemma flush_any: "flush_nosignal_tasks_general X g w = Some w' \<Longrightarrow> Q X w w'"
  by (auto simp: flush_nosignal_tasks_general_def flush_nosignal_tasks_remote_def bind_Some_conv refl split: if_splits
      intro: flush flush_remote)

lemma push:
  assumes "push_rq X g t w = Some w'"
  shows "Q X w w'"
  using assms
proof (rule push_rq_rule)
  fix w :: "('q, 'r, 'x) world" and tg tg' assume tg: "group_at w g = Some tg"
  { fix ok assume "try_push X tg t = (tg', ok)"
    then have "Q X w (put_group g tg' w)" by (rule group [OF tg try_push_laws(2)]) }
  note put = this
  show "try_push X tg t = (tg', True) \<Longrightarrow> Q X w (put_group g tg' w)" by (rule put)
  show "Q X w w''" if "try_push X tg t = (tg', False)" "flush_nosignal_tasks X g (put_group g tg' w) = Some w2"
    "Q X (nap X w2) w''" for w2 w''
    by (rule trans [OF put [OF that(1)] trans [OF flush [OF that(2)] trans [OF nap that(3)]]])
qed

lemma push_far:
  assumes "push_remote X g t w = Some w'"
  shows "Q X w w'"
  using assms
proof (rule push_remote_rule)
  fix w :: "('q, 'r, 'x) world" and tg tg' assume tg: "group_at w g = Some tg"
  { fix ok assume "try_push_locked X tg t = (tg', ok)"
    then have "Q X w (put_group g tg' w)" by (rule group [OF tg try_push_locked_laws(2)]) }
  note put = this
  show "try_push_locked X tg t = (tg', True) \<Longrightarrow> Q X w (put_group g tg' w)" by (rule put)
  show "Q X w w''" if "try_push_locked X tg t = (tg', False)"
    "flush_nosignal_tasks_remote_locked X g (put_group g tg' w) = Some w2" "Q X (nap X w2) w''" for w2 w''
    by (rule trans [OF put [OF that(1)] trans [OF flush_remote [OF that(2)] trans [OF nap that(3)]]])
qed

lemma ready: "ready_to_run X g t ns w = Some w' \<Longrightarrow> Q X w w'"
  by (auto simp: ready_to_run_def bind_Some_conv Let_def split: if_splits
      intro: trans [OF push group] trans [OF push signalled_group])

lemma ready_remote: "ready_to_run_remote X g t ns w = Some w' \<Longrightarrow> Q X w w'"
  by (auto simp: ready_to_run_remote_def bind_Some_conv Let_def split: if_splits
      intro: trans [OF push_far group] trans [OF push_far signalled_group])

end

text \<open>
  The laws of the timer: scheduling adds a callback under a new identifier or fails with 0, unscheduling removes
  the callback exactly if it returns 0; nobody else touches it: neither the quiet calls, nor what the other threads do
  during a nap.
\<close>

definition timer_ok :: "('q, 'r, 'x) ext \<Rightarrow> bool" where
  "timer_ok X \<longleftrightarrow>
     (\<forall>x cb us x' i. timer_schedule X x cb us = (x', i) \<longrightarrow>
        timer_items X x' = (if i = 0 then timer_items X x else timer_items X x @ [(i, cb)])
        \<and> (i \<noteq> 0 \<longrightarrow> i \<notin> fst ` set (timer_items X x)))
   \<and> (\<forall>x i x' rc. timer_unschedule X x i = (x', rc) \<longrightarrow>
        (if rc = 0 then i \<in> fst ` set (timer_items X x) \<and> timer_items X x' = filter (\<lambda>e. fst e \<noteq> i) (timer_items X x)
         else timer_items X x' = timer_items X x))
   \<and> (\<forall>x x'. quiet_call X x x' \<longrightarrow> timer_items X x' = timer_items X x)
   \<and> (\<forall>w. timer_items X (outside (nap X w)) = timer_items X (outside w))"

definition timer_kept :: "('q, 'r, 'x) ext \<Rightarrow> ('q, 'r, 'x) world \<Rightarrow> ('q, 'r, 'x) world \<Rightarrow> bool" where
  "timer_kept X w w' \<longleftrightarrow> (timer_ok X \<longrightarrow> timer_items X (outside w') = timer_items X (outside w))"

text \<open>A signal makes quiet calls only.\<close>

abbreviation quiet :: "('q, 'r, 'x) ext \<Rightarrow> ('q, 'r, 'x) world \<Rightarrow> ('q, 'r, 'x) world \<Rightarrow> bool" where
  "quiet X w w' \<equiv> (quiet_call X)\<^sup>*\<^sup>* (outside w) (outside w')"

lemmas quiet_one = r_into_rtranclp [of "quiet_call X" x x' for X x x'] and
  quiet_first = converse_rtranclp_into_rtranclp [of "quiet_call X" x x' for X x x']

lemma quiet_pl_signal: "quiet X w (snd (pl_signal X i n w))"
proof -
  have "outside (set_pl i v w) = outside w" for v by (simp add: set_pl_def)
  then show ?thesis by (auto simp: pl_signal_def Let_def split: prod.split intro: quiet_one [OF quiet_futex_wake])
qed

lemma quiet_signal_loop: "quiet X w (snd (signal_loop X i s n w))"
proof (induction X i s n w rule: signal_loop.induct)
  case (1 X i s n w)
  let ?s = "if s + 1 \<ge> PARKING_LOT_NUM then 0 else s + 1" and ?g = "i < PARKING_LOT_NUM \<and> n > 0"
  show ?case
  proof (cases ?g)
    case True
    obtain k w1 where pl: "pl_signal X ?s 1 w = (k, w1)" by fastforce
    have "quiet X w1 (snd (signal_loop X (i + 1) ?s (n - k) w1))"
      by (rule "1.IH" [OF True refl pl [symmetric] refl])
    moreover have "quiet X w w1" using quiet_pl_signal [of X w ?s 1] pl by simp
    moreover have "signal_loop X i s n w = signal_loop X (i + 1) ?s (n - k) w1"
      using signal_loop_step [of i n ?s s X w, OF _ _ refl] True by (simp only: pl fst_conv snd_conv)
    ultimately show ?thesis by (metis rtranclp_trans)
  next
    case False
    then show ?thesis by (simp add: signal_loop_stop)
  qed
qed

lemma quiet_add_workers: "quiet X w (snd (add_workers X n w))"
proof -
  have "quiet X v (add_workers_loop X old n i v)" for old i v
    by (rule add_workers_loop_rule [where P = "\<lambda>i. quiet X"])
      (auto intro: quiet_first [OF quiet_pthread] quiet_one [OF quiet_pthread])
  then have "quiet X w (add_workers_loop X old n i v)" if "outside v = outside w" for old i v
    using that by metis
  then show ?thesis by (auto simp: add_workers_def Let_def)
qed

lemma quiet_signal_task: "quiet X w (signal_task X n w)"
proof -
  have "quiet X w (snd (signal_lots X n w))"
    using quiet_pl_signal quiet_signal_loop
    by (auto simp: signal_lots_def Let_def case_prod_beta intro: rtranclp_trans [OF quiet_pl_signal quiet_signal_loop])
  then show ?thesis
    using quiet_add_workers
    by (auto simp: signal_task_def case_prod_beta Let_def intro: rtranclp_trans)
qed

lemma timer_kept_quiet:
  assumes "quiet X w w'"
  shows "timer_kept X w w'"
proof -
  have "timer_items X x' = timer_items X x" if "timer_ok X" "(quiet_call X)\<^sup>*\<^sup>* x x'" for x x'
    using that(2) that(1) by (induction rule: rtranclp_induct) (simp_all add: timer_ok_def)
  then show ?thesis using assms by (simp add: timer_kept_def)
qed

lemma timer_kept_refl: "timer_kept X w w"
  by (simp add: timer_kept_def)

lemma timer_kept_trans: "timer_kept X u v \<Longrightarrow> timer_kept X v w \<Longrightarrow> timer_kept X u w"
  by (simp add: timer_kept_def)

lemma timer_kept_signal_task: "timer_kept X w (signal_task X n w)"
  by (rule timer_kept_quiet [OF quiet_signal_task])

interpretation timer: kept_by_pushes timer_kept
proof unfold_locales
  fix X :: "('a, 'b, 'c) ext" and u v w :: "('a, 'b, 'c) world" and g tg' n
  show "timer_kept X w w" by (rule timer_kept_refl)
  show "timer_kept X u v \<Longrightarrow> timer_kept X v w \<Longrightarrow> timer_kept X u w" by (rule timer_kept_trans)
  show "timer_kept X w (put_group g tg' w)" by (simp add: timer_kept_def)
  show "timer_kept X w (signal_task X n w)" by (rule timer_kept_signal_task)
  show "timer_kept X w (nap X w)" by (simp add: timer_kept_def timer_ok_def)
qed

section \<open>The sleeping bthreads\<close>

fun sleep_tid :: "timer_callback \<Rightarrow> bthread_t multiset" where
  "sleep_tid (ReadyToRunFromTimerThread e) = {#sa_tid e#}"
| "sleep_tid (EraseFromButexAndWakeup i) = {#}"
| "sleep_tid (DeleteTaskGroup g) = {#}"

definition sleep_tids :: "(64 word \<times> timer_callback) list \<Rightarrow> bthread_t multiset" where
  "sleep_tids items = msum (\<lambda>e. sleep_tid (snd e)) items"

definition sleeping :: "('q, 'r, 'x) ext \<Rightarrow> ('q, 'r, 'x) world \<Rightarrow> bthread_t multiset" where
  "sleeping X w = sleep_tids (timer_items X (outside w))"

lemma tasks_put_meta:
  "metas w s = Some m0 \<Longrightarrow> tm_tid m = tm_tid m0 \<Longrightarrow> tasks X (put_meta s m w) = tasks X w"
  using switches_put_meta [of w s m0 m X] by (simp add: switches_def)

text \<open>All places: the timer and the four others.\<close>

definition places :: "('q, 'r, 'x) ext \<Rightarrow> ('q, 'r, 'x) world \<Rightarrow> bthread_t multiset" where
  "places X w = tasks X w + sleeping X w"

lemma sleep_tids_remove:
  assumes "(i, cb) \<in> set items" and "distinct (map fst items)"
  shows "sleep_tids items = sleep_tids (filter (\<lambda>e. fst e \<noteq> i) items) + sleep_tid cb"
  using assms
proof (induction items)
  case (Cons e items)
  show ?case
  proof (cases "fst e = i")
    case True
    then have "i \<notin> fst ` set items" using Cons.prems(2) by auto
    then have "filter (\<lambda>e. fst e \<noteq> i) items = items" and "e = (i, cb)"
      using Cons.prems(1) True by (auto simp: filter_id_conv image_iff)
    then show ?thesis by (simp add: sleep_tids_def ac_simps)
  next
    case False
    then show ?thesis using Cons by (auto simp: sleep_tids_def ac_simps)
  qed
qed simp

lemma places_moves:
  assumes "timer_ok X" and "moves X d w w'" and "timer_kept X w w'"
  shows "places X w' = places X w + d" and "butexes_ok w \<Longrightarrow> butexes_ok w'"
  using assms by (simp_all add: places_def sleeping_def moves_def steady_def timer_kept_def ac_simps)

lemma tasks_outside [simp]: "tasks X (w\<lparr>outside := x\<rparr>) = tasks X w"
  by (rule tasks_cong) (simp_all add: meta_tid_def waiter_tid_def fun_eq_iff)

lemma butexes_ok_outside [simp]: "butexes_ok (w\<lparr>outside := x\<rparr>) = butexes_ok w"
  by (rule butexes_ok_cong) simp_all

lemma places_put_meta:
  assumes "metas w s = Some m0" and "tm_tid m = tm_tid m0"
  shows "places X (put_meta s m w) = places X w" and "butexes_ok (put_meta s m w) = butexes_ok w"
    and "meta_tid (put_meta s m w) = meta_tid w"
  using switches_put_meta [OF assms, of X] butexes_ok_cong [of "put_meta s m w" w]
  by (simp_all add: places_def sleeping_def switches_def)

lemma schedule_sleeping:
  assumes "timer_ok X" and "timer_schedule X (outside w) (ReadyToRunFromTimerThread e) us = (x, i)"
  shows "places X (w\<lparr>outside := x\<rparr>) = places X w + (if i = 0 then {#} else {#sa_tid e#})"
    and "i \<noteq> 0 \<Longrightarrow> timer_unschedule X x i = (x2, 0) \<Longrightarrow> places X (w\<lparr>outside := x2\<rparr>) = places X w"
    and "i \<noteq> 0 \<Longrightarrow> timer_unschedule X x i = (x2, rc) \<Longrightarrow> rc \<noteq> 0 \<Longrightarrow>
      places X (w\<lparr>outside := x2\<rparr>) = places X w + {#sa_tid e#}"
proof -
  have law: "timer_items X x = (if i = 0 then timer_items X (outside w)
      else timer_items X (outside w) @ [(i, ReadyToRunFromTimerThread e)])"
    "i \<noteq> 0 \<Longrightarrow> i \<notin> fst ` set (timer_items X (outside w))"
    using assms by (auto simp: timer_ok_def)
  show "places X (w\<lparr>outside := x\<rparr>) = places X w + (if i = 0 then {#} else {#sa_tid e#})"
    by (simp add: places_def sleeping_def law(1) sleep_tids_def ac_simps)
  have un: "timer_items X x2 = (if rc = 0 then filter (\<lambda>e. fst e \<noteq> i) (timer_items X x) else timer_items X x)"
    if "timer_unschedule X x i = (x2, rc)" for rc
    using assms(1) that by (auto simp: timer_ok_def)
  show "places X (w\<lparr>outside := x2\<rparr>) = places X w" if "i \<noteq> 0" "timer_unschedule X x i = (x2, 0)"
  proof -
    have "filter (\<lambda>e. fst e \<noteq> i) (timer_items X (outside w)) = timer_items X (outside w)"
      using law(2) [OF that(1)] by (auto simp: filter_id_conv image_iff)
    then show ?thesis using un [OF that(2)] law(1) that(1) by (simp add: places_def sleeping_def)
  qed
  show "places X (w\<lparr>outside := x2\<rparr>) = places X w + {#sa_tid e#}"
    if "i \<noteq> 0" "timer_unschedule X x i = (x2, rc)" "rc \<noteq> 0"
    using un [OF that(2)] law(1) that by (simp add: places_def sleeping_def sleep_tids_def ac_simps)
qed

text \<open>How the callback of \<open>usleep\<close> goes on.\<close>

lemma add_sleep_event_cases:
  assumes "add_sleep_event X e w = Some w'"
  obtains (refused) x where
      "timer_schedule X (outside w) (ReadyToRunFromTimerThread e) (uint (sa_timeout_us e)) = (x, 0)"
      "ready_to_run X (sa_group e) (sa_tid e) False (w\<lparr>outside := x\<rparr>) = Some w'"
  | (sleeps) x i m where
      "timer_schedule X (outside w) (ReadyToRunFromTimerThread e) (uint (sa_timeout_us e)) = (x, i)" "i \<noteq> 0"
      "metas w (sa_meta e) = Some m" "w' = put_meta (sa_meta e) (m\<lparr>tm_current_sleep := i\<rparr>) (w\<lparr>outside := x\<rparr>)"
  | (taken_back) x i x2 where
      "timer_schedule X (outside w) (ReadyToRunFromTimerThread e) (uint (sa_timeout_us e)) = (x, i)" "i \<noteq> 0"
      "timer_unschedule X x i = (x2, 0)" "ready_to_run X (sa_group e) (sa_tid e) False (w\<lparr>outside := x2\<rparr>) = Some w'"
  | (fired) x i x2 rc where
      "timer_schedule X (outside w) (ReadyToRunFromTimerThread e) (uint (sa_timeout_us e)) = (x, i)" "i \<noteq> 0"
      "timer_unschedule X x i = (x2, rc)" "rc \<noteq> 0" "w' = w\<lparr>outside := x2\<rparr>"
proof -
  obtain x i where sc: "timer_schedule X (outside w) (ReadyToRunFromTimerThread e) (uint (sa_timeout_us e)) = (x, i)"
    by fastforce
  show ?thesis
  proof (cases "i = 0")
    case True
    then show ?thesis using refused sc assms by (simp add: add_sleep_event_def)
  next
    case False
    obtain m v where m: "metas w (sa_meta e) = Some m" and v: "butex_at w (tm_version_butex m) = Some v"
      using assms sc False by (auto simp: add_sleep_event_def Let_def bind_Some_conv)
    obtain x2 rc where un: "timer_unschedule X x i = (x2, rc)" by fastforce
    consider "w' = put_meta (sa_meta e) (m\<lparr>tm_current_sleep := i\<rparr>) (w\<lparr>outside := x\<rparr>)"
      | "rc = 0" "ready_to_run X (sa_group e) (sa_tid e) False (w\<lparr>outside := x2\<rparr>) = Some w'"
      | "rc \<noteq> 0" "w' = w\<lparr>outside := x2\<rparr>"
      using assms sc False m v un by (auto simp: add_sleep_event_def Let_def split: if_splits)
    then show ?thesis using sleeps [OF sc False m] taken_back [OF sc False] fired [OF sc False] un by cases blast+
  qed
qed

lemma add_sleep_event_places:
  assumes "ext_queues_ok X" and "naps_ok X" and "timer_ok X" and "add_sleep_event X e w = Some w'"
  shows "places X w' = places X w + {#sa_tid e#} \<and> (butexes_ok w \<longrightarrow> butexes_ok w')"
proof -
  note law = schedule_sleeping [OF assms(3)]
  have ready: "places X v = places X u + {#sa_tid e#} \<and> (butexes_ok u \<longrightarrow> butexes_ok v)"
    if "ready_to_run X (sa_group e) (sa_tid e) False u = Some v" for u v
    using places_moves [OF assms(3) ready_to_run_moves [OF assms(1,2) that] timer.ready [OF that]] by simp
  from assms(4) show ?thesis
  proof (cases rule: add_sleep_event_cases)
    case (refused x)
    then show ?thesis using ready [OF refused(2)] law(1) [OF refused(1)] by simp
  next
    case (sleeps x i m)
    then show ?thesis using places_put_meta [of "w\<lparr>outside := x\<rparr>" "sa_meta e" m] law(1) [OF sleeps(1)] by simp
  next
    case (taken_back x i x2)
    then show ?thesis using ready [OF taken_back(4)] law(2) [OF taken_back(1-3)] by simp
  next
    case (fired x i x2 rc)
    then show ?thesis using law(3) [OF fired(1-4)] by simp
  qed
qed

lemma demo_timer_ok: "timer_ok demo_ext"
  by (auto simp: timer_ok_def demo_ext_def demo_timer_schedule_def demo_timer_unschedule_def demo_futex_wake_def
      demo_get_stack_def Let_def elim!: quiet_call.cases split: if_splits)

lemma add_sleep_event_places_demo:
  "\<exists>w'. add_sleep_event demo_ext \<lparr>sa_timeout_us = 9, sa_tid = make_tid 1 3, sa_meta = 3, sa_group = 0\<rparr> (run_world []) = Some w'
    \<and> places demo_ext w' = add_mset (make_tid 1 3) (places demo_ext (run_world []))"
proof -
  let ?e = "\<lparr>sa_timeout_us = 9, sa_tid = make_tid 1 3, sa_meta = 3, sa_group = 0\<rparr>"
  obtain w' where w': "add_sleep_event demo_ext ?e (run_world []) = Some w'"
    by (simp add: add_sleep_event_def demo_sched_defs get_version_def Let_def)
  then show ?thesis using add_sleep_event_places [OF demo_queues_ok demo_naps_ok demo_timer_ok w'] by simp
qed

lemma quiet_choose_one_group: "choose_one_group X w = Some (go, w') \<Longrightarrow> quiet X w w'"
  by (auto simp: choose_one_group_def Let_def elim!: bind_SomeE split: cases_asm intro: quiet_one [OF quiet_rand_less])

lemmas choose_one_group_timer = timer_kept_quiet [OF quiet_choose_one_group]

lemma timer_thread_moves:
  assumes "ext_queues_ok X" and "naps_ok X" and "ready_to_run_from_timer_thread X e w = Some w'"
  shows "moves X {#sa_tid e#} w w'" and "timer_kept X w w'"
proof -
  define w0 where "w0 = (if tls_task_group (cur_tls w) = None then w else log_fatal CheckTimerHasGroup w)"
  obtain g w1 where cg: "choose_one_group X w0 = Some (Some g, w1)"
    and rr: "ready_to_run_remote X g (sa_tid e) False w1 = Some w'"
    using assms(3) by (auto simp: ready_to_run_from_timer_thread_def Let_def w0_def bind_Some_conv)
  have "moves X {#} w w0" by (rule moves_cong) (simp_all add: w0_def)
  then show "moves X {#sa_tid e#} w w'"
    using moves_trans_0(1) [OF choose_one_group_moves [OF cg] ready_to_run_remote_moves [OF assms(1,2) rr]] moves_trans_0(1) by blast
  have "timer_kept X w w0" by (simp add: w0_def timer_kept_def)
  then show "timer_kept X w w'"
    using timer_kept_trans [OF choose_one_group_timer [OF cg] timer.ready_remote [OF rr]] timer_kept_trans by blast
qed

text \<open>
  When the timer fires for a sleeping bthread, it leaves the timer and its callback puts it into exactly one
  run queue.
\<close>

lemma timer_wakes_sleeper:
  assumes "ext_queues_ok X" and "naps_ok X" and "timer_ok X"
    and "(i, ReadyToRunFromTimerThread e) \<in> set (timer_items X (outside w))"
    and "distinct (map fst (timer_items X (outside w)))"
    and "timer_items X x = filter (\<lambda>c. fst c \<noteq> i) (timer_items X (outside w))"
    and "ready_to_run_from_timer_thread X e (w\<lparr>outside := x\<rparr>) = Some w'"
  shows "places X w' = places X w \<and> tasks X w' = tasks X w + {#sa_tid e#} \<and> (butexes_ok w \<longrightarrow> butexes_ok w')"
proof -
  note mv = timer_thread_moves [OF assms(1,2,7)]
  have "sleeping X w = sleeping X (w\<lparr>outside := x\<rparr>) + {#sa_tid e#}"
    using sleep_tids_remove [OF assms(4,5)] assms(6) by (simp add: sleeping_def)
  moreover have "tasks X w' = tasks X w + {#sa_tid e#}" using mv(1) by (simp add: moves_def)
  ultimately show ?thesis using places_moves [OF assms(3) mv] by (simp add: places_def ac_simps)
qed

text \<open>The bthread of slot 3 sleeps; the timer thread, which is no worker, makes it ready.\<close>

definition sleep_args_3 :: sleep_args where
  "sleep_args_3 = \<lparr>sa_timeout_us = 9, sa_tid = make_tid 1 3, sa_meta = 3, sa_group = 0\<rparr>"

definition sleep_world :: "gid option \<Rightarrow> demo_world" where
  "sleep_world own = (demo_world own
     [demo_group 5 (make_tid 1 1) [] [], demo_group 2 (make_tid 1 2) [] []] [] Map.empty)
     \<lparr>outside := demo_sim\<lparr>sim_timers := [(7, ReadyToRunFromTimerThread sleep_args_3)]\<rparr>,
      metas := demo_metas(3 \<mapsto> (demo_meta (make_tid 1 3) 3 (Some 63))\<lparr>tm_current_sleep := 7\<rparr>)\<rparr>"

lemma timer_wakes_sleeper_demo:
  "\<exists>w'. ready_to_run_from_timer_thread demo_ext sleep_args_3 ((sleep_world None)\<lparr>outside := demo_sim\<rparr>) = Some w'
    \<and> places demo_ext w' = places demo_ext (sleep_world None)"
proof -
  let ?w = "sleep_world None"
  obtain w' where w': "ready_to_run_from_timer_thread demo_ext sleep_args_3 (?w\<lparr>outside := demo_sim\<rparr>) = Some w'"
    by (simp add: ready_to_run_from_timer_thread_def choose_one_group_def ready_to_run_remote_def push_remote.simps
        try_push_locked_def sleep_world_def demo_sched_defs Let_def)
  have "timer_items demo_ext (outside ?w) = [(7, ReadyToRunFromTimerThread sleep_args_3)]" "timer_items demo_ext demo_sim = []"
    by (simp_all add: sleep_world_def demo_defs)
  then show ?thesis using timer_wakes_sleeper [OF demo_queues_ok demo_naps_ok demo_timer_ok _ _ _ w', of 7] w' by simp
qed

section \<open>Interruption\<close>

text \<open>What \<open>current_sleep\<close> records is the timer of this bthread.\<close>

definition sleep_recorded :: "('q, 'r, 'x) ext \<Rightarrow> bthread_t \<Rightarrow> task_meta \<Rightarrow> ('q, 'r, 'x) world \<Rightarrow> bool" where
  "sleep_recorded X tid m w \<longleftrightarrow>
     distinct (map fst (timer_items X (outside w)))
   \<and> (\<forall>cb. (tm_current_sleep m, cb) \<in> set (timer_items X (outside w)) \<longrightarrow>
        (\<exists>e. cb = ReadyToRunFromTimerThread e \<and> sa_tid e = tid))"

lemma wake_sleeper_moves:
  assumes "ext_queues_ok X" and "naps_ok X"
    and "tls_task_group (cur_tls w) \<noteq> None \<or> has_c" and "wake_sleeper X tid has_c w = Some (rc, w')"
  shows "moves X {#tid#} w w'" and "timer_kept X w w'"
proof -
  have "moves X {#tid#} w w' \<and> timer_kept X w w'"
  proof (cases "tls_task_group (cur_tls w)")
    case None
    then obtain g w1 where cg: "choose_one_group X w = Some (Some g, w1)"
      and rr: "ready_to_run_remote X g tid False w1 = Some w'"
      using assms(3,4) by (auto simp: wake_sleeper_def bind_Some_conv)
    show ?thesis using moves_trans_0(1) [OF choose_one_group_moves [OF cg] ready_to_run_remote_moves [OF assms(1,2) rr]]
        timer_kept_trans [OF choose_one_group_timer [OF cg] timer.ready_remote [OF rr]] by blast
  next
    case (Some g)
    then have "ready_to_run X g tid False w = Some w'" using assms(4) by (auto simp: wake_sleeper_def bind_Some_conv)
    then show ?thesis using ready_to_run_moves [OF assms(1,2)] timer.ready by blast
  qed
  then show "moves X {#tid#} w w'" "timer_kept X w w'" by simp_all
qed

lemma wake_sleeper_places:
  assumes "ext_queues_ok X" and "naps_ok X" and "timer_ok X" and "butexes_ok w"
    and "tls_task_group (cur_tls w) \<noteq> None \<or> has_c" and "wake_sleeper X tid has_c w = Some (rc, w')"
  shows "places X w' = places X w + {#tid#}" and "butexes_ok w'"
  using places_moves [OF assms(3) wake_sleeper_moves [OF assms(1,2,5,6)]] assms(4) by blast+

lemma interrupt_unfold:
  assumes "address_meta w tid = Some m" and "version_of w m = Some (get_version tid)"
  defines "w1 \<equiv> put_meta (get_slot tid)
      (m\<lparr>tm_current_waiter := None, tm_current_sleep := 0, tm_interrupted := True\<rparr>) w"
  shows "tm_current_waiter m = None \<Longrightarrow> tm_current_sleep m = 0 \<Longrightarrow> interrupt X tid has_c w = Some (E0, w1)"
    and "tm_current_waiter m = None \<Longrightarrow> tm_current_sleep m \<noteq> 0 \<Longrightarrow>
      timer_unschedule X (outside w) (tm_current_sleep m) = (x, rc) \<Longrightarrow>
      interrupt X tid has_c w =
        (if rc \<noteq> 0 then Some (E0, w1\<lparr>outside := x\<rparr>) else wake_sleeper X tid has_c (w1\<lparr>outside := x\<rparr>))"
  using assms(1,2) by (simp_all add: interrupt_def interrupt_and_consume_waiters_def w1_def Let_def)

lemma interrupt_waiter:
  assumes "ext_queues_ok X" and "naps_ok X" and "grabs_ok X" and "butexes_ok w"
    and "address_meta w tid = Some m" and "version_of w m = Some (get_version tid)"
    and "tls_task_group (cur_tls w) = Some g" and "tm_current_waiter m = Some i"
    and "interrupt X tid has_c w = Some (rc, w')"
  shows "switches X {#} {#} w w'"
proof -
  let ?m = "m\<lparr>tm_current_waiter := None, tm_current_sleep := 0, tm_interrupted := True\<rparr>"
  define w2 where "w2 = (let w1 = put_meta (get_slot tid) ?m w
      in if tm_current_sleep m = 0 then w1 else log_fatal CheckSleepAndWait w1)"
  have m: "metas w (get_slot tid) = Some m" using assms(5) by (simp add: address_meta_def)
  have "groups w2 = groups w" "butexes w2 = butexes w" "waiters w2 = waiters w" and tls2: "cur_tls w2 = cur_tls w"
    and "metas w2 = (metas w)(get_slot tid \<mapsto> ?m)" by (simp_all add: w2_def Let_def)
  then have s2: "switches X {#} {#} w w2" "butexes_ok w2"
    using m assms(4) butexes_ok_cong [of w2 w] by (auto intro!: switches_cong simp: meta_tid_def fun_eq_iff)
  obtain erased w3 w4 where er: "erase_from_butex X i True WAITER_STATE_INTERRUPTED w2 = Some (erased, w3)"
    and sb: "set_butex_waiter tid i w3 = Some (rc, w4)"
    and w': "w' = (if rc \<noteq> E0 then log_fatal FatalInterruptWaiterLost w4 else w4)"
    using assms(5,6,8,9)
    by (auto simp: interrupt_def interrupt_and_consume_waiters_def erase_from_butex_because_of_interruption_def
        w2_def bind_Some_conv Let_def split: if_splits)
  have own: "tls_task_group (cur_tls w2) = Some g" using tls2 assms(7) by simp
  have t3: "switches X {#} {#} w2 w3"
    using erase_from_butex_spec [OF assms(1-3) s2(2) own er] moves_switches [of X "{#}" w2 w3] by simp
  have "w4 = w3 \<or> (\<exists>m3. metas w3 (get_slot tid) = Some m3
      \<and> w4 = put_meta (get_slot tid) (m3\<lparr>tm_current_waiter := Some i\<rparr>) w3)"
    using sb by (auto simp: set_butex_waiter_def address_meta_def bind_Some_conv split: option.splits if_splits)
  then have t4: "switches X {#} {#} w3 w4"
    using switches_put_meta [of w3 "get_slot tid"] by (auto intro: switches_cong)
  have "switches X {#} {#} w4 w'" by (rule switches_cong) (auto simp: w' meta_tid_def fun_eq_iff)
  then show "switches X {#} {#} w w'" using s2(1) t3 t4 switches_trans_0(1) by blast
qed

text \<open>An interruption of a bthread that does not sleep.\<close>

lemma interrupt_switches:
  assumes "ext_queues_ok X" and "naps_ok X" and "grabs_ok X" and "butexes_ok w"
    and "\<And>m. address_meta w tid = Some m \<Longrightarrow> tm_current_sleep m = 0
      \<and> (tm_current_waiter m = None \<or> tls_task_group (cur_tls w) \<noteq> None)"
    and "interrupt X tid has_c w = Some (rc, w')"
  shows "switches X {#} {#} w w'"
proof (cases "address_meta w tid")
  case None
  then show ?thesis using assms(6) moves_switches [OF moves_refl]
    by (auto simp: interrupt_def interrupt_and_consume_waiters_def)
next
  case (Some m)
  then obtain v where v: "version_of w m = Some v"
    using assms(6) by (auto simp: interrupt_def interrupt_and_consume_waiters_def bind_Some_conv)
  show ?thesis
  proof (cases "get_version tid = v")
    case False
    then show ?thesis using assms(6) Some v moves_switches [OF moves_refl]
      by (auto simp: interrupt_def interrupt_and_consume_waiters_def)
  next
    case True
    note v = v [folded True]
    show ?thesis
    proof (cases "tm_current_waiter m")
      case None
      have "metas w (get_slot tid) = Some m" using Some by (simp add: address_meta_def)
      then show ?thesis using interrupt_unfold(1) [OF Some v None] assms(5) [OF Some] assms(6)
        by (auto intro!: switches_put_meta)
    next
      case (Some i)
      then obtain g where g: "tls_task_group (cur_tls w) = Some g" using assms(5) [OF \<open>address_meta w tid = Some m\<close>] by auto
      show ?thesis by (rule interrupt_waiter [OF assms(1-4) \<open>address_meta w tid = Some m\<close> v g Some assms(6)])
    qed
  qed
qed

lemma interrupt_conserves_spec:
  assumes "ext_queues_ok X" and "naps_ok X" and "timer_ok X" and "grabs_ok X" and "butexes_ok w"
    and "address_meta w tid = Some m" and "sleep_recorded X tid m w"
    and "tls_task_group (cur_tls w) \<noteq> None \<or> has_c \<and> tm_current_waiter m = None"
    and "interrupt X tid has_c w = Some (rc, w')"
  shows "butexes_ok w' \<and> (if tm_current_waiter m = None then places X w' = places X w else tasks X w' = tasks X w)"
proof -
  obtain v where v: "version_of w m = Some v"
    using assms(6,9) by (auto simp: interrupt_def interrupt_and_consume_waiters_def bind_Some_conv)
  have m: "metas w (get_slot tid) = Some m" using assms(6) by (simp add: address_meta_def)
  let ?bw = "tm_current_waiter m" and ?i = "tm_current_sleep m"
  let ?w1 = "put_meta (get_slot tid) (m\<lparr>tm_current_waiter := None, tm_current_sleep := 0, tm_interrupted := True\<rparr>) w"
  note p1 = places_put_meta [OF m, where m = "m\<lparr>tm_current_waiter := None, tm_current_sleep := 0, tm_interrupted := True\<rparr>"]
  consider (stale) "get_version tid \<noteq> v" | (waits) j where "get_version tid = v" "?bw = Some j"
    | (awake) "get_version tid = v" "?bw = None" "?i = 0" | (sleeps) "get_version tid = v" "?bw = None" "?i \<noteq> 0"
    by (cases ?bw) auto
  then show ?thesis
  proof cases
    case stale
    then have "w' = w" using v assms(6,9) by (simp add: interrupt_def interrupt_and_consume_waiters_def)
    then show ?thesis using assms(5) by simp
  next
    case waits
    then obtain g where "tls_task_group (cur_tls w) = Some g" using assms(8) by auto
    then show ?thesis using interrupt_waiter [OF assms(1,2,4-6) _ _ waits(2) assms(9)] v waits assms(5)
      by (simp add: switches_def)
  next
    case awake
    then show ?thesis using interrupt_unfold(1) [OF assms(6)] v p1 assms(5,9) by simp
  next
    case sleeps
    obtain x k where un: "timer_unschedule X (outside w) ?i = (x, k)" by fastforce
    have law: "if k = 0 then ?i \<in> fst ` set (timer_items X (outside w))
        \<and> timer_items X x = filter (\<lambda>e. fst e \<noteq> ?i) (timer_items X (outside w))
      else timer_items X x = timer_items X (outside w)"
      using assms(3) un by (auto simp: timer_ok_def)
    have res: "(if k \<noteq> 0 then Some (E0, ?w1\<lparr>outside := x\<rparr>) else wake_sleeper X tid has_c (?w1\<lparr>outside := x\<rparr>)) = Some (rc, w')"
      using interrupt_unfold(2) [OF assms(6) _ _ _ un] v sleeps assms(9) by simp
    have tk: "tasks X (?w1\<lparr>outside := x\<rparr>) = tasks X w" using p1(1) by (simp add: places_def sleeping_def)
    have ok: "butexes_ok (?w1\<lparr>outside := x\<rparr>)" using p1(2) assms(5) by simp
    show ?thesis
    proof (cases "k = 0")
      case False
      then have "w' = ?w1\<lparr>outside := x\<rparr>" using res by simp
      then show ?thesis using False law tk ok sleeps(2) by (simp add: places_def sleeping_def)
    next
      case True
      then obtain e where e: "(?i, ReadyToRunFromTimerThread e) \<in> set (timer_items X (outside w))" "sa_tid e = tid"
        using law assms(7) by (auto simp: sleep_recorded_def)
      have "sleeping X w = sleeping X (?w1\<lparr>outside := x\<rparr>) + {#tid#}"
        using sleep_tids_remove [OF e(1)] assms(7) law True e(2) by (simp add: sleep_recorded_def sleeping_def)
      moreover have "places X w' = places X (?w1\<lparr>outside := x\<rparr>) + {#tid#}" "butexes_ok w'"
        using wake_sleeper_places [OF assms(1-3) ok _ , of has_c tid rc w'] res True assms(8) by auto
      ultimately show ?thesis using tk sleeps(2) by (simp add: places_def ac_simps)
    qed
  qed
qed





end
