(* ===== verification/Wait.thy ===== *)
theory Wait
  imports Sleep
begin

text \<open>
  \<open>butex_wait\<close>, which \<open>butex.h\<close> declares and the notes (\<^verbatim>\<open>docs/butex.md\<close>) quote: blocking of a bthread until the butex is
  woken, the deadline passes, the value is found changed, or the bthread is interrupted.  It is cut at the
  switch, as \<open>usleep\<close> is.  A pthread, or a task that runs on the stack of its pthread, waits by
  \<open>butex_wait_from_pthread\<close> instead.
\<close>

section \<open>The operations\<close>

definition new_bthread_waiter :: "bthread_t \<Rightarrow> slot \<Rightarrow> 32 word \<Rightarrow> bid \<Rightarrow> waiter" where
  "new_bthread_waiter tid s expected b =
     \<lparr>w_tid = tid, w_container = None, w_task_meta = s, w_sleep_id = 0, w_state = WAITER_STATE_READY,
      w_expected_value = expected, w_initial_butex = b, w_sig = False\<rparr>"

text \<open>
  The timer of a wait with a deadline (in microseconds): \<open>ETIMEDOUT\<close> when it has passed already, \<open>ESTOP\<close> when the
  timer refuses, and otherwise the callback is scheduled for the time that is left.
\<close>

definition schedule_timeout ::
  "('q, 'r, 'x) ext \<Rightarrow> wid \<Rightarrow> int option \<Rightarrow> ('q, 'r, 'x) world \<Rightarrow> (errcode \<times> ('q, 'r, 'x) world) option" where
  "schedule_timeout X i abstime w =
     (case abstime of
        None \<Rightarrow> Some (E0, w)
      | Some us \<Rightarrow>
          let (x, now) = gettimeofday_us X (outside w) in
          (if us < now + MIN_SLEEP_US then Some (ETIMEDOUT, w\<lparr>outside := x\<rparr>)
           else do {
             let (x', k) = timer_schedule X x (EraseFromButexAndWakeup i) (us - now);
             bw \<leftarrow> waiters w i;
             Some (if k = 0 then ESTOP else E0, put_waiter i (bw\<lparr>w_sleep_id := k\<rparr>) (w\<lparr>outside := x'\<rparr>))
           }))"

text \<open>
  Up to the switch: the waiter \<open>i\<close> is on the stack of the caller.  The result is \<open>Inl\<close> when the call returns without
  having blocked the bthread.
\<close>

definition butex_wait_begin ::
  "('q, 'r, 'x) ext \<Rightarrow> bid \<Rightarrow> 32 word \<Rightarrow> int option \<Rightarrow> wid \<Rightarrow> ('q, 'r, 'x) world
   \<Rightarrow> ((int + bool \<times> gid) \<times> ('q, 'r, 'x) world) option" where
  "butex_wait_begin X b expected abstime i w =
     do {
       bx \<leftarrow> butex_at w b;
       (if bx_value bx \<noteq> expected then Some (Inl (-1), set_errno EWOULDBLOCK w)
        else do {
          own \<leftarrow> (case tls_task_group (cur_tls w) of
                    None \<Rightarrow> Some None
                  | Some g \<Rightarrow> do {
                      tg \<leftarrow> group_at w g;
                      cur \<leftarrow> tg_cur_meta tg;
                      Some (if is_current_pthread_task X tg (metas w cur) then None else Some (g, cur))
                    });
          (case own of
             None \<Rightarrow> do {
               (rc, w1) \<leftarrow> butex_wait_from_pthread X (tls_task_group (cur_tls w)) b expected abstime i w;
               Some (Inl rc, w1)
             }
           | Some (g, cur) \<Rightarrow> do {
               m \<leftarrow> metas w cur;
               (e, w1) \<leftarrow> schedule_timeout X i abstime
                            (put_waiter i (new_bthread_waiter (tm_tid m) cur expected b) w);
               (if e \<noteq> E0 then Some (Inl (-1), set_errno e w1)
                else do {
                  w2 \<leftarrow> set_remained g (WaitForButex i) (put_meta cur (m\<lparr>tm_current_waiter := Some i\<rparr>) w1);
                  (jumped, g', w3) \<leftarrow> sched X g w2;
                  Some (Inr (jumped, g'), w3)
                })
             })
        })
     }"

text \<open>The loop that waits until the callback of the timer does not run any more.\<close>

partial_function (option) unsleep_loop ::
  "('q, 'r, 'x) ext \<Rightarrow> wid \<Rightarrow> ('q, 'r, 'x) world \<Rightarrow> ('q, 'r, 'x) world option" where
  "unsleep_loop X i w =
     do {
       (rc, w1) \<leftarrow> unsleep_if_necessary X i w;
       (if rc < 0 then unsleep_loop X i (spin X w1) else Some w1)
     }"

text \<open>When the bthread is entered again.\<close>

definition butex_wait_end ::
  "('q, 'r, 'x) ext \<Rightarrow> wid \<Rightarrow> ('q, 'r, 'x) world \<Rightarrow> (int \<times> ('q, 'r, 'x) world) option" where
  "butex_wait_end X i w =
     do {
       w1 \<leftarrow> unsleep_loop X i w;
       bw \<leftarrow> waiters w1 i;
       let s = w_task_meta bw;
       w2 \<leftarrow> take_current_waiter X s w1;
       m \<leftarrow> metas w2 s;
       let w3 = (if tm_interrupted m then put_meta s (m\<lparr>tm_interrupted := False\<rparr>) w2 else w2);
       bw3 \<leftarrow> waiters w3 i;
       Some (if w_state bw3 = WAITER_STATE_TIMEOUT then (-1, set_errno ETIMEDOUT w3)
             else if w_state bw3 = WAITER_STATE_UNMATCHEDVALUE then (-1, set_errno EWOULDBLOCK w3)
             else if tm_interrupted m then (-1, set_errno EINTR w3)
             else (0, w3))
     }"

section \<open>A fresh waiter\<close>

text \<open>No list and no callback knows the waiter.\<close>

definition waiter_free :: "wid \<Rightarrow> ('q, 'r, 'x) world \<Rightarrow> bool" where
  "waiter_free i w \<longleftrightarrow>
     (\<forall>bw. waiters w i = Some bw \<longrightarrow> w_container bw = None)
   \<and> (\<forall>tg \<in> set (groups w). tg_last_context_remained tg \<noteq> Some (WaitForButex i))"

lemma bthreads_of_cong: "(\<And>j. j \<in> set ws \<Longrightarrow> f j = g j) \<Longrightarrow> bthreads_of f ws = bthreads_of g ws"
  by (induction ws) simp_all

lemma fresh_waiter:
  assumes "butexes_ok w" and "waiter_free i w" and "w_container bw = None"
  shows "tasks X (put_waiter i bw w) = tasks X w" and "butexes_ok (put_waiter i bw w)"
proof -
  have other: "waiter_tid (put_waiter i bw w) j = waiter_tid w j" if "j \<noteq> i" for j
    using that by (simp add: waiter_tid_def)
  have "bthreads_of (waiter_tid (put_waiter i bw w)) (bx_waiters bx) = bthreads_of (waiter_tid w) (bx_waiters bx)"
    if bx: "bx \<in> set (butexes w)" for bx
  proof (rule bthreads_of_cong)
    fix j
    assume j: "j \<in> set (bx_waiters bx)"
    obtain b where "butex_at w b = Some bx" using bx unfolding in_set_conv_nth nth_opt_Some by blast
    from butexes_okD(2) [OF assms(1) this, of j] have "j \<noteq> i" using j assms(2) by (auto simp: waiter_free_def)
    then show "waiter_tid (put_waiter i bw w) j = waiter_tid w j" by (rule other)
  qed
  then have "waiting (put_waiter i bw w) = waiting w" by (auto simp: waiting_def intro: msum_cong)
  moreover have "remained_tids (waiter_tid (put_waiter i bw w)) (tg_last_context_remained tg)
      = remained_tids (waiter_tid w) (tg_last_context_remained tg)" if "tg \<in> set (groups w)" for tg
    using that assms(2) other
    by (auto simp: waiter_free_def remained_tids_def split: option.splits remained.splits)
  then have "pending (put_waiter i bw w) = pending w" by (auto simp: pending_def intro: msum_cong)
  ultimately show "tasks X (put_waiter i bw w) = tasks X w"
    by (simp add: tasks_def queued_def running_def)
  have "(\<exists>u. waiters (put_waiter i bw w) j = Some u \<and> w_container u = Some b) \<longleftrightarrow>
      (\<exists>u. waiters w j = Some u \<and> w_container u = Some b)" for j b
    using assms(2,3) by (auto simp: waiter_free_def)
  then show "butexes_ok (put_waiter i bw w)" using assms(1) unfolding butexes_ok_def by simp
qed

lemma schedule_timeout_result:
  assumes "schedule_timeout X i abstime w = Some (e, w')" and "waiters w i = Some bw"
  shows "\<exists>k x. w' = (put_waiter i (bw\<lparr>w_sleep_id := k\<rparr>) w)\<lparr>outside := x\<rparr>" and "e \<in> {E0, ETIMEDOUT, ESTOP}"
    and "abstime = None \<longrightarrow> e = E0"
proof -
  let ?P = "\<lambda>u. \<exists>k x. u = (put_waiter i (bw\<lparr>w_sleep_id := k\<rparr>) w)\<lparr>outside := x\<rparr>"
  have same: "?P (w\<lparr>outside := y\<rparr>)" for y
    using assms(2) by (intro exI [of _ "w_sleep_id bw"] exI [of _ y]) (simp add: put_defs fun_upd_idem)
  have "?P w" using same [of "outside w"] by simp
  moreover have "?P (put_waiter i (bw\<lparr>w_sleep_id := k\<rparr>) (w\<lparr>outside := y\<rparr>))" for k y
    by (intro exI [of _ k] exI [of _ y]) (simp add: put_defs)
  ultimately show "?P w'"
    using assms same by (auto simp: schedule_timeout_def Let_def split: option.splits prod.splits if_splits)
  show "e \<in> {E0, ETIMEDOUT, ESTOP}" "abstime = None \<longrightarrow> e = E0"
    using assms by (auto simp: schedule_timeout_def Let_def split: option.splits prod.splits if_splits)
qed

section \<open>Blocking\<close>

lemma meta_tid_outside [simp]: "meta_tid (w\<lparr>outside := x\<rparr>) = meta_tid w"
  by (rule meta_tid_cong) simp

lemma running_ok_cong:
  assumes "running_ok X g tg cur m w" and "groups w' = groups w" and "meta_tid w' = meta_tid w"
    and "tls_task_group (cur_tls w') = tls_task_group (cur_tls w)" and "metas w' cur = Some m'"
  shows "running_ok X g tg cur m' w'"
proof -
  have "tm_tid m' = tm_tid m"
    using assms(1,3,5) meta_tid_Some [of w' cur m'] meta_tid_Some [of w cur m] by (simp add: running_ok_def)
  then show ?thesis using assms queued_cong [OF assms(2)] by (simp add: running_ok_def live_task_def)
qed

text \<open>A bthread calls \<open>butex_wait\<close>; on errors it goes on and the waiter is in no list.\<close>

lemma butex_wait_begin_spec:
  assumes "ext_queues_ok X" and "naps_ok X" and "butexes_ok w" and "running_ok X g tg cur m w" and "tm_tid m \<noteq> 0"
    and "\<not> is_current_pthread_task X tg (Some m)" and "waiter_free i w"
    and "butex_wait_begin X b expected abstime i w = Some (r, w')"
  shows "tasks X w' = tasks X w \<and> meta_tid w' = meta_tid w \<and> mains w' = mains w \<and> butexes_ok w'
    \<and> tls_task_group (cur_tls w') = tls_task_group (cur_tls w)
    \<and> (case r of
         Inl rc \<Rightarrow> rc = -1 \<and> groups w' = groups w \<and> butexes w' = butexes w
           \<and> tls_errno (cur_tls w') \<in> (if map_option bx_value (butex_at w b) \<noteq> Some expected then {EWOULDBLOCK}
                else if abstime = None then {} else {ETIMEDOUT, ESTOP})
       | Inr (jumped, d) \<Rightarrow> d = g \<and> map_option bx_value (butex_at w b) = Some expected)"
proof -
  obtain bx where bx: "butex_at w b = Some bx" using assms(8) by (auto simp: butex_wait_begin_def bind_Some_conv)
  note run = assms(4) [unfolded running_ok_def]
  show ?thesis
  proof (cases "bx_value bx = expected")
    case False
    then have res: "r = Inl (-1)" "w' = set_errno EWOULDBLOCK w" using assms(8) bx by (simp_all add: butex_wait_begin_def)
    have "switches X {#} {#} w w'"
      unfolding res(2) using meta_tid_cong [of "set_errno EWOULDBLOCK w" w] by (intro switches_cong) simp_all
    then show ?thesis using False bx res assms(3) by (simp add: switches_def)
  next
    case True
    let ?bw = "new_bthread_waiter (tm_tid m) cur expected b"
    let ?w0 = "put_waiter i ?bw w"
    obtain e w1 where st: "schedule_timeout X i abstime ?w0 = Some (e, w1)"
      and rest: "(if e \<noteq> E0 then Some (Inl (-1), set_errno e w1)
         else do { w2 \<leftarrow> set_remained g (WaitForButex i) (put_meta cur (m\<lparr>tm_current_waiter := Some i\<rparr>) w1);
                   (jumped, g', w3) \<leftarrow> sched X g w2; Some (Inr (jumped, g'), w3) }) = Some (r, w')"
      using assms(6,8) bx True run by (auto simp: butex_wait_begin_def bind_Some_conv)
    have at0: "waiters ?w0 i = Some ?bw" by simp
    obtain k x where w1: "w1 = (put_waiter i (?bw\<lparr>w_sleep_id := k\<rparr>) ?w0)\<lparr>outside := x\<rparr>"
      using schedule_timeout_result(1) [OF st at0] by blast
    define v where "v = put_waiter i (?bw\<lparr>w_sleep_id := k\<rparr>) w"
    have w1v: "w1 = v\<lparr>outside := x\<rparr>" by (simp add: w1 v_def put_defs)
    have v: "tasks X v = tasks X w" "butexes_ok v" "meta_tid v = meta_tid w" "mains v = mains w"
      using fresh_waiter [OF assms(3,7), where bw = "?bw\<lparr>w_sleep_id := k\<rparr>"] by (simp_all add: v_def new_bthread_waiter_def)
    have mt1: "meta_tid w1 = meta_tid w" using v(3) by (simp add: w1v)
    have sw1: "switches X {#} {#} v w1" by (rule switches_cong) (simp_all add: w1v mt1 v(3))
    show ?thesis
    proof (cases "e = E0")
      case False
      then have res: "r = Inl (-1)" "w' = set_errno e w1" using rest by simp_all
      have "switches X {#} {#} w1 w'"
        unfolding res(2) using meta_tid_cong [of "set_errno e w1" w1] by (intro switches_cong) simp_all
      then have "switches X {#} {#} v w'" using switches_trans_0(1) [OF sw1] by blast
      moreover have "e \<in> {ETIMEDOUT, ESTOP}" "abstime \<noteq> None" using schedule_timeout_result(2,3) [OF st at0] False by auto
      ultimately show ?thesis using v True bx res by (auto simp: switches_def w1v v_def)
    next
      case e0: True
      let ?m = "m\<lparr>tm_current_waiter := Some i\<rparr>"
      let ?u = "put_meta cur ?m w1"
      obtain w2 jumped d where w2: "set_remained g (WaitForButex i) ?u = Some w2" and sc: "sched X g w2 = Some (jumped, d, w')"
        and r: "r = Inr (jumped, d)"
        using rest e0 by (auto simp: bind_Some_conv)
      have cur: "metas w1 cur = Some m" using run by (simp add: w1v v_def)
      have mtu: "meta_tid ?u = meta_tid w" using meta_tid_put_meta [of w1 cur ?m] meta_tid_Some [OF cur] mt1 by simp
      have su: "switches X {#} {#} w1 ?u" by (rule switches_cong) (simp_all add: mtu mt1)
      have rk: "running_ok X g tg cur ?m ?u" by (rule running_ok_cong [OF assms(4) _ mtu]) (simp_all add: w1v v_def)
      have "waiter_tid ?u i = tm_tid m" "detached i ?u"
        by (simp_all add: waiter_tid_def detached_def w1v v_def new_bthread_waiter_def)
      then have "switches X {#} {#} ?u w' \<and> d = g"
        using assms(5) by (intro block_switches [OF assms(1,2) rk _ _ w2 sc]) (simp_all add: remained_tids_def remained_ok_def)
      then have "switches X {#} {#} v w'" and d: "d = g" using switches_trans_0(1) sw1 su by blast+
      then show ?thesis using v True bx r by (simp add: switches_def v_def)
    qed
  qed
qed



section \<open>Going on\<close>

text \<open>
  What the waiting bthread relies on while it spins: its waiter, which is in no list any more, keeps its state, and an interruption
  is not taken back.
\<close>

definition waiter_kept :: "wid \<Rightarrow> ('q, 'r, 'x) world \<Rightarrow> ('q, 'r, 'x) world \<Rightarrow> bool" where
  "waiter_kept i w w' \<longleftrightarrow>
     (\<forall>bw. waiters w i = Some bw \<and> w_container bw = None \<longrightarrow>
        (\<exists>bw'. waiters w' i = Some bw' \<and> w_container bw' = None \<and> w_state bw' = w_state bw
           \<and> w_task_meta bw' = w_task_meta bw))
   \<and> (\<forall>s m. metas w s = Some m \<longrightarrow> (\<exists>m'. metas w' s = Some m' \<and> (tm_interrupted m \<longrightarrow> tm_interrupted m')))"

definition spins_ok :: "('q, 'r, 'x) ext \<Rightarrow> bool" where
  "spins_ok X \<longleftrightarrow> (\<forall>i w. waiter_kept i w (spin X w))"

lemma waiter_kept_refl [simp, intro]: "waiter_kept i w w"
  by (simp add: waiter_kept_def)

lemma waiter_kept_trans:
  assumes "waiter_kept i u v" and "waiter_kept i v w"
  shows "waiter_kept i u w"
proof -
  have "\<exists>c. waiters w i = Some c \<and> w_container c = None \<and> w_state c = w_state a \<and> w_task_meta c = w_task_meta a"
    if a: "waiters u i = Some a" "w_container a = None" for a
  proof -
    obtain b where b: "waiters v i = Some b" "w_container b = None" "w_state b = w_state a" "w_task_meta b = w_task_meta a"
      using assms(1) a unfolding waiter_kept_def by blast
    then obtain c where "waiters w i = Some c" "w_container c = None" "w_state c = w_state b" "w_task_meta c = w_task_meta b"
      using assms(2) unfolding waiter_kept_def by blast
    then show ?thesis using b by simp
  qed
  moreover have "\<exists>c. metas w s = Some c \<and> (tm_interrupted a \<longrightarrow> tm_interrupted c)" if "metas u s = Some a" for s a
    using assms that unfolding waiter_kept_def by blast
  ultimately show ?thesis unfolding waiter_kept_def by blast
qed

lemma waiter_kept_unsleep: "unsleep_if_necessary X i w = Some (rc, w') \<Longrightarrow> waiter_kept i w w'"
  by (cases rule: unsleep_cases) (auto simp: waiter_kept_def)

lemma waiter_kept_unsleep_loop:
  assumes "spins_ok X" and "unsleep_loop X i w = Some w'"
  shows "waiter_kept i w w'"
proof -
  have "X' = X \<longrightarrow> waiter_kept j v v'" if "unsleep_loop X' j v = Some v'" for X' j v v'
  proof (rule unsleep_loop.raw_induct [OF _ that], goal_cases)
    case (1 rec X' j v v')
    then obtain rc v1 where un: "unsleep_if_necessary X' j v = Some (rc, v1)"
      and rest: "(if rc < 0 then rec X' j (spin X' v1) else Some v1) = Some v'" by (auto simp: bind_Some_conv)
    note k = waiter_kept_unsleep [OF un]
    show ?case
    proof
      assume X: "X' = X"
      have "waiter_kept j v1 (spin X' v1)" using assms(1) X by (simp add: spins_ok_def)
      then show "waiter_kept j v v'"
        using rest k 1(1) [of X' j "spin X' v1" v'] X waiter_kept_trans by (cases "rc < 0") (auto, blast)
    qed
  qed
  then show ?thesis using assms(2) by blast
qed

lemma waiter_kept_take:
  assumes "spins_ok X" and "take_current_waiter X s w = Some w'"
  shows "waiter_kept i w w' \<and> (\<exists>m. metas w' s = Some m \<and> tm_current_waiter m = None)"
proof -
  have "X' = X \<longrightarrow> waiter_kept i v v' \<and> (\<exists>m. metas v' s = Some m \<and> tm_current_waiter m = None)"
    if "take_current_waiter X' s v = Some v'" for X' s v v'
  proof (rule take_current_waiter.raw_induct [OF _ that], goal_cases)
    case (1 rec X' s v v')
    then obtain m where m: "metas v s = Some m" by (auto simp: bind_Some_conv)
    let ?v = "put_meta s (m\<lparr>tm_current_waiter := None\<rparr>) v"
    have k: "waiter_kept i v ?v" using m by (simp add: waiter_kept_def)
    have rest: "(if tm_current_waiter m = None then rec X' s (spin X' ?v) else Some ?v) = Some v'"
      using 1(2) m by (simp add: Let_def split: option.splits)
    show ?case
    proof
      assume X: "X' = X"
      have "waiter_kept i ?v (spin X' ?v)" using assms(1) X by (simp add: spins_ok_def)
      then have "waiter_kept i v (spin X' ?v)" by (rule waiter_kept_trans [OF k])
      then show "waiter_kept i v v' \<and> (\<exists>m. metas v' s = Some m \<and> tm_current_waiter m = None)"
        using rest k 1(1) [of X' s "spin X' ?v" v'] X waiter_kept_trans [of i v "spin X' ?v" v']
        by (cases "tm_current_waiter m = None") auto
    qed
  qed
  then show ?thesis using assms(2) by blast
qed



section \<open>A deadline that is not reported\<close>

lemma erase_loop_state:
  assumes "erase_loop X i st w = Some (True, w')"
  shows "\<exists>bw. waiters w' i = Some bw \<and> w_container bw = None \<and> (w_tid bw \<noteq> 0 \<longrightarrow> w_state bw = st)"
proof -
  let ?P = "\<lambda>j st' r. fst r \<longrightarrow> (\<exists>bw. waiters (snd r) j = Some bw \<and> w_container bw = None
      \<and> (w_tid bw \<noteq> 0 \<longrightarrow> w_state bw = st'))"
  have "?P j st' r" if "erase_loop X' j st' v = Some r" for X' j st' v r
  proof (rule erase_loop.raw_induct [OF _ that, where P = "\<lambda>X' j st' v r. ?P j st' r"], goal_cases)
    case (1 rec X' j st' v r)
    obtain bw where bw: "waiters v j = Some bw" using 1(2) by (auto simp: bind_Some_conv)
    show ?case
    proof (cases "w_container bw")
      case None
      then show ?thesis using 1(2) bw by auto
    next
      case (Some b)
      obtain bw1 where bw1: "waiters (grab X' b v) j = Some bw1" using 1(2) bw Some by (auto simp: bind_Some_conv Let_def)
      show ?thesis
      proof (cases "w_container bw1 = Some b")
        case True
        then show ?thesis using 1(2) bw Some bw1 by (auto simp: bind_Some_conv Let_def)
      next
        case False
        then have "rec X' j st' (grab X' b v) = Some r" using 1(2) bw Some bw1 by (simp add: bind_Some_conv Let_def)
        then show ?thesis by (rule 1(1))
      qed
    qed
  qed
  from this [OF assms] show ?thesis by simp
qed

text \<open>
  The callback of the timer erases the waiter with the state \<open>WAITER_STATE_INTERRUPTED\<close>, not with
  \<open>WAITER_STATE_TIMEOUT\<close>: a bthread whose deadline passes and that nobody interrupts is told that it was woken.
\<close>

lemma timed_out_wait_returns_0:
  assumes "erase_loop X i WAITER_STATE_INTERRUPTED w = Some (True, u)" and "waiters u i = Some bw" and "w_tid bw \<noteq> 0"
    and "waiters v i = Some bw'" and "w_state bw' = w_state bw" and "w_sleep_id bw' = 0"
    and "metas v (w_task_meta bw') = Some m" and "tm_current_waiter m \<noteq> None" and "\<not> tm_interrupted m"
  shows "\<exists>v'. butex_wait_end X i v = Some (0, v')"
proof -
  have "w_state bw' = WAITER_STATE_INTERRUPTED" using erase_loop_state [OF assms(1)] assms(2,3,5) by auto
  then show ?thesis using assms(4,6-9)
    by (auto simp: butex_wait_end_def unsleep_loop.simps unsleep_if_necessary_def take_current_waiter.simps Let_def)
qed

end
