(* ===== verification/Workers.thy ===== *)
theory Workers
  imports Wait
begin

text \<open>
  The life cycle of workers: construction and destruction of a TaskGroup and its main task (\<open>task_group.cpp\<close>), the
  function of the worker pthreads, start and stop of a TaskControl (\<open>task_control.cpp\<close>).
\<close>

section \<open>Groups\<close>

text \<open>
  The constructor, on the memory \<open>raw\<close> that \<open>new\<close> found: the members it does not name (\<open>_control\<close>, \<open>_main_stack\<close> and the
  queues, which have constructors of their own) keep what is there.
\<close>

definition construct_group ::
  "('q, 'r, 'x) ext \<Rightarrow> ('q, 'r) task_group \<Rightarrow> ('q, 'r, 'x) world
   \<Rightarrow> (('q, 'r) task_group \<times> ('q, 'r, 'x) world) option" where
  "construct_group X raw w =
     do {
       let (x1, now) = cpuwide_time_ns X (outside w);
       let (x2, seed) = fast_rand X x1;
       offset \<leftarrow> nth_opt (offset_table X) (unat seed mod length (offset_table X));
       Some (raw\<lparr>tg_sched_recursive_guard := 0, tg_cur_meta := None, tg_num_nosignal := 0, tg_nsignaled := 0,
               tg_last_run_ns := now, tg_cumulated_cputime_ns := 0, tg_nswitch := 0,
               tg_last_context_remained := None, tg_pl := own_lot X w, tg_last_pl_state := 0, tg_steal_seed := seed,
               tg_steal_offset := offset, tg_main_tid := 0, tg_remote_num_nosignal := 0,
               tg_remote_nsignaled := 0\<rparr>,
             w\<lparr>outside := x2\<rparr>)
     }"

definition destruct_group ::
  "('q, 'r, 'x) ext \<Rightarrow> gid \<Rightarrow> ('q, 'r, 'x) world \<Rightarrow> ('q, 'r, 'x) world option" where
  "destruct_group X g w =
     do {
       tg \<leftarrow> group_at w g;
       (if tg_main_tid tg \<noteq> 0 then do {
          let s = get_slot (tg_main_tid tg);
          m \<leftarrow> address_meta w (tg_main_tid tg);
          let w1 = (if tm_stack m = Some (tg_main_stack tg) then w else log_fatal CheckStack w);
          let w2 = put_meta s (m\<lparr>tm_stack := None\<rparr>) (w1\<lparr>outside := return_stack X (outside w1) (tm_stack m)\<rparr>);
          Some (put_group g (tg\<lparr>tg_main_tid := 0\<rparr>) (w2\<lparr>outside := return_meta X (outside w2) s\<rparr>))
        }
        else Some w)
     }"

text \<open>
  \<open>delete g\<close>: the destructor, after which the memory is free.  Its record stays in the table, since indices are
  not used again; it points to no TaskMeta any more.
\<close>

definition delete_task_group ::
  "('q, 'r, 'x) ext \<Rightarrow> gid \<Rightarrow> ('q, 'r, 'x) world \<Rightarrow> ('q, 'r, 'x) world option" where
  "delete_task_group X g w =
     do {
       w1 \<leftarrow> destruct_group X g w;
       tg \<leftarrow> group_at w1 g;
       Some (put_group g (tg\<lparr>tg_cur_meta := None\<rparr>) w1)
     }"

text \<open>The main task: the TaskMeta of slot \<open>s\<close> on the stack \<open>stk\<close> of the pthread.\<close>

definition init_main_meta ::
  "('q, 'r, 'x) ext \<Rightarrow> slot \<Rightarrow> stackp \<Rightarrow> ('q, 'r, 'x) world \<Rightarrow> (bthread_t \<times> ('q, 'r, 'x) world) option" where
  "init_main_meta X s stk w =
     do {
       m \<leftarrow> metas w s;
       v \<leftarrow> version_of w m;
       let (x, now) = cpuwide_time_ns X (outside w);
       let tid = make_tid v s;
       Some (tid, put_meta s (m\<lparr>tm_stop := False, tm_interrupted := False, tm_about_to_quit := False,
                    tm_fn := None, tm_arg := 0, tm_local_storage := local_storage_init X, tm_cpuwide_start_ns := now,
                    tm_stat := EMPTY_STAT, tm_attr := attr_taskgroup X, tm_tid := tid, tm_stack := Some stk\<rparr>)
               (w\<lparr>outside := x\<rparr>))
     }"

definition init_group ::
  "('q, 'r, 'x) ext \<Rightarrow> nat \<Rightarrow> gid \<Rightarrow> ('q, 'r, 'x) world \<Rightarrow> (int \<times> ('q, 'r, 'x) world) option" where
  "init_group X runqueue_capacity g w =
     do {
       tg \<leftarrow> group_at w g;
       (case wsq_init X (tg_rq tg) runqueue_capacity of
          (q, False) \<Rightarrow> Some (-1, log_fatal FatalInitRq (put_group g (tg\<lparr>tg_rq := q\<rparr>) w))
        | (q, True) \<Rightarrow>
            (case rrq_init X (tg_remote_rq tg) (runqueue_capacity div 2) of
               (r, False) \<Rightarrow>
                 Some (-1, log_fatal FatalInitRemoteRq (put_group g (tg\<lparr>tg_rq := q, tg_remote_rq := r\<rparr>) w))
             | (r, True) \<Rightarrow>
                 let w1 = put_group g (tg\<lparr>tg_rq := q, tg_remote_rq := r\<rparr>) w in
                 (case get_stack X (outside w1) STACK_TYPE_MAIN of
                    (x, None) \<Rightarrow> Some (-1, log_fatal FatalMainStack (w1\<lparr>outside := x\<rparr>))
                  | (x, Some stk) \<Rightarrow>
                      (case get_meta X (w1\<lparr>outside := x\<rparr>) of
                         (w2, None) \<Rightarrow> Some (-1, log_fatal FatalGetMeta w2)
                       | (w2, Some s) \<Rightarrow> do {
                           (tid, w3) \<leftarrow> init_main_meta X s stk w2;
                           tg3 \<leftarrow> group_at w3 g;
                           let (x4, now) = cpuwide_time_ns X (outside w3);
                           Some (0, put_group g (tg3\<lparr>tg_cur_meta := Some s, tg_main_tid := tid, tg_main_stack := stk,
                                      tg_last_run_ns := now\<rparr>) (w3\<lparr>outside := x4\<rparr>))
                         }))))
     }"

section \<open>Workers\<close>

definition task_group_runqueue_capacity :: nat where
  "task_group_runqueue_capacity = 4096"

definition create_group ::
  "('q, 'r, 'x) ext \<Rightarrow> ('q, 'r, 'x) world \<Rightarrow> (gid option \<times> ('q, 'r, 'x) world) option" where
  "create_group X w =
     (case new_task_group X (outside w) of
        (x, None) \<Rightarrow> Some (None, log_fatal FatalNewTaskGroup (w\<lparr>outside := x\<rparr>))
      | (x, Some raw) \<Rightarrow> do {
          (tg, w1) \<leftarrow> construct_group X raw (w\<lparr>outside := x\<rparr>);
          let g = length (groups w1);
          (rc, w2) \<leftarrow> init_group X task_group_runqueue_capacity g (w1\<lparr>groups := groups w1 @ [tg]\<rparr>);
          (if rc \<noteq> 0 then do { w3 \<leftarrow> delete_task_group X g w2; Some (None, w3) }
           else
             let (rc2, w3) = add_group X (Some g) w2 in
             (if rc2 \<noteq> 0 then do { w4 \<leftarrow> delete_task_group X g w3; Some (None, w4) }
              else Some (Some g, w3)))
        })"

text \<open>\<open>run_worker_startfn\<close>: the function takes no argument.\<close>

definition run_worker_startfn :: "('q, 'r, 'x) ext \<Rightarrow> ('q, 'r, 'x) world \<Rightarrow> ('q, 'r, 'x) world" where
  "run_worker_startfn X w = (case g_worker_startfn w of None \<Rightarrow> w | Some f \<Rightarrow> user_call X f 0 w)"

text \<open>
  The function of a worker pthread up to the call of \<open>run_main_task\<close>; None: there is no group and the pthread ends.
\<close>

definition worker_begin ::
  "('q, 'r, 'x) ext \<Rightarrow> ('q, 'r, 'x) world \<Rightarrow> (gid option \<times> ('q, 'r, 'x) world) option" where
  "worker_begin X w =
     do {
       (r, w1) \<leftarrow> create_group X (run_worker_startfn X w);
       Some (r, case r of None \<Rightarrow> w1 | Some g \<Rightarrow> w1\<lparr>cur_tls := (cur_tls w1)\<lparr>tls_task_group := Some g\<rparr>\<rparr>)
     }"

text \<open>
  \<open>run_main_task\<close> in three parts: until it switches to a task or ends (None: the lot is stopped), from the return of
  \<open>sched_to\<close> to the next round, and after the loop.
\<close>

definition main_task_enter ::
  "('q, 'r, 'x) ext \<Rightarrow> gid \<Rightarrow> ('q, 'r, 'x) world
   \<Rightarrow> ((bthread_t \<times> bool \<times> gid) option \<times> ('q, 'r, 'x) world) option" where
  "main_task_enter X g w =
     do {
       (t, w1) \<leftarrow> wait_task X g w;
       (case t of
          None \<Rightarrow> Some (None, w1)
        | Some tid \<Rightarrow> do { (jumped, dummy, w2) \<leftarrow> sched_to X g tid w1; Some (Some (tid, jumped, dummy), w2) })
     }"

definition main_task_resumed ::
  "('q, 'r, 'x) ext \<Rightarrow> gid \<Rightarrow> gid \<Rightarrow> ('q, 'r, 'x) world \<Rightarrow> (bool \<times> ('q, 'r, 'x) world) option" where
  "main_task_resumed X g dummy w =
     do {
       let w1 = (if dummy = g then w else log_fatal CheckSameGroup w);
       tg \<leftarrow> group_at w1 g;
       cur \<leftarrow> tg_cur_meta tg;
       m \<leftarrow> metas w1 cur;
       let w2 = (if tm_stack m = Some (tg_main_stack tg) then w1 else log_fatal CheckMainStack w1);
       (if tm_tid m \<noteq> tg_main_tid tg
        then do { (jumped, g', w3) \<leftarrow> task_runner X True w2; Some (jumped, w3) }
        else Some (False, w2))
     }"

definition main_task_stopped ::
  "('q, 'r, 'x) ext \<Rightarrow> gid \<Rightarrow> ('q, 'r, 'x) world \<Rightarrow> ('q, 'r, 'x) world option" where
  "main_task_stopped X g w =
     do {
       tg \<leftarrow> group_at w g;
       cur \<leftarrow> tg_cur_meta tg;
       m \<leftarrow> metas w cur;
       let (x, now) = cpuwide_time_ns X (outside w);
       Some (put_meta cur (m\<lparr>tm_stat := (tm_stat m)\<lparr>cputime_ns := cputime_ns (tm_stat m) + (now - tg_last_run_ns tg)\<rparr>\<rparr>)
               (w\<lparr>outside := x\<rparr>))
     }"

definition destroy_self ::
  "('q, 'r, 'x) ext \<Rightarrow> gid \<Rightarrow> ('q, 'r, 'x) world \<Rightarrow> ('q, 'r, 'x) world option" where
  "destroy_self X g w =
     do {
       tg \<leftarrow> group_at w g;
       (if tg_has_control tg then do {
          (rc, w1) \<leftarrow> delete_group X (Some g) w;
          tg1 \<leftarrow> group_at w1 g;
          Some (put_group g (tg1\<lparr>tg_has_control := False\<rparr>) w1)
        }
        else Some (log_fatal CheckDestroy w))
     }"

text \<open>The end of a worker, when \<open>run_main_task\<close> has returned; the log of the statistics is left out.\<close>

definition worker_end ::
  "('q, 'r, 'x) ext \<Rightarrow> gid \<Rightarrow> ('q, 'r, 'x) world \<Rightarrow> ('q, 'r, 'x) world option" where
  "worker_end X g w = destroy_self X g (w\<lparr>cur_tls := (cur_tls w)\<lparr>tls_task_group := None\<rparr>\<rparr>)"

section \<open>Start and stop\<close>

text \<open>The TaskControl that the constructor makes.\<close>

definition fresh_control :: "('q, 'r, 'x) ext \<Rightarrow> task_control" where
  "fresh_control X = \<lparr>tc_ngroup = 0, tc_groups = replicate (max_concurrency X) None, tc_stop = False,
     tc_concurrency = 0, tc_workers = [], tc_nbthreads = 0, tc_pending_time = None, tc_pl = replicate PARKING_LOT_NUM 0\<rparr>"

text \<open>The loop of \<open>init\<close> that creates the workers \<open>i\<close>, \<open>i + 1\<close>, \dots: False when \<open>pthread_create\<close> failed.\<close>

function start_workers ::
  "('q, 'r, 'x) ext \<Rightarrow> nat \<Rightarrow> nat \<Rightarrow> ('q, 'r, 'x) world \<Rightarrow> bool \<times> ('q, 'r, 'x) world" where
  "start_workers X n i w =
     (if i < n then
        (case new_pthread X (outside w) of
           (x, None) \<Rightarrow> (False, w\<lparr>outside := x\<rparr>)
         | (x, Some p) \<Rightarrow>
             start_workers X n (i + 1)
               (upd_control (\<lambda>c. c\<lparr>tc_workers := (tc_workers c)[i := p]\<rparr>) (w\<lparr>outside := x\<rparr>)))
      else (True, w))"
  by pat_completeness auto
termination by (relation "measure (\<lambda>(X, n, i, w). n - i)") auto

declare start_workers.simps [simp del]

text \<open>The loop that waits until a worker has added its group.\<close>

partial_function (option) wait_for_group ::
  "('q, 'r, 'x) ext \<Rightarrow> ('q, 'r, 'x) world \<Rightarrow> ('q, 'r, 'x) world option" where
  "wait_for_group X w = (if tc_ngroup (control w) = 0 then wait_for_group X (spin X w) else Some w)"

definition init_control ::
  "('q, 'r, 'x) ext \<Rightarrow> int \<Rightarrow> ('q, 'r, 'x) world \<Rightarrow> (int \<times> ('q, 'r, 'x) world) option" where
  "init_control X concurrency w =
     (if tc_concurrency (control w) \<noteq> 0 then Some (-1, w)
      else if concurrency \<le> 0 then Some (-1, w)
      else
        let w1 = upd_control (\<lambda>c. c\<lparr>tc_concurrency := concurrency\<rparr>) w;
            (x, ready) = create_timer_thread X (outside w1);
            w2 = w1\<lparr>outside := x\<rparr>
        in (if \<not> ready then Some (-1, w2)
            else
              let w3 = upd_control (\<lambda>c. c\<lparr>tc_workers := vec_resize (nat concurrency) (tc_workers c)\<rparr>) w2 in
              (case start_workers X (nat concurrency) 0 w3 of
                 (False, w4) \<Rightarrow> Some (-1, w4)
               | (True, w4) \<Rightarrow> do { w5 \<leftarrow> wait_for_group X w4; Some (0, w5) })))"

text \<open>\<open>stop_and_join\<close> up to the interruption of the workers, and the whole of it.\<close>

definition stop_workers :: "('q, 'r, 'x) ext \<Rightarrow> ('q, 'r, 'x) world \<Rightarrow> ('q, 'r, 'x) world" where
  "stop_workers X w =
     fold (pl_stop X) [0..<PARKING_LOT_NUM] (upd_control (\<lambda>c. c\<lparr>tc_stop := True, tc_ngroup := 0\<rparr>) w)"

definition stop_and_join :: "('q, 'r, 'x) ext \<Rightarrow> ('q, 'r, 'x) world \<Rightarrow> ('q, 'r, 'x) world" where
  "stop_and_join X w =
     (let (x, rc) = stop_and_join_epoll_threads X (outside w);
          w1 = w\<lparr>outside := x\<rparr>;
          w2 = stop_workers X (if rc = 0 then w1 else log_fatal CheckEpollStopped w1);
          w3 = fold (\<lambda>p w. w\<lparr>outside := interrupt_pthread X (outside w) p\<rparr>) (tc_workers (control w2)) w2
      in fold (pthread_join X) (tc_workers (control w3)) w3)"

text \<open>The destructor of a TaskControl; its statistics variables are left out.\<close>

definition destroy_control :: "('q, 'r, 'x) ext \<Rightarrow> ('q, 'r, 'x) world \<Rightarrow> ('q, 'r, 'x) world" where
  "destroy_control X w = upd_control (\<lambda>c. c\<lparr>tc_groups := []\<rparr>) (stop_and_join X w)"

section \<open>Stopping\<close>

text \<open>Stopping lots touches the lots and the outside only.\<close>

lemma pl_stop_control_frame: "control_frame w (pl_stop X i w)"
  by (simp add: pl_stop_def Let_def split: prod.split)

lemma pl_stop_value: "j < length (tc_pl (control w)) \<Longrightarrow>
    pl_value (pl_stop X i w) j = (if i = j then pl_stop_value (pl_value w j) else pl_value w j)"
  by (simp add: pl_stop_def Let_def pl_value_def set_pl_def split: prod.split)

lemma stop_lots:
  assumes "distinct ls" and "set ls \<subseteq> {..<length (tc_pl (control w))}"
  shows "control_frame w (fold (pl_stop X) ls w)"
    and "j < length (tc_pl (control w)) \<Longrightarrow> pl_value (fold (pl_stop X) ls w) j =
      (if j \<in> set ls then pl_stop_value (pl_value w j) else pl_value w j)"
  using assms
proof (induction ls arbitrary: w)
  case (Cons i ls)
  have len: "length (tc_pl (control (pl_stop X i v))) = length (tc_pl (control v))" for v
    using pl_stop_control_frame [of v X i] by (simp add: control_frame_def)
  { case 1
    then have "control_frame (pl_stop X i w) (fold (pl_stop X) ls (pl_stop X i w))"
      using Cons.IH(1) [of "pl_stop X i w"] len by simp
    then show ?case using control_frame_trans [OF pl_stop_control_frame] by simp blast
  next
    case 2
    then show ?case using Cons.IH(2) [of "pl_stop X i w"] len pl_stop_value [of j w X i] by auto
  }
qed simp_all

lemma stop_workers_spec:
  assumes "length (tc_pl (control w)) = PARKING_LOT_NUM"
  shows "control_frame (w\<lparr>control := (control w)\<lparr>tc_stop := True, tc_ngroup := 0\<rparr>\<rparr>) (stop_workers X w)"
    and "i < PARKING_LOT_NUM \<Longrightarrow> pl_value (stop_workers X w) i = pl_stop_value (pl_value w i)"
proof -
  let ?w = "w\<lparr>control := (control w)\<lparr>tc_stop := True, tc_ngroup := 0\<rparr>\<rparr>"
  have s: "distinct [0..<PARKING_LOT_NUM]" "set [0..<PARKING_LOT_NUM] \<subseteq> {..<length (tc_pl (control ?w))}"
    using assms by auto
  show "control_frame ?w (stop_workers X w)" unfolding stop_workers_def by (rule stop_lots(1) [OF s])
  show "pl_value (stop_workers X w) i = pl_stop_value (pl_value w i)" if "i < PARKING_LOT_NUM"
    using stop_lots(2) [OF s, of i X] that assms by (simp add: stop_workers_def pl_value_def)
qed

lemma control_frame_switches: "control_frame w w' \<Longrightarrow> switches X {#} {#} w w'"
  using meta_tid_cong [of w' w] by (intro switches_cong) (auto simp: control_frame_def)

text \<open>\<open>futex_wait\<close> returns at once when the value is not the expected one.\<close>

definition pl_wait_returns :: "('q, 'r, 'x) ext \<Rightarrow> bool" where
  "pl_wait_returns X \<longleftrightarrow> (\<forall>i v w. \<not> pl_would_sleep v (pl_value w i) \<longrightarrow> pl_wait X i v w = w)"

text \<open>
  C35.  After \<open>stop_and_join\<close> has stopped the workers no group can be added and nothing can be stolen from the others,
  and a worker that has no remote task leaves its main loop: whatever state of its lot it saw last, \<open>wait_task\<close>
  returns without a task.  No bthread is lost by that: those that are left in the queues stay there.
\<close>

theorem stopped_worker_quits:
  assumes "ext_queues_ok X" and "pl_wait_returns X" and "length (tc_pl (control w)) = PARKING_LOT_NUM"
    and "group_at w g = Some tg" and "tg_pl tg < PARKING_LOT_NUM" and "rrq_items X (tg_remote_rq tg) = []"
    and "u = stop_workers X w"
  shows "add_group X h u = (-1, u) \<and> control_steal_task X seed off u = Some (None, seed, u)
    \<and> (\<exists>w'. wait_task X g u = Some (None, w') \<and> tasks X w' = tasks X w)"
proof -
  note frame = stop_workers_spec(1) [OF assms(3), of X, folded assms(7)]
  have u: "groups u = groups w" "tc_stop (control u)" "tc_ngroup (control u) = 0"
    using frame by (simp_all add: control_frame_def)
  have st: "pl_stopped (pl_value u (tg_pl tg))" using stop_workers_spec(2) [OF assms(3,5)] assms(7) by simp
  have tu: "tasks X u = tasks X w"
    using control_frame_switches [OF frame, of X] tasks_cong [of "w\<lparr>control := c\<rparr>" w X for c]
    by (simp add: switches_def meta_tid_def waiter_tid_def fun_eq_iff)
  have tg: "group_at u g = Some tg" using assms(4) u(1) by simp
  have none: "add_group X h u = (-1, u)" "control_steal_task X s o' v = Some (None, s, v)"
    if "tc_ngroup (control v) = 0" for s o' and v :: "('a, 'b, 'c) world"
    using u(2) that by (auto simp: add_group_def control_steal_task_def split: option.split)
  have "\<exists>w'. wait_task X g u = Some (None, w') \<and> tasks X w' = tasks X u"
  proof (cases "pl_stopped (tg_last_pl_state tg)")
    case True
    then show ?thesis using tg by (simp add: wait_task.simps)
  next
    case False
    then have "pl_wait X (tg_pl tg) (tg_last_pl_state tg) u = u"
      using assms(2) st unfolding pl_wait_returns_def pl_would_sleep_def by metis
    moreover obtain r a where pop: "rrq_pop X (tg_remote_rq tg) = (r, a)" by fastforce
    moreover have "a = None" and items: "rrq_items X r = []"
      using ext_queues_take(3) [OF assms(1) pop] assms(6) by (cases a; simp)+
    moreover define tg' where "tg' = tg\<lparr>tg_remote_rq := r, tg_last_pl_state := pl_value u (tg_pl tg)\<rparr>"
    ultimately have gs: "group_steal_task X g u =
        Some (None, put_group g (tg'\<lparr>tg_steal_seed := tg_steal_seed tg\<rparr>) (put_group g tg' u))"
      using tg none(2) [of "put_group g tg' u"] u(3)
      by (simp add: group_steal_task_def tg'_def [symmetric] Let_def) (simp add: tg'_def nth_opt_Some)
    let ?v = "put_group g (tg'\<lparr>tg_steal_seed := tg_steal_seed tg\<rparr>) (put_group g tg' u)"
    have "group_at ?v g = Some (tg'\<lparr>tg_steal_seed := tg_steal_seed tg\<rparr>)"
      using tg by (simp add: nth_opt_Some)
    moreover have "pl_stopped (tg_last_pl_state tg')" using st by (simp add: tg'_def)
    ultimately have "wait_task X g ?v = Some (None, ?v)" by (subst wait_task.simps) simp
    then have "wait_task X g u = Some (None, ?v)"
      using tg False gs \<open>pl_wait X (tg_pl tg) (tg_last_pl_state tg) u = u\<close>
      by (subst wait_task.simps) simp
    moreover have "tasks X ?v = tasks X u"
      using group_steal_task_picks [OF assms(1) gs] by (simp add: picks_def switches_def)
    ultimately show ?thesis by blast
  qed
  then show ?thesis using none [OF u(3)] tu by simp
qed

lemma stopped_worker_quits_witness:
  "\<exists>w'. wait_task demo_ext 0 (stop_workers demo_ext (run_world [make_tid 1 5])) = Some (None, w')
    \<and> tasks demo_ext w' = tasks demo_ext (run_world [make_tid 1 5])"
proof -
  have "group_at (run_world [make_tid 1 5]) 0 = Some (demo_group 3 (make_tid 1 1) [make_tid 1 5] [])"
    and "length (tc_pl (control (run_world [make_tid 1 5]))) = PARKING_LOT_NUM"
    and "pl_wait_returns demo_ext"
    by (simp_all add: run_world_def demo_defs PARKING_LOT_NUM_def pl_wait_returns_def)
  then show ?thesis
    using stopped_worker_quits [OF demo_queues_ok, of "run_world [make_tid 1 5]" 0 _ _ None 0 0]
    by (simp add: demo_defs PARKING_LOT_NUM_def)
qed

section \<open>Starting\<close>

text \<open>
  The loop at the end of \<open>init\<close> returns exactly if a worker adds its group at some time, and then with the first
  world in which there is one.
\<close>

lemma wait_for_group_returns_iff:
  "wait_for_group X w = Some w' \<longleftrightarrow>
     (\<exists>k. w' = (spin X ^^ k) w \<and> tc_ngroup (control w') \<noteq> 0
        \<and> (\<forall>j < k. tc_ngroup (control ((spin X ^^ j) w)) = 0))"
proof
  show "\<exists>k. w' = (spin X ^^ k) w \<and> tc_ngroup (control w') \<noteq> 0
        \<and> (\<forall>j < k. tc_ngroup (control ((spin X ^^ j) w)) = 0)" if "wait_for_group X w = Some w'"
  proof (rule wait_for_group.raw_induct [OF _ that, where P = "\<lambda>X w w'. \<exists>k. w' = (spin X ^^ k) w
      \<and> tc_ngroup (control w') \<noteq> 0 \<and> (\<forall>j < k. tc_ngroup (control ((spin X ^^ j) w)) = 0)"], goal_cases)
    case (1 rec X w w')
    show ?case
    proof (cases "tc_ngroup (control w) = 0")
      case True
      then obtain k where k: "w' = (spin X ^^ k) (spin X w)" "tc_ngroup (control w') \<noteq> 0"
        "\<forall>j < k. tc_ngroup (control ((spin X ^^ j) (spin X w))) = 0"
        using 1(1) [of X "spin X w" w'] 1(2) by auto
      have "tc_ngroup (control ((spin X ^^ j) w)) = 0" if "j < Suc k" for j
        using True k(3) that by (cases j) (auto simp: funpow_swap1)
      then show ?thesis using k(1,2) by (intro exI [of _ "Suc k"]) (simp add: funpow_swap1)
    next
      case False
      then show ?thesis using 1(2) by (intro exI [of _ 0]) simp
    qed
  qed
next
  assume "\<exists>k. w' = (spin X ^^ k) w \<and> tc_ngroup (control w') \<noteq> 0
    \<and> (\<forall>j < k. tc_ngroup (control ((spin X ^^ j) w)) = 0)"
  then obtain k where "w' = (spin X ^^ k) w" "tc_ngroup (control w') \<noteq> 0"
    "\<forall>j < k. tc_ngroup (control ((spin X ^^ j) w)) = 0" by blast
  then show "wait_for_group X w = Some w'"
  proof (induction k arbitrary: w)
    case 0
    then show ?case by (simp add: wait_for_group.simps)
  next
    case (Suc k)
    have "tc_ngroup (control ((spin X ^^ j) (spin X w))) = 0" if "j < k" for j
      using Suc.prems(3) [rule_format, of "Suc j"] that by (simp add: funpow_swap1)
    moreover have "tc_ngroup (control w) = 0" using Suc.prems(3) [rule_format, of 0] by simp
    ultimately show ?case
      using Suc.IH [of "spin X w"] Suc.prems(1,2) by (subst wait_for_group.simps) (simp add: funpow_swap1)
  qed
qed

text \<open>It waits for the first group when the other threads add one, and forever when they do nothing.\<close>

lemma wait_for_group_returns_iff_witness:
  fixes w :: demo_world
  defines "w \<equiv> upd_control (\<lambda>c. c\<lparr>tc_ngroup := 0\<rparr>) (run_world [])"
    and "u \<equiv> upd_control (\<lambda>c. c\<lparr>tc_ngroup := 1\<rparr>) (run_world [])"
  shows "wait_for_group (demo_ext\<lparr>spin := \<lambda>_. u\<rparr>) w = Some u \<and> wait_for_group demo_ext w = None"
proof
  show "wait_for_group (demo_ext\<lparr>spin := \<lambda>_. u\<rparr>) w = Some u"
    unfolding wait_for_group_returns_iff
    by (rule exI [of _ 1]) (simp add: u_def w_def)
  have "spin demo_ext = (\<lambda>w. w)" by (simp add: demo_ext_def)
  moreover have "((\<lambda>w. w) ^^ k) v = v" for k and v :: demo_world by (induction k) auto
  ultimately have "wait_for_group demo_ext w \<noteq> Some v" for v
    unfolding wait_for_group_returns_iff by (auto simp: w_def)
  then show "wait_for_group demo_ext w = None" by auto
qed

lemma wait_for_group_pos: "wait_for_group X w = Some w' \<Longrightarrow> tc_ngroup (control w') \<noteq> 0"
  by (rule wait_for_group.raw_induct [where P = "\<lambda>X w w'. tc_ngroup (control w') \<noteq> 0"])
    (auto split: if_splits)

lemma start_workers_spec:
  assumes "start_workers X n i w = (ok, w')"
  shows "\<exists>k. i \<le> k \<and> (ok \<longrightarrow> n \<le> k) \<and> (\<not> ok \<longrightarrow> k < n)
    \<and> length (tc_workers (control w')) = length (tc_workers (control w))
    \<and> drop k (tc_workers (control w')) = drop k (tc_workers (control w))
    \<and> tc_concurrency (control w') = tc_concurrency (control w)"
  using assms
proof (induction X n i w arbitrary: ok w' rule: start_workers.induct)
  case (1 X n i w)
  show ?case
  proof (cases "i < n")
    case True
    obtain x r where np: "new_pthread X (outside w) = (x, r)" by fastforce
    show ?thesis
    proof (cases r)
      case None
      then show ?thesis using 1(2) True np by (subst (asm) start_workers.simps) auto
    next
      case (Some p)
      let ?w = "upd_control (\<lambda>c. c\<lparr>tc_workers := (tc_workers c)[i := p]\<rparr>) (w\<lparr>outside := x\<rparr>)"
      have "start_workers X n (i + 1) ?w = (ok, w')"
        using 1(2) True np Some by (subst (asm) start_workers.simps) simp
      from 1(1) [OF True np [symmetric, unfolded Some] refl this] obtain k where
        k: "i + 1 \<le> k" "ok \<longrightarrow> n \<le> k" "\<not> ok \<longrightarrow> k < n"
          "length (tc_workers (control w')) = length (tc_workers (control w))"
          "drop k (tc_workers (control w')) = drop k ((tc_workers (control w))[i := p])"
          "tc_concurrency (control w') = tc_concurrency (control w)" by auto
      then show ?thesis by (intro exI [of _ k]) (simp add: drop_update_cancel)
    qed
  next
    case False
    then show ?thesis using 1(2) by (subst (asm) start_workers.simps) auto
  qed
qed

lemma init_control_grouped: "init_control X n w = Some (0, w') \<Longrightarrow> tc_ngroup (control w') \<noteq> 0"
  using wait_for_group_pos by (auto simp: init_control_def Let_def bind_Some_conv
      split: if_splits prod.splits bool.splits)

text \<open>
  C36.  \<open>init\<close> fails with -1 and does nothing when the control is in use already or the number of workers is not
  positive; when it returns 0, a group has been added, so that \<open>choose_one_group\<close> returns one and not NULL.
\<close>

theorem init_control_correct:
  assumes "init_control X n w = Some (rc, w')"
  shows "rc \<in> {0, -1} \<and> (tc_concurrency (control w) \<noteq> 0 \<or> n \<le> 0 \<longrightarrow> rc = -1 \<and> w' = w)
    \<and> (rc = 0 \<longrightarrow> tc_ngroup (control w') \<noteq> 0
        \<and> (groups_ok X w' \<longrightarrow> snd (fast_rand_less_than X (outside w') (tc_ngroup (control w'))) < tc_ngroup (control w')
           \<longrightarrow> (\<exists>g u. choose_one_group X w' = Some (Some g, u) \<and> g < length (groups w'))))"
proof -
  have grp: "tc_ngroup (control w') \<noteq> 0" if "rc = 0"
    using assms that init_control_grouped by blast
  have "\<exists>g u. choose_one_group X w' = Some (Some g, u) \<and> g < length (groups w')"
    if ok: "groups_ok X w'"
      and lt: "snd (fast_rand_less_than X (outside w') (tc_ngroup (control w'))) < tc_ngroup (control w')" and rc: "rc = 0"
  proof -
    obtain x i where r: "fast_rand_less_than X (outside w') (tc_ngroup (control w')) = (x, i)" by fastforce
    then obtain g where "g < length (groups w')" "tc_groups (control w') ! i = Some g"
      using listed_nth(2) [OF ok, of i] lt by auto
    moreover have "i < length (tc_groups (control w'))" using ok lt r by (simp add: groups_ok_def)
    ultimately show ?thesis using grp [OF rc] r by (auto simp: choose_one_group_def nth_opt_def)
  qed
  then show ?thesis using grp assms by (auto simp: init_control_def Let_def bind_Some_conv
        split: if_splits prod.splits bool.splits)
qed

text \<open>A control that is not started yet and whose first worker has just added its group.\<close>

definition starting_world :: demo_world where
  "starting_world = (let w = run_world [] in w\<lparr>control := (control w)\<lparr>tc_concurrency := 0, tc_workers := []\<rparr>\<rparr>)"

lemma init_control_correct_witness:
  "\<exists>w' g u. init_control demo_ext 2 starting_world = Some (0, w')
    \<and> tc_workers (control w') = [1, 2] \<and> choose_one_group demo_ext w' = Some (Some g, u)"
proof -
  obtain w' where w': "init_control demo_ext 2 starting_world = Some (0, w')" "tc_workers (control w') = [1, 2]"
    and ok: "groups_ok demo_ext w'"
    by (simp add: init_control_def starting_world_def run_world_def start_workers.simps wait_for_group.simps vec_resize_def
        groups_ok_def listed_def demo_defs Let_def numeral_2_eq_2 upt_rec)
  have "snd (fast_rand_less_than demo_ext (outside w') n) = n - 1" for n by (simp add: demo_ext_def)
  then show ?thesis using init_control_correct [OF w'(1)] w' ok by auto
qed

text \<open>
  When \<open>pthread_create\<close> fails, the vector of workers keeps its full size, with value-initialised entries for
  the threads that were not created, which \<open>stop_and_join\<close> interrupts and joins with the others.
\<close>

lemma failed_start_leaves_null_workers:
  assumes "tc_workers (control w) = []" and "start_workers X n 0 (upd_control (\<lambda>c. c\<lparr>tc_workers := vec_resize n []\<rparr>) w) = (False, w')"
  shows "length (tc_workers (control w')) = n \<and> last (tc_workers (control w')) = 0"
proof -
  obtain k where k: "k < n" "length (tc_workers (control w')) = n" "drop k (tc_workers (control w')) = replicate (n - k) 0"
    using start_workers_spec [OF assms(2)] by (auto simp: vec_resize_def)
  then have "k < length (tc_workers (control w'))" by simp
  from last_drop [OF this] have "last (tc_workers (control w')) = last (replicate (n - k) (0::nat))"
    by (simp only: k(3))
  then show ?thesis using k(1,2) by (simp add: last_replicate)
qed

section \<open>The main task\<close>

text \<open>While a worker is asleep the others move tasks, and leave its group alone but for its queues.\<close>

definition pl_waits_ok :: "('q, 'r, 'x) ext \<Rightarrow> bool" where
  "pl_waits_ok X \<longleftrightarrow> (\<forall>i v w. moves X {#} w (pl_wait X i v w))"

definition chooses ::
  "('q, 'r, 'x) ext \<Rightarrow> gid \<Rightarrow> bthread_t option \<Rightarrow> ('q, 'r, 'x) world \<Rightarrow> ('q, 'r, 'x) world \<Rightarrow> bool" where
  "chooses X g t w w' \<longleftrightarrow>
     switches X {#} (opt_mset t) w w'
   \<and> (\<forall>tg. group_at w g = Some tg \<longrightarrow> (\<exists>tg'. group_at w' g = Some tg' \<and> same_run tg tg'))"

lemma same_run_trans: "same_run a b \<Longrightarrow> same_run b c \<Longrightarrow> same_run a c"
  by (simp add: same_run_def)

lemma chooses_trans:
  assumes "chooses X g None u v" and "chooses X g t v w"
  shows "chooses X g t u w"
proof -
  have "switches X {#} (opt_mset t) u w"
    using assms switches_trans_0(1) [of X u v "{#}" "opt_mset t" w] by (simp add: chooses_def)
  moreover have "\<exists>tg'. group_at w g = Some tg' \<and> same_run tg tg'" if u: "group_at u g = Some tg" for tg
  proof -
    obtain tv where "group_at v g = Some tv" "same_run tg tv" using assms(1) u unfolding chooses_def by blast
    moreover then obtain tw where "group_at w g = Some tw" "same_run tv tw"
      using assms(2) unfolding chooses_def by blast
    ultimately show ?thesis using same_run_trans by blast
  qed
  ultimately show ?thesis unfolding chooses_def by blast
qed

lemma picks_chooses: "picks X g t w w' \<Longrightarrow> chooses X g t w w'"
  by (simp add: picks_def chooses_def)

lemma moves_chooses:
  assumes "tls_task_group (cur_tls w) = Some g" and "moves X {#} w w'"
  shows "chooses X g None w w'"
proof -
  have "\<exists>tg'. group_at w' g = Some tg' \<and> same_run tg tg'" if "group_at w g = Some tg" for tg
    by (rule moves_own [OF assms(2,1) that]) (simp add: queue_part_only_same same_run_def)
  then show ?thesis using moves_switches [OF assms(2)] by (simp add: chooses_def)
qed

lemma wait_task_chooses:
  assumes "ext_queues_ok X" and "pl_waits_ok X" and "tls_task_group (cur_tls w) = Some g"
    and "wait_task X g w = Some (t, w')"
  shows "chooses X g t w w'"
proof -
  have "Y = X \<longrightarrow> tls_task_group (cur_tls w) = Some g \<longrightarrow> chooses X g (fst r) w (snd r)"
    if "wait_task Y g w = Some r" for Y g w r
  proof (rule wait_task.raw_induct [OF _ that, where P = "\<lambda>Y g w r. Y = X \<longrightarrow>
      tls_task_group (cur_tls w) = Some g \<longrightarrow> chooses X g (fst r) w (snd r)"], goal_cases)
  case (1 rec Y g w r)
  show ?case
  proof (intro impI)
    assume Y: "Y = X" and own: "tls_task_group (cur_tls w) = Some g"
    obtain tg where tg: "group_at w g = Some tg" using 1(2) by (auto simp: bind_Some_conv)
    show "chooses X g (fst r) w (snd r)"
    proof (cases "pl_stopped (tg_last_pl_state tg)")
      case True
      then show ?thesis using 1(2) tg moves_chooses [OF own moves_refl] by auto
    next
      case False
      define u where "u = pl_wait X (tg_pl tg) (tg_last_pl_state tg) w"
      have mv: "moves X {#} w u" using assms(2) by (simp add: pl_waits_ok_def u_def)
      obtain a v where gs: "group_steal_task X g u = Some (a, v)"
        using 1(2) tg False Y by (auto simp: bind_Some_conv u_def Let_def)
      note ch = chooses_trans [OF moves_chooses [OF own mv] picks_chooses [OF group_steal_task_picks [OF assms(1) gs]]]
      show ?thesis
      proof (cases a)
        case None
        then have "rec X g v = Some r" using 1(2) tg False Y gs by (auto simp: u_def Let_def)
        moreover have "tls_task_group (cur_tls v) = Some g"
          using ch own by (simp add: chooses_def switches_def)
        ultimately have "chooses X g (fst r) v (snd r)" using 1(1) by blast
        then show ?thesis using chooses_trans ch None by blast
      next
        case (Some b)
        then show ?thesis using 1(2) tg False Y gs ch by (auto simp: u_def Let_def)
      qed
    qed
  qed
  qed
  from this [OF assms(4)] show ?thesis using assms(3) by simp
qed

text \<open>
  The main task of an idle worker takes a bthread out of a queue and switches to it, or ends when its lot is
  stopped; no bthread is lost or duplicated, the bthread that runs now was in one of the places, and the
  waiter lists stay consistent.
\<close>

lemma main_task_enter_switches:
  assumes "ext_queues_ok X" and "naps_ok X" and "pl_waits_ok X" and "tasks_ok X w"
    and "tls_task_group (cur_tls w) = Some g" and "group_at w g = Some tg" and "tg_cur_meta tg = Some s"
    and "metas w s = Some m" and "tm_tid m = tg_main_tid tg" and "tg_main_tid tg \<notin># tasks X w"
    and "tg_last_context_remained tg = None" and "main_task_enter X g w = Some (r, w')"
  shows "switches X {#} {#} w w'
    \<and> (\<forall>t jumped d. r = Some (t, jumped, d) \<longrightarrow> d = g \<and> t \<in># tasks X w
         \<and> (\<exists>tg'. group_at w' g = Some tg' \<and> tg_cur_meta tg' = Some (get_slot t)))"
proof -
  obtain a w1 where wt: "wait_task X g w = Some (a, w1)"
    using assms(12) by (auto simp: main_task_enter_def bind_Some_conv)
  note ch = wait_task_chooses [OF assms(1,3,5) wt]
  have s1: "switches X {#} (opt_mset a) w w1" using ch by (simp add: chooses_def)
  show ?thesis
  proof (cases a)
    case None
    then show ?thesis using assms(12) wt s1 by (auto simp: main_task_enter_def)
  next
    case (Some t)
    then obtain jumped d where st: "sched_to X g t w1 = Some (jumped, d, w')" and r: "r = Some (t, jumped, d)"
      using assms(12) wt by (auto simp: main_task_enter_def bind_Some_conv)
    have tk: "tasks X w = add_mset t (tasks X w1)" and mt: "meta_tid w1 = meta_tid w"
      and own: "tls_task_group (cur_tls w1) = Some g"
      using s1 Some assms(5) by (simp_all add: switches_def)
    obtain tg1 where tg1: "group_at w1 g = Some tg1" "same_run tg tg1" using ch assms(6) by (auto simp: chooses_def)
    have tw: "t \<in># tasks X w" by (simp add: tk)
    then have live: "live_task w1 t" and neq: "t \<noteq> tg_main_tid tg"
      using assms(4,10) by (auto simp: tasks_ok_def live_task_def mt)
    obtain m1 where m1: "metas w1 s = Some m1" "tm_tid m1 = tm_tid m"
      using fun_cong [OF mt, of s] assms(8) by (auto simp: meta_tid_def)
    have "get_slot t \<noteq> s" using live neq m1 assms(9) by (auto simp: live_task_def meta_tid_def)
    moreover have "remained_ok w1 (tg_last_context_remained tg1)" "tg_cur_meta tg1 = Some s"
      using tg1(2) assms(7,11) by (simp_all add: remained_ok_def same_run_def)
    ultimately have s2: "switches X (run_part w1 g (get_slot t)) (run_part w1 g s) w1 w'" and d: "d = g"
      and cur: "\<exists>tg'. group_at w' g = Some tg' \<and> tg_cur_meta tg' = Some (get_slot t)"
      using sched_to_switches [OF assms(1,2) own tg1(1) _ _ _ st] by auto
    have main: "tg_main_tid tg1 = tg_main_tid tg" using tg1(2) by (simp add: same_run_def)
    have "run_part w1 g s = {#}" using run_part_cur [OF tg1(1) m1(1)] m1(2) assms(9) main by simp
    moreover have "run_part w1 g (get_slot t) = {#t#}" using run_part_live [OF tg1(1) live] neq main by simp
    ultimately have "switches X {#} {#} w w'"
      using switches_cancel_0 [of X "{#t#}" w w'] switches_trans [OF s1 s2] Some by simp
    then show ?thesis using tw d cur r by simp
  qed
qed

text \<open>The worker of group 0 is idle; the bthread of slot 5 is in its remote queue.\<close>

definition main_world :: demo_world where
  "main_world = demo_world (Some 0)
     [demo_group 1 (make_tid 1 1) [] [make_tid 1 5], demo_group 2 (make_tid 1 2) [] []] [] Map.empty"

lemma main_world_ok: "tasks_ok demo_ext main_world" "tasks demo_ext main_world = {#make_tid 1 5#}"
  "pl_waits_ok demo_ext"
proof -
  show t: "tasks demo_ext main_world = {#make_tid 1 5#}"
    by (simp add: tasks_def queued_def running_def waiting_def pending_def queue_of_def running_in_def remained_tids_def
        bthreads_of_def meta_tid_def main_world_def make_tid_demo demo_defs)
  show "tasks_ok demo_ext main_world" unfolding tasks_ok_def t
    by (simp add: live_task_def meta_tid_def main_world_def make_tid_demo demo_defs)
  show "pl_waits_ok demo_ext" by (simp add: pl_waits_ok_def demo_ext_def)
qed

lemma main_task_enter_example:
  "\<exists>w'. main_task_enter demo_ext 0 main_world = Some (Some (make_tid 1 5, True, 0), w')
    \<and> tasks demo_ext w' = tasks demo_ext main_world"
proof -
  let ?tg = "demo_group 1 (make_tid 1 1) [] [make_tid 1 5]" and ?m = "demo_meta (make_tid 1 1) 1 (Some 50)"
  obtain w' where w': "main_task_enter demo_ext 0 main_world = Some (Some (make_tid 1 5, True, 0), w')"
    by (simp add: main_task_enter_def wait_task.simps group_steal_task_def main_world_def pl_stopped_def pl_value_def demo_sched_defs Let_def)
  have "group_at main_world 0 = Some ?tg" "tls_task_group (cur_tls main_world) = Some 0" "metas main_world 1 = Some ?m"
    and "tg_cur_meta ?tg = Some 1" "tm_tid ?m = tg_main_tid ?tg" "tg_last_context_remained ?tg = None"
    by (simp_all add: main_world_def make_tid_demo demo_defs)
  moreover have "tg_main_tid ?tg \<notin># tasks demo_ext main_world"
    unfolding main_world_ok(2) by (simp add: make_tid_demo demo_group_def)
  ultimately show ?thesis
    using main_task_enter_switches [OF demo_queues_ok demo_naps_ok main_world_ok(3,1) _ _ _ _ _ _ _ w'] w'
    by (simp add: switches_def)
qed

section \<open>Creating a group\<close>

text \<open>The queues of a new TaskGroup are empty, and initialising them adds nothing.\<close>

definition group_memory_ok :: "('q, 'r, 'x) ext \<Rightarrow> bool" where
  "group_memory_ok X \<longleftrightarrow>
     (\<forall>x x' raw. new_task_group X x = (x', Some raw) \<longrightarrow> queue_of X raw = {#})
   \<and> (\<forall>q n. mset (wsq_items X (fst (wsq_init X q n))) = mset (wsq_items X q))
   \<and> (\<forall>r n. mset (rrq_items X (fst (rrq_init X r n))) = mset (rrq_items X r))"

text \<open>
  \<open>pool_fresh_any X w\<close>: what the pool hands out, in any world with the TaskMetas and butexes of this one, is neither
  used by a group nor the slot of a bthread that is in one of the places.
\<close>

definition slot_free :: "('q, 'r, 'x) ext \<Rightarrow> slot \<Rightarrow> ('q, 'r, 'x) world \<Rightarrow> bool" where
  "slot_free X s w \<longleftrightarrow> unused s w \<and> (\<forall>t. t \<in># places X w \<longrightarrow> get_slot t \<noteq> s)"

definition pool_fresh_any :: "('q, 'r, 'x) ext \<Rightarrow> ('q, 'r, 'x) world \<Rightarrow> bool" where
  "pool_fresh_any X w \<longleftrightarrow>
     (\<forall>u u' s. metas u = metas w \<longrightarrow> butexes u = butexes w \<longrightarrow> get_meta X u = (u', Some s) \<longrightarrow> slot_free X s w)"

text \<open>
  \<open>grown X w w' tg\<close>: \<open>w'\<close> has one group more, \<open>tg\<close>, that has no task and no callback, and maybe a new TaskMeta with
  its butexes, in a slot no other group uses.
\<close>

definition grown ::
  "('q, 'r, 'x) ext \<Rightarrow> ('q, 'r, 'x) world \<Rightarrow> ('q, 'r, 'x) world \<Rightarrow> ('q, 'r) task_group \<Rightarrow> bool" where
  "grown X w w' tg \<longleftrightarrow>
     groups w' = groups w @ [tg] \<and> queue_of X tg = {#} \<and> tg_last_context_remained tg = None
   \<and> waiters w' = waiters w \<and> cur_tls w' = cur_tls w
   \<and> (\<exists>bs. butexes w' = butexes w @ bs \<and> (\<forall>bx \<in> set bs. bx_waiters bx = []))
   \<and> (\<forall>s. slot_free X s w \<or> meta_tid w' s = meta_tid w s)"

lemma grown_tasks:
  assumes "grown X w w' tg" and "running_in (meta_tid w') tg = {#}"
  shows "tasks X w' = tasks X w" and "butexes_ok w \<Longrightarrow> butexes_ok w'"
proof -
  obtain bs where gr: "groups w' = groups w @ [tg]" "queue_of X tg = {#}" "tg_last_context_remained tg = None"
    "waiters w' = waiters w" "butexes w' = butexes w @ bs" "\<forall>bx \<in> set bs. bx_waiters bx = []"
    "\<forall>s. slot_free X s w \<or> meta_tid w' s = meta_tid w s"
    using assms(1) by (auto simp: grown_def)
  have wt: "waiter_tid w' = waiter_tid w" by (rule waiter_tid_cong [OF gr(4)])
  have "group_tasks X (meta_tid w') (waiter_tid w) h = group_tasks X (meta_tid w) (waiter_tid w) h" if "h \<in> set (groups w)" for h
  proof -
    have "meta_tid w' s = meta_tid w s" if "tg_cur_meta h = Some s" for s
      using gr(7) that \<open>h \<in> set (groups w)\<close> by (auto simp: unused_def slot_free_def)
    then show ?thesis by (cases "tg_cur_meta h") (simp_all add: group_tasks_def running_in_def)
  qed
  then have "msum (group_tasks X (meta_tid w') (waiter_tid w')) (groups w)
      = msum (group_tasks X (meta_tid w) (waiter_tid w)) (groups w)" unfolding wt by (rule msum_cong)
  moreover have "group_tasks X (meta_tid w') (waiter_tid w') tg = {#}"
    using gr(2,3) assms(2) by (simp add: group_tasks_def remained_tids_def)
  ultimately show "tasks X w' = tasks X w"
    using new_butexes_waiting(1) [OF gr(5,6,4)] by (simp add: tasks_groups gr(1))
  show "butexes_ok w \<Longrightarrow> butexes_ok w'" by (rule new_butexes_waiting(2) [OF gr(5,6,4)])
qed

lemma grown_put_group:
  assumes "grown X w w' tg" and "queue_of X tg' = {#}" and "tg_last_context_remained tg' = None"
  shows "grown X w (put_group (length (groups w)) tg' w') tg'"
  using assms by (simp add: grown_def)

lemma grown_cong:
  assumes "groups w'' = groups w'" and "waiters w'' = waiters w'" and "cur_tls w'' = cur_tls w'"
    and "butexes w'' = butexes w'" and "meta_tid w'' = meta_tid w'" and "grown X w w' tg"
  shows "grown X w w'' tg"
  using assms by (simp add: grown_def)

text \<open>Getting a TaskMeta for a new group, and writing it.\<close>

lemma get_meta_grown:
  assumes "pool_ok X" and "pool_fresh_any X w" and "grown X w u tg" and "metas u = metas w" and "butexes u = butexes w"
    and "get_meta X u = (u', r)"
  shows "grown X w u' tg" and "control u' = control u"
    and "r = Some s \<Longrightarrow> slot_free X s w \<and> slot_ok s \<and> (\<exists>m v. metas u' s = Some m \<and> version_of u' m = Some v \<and> v \<noteq> 0)"
proof -
  note law = assms(1) [unfolded pool_ok_def, rule_format, OF assms(6)]
  have un: "r = Some s \<Longrightarrow> slot_free X s w" for s using assms(2,4,5,6) unfolding pool_fresh_any_def by blast
  show "control u' = control u" using law by simp
  show "r = Some s \<Longrightarrow> slot_free X s w \<and> slot_ok s \<and> (\<exists>m v. metas u' s = Some m \<and> version_of u' m = Some v \<and> v \<noteq> 0)"
    using law un by blast
  have "slot_free X t w \<or> meta_tid u' t = meta_tid w t" for t
    using law un [of t] assms(4) by (cases "r = Some t") (simp_all add: meta_tid_def)
  moreover obtain bs where "butexes u' = butexes w @ bs" "\<forall>bx \<in> set bs. bx_waiters bx = []"
    using law assms(5) by auto
  ultimately show "grown X w u' tg" using assms(3) law by (simp add: grown_def)
qed

lemma init_main_meta_grown:
  assumes "init_main_meta X s stk u = Some (tid, u')" and "grown X w u tg" and "slot_free X s w"
    and "metas u s = Some m" and "version_of u m = Some v"
  shows "grown X w u' tg" and "tid = make_tid v s" and "control u' = control u"
    and "\<exists>m'. metas u' s = Some m' \<and> tm_tid m' = tid \<and> tm_stack m' = Some stk"
  using assms by (auto simp: init_main_meta_def grown_def meta_tid_def Let_def split: prod.splits if_splits)

text \<open>A main task: the group runs it, its TaskMeta has the identifier and the stack of the group.\<close>

definition main_task_ok :: "('q, 'r, 'x) world \<Rightarrow> ('q, 'r) task_group \<Rightarrow> bool" where
  "main_task_ok w tg \<longleftrightarrow>
     tg_main_tid tg \<noteq> 0
   \<and> (\<exists>m. tg_cur_meta tg = Some (get_slot (tg_main_tid tg)) \<and> address_meta w (tg_main_tid tg) = Some m
        \<and> tm_tid m = tg_main_tid tg \<and> tm_stack m = Some (tg_main_stack tg))"

lemma main_task_not_running: "main_task_ok w tg \<Longrightarrow> running_in (meta_tid w) tg = {#}"
  by (auto simp: main_task_ok_def running_in_def address_meta_def meta_tid_def)

lemma init_group_grown:
  assumes "pool_ok X" and "group_memory_ok X" and "pool_fresh_any X w" and "grown X w u tg"
    and "metas u = metas w" and "butexes u = butexes w" and "tg_cur_meta tg = None" and "tg_main_tid tg = 0"
    and "init_group X cap (length (groups w)) u = Some (rc, u')"
  shows "\<exists>tg'. grown X w u' tg' \<and> control u' = control u \<and> tg_has_control tg' = tg_has_control tg
    \<and> (if rc = 0 then main_task_ok u' tg' \<and> slot_free X (get_slot (tg_main_tid tg')) w
       else tg_cur_meta tg' = None \<and> tg_main_tid tg' = 0)"
proof -
  let ?g = "length (groups w)"
  have g: "group_at u ?g = Some tg" using assms(4) by (simp add: grown_def nth_opt_def)
  obtain q okq where wi: "wsq_init X (tg_rq tg) cap = (q, okq)" by fastforce
  obtain r okr where ri: "rrq_init X (tg_remote_rq tg) (cap div 2) = (r, okr)" by fastforce
  have emp: "queue_of X tg = {#}" "tg_last_context_remained tg = None" using assms(4) by (simp_all add: grown_def)
  have eq: "mset (wsq_items X q) = mset (wsq_items X (tg_rq tg))" "mset (rrq_items X r) = mset (rrq_items X (tg_remote_rq tg))"
    using assms(2) wi ri unfolding group_memory_ok_def by (metis fst_conv)+
  have q0: "queue_of X (tg\<lparr>tg_rq := q\<rparr>) = {#}" "queue_of X (tg\<lparr>tg_rq := q, tg_remote_rq := r\<rparr>) = {#}"
    using emp(1) eq by (simp_all add: queue_of_def)
  note gp = grown_put_group [OF assms(4)]
  have gr1: "grown X w (put_group ?g (tg\<lparr>tg_rq := q\<rparr>) u) (tg\<lparr>tg_rq := q\<rparr>)" using gp q0(1) emp(2) by simp
  let ?tg = "tg\<lparr>tg_rq := q, tg_remote_rq := r\<rparr>"
  let ?u1 = "put_group ?g ?tg u"
  have gr2: "grown X w ?u1 ?tg" using gp q0(2) emp(2) by simp
  obtain x stk where st: "get_stack X (outside ?u1) STACK_TYPE_MAIN = (x, stk)" by fastforce
  obtain u2 s where gm: "get_meta X (?u1\<lparr>outside := x\<rparr>) = (u2, s)" by fastforce
  have "meta_tid (?u1\<lparr>outside := x\<rparr>) = meta_tid ?u1" by (rule meta_tid_cong) simp
  then have gr3: "grown X w (?u1\<lparr>outside := x\<rparr>) ?tg" using grown_cong [OF _ _ _ _ _ gr2] by simp
  have "metas (?u1\<lparr>outside := x\<rparr>) = metas w" "butexes (?u1\<lparr>outside := x\<rparr>) = butexes w" using assms(5,6) by simp_all
  note gr4 = get_meta_grown [OF assms(1,3) gr3 this gm]
  have fatal: "grown X w (log_fatal f v) th" if "grown X w v th" for f v th
    using grown_cong [OF _ _ _ _ _ that, of "log_fatal f v"] meta_tid_cong [of "log_fatal f v" v] by simp
  consider (rq) "\<not> okq" | (rrq) "okq" "\<not> okr" | (stack) "okq" "okr" "stk = None"
    | (meta) k where "okq" "okr" "stk = Some k" "s = None" | (all) k s' where "okq" "okr" "stk = Some k" "s = Some s'"
    by (cases stk; cases s) auto
  then show ?thesis
  proof cases
    case rq
    then have "rc = -1" "u' = log_fatal FatalInitRq (put_group ?g (tg\<lparr>tg_rq := q\<rparr>) u)"
      using assms(9) g wi by (simp_all add: init_group_def)
    then show ?thesis using fatal [OF gr1] assms(7,8) by (intro exI [of _ "tg\<lparr>tg_rq := q\<rparr>"]) simp
  next
    case rrq
    then have "rc = -1" "u' = log_fatal FatalInitRemoteRq ?u1" using assms(9) g wi ri by (simp_all add: init_group_def)
    then show ?thesis using fatal [OF gr2] assms(7,8) by (intro exI [of _ ?tg]) simp
  next
    case stack
    then have "rc = -1" "u' = log_fatal FatalMainStack (?u1\<lparr>outside := x\<rparr>)"
      using assms(9) g wi ri st by (simp_all add: init_group_def Let_def)
    then show ?thesis using fatal [OF gr3] assms(7,8) by (intro exI [of _ ?tg]) simp
  next
    case meta
    then have "rc = -1" "u' = log_fatal FatalGetMeta u2"
      using assms(9) g wi ri st gm by (simp_all add: init_group_def Let_def)
    then show ?thesis using fatal [OF gr4(1)] gr4(2) assms(7,8) by (intro exI [of _ ?tg]) simp
  next
    case all
    obtain m v where m: "metas u2 s' = Some m" "version_of u2 m = Some v" "v \<noteq> 0" and s': "slot_free X s' w" "slot_ok s'"
      using gr4(3) [OF all(4)] by blast
    obtain tid u3 tg3 where im: "init_main_meta X s' k u2 = Some (tid, u3)" and tg3: "group_at u3 ?g = Some tg3"
      using assms(9) g wi ri st gm all by (auto simp: init_group_def Let_def bind_Some_conv case_prod_beta)
    obtain y now where now: "cpuwide_time_ns X (outside u3) = (y, now)" by fastforce
    have rc: "rc = 0" and u': "u' = put_group ?g (tg3\<lparr>tg_cur_meta := Some s', tg_main_tid := tid, tg_main_stack := k,
          tg_last_run_ns := now\<rparr>) (u3\<lparr>outside := y\<rparr>)"
      using assms(9) g wi ri st gm all im tg3 now by (simp_all add: init_group_def Let_def)
    note gr5 = init_main_meta_grown [OF im gr4(1) s'(1) m(1,2)]
    let ?tg' = "?tg\<lparr>tg_cur_meta := Some s', tg_main_tid := tid, tg_main_stack := k, tg_last_run_ns := now\<rparr>"
    have t3: "tg3 = ?tg" using gr5(1) tg3 by (simp add: grown_def nth_opt_def)
    have "meta_tid (u3\<lparr>outside := y\<rparr>) = meta_tid u3" by (rule meta_tid_cong) simp
    then have "grown X w (u3\<lparr>outside := y\<rparr>) ?tg" using grown_cong [OF _ _ _ _ _ gr5(1)] by simp
    from grown_put_group [OF this, of ?tg'] have gr6: "grown X w u' ?tg'"
      using q0(2) emp(2) by (simp add: u' t3 queue_of_def)
    have "get_slot tid = s'" "get_version tid = v" using gr5(2) s'(2) by simp_all
    then have "tid \<noteq> 0" "get_slot tid = s'" using m(3) by auto
    then have "main_task_ok u' ?tg'" using gr5(4) by (simp add: main_task_ok_def address_meta_def u')
    moreover have "control u' = control u" using gr5(3) gr4(2) by (simp add: u')
    ultimately show ?thesis using gr6 rc s'(1) \<open>get_slot tid = s'\<close> by (intro exI [of _ ?tg']) simp
  qed
qed

text \<open>Freeing the memory of the group that was made last.\<close>

lemma delete_new_group:
  assumes "grown X w u tg" and "tg_main_tid tg = 0 \<or> main_task_ok u tg \<and> slot_free X (get_slot (tg_main_tid tg)) w"
    and "delete_task_group X (length (groups w)) u = Some u'"
  shows "\<exists>tg'. grown X w u' tg' \<and> control u' = control u \<and> tg_cur_meta tg' = None \<and> tg_main_tid tg' = 0"
proof -
  let ?g = "length (groups w)"
  have g: "group_at u ?g = Some tg" and emp: "queue_of X tg = {#}" "tg_last_context_remained tg = None"
    using assms(1) by (simp_all add: grown_def nth_opt_def)
  obtain v where dg: "destruct_group X ?g u = Some v" using assms(3) by (auto simp: delete_task_group_def bind_Some_conv)
  have "grown X w v (tg\<lparr>tg_main_tid := 0\<rparr>) \<and> control v = control u"
  proof (cases "tg_main_tid tg = 0")
    case True
    then have "v = u" "tg\<lparr>tg_main_tid := 0\<rparr> = tg" using dg g by (simp_all add: destruct_group_def)
    then show ?thesis using assms(1) by simp
  next
    case False
    let ?s = "get_slot (tg_main_tid tg)"
    obtain m where m: "metas u ?s = Some m" and st: "tm_stack m = Some (tg_main_stack tg)" and un: "slot_free X ?s w"
      using assms(2) False by (auto simp: main_task_ok_def address_meta_def)
    let ?u = "put_meta ?s (m\<lparr>tm_stack := None\<rparr>) (u\<lparr>outside := return_stack X (outside u) (tm_stack m)\<rparr>)"
    have v: "v = put_group ?g (tg\<lparr>tg_main_tid := 0\<rparr>) (?u\<lparr>outside := return_meta X (outside ?u) ?s\<rparr>)"
      using dg g m st False by (simp add: destruct_group_def address_meta_def Let_def)
    have "meta_tid (?u\<lparr>outside := return_meta X (outside ?u) ?s\<rparr>) = meta_tid u"
      using m by (auto simp: meta_tid_def fun_eq_iff)
    then have "grown X w (?u\<lparr>outside := return_meta X (outside ?u) ?s\<rparr>) tg"
      using grown_cong [OF _ _ _ _ _ assms(1)] by simp
    from grown_put_group [OF this, of "tg\<lparr>tg_main_tid := 0\<rparr>"] show ?thesis
      using emp by (simp add: v queue_of_def)
  qed
  then have gv: "grown X w v (tg\<lparr>tg_main_tid := 0\<rparr>)" and cv: "control v = control u" by simp_all
  then have "u' = put_group ?g (tg\<lparr>tg_main_tid := 0, tg_cur_meta := None\<rparr>) v"
    using assms(3) dg by (simp add: delete_task_group_def grown_def nth_opt_def)
  then show ?thesis using grown_put_group [OF gv, of "tg\<lparr>tg_main_tid := 0, tg_cur_meta := None\<rparr>"] emp cv
    by (intro exI [of _ "tg\<lparr>tg_main_tid := 0, tg_cur_meta := None\<rparr>"]) (simp add: queue_of_def)
qed

lemma grown_groups_ok:
  assumes "groups_ok X w" and "grown X w u tg" and "control u = control w"
  shows "groups_ok X u" "listed u = listed w" "length (groups w) < length (groups u)" "Some (length (groups w)) \<notin> set (listed u)"
  using assms by (auto simp: groups_ok_def grown_def listed_def)

lemma idle_group_not_running: "tg_cur_meta tg = None \<Longrightarrow> running_in mt tg = {#}"
  by (simp add: running_in_def)

lemma create_group_cases [consumes 4, case_names memory fails works]:
  assumes "pool_ok X" and "group_memory_ok X" and "pool_fresh_any X w" and "create_group X w = Some (r, w')"
  obtains (memory) "r = None" "groups w' = groups w" "control w' = control w" "tasks X w' = tasks X w"
      "butexes_ok w' = butexes_ok w" "meta_tid w' = meta_tid w"
    | (fails) tg where "r = None" "grown X w w' tg" "control w' = control w" "tg_cur_meta tg = None" "tg_main_tid tg = 0"
    | (works) tg u where "r = Some (length (groups w))" "grown X w u tg" "control u = control w" "main_task_ok u tg"
      "slot_free X (get_slot (tg_main_tid tg)) w"
      "add_group X (Some (length (groups w))) u = (0, w')"
proof -
  let ?g = "length (groups w)"
  obtain x raw where nt: "new_task_group X (outside w) = (x, raw)" by fastforce
  show thesis
  proof (cases raw)
    case None
    then have "r = None" "w' = log_fatal FatalNewTaskGroup (w\<lparr>outside := x\<rparr>)"
      using assms(4) nt by (simp_all add: create_group_def)
    then show thesis using memory tasks_cong [of w' w X] butexes_ok_cong [of w' w]
      by (simp add: meta_tid_def waiter_tid_def fun_eq_iff)
  next
    case (Some rw)
    obtain tg w1 where cg: "construct_group X rw (w\<lparr>outside := x\<rparr>) = Some (tg, w1)"
      using assms(4) nt Some by (auto simp: create_group_def bind_Some_conv)
    obtain x1 now x2 seed where clk: "cpuwide_time_ns X x = (x1, now)" "fast_rand X x1 = (x2, seed)" by fastforce
    then obtain off where "nth_opt (offset_table X) (unat seed mod length (offset_table X)) = Some off"
      using cg by (auto simp: construct_group_def bind_Some_conv)
    with cg clk have w1: "w1 = w\<lparr>outside := x2\<rparr>" and tg: "tg_cur_meta tg = None" "tg_main_tid tg = 0"
      "tg_last_context_remained tg = None" "tg_rq tg = tg_rq rw" "tg_remote_rq tg = tg_remote_rq rw"
      by (auto simp: construct_group_def)
    have "queue_of X rw = {#}" using assms(2) nt Some by (auto simp: group_memory_ok_def)
    then have q0: "queue_of X tg = {#}" using tg(4,5) by (simp add: queue_of_def)
    let ?u = "w1\<lparr>groups := groups w1 @ [tg]\<rparr>"
    have "meta_tid ?u = meta_tid w" by (rule meta_tid_cong) (simp add: w1)
    then have gr: "grown X w ?u tg" using q0 tg(3) by (simp add: grown_def w1)
    have cr: "init_group X task_group_runqueue_capacity (length (groups w1)) ?u \<bind> (\<lambda>(rc, w2).
        if rc \<noteq> 0 then delete_task_group X (length (groups w1)) w2 \<bind> (\<lambda>w3. Some (None, w3))
        else let (rc2, w3) = add_group X (Some (length (groups w1))) w2
             in if rc2 \<noteq> 0 then delete_task_group X (length (groups w1)) w3 \<bind> (\<lambda>w4. Some (None, w4)) else Some (Some (length (groups w1)), w3))
      = Some (r, w')"
      using assms(4) nt Some cg by (simp add: create_group_def Let_def)
    have "(length (groups w1)) = ?g" by (simp add: w1)
    note cr = cr [unfolded this]
    obtain rc w2 where ig: "init_group X task_group_runqueue_capacity ?g ?u = Some (rc, w2)"
      by (rule bind_SomeE [OF cr]) auto
    have "metas ?u = metas w" "butexes ?u = butexes w" by (simp_all add: w1)
    from init_group_grown [OF assms(1-3) gr this tg(1,2) ig] obtain tg2 where
      gr2: "grown X w w2 tg2" "control w2 = control w" and st2: "if rc = 0 then main_task_ok w2 tg2
         \<and> slot_free X (get_slot (tg_main_tid tg2)) w else tg_cur_meta tg2 = None \<and> tg_main_tid tg2 = 0"
      by (auto simp: w1)
    show thesis
    proof (cases "rc = 0")
      case False
      then have r: "r = None" and dg: "delete_task_group X ?g w2 = Some w'"
        using cr ig by (auto simp: bind_Some_conv)
      from delete_new_group [OF gr2(1) _ dg] st2 False obtain tg' where
        "grown X w w' tg'" "control w' = control w2" "tg_cur_meta tg' = None" "tg_main_tid tg' = 0" by auto
      then show thesis using fails [OF r] gr2(2) by simp
    next
      case True
      obtain rc2 w3 where ag: "add_group X (Some ?g) w2 = (rc2, w3)" by fastforce
      show thesis
      proof (cases "rc2 = 0")
        case True
        then have "r = Some ?g" "w' = w3" using cr ig \<open>rc = 0\<close> ag by simp_all
        then show thesis using works gr2 st2 \<open>rc = 0\<close> ag True by simp
      next
        case False
        then have w3: "w3 = w2" using ag by (auto simp: add_group_def Let_def split: if_splits)
        have r: "r = None" and dg: "delete_task_group X ?g w2 = Some w'"
          using cr ig \<open>rc = 0\<close> ag False w3 by (auto simp: bind_Some_conv)
        from delete_new_group [OF gr2(1) _ dg] st2 \<open>rc = 0\<close> obtain tg' where
          "grown X w w' tg'" "control w' = control w2" "tg_cur_meta tg' = None" "tg_main_tid tg' = 0" by auto
        then show thesis using fails [OF r] gr2(2) by simp
      qed
    qed
  qed
qed

text \<open>
  \<open>create_group\<close> gives a group with an empty queue that runs its main task, on a stack of its own, and lists
  it (if there is room), or NULL, and then lists nothing; in both cases no bthread is lost and the array stays well
  formed.  After a stop it gives NULL.
\<close>

lemma create_group_correct:
  assumes "pool_ok X" and "group_memory_ok X" and "pool_fresh_any X w" and "groups_ok X w"
    and "create_group X w = Some (r, w')"
  shows "tasks X w' = tasks X w \<and> (butexes_ok w \<longrightarrow> butexes_ok w') \<and> groups_ok X w'
    \<and> (case r of
         None \<Rightarrow> listed w' = listed w
       | Some g \<Rightarrow> g = length (groups w) \<and> \<not> tc_stop (control w)
           \<and> (\<exists>tg. group_at w' g = Some tg \<and> queue_of X tg = {#} \<and> main_task_ok w' tg)
           \<and> listed w' = (if tc_ngroup (control w) < max_concurrency X then listed w @ [Some g] else listed w))"
  using assms(1-3,5)
proof (cases rule: create_group_cases)
  case memory
  then show ?thesis using assms(4) by (simp add: groups_ok_def listed_def)
next
  case (fails tg)
  then show ?thesis using grown_groups_ok [OF assms(4) fails(2,3)]
      grown_tasks [OF fails(2) idle_group_not_running [OF fails(4)]] by simp
next
  case (works tg u)
  note ok = grown_groups_ok [OF assms(4) works(2,3)]
  note tk = grown_tasks [OF works(2) main_task_not_running [OF works(4)]]
  note ag = add_group_spec [OF ok(1,3,4) works(6)]
  then have ns: "\<not> tc_stop (control u)" by auto
  then have same: "groups w' = groups u" "metas w' = metas u" "butexes w' = butexes u" "waiters w' = waiters u"
    using works(6) by (auto simp: add_group_def Let_def)
  have "tasks X w' = tasks X u" "butexes_ok w' = butexes_ok u"
    using tasks_cong [OF same(1) meta_tid_cong [OF same(2)] same(3) waiter_tid_cong [OF same(4)]]
      butexes_ok_cong [OF same(3,4)] by simp_all
  moreover have "group_at w' (length (groups w)) = Some tg" "queue_of X tg = {#}"
    using works(2) by (simp_all add: grown_def nth_opt_def same(1))
  moreover have "main_task_ok w' tg" using works(4) by (simp add: main_task_ok_def address_meta_def same(2))
  ultimately show ?thesis using ag ok(2) ns tk works(1,3) by simp
qed

lemma demo_group_memory_ok: "group_memory_ok demo_ext"
  by (simp add: group_memory_ok_def queue_of_def demo_ext_def demo_group_def)

lemma main_world_fresh: "pool_fresh_any demo_ext main_world"
  unfolding pool_fresh_any_def slot_free_def places_def main_world_ok(2)
  by (auto simp: sleeping_def sleep_tids_def unused_def main_world_def make_tid_demo demo_defs Let_def split: if_splits)

lemma create_group_correct_witness:
  "\<exists>w'. create_group demo_ext main_world = Some (Some 2, w') \<and> listed w' = [Some 0, Some 1, Some 2]
    \<and> tasks demo_ext w' = {#make_tid 1 5#}"
proof -
  have "length (offset_table demo_ext) = 4" by (simp add: demo_ext_def)
  obtain w' where w': "create_group demo_ext main_world = Some (Some 2, w')"
    by (simp add: create_group_def construct_group_def init_group_def init_main_meta_def version_of_def nth_opt_def
        add_group_def task_group_runqueue_capacity_def main_world_def make_tid_demo put_defs demo_defs Let_def)
  have ok: "groups_ok demo_ext main_world" "listed main_world = [Some 0, Some 1]" "tc_ngroup (control main_world) = 2"
    "max_concurrency demo_ext = 3"
    by (auto simp: groups_ok_def listed_def main_world_def demo_defs upt_rec)
  from create_group_correct [OF demo_pool_ok demo_group_memory_ok main_world_fresh ok(1) w'] show ?thesis
    using w' ok main_world_ok(2) by auto
qed

section \<open>The end of a worker\<close>

lemma delete_group_frame:
  assumes "delete_group X go w = Some (rc, w')"
  shows "groups w' = groups w" "metas w' = metas w" "butexes w' = butexes w" "waiters w' = waiters w" "cur_tls w' = cur_tls w"
  using assms by (auto simp: delete_group_def bind_Some_conv Let_def split: if_splits prod.splits option.splits)

text \<open>
  C37.  A worker that ends is no worker any more, takes its group out of the array and no other, and schedules the
  deletion of the group if it was listed; no bthread is lost.  Ending it once more is caught.
\<close>

theorem worker_end_correct:
  assumes "groups_ok X w" and "group_at w g = Some tg" and "tg_has_control tg" and "worker_end X g w = Some w'"
  shows "tls_task_group (cur_tls w') = None \<and> groups_ok X w' \<and> set (listed w') = set (listed w) - {Some g}
    \<and> outside w' = (if Some g \<in> set (listed w)
         then fst (timer_schedule X (outside w) (DeleteTaskGroup g) task_group_delete_delay_us) else outside w)
    \<and> tasks X w' = tasks X w \<and> destroy_self X g w' = Some (log_fatal CheckDestroy w')"
proof -
  let ?w = "w\<lparr>cur_tls := (cur_tls w)\<lparr>tls_task_group := None\<rparr>\<rparr>"
  obtain rc w1 tg1 where dg: "delete_group X (Some g) ?w = Some (rc, w1)" and tg1: "group_at w1 g = Some tg1"
    and w': "w' = put_group g (tg1\<lparr>tg_has_control := False\<rparr>) w1"
    using assms(2-4) by (auto simp: worker_end_def destroy_self_def bind_Some_conv)
  have "groups_ok X ?w" "listed ?w = listed w" using groups_ok_cong(1) [of ?w w X] groups_ok_cong(2) [of ?w w] assms(1) by simp_all
  then have d: "groups_ok X w1" "set (listed w1) = set (listed w) - {Some g}" "groups w1 = groups w"
    "outside w1 = (if Some g \<in> set (listed w)
         then fst (timer_schedule X (outside w) (DeleteTaskGroup g) task_group_delete_delay_us) else outside w)"
    using delete_group_spec [OF _ _ assms(3) dg] assms(2) by simp_all
  have tls: "tls_task_group (cur_tls w1) = None" "metas w1 = metas w" "butexes w1 = butexes w" "waiters w1 = waiters w"
    using delete_group_frame [OF dg] by simp_all
  have ok: "groups_ok X w' = groups_ok X w1" "listed w' = listed w1" using groups_ok_cong(1) [of w' w1 X] groups_ok_cong(2) [of w' w1] by (simp_all add: w')
  have tk: "tasks X w1 = tasks X w"
    using tasks_cong [OF d(3) meta_tid_cong [OF tls(2)] tls(3) waiter_tid_cong [OF tls(4)]] .
  have "group_tasks X mt wt (tg1\<lparr>tg_has_control := False\<rparr>) = group_tasks X mt wt tg1" for mt wt
    by (simp add: group_tasks_def queue_of_def running_in_def split: option.split)
  then have "tasks X w' = tasks X w"
    using tasks_put_group [OF tg1, of X "tg1\<lparr>tg_has_control := False\<rparr>"] tk unfolding w' by simp
  moreover have "group_at w' g = Some (tg1\<lparr>tg_has_control := False\<rparr>)" using tg1 by (simp add: w' nth_opt_Some)
  ultimately show ?thesis using d ok tls(1) by (simp add: w' destroy_self_def)
qed

lemma worker_end_correct_witness:
  "\<exists>w'. worker_end demo_ext 0 main_world = Some w' \<and> set (listed w') = {Some 1}
    \<and> timer_items demo_ext (outside w') = [(1, DeleteTaskGroup 0)]"
proof -
  have g: "group_at main_world 0 = Some (demo_group 1 (make_tid 1 1) [] [make_tid 1 5])" "listed main_world = [Some 0, Some 1]"
    "groups_ok demo_ext main_world" "tg_has_control (demo_group 1 (make_tid 1 1) [] [make_tid 1 5])"
    by (auto simp: groups_ok_def listed_def main_world_def demo_defs upt_rec)
  obtain w' where w': "worker_end demo_ext 0 main_world = Some w'"
    by (simp add: worker_end_def destroy_self_def delete_group_def delete_group_loop.simps main_world_def demo_defs Let_def)
  have "timer_items demo_ext (fst (timer_schedule demo_ext (outside main_world) (DeleteTaskGroup 0) us)) =
      [(1, DeleteTaskGroup 0)]" for us
    by (simp add: main_world_def demo_defs)
  then show ?thesis using worker_end_correct [OF g(3,1,4) w'] w' g(2) by auto
qed

text \<open>
  Deleting the group gives the stack and the slot of its main task back, to be used by others, exactly once: a second
  run of the destructor does nothing.
\<close>

lemma delete_task_group_once:
  assumes "group_at w g = Some tg" and "main_task_ok w tg" and "delete_task_group X g w = Some w'"
  shows "outside w' = return_meta X (return_stack X (outside w) (Some (tg_main_stack tg))) (get_slot (tg_main_tid tg))
    \<and> fatals w' = fatals w \<and> map_option tm_stack (address_meta w' (tg_main_tid tg)) = Some None
    \<and> destruct_group X g w' = Some w'"
proof -
  have put: "group_at (put_group g tg' v) g = Some tg'" if "groups v = groups w" for tg' v
    using assms(1) that by (simp add: nth_opt_Some)
  obtain m where m: "address_meta w (tg_main_tid tg) = Some m" "tm_stack m = Some (tg_main_stack tg)" "tg_main_tid tg \<noteq> 0"
    using assms(2) by (auto simp: main_task_ok_def)
  let ?x = "return_stack X (outside w) (Some (tg_main_stack tg))"
  let ?v = "put_meta (get_slot (tg_main_tid tg)) (m\<lparr>tm_stack := None\<rparr>) (w\<lparr>outside := ?x\<rparr>)
      \<lparr>outside := return_meta X ?x (get_slot (tg_main_tid tg))\<rparr>"
  have "destruct_group X g w = Some (put_group g (tg\<lparr>tg_main_tid := 0\<rparr>) ?v)"
    using assms(1) m by (simp add: destruct_group_def Let_def)
  then have w': "w' = put_group g (tg\<lparr>tg_main_tid := 0, tg_cur_meta := None\<rparr>) (put_group g (tg\<lparr>tg_main_tid := 0\<rparr>) ?v)"
    using assms(3) put [of ?v] by (simp add: delete_task_group_def)
  have "group_at w' g = Some (tg\<lparr>tg_main_tid := 0, tg_cur_meta := None\<rparr>)" unfolding w'
    using assms(1) by (simp add: nth_opt_Some)
  then have "destruct_group X g w' = Some w'" by (simp add: destruct_group_def)
  then show ?thesis by (simp add: w' address_meta_def)
qed

text \<open>The constructor does not set \<open>_control\<close>: the member is what the memory held before.\<close>

lemma construct_group_leaves_control:
  "construct_group X raw w = Some (tg, w') \<Longrightarrow> tg_has_control tg = tg_has_control raw"
  by (auto simp: construct_group_def bind_Some_conv Let_def case_prod_beta)

text \<open>\<open>init\<close> that gets no TaskMeta does not give the stack back, and the destructor does not know of it.\<close>

lemma init_group_loses_stack:
  assumes "group_at w g = Some tg" and "tg_main_tid tg = 0"
    and "wsq_init X (tg_rq tg) n = (q, True)" and "rrq_init X (tg_remote_rq tg) (n div 2) = (r, True)"
    and "get_stack X (outside w) STACK_TYPE_MAIN = (x, Some stk)"
    and "get_meta X (put_group g (tg\<lparr>tg_rq := q, tg_remote_rq := r\<rparr>) w\<lparr>outside := x\<rparr>) =
      (put_group g (tg\<lparr>tg_rq := q, tg_remote_rq := r\<rparr>) w\<lparr>outside := x\<rparr>, None)"
  shows "\<exists>w'. init_group X n g w = Some (-1, w') \<and> outside w' = x \<and> destruct_group X g w' = Some w'"
proof -
  let ?w = "put_group g (tg\<lparr>tg_rq := q, tg_remote_rq := r\<rparr>) w\<lparr>outside := x\<rparr>"
  have "group_at (log_fatal FatalGetMeta ?w) g = Some (tg\<lparr>tg_rq := q, tg_remote_rq := r\<rparr>)"
    using assms(1) by (simp add: nth_opt_Some)
  then have "destruct_group X g (log_fatal FatalGetMeta ?w) = Some (log_fatal FatalGetMeta ?w)"
    using assms(2) by (simp add: destruct_group_def)
  moreover have "init_group X n g w = Some (-1, log_fatal FatalGetMeta ?w)"
    using assms by (simp add: init_group_def Let_def)
  ultimately show ?thesis by (intro exI [of _ "log_fatal FatalGetMeta ?w"]) simp
qed

end
