(* ===== verification/Api.thy ===== *)
theory Api
  imports Workers
begin

text \<open>
  The C interface (\<open>bthread.cpp\<close>).  Its functions dispatch on the thread that calls: a worker acts on its own
  group, any other thread through the TaskControl, which is created on first use.
\<close>

section \<open>The global TaskControl\<close>

text \<open>
  \<open>get_or_new_task_control\<close>: double-checked locking, in which the control that is being started is known to its
  workers before the global pointer is set.  The boolean says that the result is not NULL.
\<close>

definition get_or_new_task_control ::
  "('q, 'r, 'x) ext \<Rightarrow> ('q, 'r, 'x) world \<Rightarrow> (bool \<times> ('q, 'r, 'x) world) option" where
  "get_or_new_task_control X w =
     (if g_task_control w then Some (True, w)
      else
        let w1 = lock_control X w in
        if g_task_control w1 then Some (True, w1)
        else
          (case new_task_control X (outside w1) of
             (x, False) \<Rightarrow> Some (False, w1\<lparr>outside := x\<rparr>)
           | (x, True) \<Rightarrow> do {
               let w2 = w1\<lparr>outside := x, control := fresh_control X\<rparr>;
               let concurrency = (if flag_min_concurrency w2 > 0 then flag_min_concurrency w2 else flag_concurrency w2);
               (rc, w3) \<leftarrow> init_control X concurrency w2;
               Some (if rc \<noteq> 0 then (False, destroy_control X w3) else (True, w3\<lparr>g_task_control := True\<rparr>))
             }))"

definition validate_bthread_min_concurrency ::
  "('q, 'r, 'x) ext \<Rightarrow> int \<Rightarrow> ('q, 'r, 'x) world \<Rightarrow> bool \<times> ('q, 'r, 'x) world" where
  "validate_bthread_min_concurrency X val w =
     (if val \<le> 0 then (True, w)
      else if val < int (min_concurrency X) \<or> val > flag_concurrency w then (False, w)
      else if \<not> g_task_control w then (True, w)
      else
        let w1 = lock_control X w;
            concurrency = tc_concurrency (control w1)
        in (if val > concurrency then
              let (added, w2) = add_workers X (val - concurrency) w1 in (added = val - concurrency, w2)
            else (True, w1)))"

definition bthread_getconcurrency :: "('q, 'r, 'x) world \<Rightarrow> int" where
  "bthread_getconcurrency w = flag_concurrency w"

text \<open>\<open>bthread_setconcurrency\<close> with the lock held.\<close>

definition setconcurrency_locked ::
  "('q, 'r, 'x) ext \<Rightarrow> int \<Rightarrow> ('q, 'r, 'x) world \<Rightarrow> errcode \<times> ('q, 'r, 'x) world" where
  "setconcurrency_locked X num w =
     (if \<not> g_task_control w then
        (E0, if never_set_bthread_concurrency w
             then w\<lparr>never_set_bthread_concurrency := False, flag_concurrency := num\<rparr>
             else if num > flag_concurrency w then w\<lparr>flag_concurrency := num\<rparr> else w)
      else
        let w1 = (if flag_concurrency w \<noteq> tc_concurrency (control w)
                  then w\<lparr>flag_concurrency := tc_concurrency (control w)\<rparr> else w)
        in (if num > flag_concurrency w1 then
              let (added, w2) = add_workers X (num - flag_concurrency w1) w1
              in (E0, w2\<lparr>flag_concurrency := flag_concurrency w2 + added\<rparr>)
            else (if num = flag_concurrency w1 then E0 else EPERM, w1)))"

definition bthread_setconcurrency ::
  "('q, 'r, 'x) ext \<Rightarrow> int \<Rightarrow> ('q, 'r, 'x) world \<Rightarrow> errcode \<times> ('q, 'r, 'x) world" where
  "bthread_setconcurrency X num w =
     (if num < int (min_concurrency X) \<or> num > int (max_concurrency X) then (EINVAL, w)
      else if flag_min_concurrency w > 0 then
        if num < flag_min_concurrency w then (EINVAL, w)
        else (E0, w\<lparr>never_set_bthread_concurrency := False, flag_concurrency := num\<rparr>)
      else if g_task_control w \<and> num < tc_concurrency (control w) then (EPERM, w)
      else if g_task_control w \<and> num = tc_concurrency (control w) then (E0, w)
      else setconcurrency_locked X num (lock_control X w))"

definition validate_bthread_concurrency ::
  "('q, 'r, 'x) ext \<Rightarrow> int \<Rightarrow> ('q, 'r, 'x) world \<Rightarrow> bool \<times> ('q, 'r, 'x) world" where
  "validate_bthread_concurrency X val w =
     (let (e, w1) = bthread_setconcurrency X val w in (e = E0, w1))"

section \<open>Starting bthreads\<close>

text \<open>
  The group for NOSIGNAL bthreads of a thread that is no worker is remembered; a NULL group is not checked for, and
  None stands for following it.
\<close>

definition start_from_non_worker ::
  "('q, 'r, 'x) ext \<Rightarrow> bthread_attr option \<Rightarrow> nat option \<Rightarrow> nat \<Rightarrow> ('q, 'r, 'x) world
   \<Rightarrow> (errcode \<times> bthread_t option \<times> ('q, 'r, 'x) world) option" where
  "start_from_non_worker X attr fn arg w =
     do {
       (c, w1) \<leftarrow> get_or_new_task_control X w;
       (if \<not> c then Some (ENOMEM, None, w1)
        else if (case attr of None \<Rightarrow> False | Some a \<Rightarrow> attr_nosignal a) then
          (case tls_task_group_nosignal (cur_tls w1) of
             Some g \<Rightarrow> start_background X True g attr fn arg w1
           | None \<Rightarrow> do {
               (go, w2) \<leftarrow> choose_one_group X w1;
               g \<leftarrow> go;
               start_background X True g attr fn arg
                 (w2\<lparr>cur_tls := (cur_tls w2)\<lparr>tls_task_group_nosignal := Some g\<rparr>\<rparr>)
             })
        else do {
          (go, w2) \<leftarrow> choose_one_group X w1;
          g \<leftarrow> go;
          start_background X True g attr fn arg w2
        })
     }"

text \<open>The boolean says whether the caller was switched away.\<close>

definition bthread_start_urgent ::
  "('q, 'r, 'x) ext \<Rightarrow> bthread_attr option \<Rightarrow> nat option \<Rightarrow> nat \<Rightarrow> ('q, 'r, 'x) world
   \<Rightarrow> (errcode \<times> bthread_t option \<times> bool \<times> ('q, 'r, 'x) world) option" where
  "bthread_start_urgent X attr fn arg w =
     (case tls_task_group (cur_tls w) of
        Some g \<Rightarrow> do { (e, th, jumped, g', w1) \<leftarrow> start_foreground X g attr fn arg w; Some (e, th, jumped, w1) }
      | None \<Rightarrow> do { (e, th, w1) \<leftarrow> start_from_non_worker X attr fn arg w; Some (e, th, False, w1) })"

definition bthread_start_background ::
  "('q, 'r, 'x) ext \<Rightarrow> bthread_attr option \<Rightarrow> nat option \<Rightarrow> nat \<Rightarrow> ('q, 'r, 'x) world
   \<Rightarrow> (errcode \<times> bthread_t option \<times> ('q, 'r, 'x) world) option" where
  "bthread_start_background X attr fn arg w =
     (case tls_task_group (cur_tls w) of
        Some g \<Rightarrow> start_background X False g attr fn arg w
      | None \<Rightarrow> start_from_non_worker X attr fn arg w)"

definition bthread_flush ::
  "('q, 'r, 'x) ext \<Rightarrow> ('q, 'r, 'x) world \<Rightarrow> ('q, 'r, 'x) world option" where
  "bthread_flush X w =
     (case tls_task_group (cur_tls w) of
        Some g \<Rightarrow> flush_nosignal_tasks X g w
      | None \<Rightarrow>
          (case tls_task_group_nosignal (cur_tls w) of
             Some g \<Rightarrow> flush_nosignal_tasks_remote X g
                         (w\<lparr>cur_tls := (cur_tls w)\<lparr>tls_task_group_nosignal := None\<rparr>\<rparr>)
           | None \<Rightarrow> Some w))"

section \<open>Acting on bthreads\<close>

definition bthread_interrupt ::
  "('q, 'r, 'x) ext \<Rightarrow> bthread_t \<Rightarrow> ('q, 'r, 'x) world \<Rightarrow> (errcode \<times> ('q, 'r, 'x) world) option" where
  "bthread_interrupt X tid w = interrupt X tid (g_task_control w) w"

definition bthread_stop ::
  "('q, 'r, 'x) ext \<Rightarrow> bthread_t \<Rightarrow> ('q, 'r, 'x) world \<Rightarrow> (errcode \<times> ('q, 'r, 'x) world) option" where
  "bthread_stop X tid w = do { w1 \<leftarrow> set_stopped tid w; bthread_interrupt X tid w1 }"

definition bthread_stopped :: "bthread_t \<Rightarrow> ('q, 'r, 'x) world \<Rightarrow> int option" where
  "bthread_stopped tid w = map_option (\<lambda>b. if b then 1 else 0) (is_stopped tid w)"

text \<open>The group the caller runs on as a bthread, if it is no main task.\<close>

definition bthread_group :: "('q, 'r, 'x) ext \<Rightarrow> ('q, 'r, 'x) world \<Rightarrow> gid option option" where
  "bthread_group X w =
     (case tls_task_group (cur_tls w) of
        None \<Rightarrow> Some None
      | Some g \<Rightarrow> do {
          tg \<leftarrow> group_at w g;
          cur \<leftarrow> tg_cur_meta tg;
          Some (if is_current_main_task X tg (metas w cur) then None else Some g)
        })"

definition bthread_self :: "('q, 'r, 'x) ext \<Rightarrow> ('q, 'r, 'x) world \<Rightarrow> bthread_t option" where
  "bthread_self X w =
     do { go \<leftarrow> bthread_group X w; (case go of Some g \<Rightarrow> current_tid g w | None \<Rightarrow> Some (invalid_bthread X)) }"

definition bthread_equal :: "bthread_t \<Rightarrow> bthread_t \<Rightarrow> bool" where
  "bthread_equal t1 t2 \<longleftrightarrow> t1 = t2"

text \<open>How a call of \<open>bthread_exit\<close> ends.\<close>

datatype exit_way = ThrowExitException nat | PthreadExit nat

definition bthread_exit :: "('q, 'r, 'x) ext \<Rightarrow> nat \<Rightarrow> ('q, 'r, 'x) world \<Rightarrow> exit_way option" where
  "bthread_exit X retval w =
     do { go \<leftarrow> bthread_group X w; Some (if go \<noteq> None then ThrowExitException retval else PthreadExit retval) }"

definition bthread_join ::
  "('q, 'r, 'x) ext \<Rightarrow> bthread_t \<Rightarrow> ('q, 'r, 'x) world \<Rightarrow> (errcode \<times> ('q, 'r, 'x) world) option" where
  "bthread_join X tid w = join X tid w"

definition bthread_attr_init :: "('q, 'r, 'x) ext \<Rightarrow> bthread_attr \<Rightarrow> int \<times> bthread_attr" where
  "bthread_attr_init X a = (0, attr_normal X)"

definition bthread_attr_destroy :: "bthread_attr \<Rightarrow> int" where
  "bthread_attr_destroy a = 0"

definition bthread_getattr ::
  "bthread_t \<Rightarrow> ('q, 'r, 'x) world \<Rightarrow> int \<times> bthread_attr option \<times> ('q, 'r, 'x) world" where
  "bthread_getattr tid w = get_attr tid w"

text \<open>
  \<open>bthread_about_to_quit\<close> as it is written: its body is that of a function that adds a timer, and uses the
  names \<open>on_timer\<close> and \<open>abstime\<close>, which are arguments here; the identifier of the timer is a result.
\<close>

definition bthread_about_to_quit ::
  "('q, 'r, 'x) ext \<Rightarrow> timer_callback \<Rightarrow> int \<Rightarrow> ('q, 'r, 'x) world
   \<Rightarrow> errcode \<times> 64 word option \<times> ('q, 'r, 'x) world" where
  "bthread_about_to_quit X on_timer abstime w =
     (if tls_task_group (cur_tls w) \<noteq> None then (ENOMEM, None, w)
      else
        let (x, ready) = create_timer_thread X (outside w) in
        if \<not> ready then (ENOMEM, None, w\<lparr>outside := x\<rparr>)
        else
          let (x1, tmp) = timer_schedule X x on_timer abstime;
              w1 = w\<lparr>outside := x1\<rparr>
          in (if tmp \<noteq> 0 then (E0, Some tmp, w1) else (ESTOP, None, w1)))"

text \<open>The state that \<open>unschedule\<close> returns, if it is not negative, or \<open>EINVAL\<close>.\<close>

definition bthread_timer_del ::
  "('q, 'r, 'x) ext \<Rightarrow> 64 word \<Rightarrow> ('q, 'r, 'x) world \<Rightarrow> (errcode + int) \<times> ('q, 'r, 'x) world" where
  "bthread_timer_del X i w =
     (if g_task_control w then
        if \<not> has_timer_thread X (outside w) then (Inl EINVAL, w)
        else
          let (x, state) = timer_unschedule X (outside w) i;
              w1 = w\<lparr>outside := x\<rparr>
          in (if state \<ge> 0 then (Inr state, w1) else (Inl EINVAL, w1))
      else (Inl EINVAL, w))"

text \<open>
  \<open>bthread_usleep\<close> and \<open>bthread_yield\<close>: \<open>Inl\<close> when the caller is a bthread, which is then switched away as in
  \<open>usleep_begin\<close> and \<open>yield\<close>, \<open>Inr\<close> the result of the system call otherwise.
\<close>

definition runs_bthread :: "('q, 'r, 'x) ext \<Rightarrow> ('q, 'r, 'x) world \<Rightarrow> gid option option" where
  "runs_bthread X w =
     (case tls_task_group (cur_tls w) of
        None \<Rightarrow> Some None
      | Some g \<Rightarrow> do {
          tg \<leftarrow> group_at w g;
          cur \<leftarrow> tg_cur_meta tg;
          Some (if is_current_pthread_task X tg (metas w cur) then None else Some g)
        })"

definition bthread_usleep ::
  "('q, 'r, 'x) ext \<Rightarrow> 64 word \<Rightarrow> ('q, 'r, 'x) world
   \<Rightarrow> ((sleep_args option \<times> bool \<times> gid + int) \<times> ('q, 'r, 'x) world) option" where
  "bthread_usleep X microseconds w =
     do {
       go \<leftarrow> runs_bthread X w;
       (case go of
          Some g \<Rightarrow> do { (e, jumped, g', w1) \<leftarrow> usleep_begin X g microseconds w; Some (Inl (e, jumped, g'), w1) }
        | None \<Rightarrow> let (rc, w1) = sys_usleep X microseconds w in Some (Inr rc, w1))
     }"

definition bthread_yield ::
  "('q, 'r, 'x) ext \<Rightarrow> ('q, 'r, 'x) world \<Rightarrow> ((bool \<times> gid + int) \<times> ('q, 'r, 'x) world) option" where
  "bthread_yield X w =
     do {
       go \<leftarrow> runs_bthread X w;
       (case go of
          Some g \<Rightarrow> do { (jumped, g', w1) \<leftarrow> yield X g w; Some (Inl (jumped, g'), w1) }
        | None \<Rightarrow> let (rc, w1) = sched_yield X w in Some (Inr rc, w1))
     }"

definition bthread_set_worker_startfn ::
  "nat option \<Rightarrow> ('q, 'r, 'x) world \<Rightarrow> errcode \<times> ('q, 'r, 'x) world" where
  "bthread_set_worker_startfn fn w =
     (case fn of None \<Rightarrow> (EINVAL, w) | Some f \<Rightarrow> (E0, w\<lparr>g_worker_startfn := Some f\<rparr>))"

definition bthread_stop_world ::
  "('q, 'r, 'x) ext \<Rightarrow> ('q, 'r, 'x) world \<Rightarrow> ('q, 'r, 'x) world" where
  "bthread_stop_world X w = (if g_task_control w then stop_and_join X w else w)"

section \<open>Lists of bthreads\<close>

record bthread_list =
  bl_impl :: "nat option"
  bl_head :: int
  bl_size :: int
  bl_conflict_head :: int
  bl_conflict_size :: int

definition bthread_list_init ::
  "('q, 'r, 'x) ext \<Rightarrow> bthread_list \<Rightarrow> ('q, 'r, 'x) world \<Rightarrow> errcode \<times> bthread_list \<times> ('q, 'r, 'x) world" where
  "bthread_list_init X l w =
     (case new_list X (outside w) of
        (x, None) \<Rightarrow> (ENOMEM, l\<lparr>bl_impl := None\<rparr>, w\<lparr>outside := x\<rparr>)
      | (x, Some i) \<Rightarrow>
          (E0, \<lparr>bl_impl = Some i, bl_head = 0, bl_size = 0, bl_conflict_head = 0, bl_conflict_size = 0\<rparr>,
           w\<lparr>outside := x\<rparr>))"

definition bthread_list_destroy ::
  "('q, 'r, 'x) ext \<Rightarrow> bthread_list \<Rightarrow> ('q, 'r, 'x) world \<Rightarrow> bthread_list \<times> ('q, 'r, 'x) world" where
  "bthread_list_destroy X l w = (l\<lparr>bl_impl := None\<rparr>, w\<lparr>outside := delete_list X (outside w) (bl_impl l)\<rparr>)"

definition bthread_list_add ::
  "('q, 'r, 'x) ext \<Rightarrow> bthread_list \<Rightarrow> bthread_t \<Rightarrow> ('q, 'r, 'x) world \<Rightarrow> (errcode + int) \<times> ('q, 'r, 'x) world" where
  "bthread_list_add X l tid w =
     (case bl_impl l of
        None \<Rightarrow> (Inl EINVAL, w)
      | Some i \<Rightarrow> let (x, rc) = list_add X (outside w) i tid in (Inr rc, w\<lparr>outside := x\<rparr>))"

text \<open>\<open>apply\<close> with \<open>TidStopper\<close>: what \<open>bthread_stop\<close> returns is ignored.\<close>

fun stop_each ::
  "('q, 'r, 'x) ext \<Rightarrow> bthread_t list \<Rightarrow> ('q, 'r, 'x) world \<Rightarrow> ('q, 'r, 'x) world option" where
  "stop_each X [] w = Some w"
| "stop_each X (t # ts) w = do { (rc, w1) \<leftarrow> bthread_stop X t w; stop_each X ts w1 }"

definition bthread_list_stop ::
  "('q, 'r, 'x) ext \<Rightarrow> bthread_list \<Rightarrow> ('q, 'r, 'x) world \<Rightarrow> (errcode \<times> ('q, 'r, 'x) world) option" where
  "bthread_list_stop X l w =
     (case bl_impl l of
        None \<Rightarrow> Some (EINVAL, w)
      | Some i \<Rightarrow> do { w1 \<leftarrow> stop_each X (list_ids X (outside w) i) w; Some (E0, w1) })"

text \<open>\<open>apply\<close> with \<open>TidJoiner\<close>, which overwrites each identifier it has joined.\<close>

fun join_each ::
  "('q, 'r, 'x) ext \<Rightarrow> nat \<Rightarrow> bthread_t list \<Rightarrow> bthread_t list \<Rightarrow> ('q, 'r, 'x) world \<Rightarrow> ('q, 'r, 'x) world option" where
  "join_each X i joined [] w = Some w"
| "join_each X i joined (t # ts) w =
     do {
       (rc, w1) \<leftarrow> bthread_join X t w;
       let joined1 = joined @ [invalid_bthread X];
       join_each X i joined1 ts (w1\<lparr>outside := list_store X (outside w1) i (joined1 @ ts)\<rparr>)
     }"

definition bthread_list_join ::
  "('q, 'r, 'x) ext \<Rightarrow> bthread_list \<Rightarrow> ('q, 'r, 'x) world \<Rightarrow> (errcode \<times> ('q, 'r, 'x) world) option" where
  "bthread_list_join X l w =
     (case bl_impl l of
        None \<Rightarrow> Some (EINVAL, w)
      | Some i \<Rightarrow> do { w1 \<leftarrow> join_each X i [] (list_ids X (outside w) i) w; Some (E0, w1) })"

section \<open>The number of workers\<close>

text \<open>The vector of workers has one entry for each of them.\<close>

definition workers_ok :: "('q, 'r, 'x) world \<Rightarrow> bool" where
  "workers_ok w \<longleftrightarrow>
     0 \<le> tc_concurrency (control w) \<and> length (tc_workers (control w)) = nat (tc_concurrency (control w))"



text \<open>
  \<open>bthread_setconcurrency\<close> returns \<open>EINVAL\<close> exactly for a number out of the limits or below the
  minimum when there is one, and then changes nothing; with a minimum it only sets the flag; and without one it refuses
  to shrink a running control, without any effect, and leaves the rest to the critical section.
\<close>

lemma setconcurrency_errors:
  assumes "bthread_setconcurrency X num w = (e, w')"
  defines "invalid \<equiv> num < int (min_concurrency X) \<or> num > int (max_concurrency X)
    \<or> 0 < flag_min_concurrency w \<and> num < flag_min_concurrency w"
  shows "(e = EINVAL \<longleftrightarrow> invalid) \<and> (invalid \<longrightarrow> w' = w)
    \<and> (\<not> invalid \<and> 0 < flag_min_concurrency w \<longrightarrow> e = E0 \<and> control w' = control w \<and> bthread_getconcurrency w' = num)
    \<and> (\<not> invalid \<and> \<not> 0 < flag_min_concurrency w \<longrightarrow>
         (if g_task_control w \<and> num < tc_concurrency (control w) then e = EPERM \<and> w' = w
          else if g_task_control w \<and> num = tc_concurrency (control w) then e = E0 \<and> w' = w
          else setconcurrency_locked X num (lock_control X w) = (e, w')))"
proof -
  have "fst (setconcurrency_locked X num u) \<noteq> EINVAL" for u :: "('a, 'b, 'c) world"
    by (simp add: setconcurrency_locked_def Let_def split: prod.split)
  then have "setconcurrency_locked X num u \<noteq> (EINVAL, v)" for u v :: "('a, 'b, 'c) world" by (metis fst_conv)
  then show ?thesis using assms(1) unfolding invalid_def
    by (auto simp: bthread_setconcurrency_def bthread_getconcurrency_def split: if_splits)
qed

lemma setconcurrency_errors_witness:
  "bthread_setconcurrency demo_ext 4 (run_world []) = (EINVAL, run_world [])"
proof -
  obtain e w' where e: "bthread_setconcurrency demo_ext 4 (run_world []) = (e, w')" by fastforce
  then show ?thesis using setconcurrency_errors [OF e] by (simp add: demo_ext_def)
qed

text \<open>
  A successful second call with a smaller number before the control exists, and one whose workers cannot all be
  created, do not make \<open>bthread_getconcurrency\<close> return the number set.
\<close>

lemma setconcurrency_may_not_set:
  assumes "\<not> g_task_control (lock_control X w)" and "\<not> never_set_bthread_concurrency (lock_control X w)"
    and "num < flag_concurrency (lock_control X w)" and "\<not> g_task_control w" and "flag_min_concurrency w \<le> 0"
    and "int (min_concurrency X) \<le> num" and "num \<le> int (max_concurrency X)"
  shows "\<exists>w'. bthread_setconcurrency X num w = (E0, w') \<and> bthread_getconcurrency w' \<noteq> num"
  using assms by (auto simp: bthread_setconcurrency_def setconcurrency_locked_def bthread_getconcurrency_def)

text \<open>
  A value of the flag \<open>bthread_min_concurrency\<close> that is accepted and positive lies between the minimum and
  the flag \<open>bthread_concurrency\<close>; and if there is a control it has at least that many workers then.
\<close>

lemma min_concurrency_validated:
  assumes "validate_bthread_min_concurrency X val w = (True, w')" and "0 < val"
    and "g_task_control w \<longrightarrow> workers_ok (lock_control X w)"
  shows "int (min_concurrency X) \<le> val \<and> val \<le> flag_concurrency w
    \<and> (if g_task_control w then val \<le> tc_concurrency (control w') \<and> workers_ok w' else w' = w)"
proof (cases "g_task_control w")
  case False
  then show ?thesis using assms(1,2) by (auto simp: validate_bthread_min_concurrency_def split: if_splits)
next
  case True
  let ?u = "lock_control X w"
  let ?c = "tc_concurrency (control ?u)"
  have lim: "int (min_concurrency X) \<le> val" "val \<le> flag_concurrency w"
    using assms(1,2) by (auto simp: validate_bthread_min_concurrency_def split: if_splits)
  have res: "(if val > ?c then let (added, w2) = add_workers X (val - ?c) ?u in (added = val - ?c, w2)
      else (True, ?u)) = (True, w')"
    using assms(1,2) lim True by (simp add: validate_bthread_min_concurrency_def Let_def)
  show ?thesis
  proof (cases "val > ?c")
    case False
    then show ?thesis using res assms(3) lim True by simp
  next
    case more: True
    obtain added w2 where add: "add_workers X (val - ?c) ?u = (added, w2)" by fastforce
    then have "added = val - ?c" "w2 = w'" using res more by simp_all
    then show ?thesis using add_workers_spec [OF _ _ _ add] assms(3) True more lim by (simp add: workers_ok_def)
  qed
qed

lemma min_concurrency_validated_witness:
  "\<exists>w'. validate_bthread_min_concurrency demo_ext 3 (run_world []) = (True, w')
    \<and> 3 \<le> tc_concurrency (control w')"
proof -
  obtain w' where w': "validate_bthread_min_concurrency demo_ext 3 (run_world []) = (True, w')"
    by (simp add: validate_bthread_min_concurrency_def add_workers_def add_workers_loop.simps run_world_def demo_defs Let_def)
  have "workers_ok (lock_control demo_ext (run_world []))" "g_task_control (run_world [])"
    by (simp_all add: workers_ok_def run_world_def demo_defs)
  then show ?thesis using min_concurrency_validated [OF w'] w' by simp
qed

section \<open>One control\<close>

text \<open>
  C39.  \<open>get_or_new_task_control\<close> makes at most one TaskControl: it leaves one that exists, or that another thread made
  while this one waited for the lock, alone; one it makes has a worker whose group is listed when it is returned; and once
  it has returned one, it always returns it.
\<close>

theorem one_task_control:
  assumes "get_or_new_task_control X w = Some (ok, w')"
  shows "(g_task_control w \<longrightarrow> ok \<and> w' = w)
    \<and> (\<not> g_task_control w \<and> g_task_control (lock_control X w) \<longrightarrow> ok \<and> w' = lock_control X w)
    \<and> (\<not> g_task_control w \<and> \<not> g_task_control (lock_control X w) \<and> ok \<longrightarrow> tc_ngroup (control w') \<noteq> 0)
    \<and> (ok \<longrightarrow> g_task_control w' \<and> get_or_new_task_control X w' = Some (True, w'))"
proof -
  have "g_task_control w' \<and> (g_task_control w \<or> g_task_control (lock_control X w) \<or> tc_ngroup (control w') \<noteq> 0)"
    if "ok"
  proof (cases "g_task_control w \<or> g_task_control (lock_control X w)")
    case True
    then show ?thesis using assms by (auto simp: get_or_new_task_control_def Let_def split: if_splits)
  next
    case False
    let ?u = "lock_control X w"
    obtain x r where nc: "new_task_control X (outside ?u) = (x, r)" by fastforce
    then have r: "r" using assms False that by (cases r) (auto simp: get_or_new_task_control_def)
    let ?n = "if flag_min_concurrency ?u > 0 then flag_min_concurrency ?u else flag_concurrency ?u"
    obtain rc w3 where ic: "init_control X ?n (?u\<lparr>outside := x, control := fresh_control X\<rparr>) = Some (rc, w3)"
      and res: "(if rc \<noteq> 0 then (False, destroy_control X w3) else (True, w3\<lparr>g_task_control := True\<rparr>)) = (ok, w')"
      using assms False nc r
      by (auto simp: get_or_new_task_control_def Let_def bind_Some_conv cong: if_cong split del: if_split)
    have "rc = 0" "w' = w3\<lparr>g_task_control := True\<rparr>" using res that by (simp_all split: if_splits)
    then show ?thesis using init_control_grouped [OF ic [unfolded \<open>rc = 0\<close>]] by simp
  qed
  moreover have "g_task_control w \<Longrightarrow> ok \<and> w' = w"
    "\<not> g_task_control w \<Longrightarrow> g_task_control (lock_control X w) \<Longrightarrow> ok \<and> w' = lock_control X w"
    using assms by (auto simp: get_or_new_task_control_def)
  moreover have "get_or_new_task_control X w' = Some (True, w')" if "g_task_control w'"
    using that by (simp add: get_or_new_task_control_def)
  ultimately show ?thesis by blast
qed

lemma one_task_control_witness:
  "get_or_new_task_control demo_ext (run_world []) = Some (True, run_world [])"
proof -
  have g: "g_task_control (run_world [])" by (simp add: run_world_def demo_defs)
  then obtain ok w' where "get_or_new_task_control demo_ext (run_world []) = Some (ok, w')"
    by (simp add: get_or_new_task_control_def)
  then show ?thesis using one_task_control [of demo_ext "run_world []" ok w'] g by auto
qed

section \<open>Batches of bthreads\<close>

lemma pool_fresh_anyD:
  assumes "pool_fresh_any X w" and "metas u = metas w" and "butexes u = butexes w" and "groups u = groups w"
  shows "pool_fresh X u"
  unfolding pool_fresh_def
proof (intro allI impI)
  fix x w' s assume "get_meta X (u\<lparr>outside := x\<rparr>) = (w', Some s)"
  then have "slot_free X s w"
    using assms(1) [unfolded pool_fresh_any_def, rule_format, of "u\<lparr>outside := x\<rparr>"] assms(2,3) by simp
  then show "unused s u" using assms(4) by (simp add: slot_free_def unused_def)
qed

lemma start_background_tls:
  assumes "ext_queues_ok X" and "naps_ok X" and "pool_ok X" and "pool_fresh X w"
    and "start_background X remote g attr fn arg w = Some (E0, Some t, w')"
  shows "cur_tls w' = cur_tls w"
proof -
  obtain r w1 where cr: "create_task X (using_attr X attr) fn arg w = Some (r, w1)"
    using assms(5) by (auto simp: start_background_def bind_Some_conv)
  then have r: "r = Inr t" using assms(5) by (cases r) (auto simp: start_background_def Let_def bind_Some_conv)
  note ct = cr [unfolded r]
  have push: "(if remote then ready_to_run_remote X g t (attr_nosignal (using_attr X attr)) (count_bthreads 1 w1)
        else ready_to_run X g t (attr_nosignal (using_attr X attr)) (count_bthreads 1 w1)) = Some w'"
    using assms(5) ct by (auto simp: start_background_def Let_def bind_Some_conv)
  have "moves X {#t#} (count_bthreads 1 w1) w'"
    using push ready_to_run_moves [OF assms(1,2)] ready_to_run_remote_moves [OF assms(1,2)] by (auto split: if_splits)
  then show ?thesis using create_task_spec(7) [OF assms(3,4) ct] by (simp add: moves_def steady_def)
qed

text \<open>Starting from a thread that is no worker, with a control: what the group is, and then \<open>start_background\<close>.\<close>

lemma start_from_non_worker_cases:
  assumes "g_task_control w" and "start_from_non_worker X attr fn arg w = Some (r, th, w')"
  obtains g u where "start_background X True g attr fn arg u = Some (r, th, w')"
    and "groups u = groups w" "metas u = metas w" "butexes u = butexes w" "waiters u = waiters w"
    and "tls_task_group (cur_tls u) = tls_task_group (cur_tls w)"
    and "tls_task_group_nosignal (cur_tls u) =
      (if \<exists>a. attr = Some a \<and> attr_nosignal a then Some g else tls_task_group_nosignal (cur_tls w))"
proof (cases "\<exists>a. attr = Some a \<and> attr_nosignal a")
  case True
  show thesis
  proof (cases "tls_task_group_nosignal (cur_tls w)")
    case None
    then obtain g w2 where "choose_one_group X w = Some (Some g, w2)"
      and "start_background X True g attr fn arg (w2\<lparr>cur_tls := (cur_tls w2)\<lparr>tls_task_group_nosignal := Some g\<rparr>\<rparr>)
        = Some (r, th, w')"
      using assms True by (auto simp: start_from_non_worker_def get_or_new_task_control_def bind_Some_conv)
    then show thesis using that [of g "w2\<lparr>cur_tls := (cur_tls w2)\<lparr>tls_task_group_nosignal := Some g\<rparr>\<rparr>"] True
      by (auto simp: choose_one_group_def bind_Some_conv Let_def split: if_splits prod.splits)
  next
    case (Some g)
    then have "start_background X True g attr fn arg w = Some (r, th, w')"
      using assms True by (auto simp: start_from_non_worker_def get_or_new_task_control_def bind_Some_conv)
    then show thesis using that [of g w] Some True by simp
  qed
next
  case False
  then obtain g w2 where "choose_one_group X w = Some (Some g, w2)" "start_background X True g attr fn arg w2 = Some (r, th, w')"
    using assms by (auto simp: start_from_non_worker_def get_or_new_task_control_def bind_Some_conv split: option.splits)
  then show thesis using that [of g w2] False
    by (auto simp: choose_one_group_def bind_Some_conv Let_def split: if_splits prod.splits)
qed

lemma flush_remote_result:
  assumes "flush_nosignal_tasks_remote X g w = Some w'"
  shows "\<exists>tg. group_at w' g = Some tg \<and> tg_remote_num_nosignal tg = 0" and "moves X {#} w w'"
proof -
  obtain tg where tg: "group_at w g = Some tg"
    using assms by (auto simp: flush_nosignal_tasks_remote_def bind_Some_conv)
  have put: "group_at (put_group g tg' w) g = Some tg'" for tg' using tg by (simp add: nth_opt_Some)
  show "\<exists>tg. group_at w' g = Some tg \<and> tg_remote_num_nosignal tg = 0"
    using assms tg put
    by (auto simp: flush_nosignal_tasks_remote_def flush_nosignal_tasks_remote_locked_def Let_def split: if_splits)
  show "moves X {#} w w'" by (rule flush_remote_moves [OF assms])
qed


text \<open>A thread that is no worker starts a bthread in the new slot 6.\<close>

definition caller_world :: demo_world where
  "caller_world = demo_world None
     [demo_group 1 (make_tid 1 1) [] [], demo_group 2 (make_tid 1 2) [] []] [] Map.empty"

lemma caller_world_fresh: "pool_fresh_any demo_ext caller_world"
proof -
  have "tasks demo_ext caller_world = {#}"
    by (simp add: tasks_def queued_def running_def waiting_def pending_def queue_of_def running_in_def remained_tids_def
        bthreads_of_def meta_tid_def caller_world_def make_tid_demo demo_defs)
  then show ?thesis unfolding pool_fresh_any_def slot_free_def places_def
    by (auto simp: sleeping_def sleep_tids_def unused_def caller_world_def make_tid_demo demo_defs Let_def split: if_splits)
qed


section \<open>Stopping bthreads\<close>

text \<open>
  A bthread that was stopped stays so; an identifier whose bthread has ended counts as stopped.  The other threads do not
  take a stop back.
\<close>

definition still_stopped :: "('q, 'r, 'x) world \<Rightarrow> ('q, 'r, 'x) world \<Rightarrow> bool" where
  "still_stopped w w' \<longleftrightarrow> (\<forall>t. is_stopped t w = Some True \<longrightarrow> is_stopped t w' = Some True)"

definition stops_ok :: "('q, 'r, 'x) ext \<Rightarrow> bool" where
  "stops_ok X \<longleftrightarrow>
     (\<forall>w. still_stopped w (nap X w)) \<and> (\<forall>b w. still_stopped w (grab X b w))
   \<and> (\<forall>g w w'. ready_nosignal_tasks_remote X g w = Some w' \<longrightarrow> still_stopped w w')"

definition keeps_stops :: "('q, 'r, 'x) ext \<Rightarrow> ('q, 'r, 'x) world \<Rightarrow> ('q, 'r, 'x) world \<Rightarrow> bool" where
  "keeps_stops X w w' \<longleftrightarrow> (stops_ok X \<longrightarrow> still_stopped w w')"

lemma is_stopped_cong: "metas w' = metas w \<Longrightarrow> butexes w' = butexes w \<Longrightarrow> is_stopped t w' = is_stopped t w"
  by (simp add: is_stopped_def address_meta_def version_of_def split: option.split)

lemma keeps_stops_cong: "metas w' = metas w \<Longrightarrow> butexes w' = butexes w \<Longrightarrow> keeps_stops X w w'"
  by (simp add: keeps_stops_def still_stopped_def is_stopped_cong [of w' w])

lemma keeps_stops_trans: "keeps_stops X u v \<Longrightarrow> keeps_stops X v w \<Longrightarrow> keeps_stops X u w"
  by (simp add: keeps_stops_def still_stopped_def)

lemma keeps_stops_meta:
  assumes "metas w s = Some m" and "tm_version_butex m' = tm_version_butex m" and "tm_stop m \<longrightarrow> tm_stop m'"
  shows "keeps_stops X w (put_meta s m' w)"
proof -
  have "is_stopped t (put_meta s m' w) = Some True" if "is_stopped t w = Some True" for t
    using that assms by (cases "get_slot t = s") (auto simp: is_stopped_def address_meta_def version_of_def bind_Some_conv
        split: option.splits if_splits)
  then show ?thesis by (simp add: keeps_stops_def still_stopped_def)
qed

lemma keeps_stops_butex:
  assumes "butex_at w b = Some bx" and "bx_value bx' = bx_value bx"
  shows "keeps_stops X w (put_butex b bx' w)"
proof -
  have "version_of (put_butex b bx' w) m = version_of w m" for m
    using assms by (cases "b = tm_version_butex m") (auto simp: version_of_def nth_opt_def split: if_splits)
  then have "is_stopped t (put_butex b bx' w) = is_stopped t w" for t
    by (simp add: is_stopped_def address_meta_def split: option.split)
  then show ?thesis by (simp add: keeps_stops_def still_stopped_def)
qed

interpretation stops: kept_by_pushes keeps_stops
proof unfold_locales
  fix X :: "('a, 'b, 'c) ext" and u v w :: "('a, 'b, 'c) world" and g tg' n
  show "keeps_stops X w w" by (rule keeps_stops_cong) simp_all
  show "keeps_stops X u v \<Longrightarrow> keeps_stops X v w \<Longrightarrow> keeps_stops X u w" by (rule keeps_stops_trans)
  show "keeps_stops X w (put_group g tg' w)" by (rule keeps_stops_cong) simp_all
  show "keeps_stops X w (signal_task X n w)" by (rule keeps_stops_cong) simp_all
  show "keeps_stops X w (nap X w)" by (simp add: keeps_stops_def stops_ok_def)
qed

lemma keeps_stops_choose: "choose_one_group X w = Some (go, w') \<Longrightarrow> keeps_stops X w w'"
  by (auto simp: choose_one_group_def bind_Some_conv Let_def split: if_splits prod.splits intro: keeps_stops_cong)

lemma keeps_stops_erase_loop:
  assumes "erase_loop X i st w = Some (erased, w')"
  shows "keeps_stops X w w'"
proof -
  have "X' = X \<longrightarrow> keeps_stops X w (snd r)" if "erase_loop X' i st w = Some r" for X' i st w r
  proof (rule erase_loop.raw_induct [OF _ that, where P = "\<lambda>X' i st w r. X' = X \<longrightarrow> keeps_stops X w (snd r)"], goal_cases)
    case (1 f X' i st w r)
    show ?case
    proof
      assume X: "X' = X"
      obtain bw where bw: "waiters w i = Some bw" using 1(2) by (auto simp: bind_Some_conv)
      show "keeps_stops X w (snd r)"
      proof (cases "w_container bw")
        case None
        then show ?thesis using 1(2) bw stops.refl by auto
      next
        case (Some b)
        let ?w1 = "grab X b w"
        have gr: "keeps_stops X w ?w1" by (simp add: keeps_stops_def stops_ok_def)
        obtain bw1 where bw1: "waiters ?w1 i = Some bw1" using 1(2) bw Some X by (auto simp: bind_Some_conv Let_def)
        show ?thesis
        proof (cases "w_container bw1 = Some b")
          case True
          then obtain bx where bx: "butex_at ?w1 b = Some bx" and r: "snd r = put_waiter i (bw1\<lparr>w_container := None,
              w_state := (if w_tid bw1 \<noteq> 0 then st else w_state bw1)\<rparr>) (put_butex b (bx\<lparr>bx_waiters := remove1 i (bx_waiters bx)\<rparr>) ?w1)"
            using 1(2) bw Some X bw1 by (auto simp: bind_Some_conv Let_def)
          have "keeps_stops X ?w1 (put_butex b (bx\<lparr>bx_waiters := remove1 i (bx_waiters bx)\<rparr>) ?w1)"
            by (rule keeps_stops_butex [OF bx]) simp
          then have "keeps_stops X ?w1 (snd r)"
            unfolding r by (rule keeps_stops_trans) (rule keeps_stops_cong, simp_all)
          then show ?thesis using gr keeps_stops_trans by blast
        next
          case False
          then have "f X i st ?w1 = Some r" using 1(2) bw Some X bw1 by (auto simp: Let_def)
          then have "keeps_stops X ?w1 (snd r)" using 1(1) by blast
          then show ?thesis using gr keeps_stops_trans by blast
        qed
      qed
    qed
  qed
  from this [OF assms] show ?thesis by simp
qed

lemma keeps_stops_erase:
  assumes "erase_from_butex X i wakeup st w = Some (erased, w')"
  shows "keeps_stops X w w'"
proof -
  obtain w1 w2 where loop: "erase_loop X i st w = Some (erased, w1)"
    and wake: "(if erased \<and> wakeup then do {
                 bw \<leftarrow> waiters w1 i;
                 (if w_tid bw \<noteq> 0 then do {
                    (g, w2) \<leftarrow> get_task_group X w1;
                    g' \<leftarrow> g;
                    ready_to_run_general X g' (w_tid bw) False w2
                  }
                  else wakeup_pthread X i w1)
               }
               else Some w1) = Some w2"
    and w': "w' = set_errno (tls_errno (cur_tls w)) w2"
    using assms by (auto simp: erase_from_butex_def bind_Some_conv Let_def split del: if_split)
  have tg: "keeps_stops X u v" if "get_task_group X u = Some (g, v)" for g u v
    using that stops.refl by (auto simp: get_task_group_def split: option.splits intro: keeps_stops_choose)
  have rg: "keeps_stops X u v" if "ready_to_run_general X g t ns u = Some v" for g t ns u v
  proof (cases "tls_task_group (cur_tls u) = Some g")
    case True
    then show ?thesis using that stops.ready by (simp add: ready_to_run_general_def)
  next
    case False
    then show ?thesis using that by (simp add: ready_to_run_general_def keeps_stops_def stops_ok_def)
  qed
  have wp: "keeps_stops X u v" if "wakeup_pthread X i u = Some v" for u v
    using that by (auto simp: wakeup_pthread_def bind_Some_conv Let_def case_prod_beta intro!: keeps_stops_cong)
  have "keeps_stops X w1 w2"
    using wake stops.refl tg rg wp keeps_stops_trans
    by (auto simp: bind_Some_conv split: if_splits) blast
  then have "keeps_stops X w w2" using keeps_stops_erase_loop [OF loop] keeps_stops_trans by blast
  moreover have "keeps_stops X w2 w'" unfolding w' by (rule keeps_stops_cong) (simp_all add: set_errno_def)
  ultimately show ?thesis by (rule keeps_stops_trans)
qed

lemma keeps_stops_interrupt:
  assumes "interrupt X tid has_c w = Some (rc, w')"
  shows "keeps_stops X w w'"
proof -
  obtain r w1 where iw: "interrupt_and_consume_waiters tid w = Some (r, w1)"
    using assms by (auto simp: interrupt_def bind_Some_conv)
  have k1: "keeps_stops X w w1"
    using iw stops.refl by (auto simp: interrupt_and_consume_waiters_def bind_Some_conv address_meta_def
        split: option.splits if_splits intro: keeps_stops_meta)
  show ?thesis
  proof (cases r)
    case (Inl e)
    then show ?thesis using assms iw k1 by (simp add: interrupt_def)
  next
    case (Inr p)
    obtain bw sid where p: "p = (bw, sid)" by fastforce
    define w2 where "w2 = (if sid = 0 \<or> bw = None then w1 else log_fatal CheckSleepAndWait w1)"
    have k2: "keeps_stops X w w2" by (rule keeps_stops_trans [OF k1]) (simp add: w2_def keeps_stops_cong stops.refl)
    show ?thesis
    proof (cases bw)
      case (Some i)
      then obtain erased w3 w4 where er: "erase_from_butex X i True WAITER_STATE_INTERRUPTED w2 = Some (erased, w3)"
        and sb: "set_butex_waiter tid i w3 = Some (rc, w4)"
        and w': "w' = (if rc \<noteq> E0 then log_fatal FatalInterruptWaiterLost w4 else w4)"
        using assms iw Inr p by (auto simp: interrupt_def erase_from_butex_because_of_interruption_def bind_Some_conv
            w2_def Let_def split del: if_split)
      have "keeps_stops X w3 w4"
        using sb stops.refl by (auto simp: set_butex_waiter_def bind_Some_conv address_meta_def
            split: option.splits if_splits intro: keeps_stops_meta)
      moreover have "keeps_stops X w4 w'" by (simp add: w' keeps_stops_cong stops.refl)
      ultimately show ?thesis using k2 keeps_stops_erase [OF er] keeps_stops_trans by blast
    next
      case None
      show ?thesis
      proof (cases "sid = 0")
        case True
        then show ?thesis using assms iw Inr p None k2 by (simp add: interrupt_def w2_def)
      next
        case False
        obtain x k where un: "timer_unschedule X (outside w2) sid = (x, k)" by fastforce
        let ?w3 = "w2\<lparr>outside := x\<rparr>"
        have k3: "keeps_stops X w ?w3" by (rule keeps_stops_trans [OF k2]) (simp add: keeps_stops_cong)
        have res: "(if k \<noteq> 0 then Some (E0, ?w3) else wake_sleeper X tid has_c ?w3) = Some (rc, w')"
          using assms iw Inr p None False un by (simp add: interrupt_def w2_def Let_def split: if_splits)
        have "keeps_stops X ?w3 w'" if "wake_sleeper X tid has_c ?w3 = Some (rc, w')"
          using that by (auto simp: wake_sleeper_def bind_Some_conv split: option.splits if_splits
              intro: stops.refl stops.ready keeps_stops_trans [OF keeps_stops_choose stops.ready_remote])
        then show ?thesis using res k3 keeps_stops_trans by (auto split: if_splits)
      qed
    qed
  qed
qed

lemma set_stopped_stops:
  assumes "set_stopped tid w = Some w'"
  shows "is_stopped tid w' = Some True" and "keeps_stops X w w'"
    and "tid \<noteq> 0 \<Longrightarrow> exists tid w = Some False \<Longrightarrow> w' = w"
proof -
  show "is_stopped tid w' = Some True"
  proof (cases "address_meta w tid")
    case None
    then show ?thesis using assms by (simp add: set_stopped_def is_stopped_def)
  next
    case (Some m)
    then obtain v where v: "version_of w m = Some v" and w': "w' = (if get_version tid = v
        then put_meta (get_slot tid) (m\<lparr>tm_stop := True\<rparr>) w else w)"
      using assms by (auto simp: set_stopped_def bind_Some_conv)
    have "version_of w (m\<lparr>tm_stop := True\<rparr>) = Some v" using v by (simp add: version_of_def)
    then show ?thesis using Some v by (simp add: is_stopped_def w' address_meta_put_meta)
  qed
  show "tid \<noteq> 0 \<Longrightarrow> exists tid w = Some False \<Longrightarrow> w' = w"
    using assms by (auto simp: set_stopped_def exists_def bind_Some_conv split: option.splits if_splits)
  show "keeps_stops X w w'"
    using assms stops.refl by (auto simp: set_stopped_def bind_Some_conv address_meta_def
        split: option.splits if_splits intro: keeps_stops_meta)
qed

lemma bthread_stop_spec:
  assumes "stops_ok X" and "bthread_stop X tid w = Some (rc, w')"
  shows "bthread_stopped tid w' = Some 1"
    and "bthread_stopped t w = Some 1 \<Longrightarrow> bthread_stopped t w' = Some 1"
    and "tid \<noteq> 0 \<Longrightarrow> exists tid w = Some False \<Longrightarrow> rc = EINVAL \<and> w' = w"
proof -
  have one: "bthread_stopped t u = Some 1 \<longleftrightarrow> is_stopped t u = Some True" for t and u :: "('a, 'b, 'c) world"
    by (auto simp: bthread_stopped_def)
  obtain w1 where ss: "set_stopped tid w = Some w1" and it: "interrupt X tid (g_task_control w1) w1 = Some (rc, w')"
    using assms(2) by (auto simp: bthread_stop_def bthread_interrupt_def bind_Some_conv)
  note s = set_stopped_stops [OF ss]
  have "still_stopped w1 w'" "still_stopped w w1"
    using keeps_stops_interrupt [OF it] s(2) [of X] assms(1) by (simp_all add: keeps_stops_def)
  then show "bthread_stopped tid w' = Some 1" "bthread_stopped t w = Some 1 \<Longrightarrow> bthread_stopped t w' = Some 1"
    using s(1) by (simp_all add: one still_stopped_def)
  show "rc = EINVAL \<and> w' = w" if "tid \<noteq> 0" "exists tid w = Some False"
    using s(3) [OF that] it that
    by (auto simp: interrupt_def interrupt_and_consume_waiters_def exists_def bind_Some_conv split: option.splits if_splits)
qed

text \<open>
  After \<open>bthread_stop\<close> the bthread counts as stopped, whatever it was doing and whatever the other threads do meanwhile,
  and so do those that were stopped before; for a bthread that does not exist it returns \<open>EINVAL\<close> and does nothing.
\<close>

lemma bthread_stop_correct:
  assumes "stops_ok X" and "bthread_stop X tid w = Some (rc, w')"
  shows "bthread_stopped tid w' = Some 1
    \<and> (\<forall>t. bthread_stopped t w = Some 1 \<longrightarrow> bthread_stopped t w' = Some 1)
    \<and> (tid \<noteq> 0 \<and> exists tid w = Some False \<longrightarrow> rc = EINVAL \<and> w' = w)"
  using bthread_stop_spec [OF assms] by blast

lemma demo_nap_stopped: "still_stopped w (nap demo_ext w)"
proof -
  have "metas (nap demo_ext w) = metas w" "butexes (nap demo_ext w) = butexes w" by (simp_all add: demo_ext_def)
  then have "is_stopped t (nap demo_ext w) = is_stopped t w" for t by (rule is_stopped_cong)
  then show ?thesis by (simp add: still_stopped_def)
qed

lemma demo_stops_ok: "stops_ok demo_ext"
proof -
  have "grab demo_ext b w = w" "ready_nosignal_tasks_remote demo_ext g w = Some w" for b g w
    by (simp_all add: demo_ext_def)
  then show ?thesis unfolding stops_ok_def using demo_nap_stopped by (simp add: still_stopped_def)
qed

lemma bthread_stop_correct_witness:
  "\<exists>w'. bthread_stop demo_ext (make_tid 1 3) (sleep_world (Some 0)) = Some (E0, w') \<and> bthread_stopped (make_tid 1 3) w' = Some 1"
proof -
  obtain w' where w': "bthread_stop demo_ext (make_tid 1 3) (sleep_world (Some 0)) = Some (E0, w')"
    by (simp add: bthread_stop_def bthread_interrupt_def set_stopped_def interrupt_def interrupt_and_consume_waiters_def
        wake_sleeper_def version_of_def sleep_world_def demo_sched_defs get_version_def Let_def)
  then show ?thesis using bthread_stop_correct [OF demo_stops_ok w'] by blast
qed

lemma stop_each_stops:
  assumes "stops_ok X"
  shows "stop_each X ts w = Some w' \<Longrightarrow>
    (\<forall>t \<in> set ts. bthread_stopped t w' = Some 1) \<and> (\<forall>t. bthread_stopped t w = Some 1 \<longrightarrow> bthread_stopped t w' = Some 1)"
proof (induction ts arbitrary: w)
  case (Cons t ts)
  then obtain rc w1 where st: "bthread_stop X t w = Some (rc, w1)" and rest: "stop_each X ts w1 = Some w'"
    by (auto simp: bind_Some_conv)
  show ?case using bthread_stop_spec(1,2) [OF assms st] Cons.IH [OF rest] by auto
qed simp

text \<open>
  \<open>bthread_list_stop\<close> stops every bthread of the list, and fails with \<open>EINVAL\<close> on a list that was not initialised.
\<close>

lemma bthread_list_stop_correct:
  assumes "stops_ok X" and "bthread_list_stop X l w = Some (rc, w')"
  shows "case bl_impl l of
      None \<Rightarrow> rc = EINVAL \<and> w' = w
    | Some i \<Rightarrow> rc = E0 \<and> (\<forall>t \<in> set (list_ids X (outside w) i). bthread_stopped t w' = Some 1)"
  using assms(2) stop_each_stops [OF assms(1)] by (auto simp: bthread_list_stop_def bind_Some_conv split: option.splits)

lemma bthread_list_stop_correct_witness:
  "\<exists>w'. bthread_list_stop demo_ext \<lparr>bl_impl = Some 1, bl_head = 0, bl_size = 0, bl_conflict_head = 0, bl_conflict_size = 0\<rparr>
      ((run_world [])\<lparr>outside := demo_sim\<lparr>sim_list := [make_tid 1 3, make_tid 1 5]\<rparr>\<rparr>) = Some (E0, w')
    \<and> bthread_stopped (make_tid 1 3) w' = Some 1 \<and> bthread_stopped (make_tid 1 5) w' = Some 1"
proof -
  let ?l = "\<lparr>bl_impl = Some 1, bl_head = 0, bl_size = 0, bl_conflict_head = 0, bl_conflict_size = 0\<rparr>"
  let ?w = "(run_world [])\<lparr>outside := demo_sim\<lparr>sim_list := [make_tid 1 3, make_tid 1 5]\<rparr>\<rparr>"
  obtain w' where w': "bthread_list_stop demo_ext ?l ?w = Some (E0, w')"
    by (simp add: bthread_list_stop_def bthread_stop_def bthread_interrupt_def set_stopped_def interrupt_def
        interrupt_and_consume_waiters_def version_of_def address_meta_def run_world_def make_tid_demo get_version_def
        put_defs demo_defs Let_def)
  have "list_ids demo_ext (outside ?w) 1 = [make_tid 1 3, make_tid 1 5]" by (simp add: demo_ext_def)
  then show ?thesis using bthread_list_stop_correct [OF demo_stops_ok w'] w' by simp
qed

end
