(* ===== verification/System.thy ===== *)
theory System
  imports Api
begin

text \<open>
  The runtime as a whole.  The abstract specification knows only which bthreads are alive: a bthread that is not alive
  may start, one that is alive may end, and everything else leaves the set alone.  The step relation has one rule for
  each operation of the components, executed by any thread, in any order; every step keeps the invariant of the system
  and is a step of the specification, in which each bthread that is alive is in exactly one place.
\<close>

section \<open>The specification\<close>

datatype event = Tau | Starts bthread_t | Ends bthread_t

fun abs_step :: "bthread_t set \<Rightarrow> event \<Rightarrow> bthread_t set option" where
  "abs_step A Tau = Some A"
| "abs_step A (Starts t) = (if t = 0 \<or> t \<in> A then None else Some (insert t A))"
| "abs_step A (Ends t) = (if t \<in> A then Some (A - {t}) else None)"

fun abs_run :: "bthread_t set \<Rightarrow> event list \<Rightarrow> bthread_t set option" where
  "abs_run A [] = Some A"
| "abs_run A (e # es) = do { B \<leftarrow> abs_step A e; abs_run B es }"

text \<open>A bthread that was alive or started, and did not end, is alive.\<close>

lemma abs_run_alive:
  assumes "abs_run A es = Some B" and "t \<in> A \<or> Starts t \<in> set es" and "Ends t \<notin> set es"
  shows "t \<in> B"
  using assms
proof (induction es arbitrary: A)
  case (Cons e es)
  obtain C where C: "abs_step A e = Some C" "abs_run C es = Some B" using Cons.prems(1) by (auto simp: bind_Some_conv)
  then have "t \<in> C \<or> Starts t \<in> set es"
    using Cons.prems(2,3) by (cases e) (auto split: if_splits)
  then show ?case using Cons.IH [OF C(2)] Cons.prems(3) by simp
qed simp

section \<open>The invariant\<close>

text \<open>The main tasks of the workers are alive, and are no bthreads of the places.\<close>

definition mains_ok :: "('q, 'r, 'x) ext \<Rightarrow> ('q, 'r, 'x) world \<Rightarrow> bool" where
  "mains_ok X w \<longleftrightarrow> (\<forall>t \<in> set (mains w). t \<noteq> 0 \<longrightarrow> live_task w t \<and> t \<notin># tasks X w)"

definition system_ok :: "('q, 'r, 'x) ext \<Rightarrow> ('q, 'r, 'x) world \<Rightarrow> bool" where
  "system_ok X w \<longleftrightarrow> butexes_ok w \<and> tasks_ok X w \<and> mains_ok X w \<and> 0 \<notin># tasks X w"

definition alive :: "('q, 'r, 'x) ext \<Rightarrow> ('q, 'r, 'x) world \<Rightarrow> bthread_t set" where
  "alive X w = set_mset (tasks X w)"

text \<open>
  The simulation: the invariant is kept and the specification makes the step.  Moreover slots that are in use keep their identifiers, and
  main tasks and bthreads that are new get slots that were free.
\<close>

definition slots_kept ::
  "('q, 'r, 'x) ext \<Rightarrow> ('q, 'r, 'x) world \<Rightarrow> event \<Rightarrow> ('q, 'r, 'x) world \<Rightarrow> bool" where
  "slots_kept X w e w' \<longleftrightarrow>
     (\<forall>s. slot_free X s w \<or> meta_tid w' s = meta_tid w s)
   \<and> (\<forall>t \<in> set (mains w'). t = 0 \<or> t \<in> set (mains w) \<or> slot_free X (get_slot t) w)
   \<and> (\<forall>t. e = Starts t \<longrightarrow> slot_free X (get_slot t) w)"

definition simulates ::
  "('q, 'r, 'x) ext \<Rightarrow> ('q, 'r, 'x) world \<Rightarrow> event \<Rightarrow> ('q, 'r, 'x) world \<Rightarrow> bool" where
  "simulates X w e w' \<longleftrightarrow>
     system_ok X w' \<and> abs_step (alive X w) e = Some (alive X w') \<and> slots_kept X w e w'"

lemma slots_kept_same:
  "meta_tid w' = meta_tid w \<Longrightarrow> mains w' = mains w \<Longrightarrow> (\<And>t. e \<noteq> Starts t) \<Longrightarrow> slots_kept X w e w'"
  by (simp add: slots_kept_def)

lemma simulates_same:
  assumes "system_ok X w" and "tasks X w' = tasks X w" and "meta_tid w' = meta_tid w" and "mains w' = mains w"
    and "butexes_ok w \<longrightarrow> butexes_ok w'"
  shows "simulates X w Tau w'"
  using assms tasks_ok_cong [OF assms(2,3)] slots_kept_same [OF assms(3,4)]
  by (simp add: simulates_def system_ok_def alive_def mains_ok_def live_task_def)

lemma simulates_switches: "system_ok X w \<Longrightarrow> switches X {#} {#} w w' \<Longrightarrow> simulates X w Tau w'"
  by (rule simulates_same) (simp_all add: switches_def)

lemma simulates_moves: "system_ok X w \<Longrightarrow> moves X {#} w w' \<Longrightarrow> simulates X w Tau w'"
  by (rule simulates_switches [OF _ moves_switches])

lemma simulates_then:
  assumes "simulates X w e u" and "switches X {#} {#} u w'"
  shows "simulates X w e w'"
proof -
  have "simulates X u Tau w'" using assms by (intro simulates_switches) (simp_all add: simulates_def)
  moreover have "meta_tid w' = meta_tid u" "mains w' = mains u" using assms(2) by (simp_all add: switches_def)
  ultimately show ?thesis using assms(1) by (simp add: simulates_def slots_kept_def)
qed

lemma simulates_ends:
  assumes "system_ok X w" and "switches X {#} {#t#} w w'" and "t \<notin># tasks X w'"
  shows "simulates X w (Ends t) w'"
proof -
  have tk: "tasks X w = add_mset t (tasks X w')" and mt: "meta_tid w' = meta_tid w" and mn: "mains w' = mains w"
    and ok: "butexes_ok w'"
    using assms(1,2) by (simp_all add: switches_def system_ok_def)
  have "tasks_ok X w'" unfolding tasks_ok_def
  proof (intro allI impI)
    fix u assume u: "u \<in># tasks X w'"
    then have "u \<in># tasks X w" "u \<noteq> t" using assms(3) tk by auto
    then show "live_task w' u \<and> count (tasks X w') u = 1"
      using assms(1) tk mt by (auto simp: system_ok_def tasks_ok_def live_task_def)
  qed
  moreover have "mains_ok X w'" using assms(1) tk mt mn by (auto simp: system_ok_def mains_ok_def live_task_def)
  moreover have "alive X w' = alive X w - {t}" "t \<in> alive X w" using tk assms(3) by (auto simp: alive_def)
  ultimately show ?thesis using assms(1) ok tk slots_kept_same [OF mt mn] by (simp add: simulates_def system_ok_def)
qed

definition started_event :: "bthread_t option \<Rightarrow> event" where
  "started_event th = (case th of None \<Rightarrow> Tau | Some t \<Rightarrow> Starts t)"

lemma slot_free_live:
  assumes "slot_free X s w" and "meta_tid w' = (meta_tid w)(s \<mapsto> t)" and "get_slot u \<noteq> s" and "live_task w u"
  shows "live_task w' u"
  using assms by (simp add: live_task_def)

lemma slot_free_others:
  assumes "slot_free X s w"
  shows "u \<in># tasks X w \<Longrightarrow> get_slot u \<noteq> s" and "u \<in> set (mains w) \<Longrightarrow> get_slot u \<noteq> s"
  using assms by (auto simp: slot_free_def unused_def mains_def places_def)

lemma simulates_started:
  assumes "system_ok X w" and "started X r th w w'" and "\<forall>t. th = Some t \<longrightarrow> slot_free X (get_slot t) w"
  shows "simulates X w (started_event th) w'"
proof (cases th)
  case None
  then have "simulates X w Tau w'" using assms(1,2) by (intro simulates_same) (simp_all add: started_def)
  then show ?thesis by (simp add: started_event_def None)
next
  case (Some t)
  note free = assms(3) [rule_format, OF Some]
  have st: "t \<noteq> 0" "tasks X w' = add_mset t (tasks X w)" "meta_tid w' = (meta_tid w)(get_slot t \<mapsto> t)"
    "mains w' = mains w" "butexes_ok w'"
    using assms(1,2) Some by (simp_all add: started_def system_ok_def)
  have new: "t \<notin># tasks X w" "t \<notin> set (mains w)" using slot_free_others [OF free] by blast+
  have "tasks_ok X w'" unfolding tasks_ok_def
  proof (intro allI impI)
    fix u assume "u \<in># tasks X w'"
    then consider "u = t" | "u \<in># tasks X w" "u \<noteq> t" using st(2) by auto
    then show "live_task w' u \<and> count (tasks X w') u = 1"
    proof cases
      case 1
      then show ?thesis using st(2,3) new(1) by (simp add: live_task_def count_eq_zero_iff)
    next
      case 2
      then show ?thesis using assms(1) st(2) slot_free_live [OF free st(3) slot_free_others(1) [OF free 2(1)]]
        by (simp add: system_ok_def tasks_ok_def)
    qed
  qed
  moreover have "mains_ok X w'" unfolding mains_ok_def
  proof (intro ballI impI)
    fix u assume u: "u \<in> set (mains w')" "u \<noteq> 0"
    then have um: "u \<in> set (mains w)" by (simp add: st(4))
    then have "live_task w u" "u \<notin># tasks X w" "u \<noteq> t"
      using assms(1) u(2) new(2) by (auto simp: system_ok_def mains_ok_def)
    then show "live_task w' u \<and> u \<notin># tasks X w'"
      using slot_free_live [OF free st(3) slot_free_others(2) [OF free um]] st(2) by simp
  qed
  moreover have "slots_kept X w (Starts t) w'" using st(3,4) free by (auto simp: slots_kept_def)
  ultimately show ?thesis using st new(1) assms(1)
    by (simp add: simulates_def system_ok_def started_event_def Some alive_def)
qed

section \<open>The steps\<close>

text \<open>The laws of the outside that the steps rely on; each is stated with the component that needs it.\<close>

definition outside_ok :: "('q, 'r, 'x) ext \<Rightarrow> bool" where
  "outside_ok X \<longleftrightarrow>
     ext_queues_ok X \<and> naps_ok X \<and> grabs_ok X \<and> pl_waits_ok X \<and> pool_ok X \<and> group_memory_ok X
   \<and> (\<forall>w. moves X {#} w (spin X w))"

text \<open>
  The executing pthread is the worker of group \<open>g\<close> and runs the task of slot \<open>cur\<close>, for which the callbacks of the last switch
  are done.  The task is a bthread if its identifier is not that of the main task.
\<close>

definition runs ::
  "gid \<Rightarrow> ('q, 'r) task_group \<Rightarrow> slot \<Rightarrow> task_meta \<Rightarrow> ('q, 'r, 'x) world \<Rightarrow> bool" where
  "runs g tg cur m w \<longleftrightarrow>
     tls_task_group (cur_tls w) = Some g \<and> group_at w g = Some tg \<and> tg_cur_meta tg = Some cur
   \<and> metas w cur = Some m \<and> tg_last_context_remained tg = None \<and> tg_main_tid tg \<noteq> 0"

definition runs_bthread_of ::
  "gid \<Rightarrow> ('q, 'r) task_group \<Rightarrow> slot \<Rightarrow> task_meta \<Rightarrow> ('q, 'r, 'x) world \<Rightarrow> bool" where
  "runs_bthread_of g tg cur m w \<longleftrightarrow> runs g tg cur m w \<and> tm_tid m \<noteq> tg_main_tid tg"

text \<open>Who may wake others: a thread that is no worker, or a bthread.\<close>

definition may_wake :: "('q, 'r, 'x) world \<Rightarrow> bool" where
  "may_wake w \<longleftrightarrow> tls_task_group (cur_tls w) = None \<or> (\<exists>g tg cur m. runs_bthread_of g tg cur m w)"

text \<open>
  One rule for each operation.  Sleeping is not among them: its steps need the laws of the timer and follow in \<open>Runtime\<close>.  Neither is
  the timeout of a bthread that waits, nor an interruption from a thread that is no worker, which lose
  the bthread (lemma \<open>erase_from_non_worker_loses_task\<close>).
\<close>

inductive system_step ::
  "('q, 'r, 'x) ext \<Rightarrow> ('q, 'r, 'x) world \<Rightarrow> event \<Rightarrow> ('q, 'r, 'x) world \<Rightarrow> bool" for X where
  other_thread: "system_step X w Tau (w\<lparr>cur_tls := tls\<rparr>)"
| store: "butex_at w b = Some bx \<Longrightarrow> system_step X w Tau (put_butex b (bx\<lparr>bx_value := v\<rparr>) w)"
| background: "pool_fresh_any X w \<Longrightarrow> start_background X remote g attr fn arg w = Some (r, th, w') \<Longrightarrow>
    system_step X w (started_event th) w'"
| foreground: "pool_fresh_any X w \<Longrightarrow> runs_bthread_of g tg cur m w \<Longrightarrow>
    start_foreground X g attr fn arg w = Some (r, th, jumped, g', w') \<Longrightarrow> system_step X w (started_event th) w'"
| yields: "runs_bthread_of g tg cur m w \<Longrightarrow> yield X g w = Some (jumped, g', w') \<Longrightarrow> system_step X w Tau w'"
| finishes: "runs_bthread_of g tg cur m w \<Longrightarrow> task_finish X cur w = Some (jumped, g', w') \<Longrightarrow>
    system_step X w (Ends (tm_tid m)) w'"
| waits: "runs_bthread_of g tg cur m w \<Longrightarrow> \<not> is_current_pthread_task X tg (Some m) \<Longrightarrow> waiter_free i w \<Longrightarrow>
    butex_wait_begin X b expected abstime i w = Some (r, w') \<Longrightarrow> system_step X w Tau w'"
| goes_on: "butex_wait_end X i w = Some (rc, w') \<Longrightarrow> system_step X w Tau w'"
| wakes: "may_wake w \<Longrightarrow> butex_wake X b w = Some (n, jumped, w') \<Longrightarrow> system_step X w Tau w'"
| wakes_all: "runs_bthread_of g tg cur m w \<Longrightarrow> butex_wake_all X b w = Some (n, jumped, w') \<Longrightarrow> system_step X w Tau w'"
| wakes_except: "runs_bthread_of g tg cur m w \<Longrightarrow> butex_wake_except X b excl w = Some (n, w') \<Longrightarrow> system_step X w Tau w'"
| interrupts: "(\<And>m. address_meta w tid = Some m \<Longrightarrow> tm_current_sleep m = 0
      \<and> (tm_current_waiter m = None \<or> tls_task_group (cur_tls w) \<noteq> None)) \<Longrightarrow>
    interrupt X tid has_c w = Some (rc, w') \<Longrightarrow> system_step X w Tau w'"
| stops: "set_stopped tid w = Some w' \<Longrightarrow> system_step X w Tau w'"
| idles: "runs g tg cur m w \<Longrightarrow> tm_tid m = tg_main_tid tg \<Longrightarrow> main_task_enter X g w = Some (r, w') \<Longrightarrow> system_step X w Tau w'"
| worker_starts: "pool_fresh_any X w \<Longrightarrow> create_group X w = Some (r, w') \<Longrightarrow> system_step X w Tau w'"
| worker_ends: "tls_task_group (cur_tls w) = Some g \<Longrightarrow> worker_end X g w = Some w' \<Longrightarrow> system_step X w Tau w'"
| stops_workers: "system_step X w Tau (stop_workers X w)"

text \<open>What the guards give, under the invariant.\<close>

lemma runs_main:
  assumes "system_ok X w" and "runs g tg cur m w"
  shows "live_task w (tg_main_tid tg)" and "tg_main_tid tg \<notin># tasks X w"
proof -
  have "tg_main_tid tg \<in> set (mains w)" using assms(2) by (auto simp: runs_def mains_def nth_opt_Some)
  then show "live_task w (tg_main_tid tg)" "tg_main_tid tg \<notin># tasks X w"
    using assms by (auto simp: system_ok_def mains_ok_def runs_def)
qed

lemma runs_bthread_ok:
  assumes "system_ok X w" and "runs_bthread_of g tg cur m w"
  shows "running_ok X g tg cur m w" and "tm_tid m \<noteq> 0" and "tm_tid m \<notin># waiting w"
proof -
  have run: "runs g tg cur m w" and ne: "tm_tid m \<noteq> tg_main_tid tg" using assms(2) by (simp_all add: runs_bthread_of_def)
  have ok: "tasks_ok X w" "group_at w g = Some tg" "tg_cur_meta tg = Some cur" "meta_tid w cur = Some (tm_tid m)"
    using assms(1) run by (simp_all add: system_ok_def runs_def meta_tid_Some)
  note here = running_not_queued [OF ok ne] and main = runs_main [OF assms(1) run]
  have "tg_main_tid tg \<notin># queued X w" using main(2) queued_tasks by blast
  moreover have "live_task w t" if "t \<in># queued X w" for t using ok(1) queued_tasks [OF that] by (simp add: tasks_ok_def)
  ultimately show "running_ok X g tg cur m w"
    using run ne here(2) main(1) by (simp add: running_ok_def runs_def)
  show "tm_tid m \<noteq> 0" using here(1) assms(1) by (auto simp: system_ok_def)
  show "tm_tid m \<notin># waiting w" by (rule here(3))
qed

lemma waiter_waiting:
  assumes "butex_at w b = Some bx" and "i \<in> set (bx_waiters bx)" and "waiter_tid w i \<noteq> 0"
  shows "waiter_tid w i \<in># waiting w"
proof -
  have "bthreads_of (waiter_tid w) (bx_waiters bx) \<subseteq># waiting w"
    unfolding waiting_def using msum_member [OF assms(1), of "\<lambda>b. bthreads_of (waiter_tid w) (bx_waiters b)"] by simp
  moreover have "waiter_tid w i \<in># bthreads_of (waiter_tid w) (bx_waiters bx)"
    using assms(2,3) by (simp add: bthreads_of_def)
  ultimately show ?thesis by (rule mset_subset_eqD)
qed

lemma may_wake_ok:
  assumes "system_ok X w" and "may_wake w" and "butex_at w b = Some bx"
  shows "\<forall>i \<in> set (bx_waiters bx). waiter_tid w i \<noteq> 0 \<longrightarrow> waker_ok w (waiter_tid w i)"
proof (intro ballI impI)
  fix i assume i: "i \<in> set (bx_waiters bx)" "waiter_tid w i \<noteq> 0"
  let ?t = "waiter_tid w i"
  have wt: "?t \<in># waiting w" by (rule waiter_waiting [OF assms(3) i])
  then have tk: "?t \<in># tasks X w" by (simp add: tasks_def)
  then have live: "live_task w ?t" using assms(1) by (simp add: system_ok_def tasks_ok_def)
  show "waker_ok w ?t"
  proof (cases "tls_task_group (cur_tls w) = None")
    case True
    then show ?thesis by (simp add: waker_ok_def)
  next
    case False
    then obtain g tg cur m where run: "runs_bthread_of g tg cur m w" using assms(2) by (auto simp: may_wake_def)
    note rk = runs_bthread_ok [OF assms(1) run]
    have "runs g tg cur m w" using run by (simp add: runs_bthread_of_def)
    then have "?t \<noteq> tm_tid m" "?t \<noteq> tg_main_tid tg" using rk(3) wt runs_main(2) [OF assms(1)] tk by auto
    then show ?thesis using rk(1) live meta_tid_Some [of w cur m] by (simp add: waker_ok_def running_ok_def)
  qed
qed

text \<open>A bthread has at most one waiter in a list.\<close>

lemma one_waiter:
  assumes "system_ok X w" and "butex_at w b = Some bx"
  shows "length (left_waiters w excl (bx_waiters bx)) \<le> 1"
proof (cases "excl \<in># tasks X w")
  case True
  have "length (left_waiters w excl ws) \<le> count (bthreads_of (waiter_tid w) ws) excl" for ws
    by (induction ws) (auto simp: left_waiters_def)
  also have "count (bthreads_of (waiter_tid w) (bx_waiters bx)) excl \<le> count (waiting w) excl"
    unfolding waiting_def
    using msum_member [OF assms(2), of "\<lambda>b. bthreads_of (waiter_tid w) (bx_waiters b)"] by (simp add: mset_subset_eq_count)
  also have "\<dots> \<le> count (tasks X w) excl" by (simp add: tasks_def)
  also have "\<dots> = 1" using assms(1) True by (simp add: system_ok_def tasks_ok_def)
  finally show ?thesis .
next
  case False
  then have "\<not> (i \<in> set (bx_waiters bx) \<and> waiter_tid w i \<noteq> 0 \<and> waiter_tid w i = excl)" for i
    using waiter_waiting [OF assms(2), of i] by (auto simp: tasks_def)
  then have "left_waiters w excl (bx_waiters bx) = []" by (auto simp: left_waiters_def filter_empty_conv)
  then show ?thesis by simp
qed

section \<open>Every operation is a step of the specification\<close>

lemma create_task_free:
  assumes "pool_ok X" and "pool_fresh_any X w" and "create_task X a fn arg w = Some (Inr t, w')"
  shows "slot_free X (get_slot t) w"
proof -
  obtain f where f: "fn = Some f" using assms(3) by (auto simp: create_task_def split: option.splits)
  obtain x ns where clk: "cpuwide_time_ns X (outside w) = (x, ns)" by fastforce
  obtain w1 r where gm: "get_meta X (w\<lparr>outside := x\<rparr>) = (w1, r)" by fastforce
  obtain s where s: "r = Some s" and im: "init_meta X s f arg a ns w1 = Some (t, w')"
    using assms(3) f clk gm by (cases r) (auto simp: create_task_def bind_Some_conv)
  have slot: "slot_ok s" using assms(1) [unfolded pool_ok_def, rule_format, OF gm] s by blast
  obtain v where "t = make_tid v s" using im by (auto simp: init_meta_def bind_Some_conv Let_def)
  then have "get_slot t = s" using slot by simp
  moreover have "slot_free X s w" using gm s
    by (intro assms(2) [unfolded pool_fresh_any_def, rule_format, of "w\<lparr>outside := x\<rparr>"]) simp_all
  ultimately show ?thesis by simp
qed

lemma background_simulates:
  assumes "outside_ok X" and "system_ok X w" and "pool_fresh_any X w"
    and "start_background X remote g attr fn arg w = Some (r, th, w')"
  shows "simulates X w (started_event th) w'"
proof (rule simulates_started [OF assms(2)])
  have laws: "ext_queues_ok X" "naps_ok X" "pool_ok X" using assms(1) by (simp_all add: outside_ok_def)
  have fresh: "pool_fresh X w" by (rule pool_fresh_anyD [OF assms(3)]) simp_all
  show "started X r th w w'" using start_background_spec [OF laws fresh assms(4)] by simp
  show "\<forall>t. th = Some t \<longrightarrow> slot_free X (get_slot t) w"
  proof (intro allI impI)
    fix t assume th: "th = Some t"
    obtain e w1 where ct: "create_task X (using_attr X attr) fn arg w = Some (e, w1)"
      using assms(4) by (auto simp: start_background_def bind_Some_conv)
    then have "e = Inr t" using assms(4) th by (cases e) (auto simp: start_background_def bind_Some_conv Let_def)
    with ct have "create_task X (using_attr X attr) fn arg w = Some (Inr t, w1)" by simp
    then show "slot_free X (get_slot t) w" by (rule create_task_free [OF laws(3) assms(3)])
  qed
qed

lemma foreground_simulates:
  assumes "outside_ok X" and "system_ok X w" and "pool_fresh_any X w" and "runs_bthread_of g tg cur m w"
    and "start_foreground X g attr fn arg w = Some (r, th, jumped, g', w')"
  shows "simulates X w (started_event th) w'"
proof (rule simulates_started [OF assms(2)])
  have laws: "ext_queues_ok X" "naps_ok X" "pool_ok X" using assms(1) by (simp_all add: outside_ok_def)
  have fresh: "pool_fresh X w" by (rule pool_fresh_anyD [OF assms(3)]) simp_all
  have run: "tls_task_group (cur_tls w) = Some g" "group_at w g = Some tg" "tg_cur_meta tg = Some cur"
    "meta_tid w cur = Some (tm_tid m)" "tm_tid m \<noteq> tg_main_tid tg" "tg_last_context_remained tg = None"
    using assms(4) meta_tid_Some [of w cur m] by (simp_all add: runs_bthread_of_def runs_def)
  show "started X r th w w'" using start_foreground_spec [OF laws fresh run assms(5)] by simp
  show "\<forall>t. th = Some t \<longrightarrow> slot_free X (get_slot t) w"
  proof (intro allI impI)
    fix t assume th: "th = Some t"
    obtain e w1 where ct: "create_task X (using_attr X attr) fn arg w = Some (e, w1)"
      using assms(5) by (auto simp: start_foreground_def bind_Some_conv)
    then have "e = Inr t" using assms(5) th
      by (cases e) (auto simp: start_foreground_def bind_Some_conv Let_def split: if_splits)
    with ct have "create_task X (using_attr X attr) fn arg w = Some (Inr t, w1)" by simp
    then show "slot_free X (get_slot t) w" by (rule create_task_free [OF laws(3) assms(3)])
  qed
qed

lemma finish_simulates:
  assumes "outside_ok X" and "system_ok X w" and "runs_bthread_of g tg cur m w"
    and "task_finish X cur w = Some (jumped, g', w')"
  shows "simulates X w (Ends (tm_tid m)) w'"
proof -
  have run: "runs g tg cur m w" "tm_tid m \<noteq> tg_main_tid tg" using assms(3) by (simp_all add: runs_bthread_of_def)
  have "switches X {#} {#tm_tid m#} w w' \<and> tm_tid m \<notin># tasks X w' \<and> g' = g"
    using assms(1,2) run runs_main [OF assms(2) run(1)]
    by (intro task_finish_switches [OF _ _ _ _ _ _ _ _ _ _ _ _ assms(4)]) (auto simp: outside_ok_def system_ok_def runs_def)
  then show ?thesis by (intro simulates_ends [OF assms(2)]) simp_all
qed

lemma wait_begin_simulates:
  assumes "outside_ok X" and "system_ok X w" and "runs_bthread_of g tg cur m w"
    and "\<not> is_current_pthread_task X tg (Some m)" and "waiter_free i w"
    and "butex_wait_begin X b expected abstime i w = Some (r, w')"
  shows "simulates X w Tau w'"
proof -
  note rk = runs_bthread_ok [OF assms(2,3)]
  have laws: "ext_queues_ok X" "naps_ok X" "butexes_ok w" using assms(1,2) by (simp_all add: outside_ok_def system_ok_def)
  from butex_wait_begin_spec [OF laws rk(1,2) assms(4-6)] show ?thesis
    by (intro simulates_same [OF assms(2)]) simp_all
qed

lemma unsleep_loop_moves:
  assumes "\<forall>w. moves X {#} w (spin X w)" and "unsleep_loop X i w = Some w'"
  shows "moves X {#} w w'"
proof -
  have "X' = X \<longrightarrow> moves X {#} v v'" if "unsleep_loop X' j v = Some v'" for X' j v v'
  proof (rule unsleep_loop.raw_induct [OF _ that], goal_cases)
    case (1 rec X' j v v')
    then obtain rc v1 where un: "unsleep_if_necessary X' j v = Some (rc, v1)"
      and rest: "(if rc < 0 then rec X' j (spin X' v1) else Some v1) = Some v'" by (auto simp: bind_Some_conv)
    show ?case
    proof
      assume X: "X' = X"
      have m1: "moves X {#} v v1" using unsleep_moves [OF un] X by simp
      have "moves X {#} v1 (spin X v1)" using assms(1) by blast
      then have "moves X {#} v (spin X v1)" by (rule moves_trans_0(1) [OF m1])
      then show "moves X {#} v v'"
        using rest m1 1(1) [of X' j "spin X' v1" v'] X moves_trans_0(1) [of X v "spin X v1" "{#}" v']
        by (cases "rc < 0") auto
    qed
  qed
  then show ?thesis using assms(2) by blast
qed

lemma take_current_waiter_switches:
  assumes "\<forall>w. moves X {#} w (spin X w)" and "take_current_waiter X s w = Some w'"
  shows "switches X {#} {#} w w'"
proof -
  have "X' = X \<longrightarrow> switches X {#} {#} v v'" if "take_current_waiter X' s v = Some v'" for X' s v v'
  proof (rule take_current_waiter.raw_induct [OF _ that], goal_cases)
    case (1 rec X' s v v')
    then obtain m where m: "metas v s = Some m" by (auto simp: bind_Some_conv)
    let ?v = "put_meta s (m\<lparr>tm_current_waiter := None\<rparr>) v"
    have p: "switches X {#} {#} v ?v" by (rule switches_put_meta [OF m]) simp
    have rest: "(if tm_current_waiter m = None then rec X' s (spin X' ?v) else Some ?v) = Some v'"
      using 1(2) m by (simp add: Let_def split: option.splits)
    show ?case
    proof
      assume X: "X' = X"
      have "switches X {#} {#} ?v (spin X ?v)" using assms(1) by (simp add: moves_switches)
      then have "switches X {#} {#} v (spin X ?v)" by (rule switches_trans_0(1) [OF p])
      then show "switches X {#} {#} v v'"
        using rest p 1(1) [of X' s "spin X' ?v" v'] X switches_trans_0(1) [of X v "spin X ?v" "{#}" "{#}" v']
        by (cases "tm_current_waiter m = None") auto
    qed
  qed
  then show ?thesis using assms(2) by blast
qed

lemma wait_end_simulates:
  assumes "outside_ok X" and "system_ok X w" and "butex_wait_end X i w = Some (rc, w')"
  shows "simulates X w Tau w'"
proof -
  have spin: "\<forall>w. moves X {#} w (spin X w)" using assms(1) by (simp add: outside_ok_def)
  obtain w1 bw where u: "unsleep_loop X i w = Some w1" and bw: "waiters w1 i = Some bw"
    using assms(3) by (auto simp: butex_wait_end_def bind_Some_conv)
  let ?s = "w_task_meta bw"
  obtain w2 m where t: "take_current_waiter X ?s w1 = Some w2" and m: "metas w2 ?s = Some m"
    using assms(3) u bw by (auto simp: butex_wait_end_def bind_Some_conv Let_def)
  define w3 where "w3 = (if tm_interrupted m then put_meta ?s (m\<lparr>tm_interrupted := False\<rparr>) w2 else w2)"
  have w': "w' = w3 \<or> (\<exists>e. w' = set_errno e w3)"
    using assms(3) u bw t m by (auto simp: butex_wait_end_def bind_Some_conv Let_def w3_def split: if_splits)
  have s3: "switches X {#} {#} w2 w3" using m by (auto simp: w3_def intro!: switches_put_meta switches_cong)
  have s4: "switches X {#} {#} w3 (set_errno e w3)" for e
    by (rule switches_cong) (simp_all add: meta_tid_def fun_eq_iff)
  have "switches X {#} {#} w w3"
    using moves_switches [OF unsleep_loop_moves [OF spin u]] take_current_waiter_switches [OF spin t] s3
      switches_trans_0(1) by blast
  then have "switches X {#} {#} w w'" using w' s4 switches_trans_0(1) by blast
  then show ?thesis by (rule simulates_switches [OF assms(2)])
qed

lemma set_stopped_switches: "set_stopped tid w = Some w' \<Longrightarrow> switches X {#} {#} w w'"
  by (auto simp: set_stopped_def address_meta_def bind_Some_conv split: option.splits if_splits
      intro: switches_put_meta moves_switches)

lemma idle_simulates:
  assumes "outside_ok X" and "system_ok X w" and "runs g tg cur m w" and "tm_tid m = tg_main_tid tg"
    and "main_task_enter X g w = Some (r, w')"
  shows "simulates X w Tau w'"
proof -
  have "switches X {#} {#} w w'"
    using assms(1-3) runs_main [OF assms(2,3)] main_task_enter_switches [OF _ _ _ _ _ _ _ _ assms(4) _ _ assms(5)]
    by (auto simp: outside_ok_def system_ok_def runs_def)
  then show ?thesis by (rule simulates_switches [OF assms(2)])
qed

text \<open>A world that has grown by a group that runs nothing but its main task.\<close>

lemma grown_simulates:
  assumes "system_ok X w" and "grown X w w' tg"
    and "tg_cur_meta tg = None \<and> tg_main_tid tg = 0 \<or> main_task_ok w' tg \<and> slot_free X (get_slot (tg_main_tid tg)) w"
  shows "simulates X w Tau w'"
proof -
  have "running_in (meta_tid w') tg = {#}"
    using assms(3) main_task_not_running idle_group_not_running by blast
  note tk = grown_tasks [OF assms(2) this]
  have slots: "slot_free X s w \<or> meta_tid w' s = meta_tid w s" for s using assms(2) by (simp add: grown_def)
  have live: "live_task w' t" if "live_task w t" "t \<in># tasks X w \<or> t \<in> set (mains w)" for t
    using that slots [of "get_slot t"] slot_free_others [of X "get_slot t" w t] by (auto simp: live_task_def)
  have mn: "mains w' = mains w @ [tg_main_tid tg]" using assms(2) by (simp add: mains_def grown_def)
  have sk: "slots_kept X w Tau w'" using slots assms(3) mn by (auto simp: slots_kept_def)
  note mn
  moreover have "live_task w' (tg_main_tid tg) \<and> tg_main_tid tg \<notin># tasks X w" if "tg_main_tid tg \<noteq> 0"
    using assms(3) that slot_free_others(1) [of X "get_slot (tg_main_tid tg)" w "tg_main_tid tg"]
    by (auto simp: main_task_ok_def live_task_def meta_tid_def address_meta_def)
  ultimately have "mains_ok X w'" using assms(1) live tk(1) by (auto simp: system_ok_def mains_ok_def)
  moreover have "tasks_ok X w'" using assms(1) live tk(1) by (simp add: system_ok_def tasks_ok_def)
  ultimately show ?thesis using assms(1) tk sk by (simp add: simulates_def system_ok_def alive_def)
qed

lemma create_group_simulates:
  assumes "outside_ok X" and "system_ok X w" and "pool_fresh_any X w" and "create_group X w = Some (r, w')"
  shows "simulates X w Tau w'"
proof -
  have laws: "pool_ok X" "group_memory_ok X" using assms(1) by (simp_all add: outside_ok_def)
  from laws assms(3,4) show ?thesis
  proof (cases rule: create_group_cases)
    case memory
    then show ?thesis by (intro simulates_same [OF assms(2)]) (simp_all add: mains_def)
  next
    case (fails tg)
    then show ?thesis using grown_simulates [OF assms(2)] by blast
  next
    case (works tg u)
    have sim: "simulates X w Tau u" using grown_simulates [OF assms(2) works(2)] works(4,5) by blast
    have same: "groups w' = groups u" "metas w' = metas u" "butexes w' = butexes u" "waiters w' = waiters u" "cur_tls w' = cur_tls u"
      using works(6) by (auto simp: add_group_def Let_def split: if_splits)
    have "switches X {#} {#} u w'" by (rule switches_cong) (simp_all add: same meta_tid_cong [OF same(2)])
    then show ?thesis by (rule simulates_then [OF sim])
  qed
qed

lemma other_thread_simulates:
  assumes "system_ok X w" and "groups w' = groups w" and "metas w' = metas w" and "butexes w' = butexes w" and "waiters w' = waiters w"
  shows "simulates X w Tau w'"
proof (rule simulates_same [OF assms(1)])
  note mt = meta_tid_cong [OF assms(3)]
  show "tasks X w' = tasks X w" by (rule tasks_cong [OF assms(2) mt assms(4) waiter_tid_cong [OF assms(5)]])
  show "meta_tid w' = meta_tid w" "mains w' = mains w" by (rule mt, rule mains_cong [OF assms(2)])
  show "butexes_ok w \<longrightarrow> butexes_ok w'" using butexes_ok_cong [OF assms(4,5)] by simp
qed

lemma worker_end_simulates:
  assumes "system_ok X w" and "worker_end X g w = Some w'"
  shows "simulates X w Tau w'"
proof -
  let ?w = "w\<lparr>cur_tls := (cur_tls w)\<lparr>tls_task_group := None\<rparr>\<rparr>"
  have sim: "simulates X w Tau ?w" by (rule other_thread_simulates [OF assms(1)]) simp_all
  have ds: "destroy_self X g ?w = Some w'" using assms(2) by (simp add: worker_end_def)
  then obtain tg where tg: "group_at w g = Some tg" by (auto simp: destroy_self_def bind_Some_conv)
  have "switches X {#} {#} ?w w'"
  proof (cases "tg_has_control tg")
    case False
    then have "w' = log_fatal CheckDestroy ?w" using ds tg by (simp add: destroy_self_def)
    then show ?thesis using meta_tid_cong [of w' ?w] by (auto intro: switches_cong)
  next
    case True
    then obtain rc w1 tg1 where dg: "delete_group X (Some g) ?w = Some (rc, w1)" and tg1: "group_at w1 g = Some tg1"
      and w': "w' = put_group g (tg1\<lparr>tg_has_control := False\<rparr>) w1"
      using ds tg by (auto simp: destroy_self_def bind_Some_conv)
    note same = delete_group_frame [OF dg]
    have "switches X {#} {#} ?w w1" by (rule switches_cong) (simp_all add: same meta_tid_cong [OF same(2)])
    moreover have "switches X {#} {#} w1 w'" unfolding w'
      by (intro switches_put_group [OF tg1]) (simp_all add: group_tasks_def queue_of_def running_in_def split: option.split)
    ultimately show ?thesis by (rule switches_trans_0(1))
  qed
  then show ?thesis by (rule simulates_then [OF sim])
qed

lemma stop_workers_switches: "switches X {#} {#} w (stop_workers X w)"
proof -
  have fold: "switches X {#} {#} v (fold (pl_stop X) ls v)" for ls v
  proof (induction ls arbitrary: v)
    case (Cons i ls)
    then show ?case
      using switches_trans_0(1) [OF control_frame_switches [OF pl_stop_control_frame] Cons.IH [of "pl_stop X i v"]] by simp
  qed (simp add: moves_switches)
  let ?v = "upd_control (\<lambda>c. c\<lparr>tc_stop := True, tc_ngroup := 0\<rparr>) w"
  have "switches X {#} {#} w ?v" by (rule switches_cong) (simp_all add: meta_tid_def fun_eq_iff)
  then show ?thesis unfolding stop_workers_def using fold [of ?v] by (rule switches_trans_0(1))
qed

text \<open>The wakings.\<close>

lemma wake_switches:
  assumes "outside_ok X" and "system_ok X w"
  shows "may_wake w \<Longrightarrow> butex_wake X b w = Some (n, jumped, w') \<Longrightarrow> switches X {#} {#} w w'"
    and "runs_bthread_of g tg cur m w \<Longrightarrow> butex_wake_all X b w = Some (n, jumped, w') \<Longrightarrow> switches X {#} {#} w w'"
    and "runs_bthread_of g tg cur m w \<Longrightarrow> butex_wake_except X b excl w = Some (n, w') \<Longrightarrow> switches X {#} {#} w w'"
proof -
  have laws: "ext_queues_ok X" "naps_ok X" "butexes_ok w" using assms by (simp_all add: outside_ok_def system_ok_def)
  note ok = may_wake_ok [OF assms(2)]
  show "switches X {#} {#} w w'" if "may_wake w" and wk: "butex_wake X b w = Some (n, jumped, w')"
  proof -
    obtain bx where bx: "butex_at w b = Some bx" using wk by (auto simp: butex_wake_def bind_Some_conv)
    show ?thesis using butex_wake_switches [OF laws bx ok [OF that(1) bx] wk] by simp
  qed
  { assume run: "runs_bthread_of g tg cur m w"
    then have mw: "may_wake w" and own: "tls_task_group (cur_tls w) = Some g"
      by (auto simp: may_wake_def runs_bthread_of_def runs_def)
    show "switches X {#} {#} w w'" if wk: "butex_wake_all X b w = Some (n, jumped, w')"
    proof -
      obtain bx where bx: "butex_at w b = Some bx"
        using wk by (auto simp: butex_wake_all_def take_waiters_def bind_Some_conv)
      show ?thesis using butex_wake_all_switches [OF laws bx own ok [OF mw bx] wk] by simp
    qed
    show "switches X {#} {#} w w'" if wk: "butex_wake_except X b excl w = Some (n, w')"
    proof -
      obtain bx where bx: "butex_at w b = Some bx"
        using wk by (auto simp: butex_wake_except_def take_waiters_def bind_Some_conv)
      show ?thesis
        using butex_wake_except_moves [OF laws bx own one_waiter [OF assms(2) bx] wk] moves_switches by blast
    qed }
qed

section \<open>Refinement\<close>

lemma system_step_simulates:
  assumes "outside_ok X" and "system_ok X w" and "system_step X w e w'"
  shows "simulates X w e w'"
proof -
  have laws: "ext_queues_ok X" "naps_ok X" "grabs_ok X" and ok: "butexes_ok w"
    using assms(1,2) by (simp_all add: outside_ok_def system_ok_def)
  note sim = simulates_switches [OF assms(2)] and rk = runs_bthread_ok(1) [OF assms(2)]
    and wake = wake_switches [OF assms(1,2)]
  from assms(3) show ?thesis
  proof cases
    case (other_thread tls)
    then show ?thesis by (auto intro: other_thread_simulates [OF assms(2)])
  next
    case (store b bx v)
    then show ?thesis using simulates_moves [OF assms(2) put_value_moves] by blast
  next
    case (yields g tg cur m jumped g')
    then show ?thesis using sim yield_switches [OF laws(1,2) rk] by blast
  next
    case (interrupts tid has_c rc)
    then show ?thesis using sim interrupt_switches [OF laws ok] by blast
  next
    case (background remote g attr fn arg r th)
    then show ?thesis using background_simulates [OF assms(1,2)] by blast
  next
    case (foreground g tg cur m attr fn arg r th jumped g')
    then show ?thesis using foreground_simulates [OF assms(1,2)] by blast
  next
    case (finishes g tg cur m jumped g')
    then show ?thesis using finish_simulates [OF assms(1,2)] by blast
  next
    case (waits g tg cur m i b expected abstime r)
    then show ?thesis using wait_begin_simulates [OF assms(1,2)] by blast
  next
    case (goes_on i rc)
    then show ?thesis using wait_end_simulates [OF assms(1,2)] by blast
  next
    case (stops tid)
    then show ?thesis using sim set_stopped_switches by blast
  next
    case (idles g tg cur m r)
    then show ?thesis using idle_simulates [OF assms(1,2)] by blast
  next
    case (worker_starts r)
    then show ?thesis using create_group_simulates [OF assms(1,2)] by blast
  next
    case (worker_ends g)
    then show ?thesis using worker_end_simulates [OF assms(2)] by blast
  next
    case stops_workers
    then show ?thesis using sim stop_workers_switches by blast
  next
    case (wakes b n jumped)
    then show ?thesis using sim [OF wake(1)] by simp
  next
    case (wakes_all g tg cur m b n jumped)
    then show ?thesis using sim [OF wake(2)] by simp
  next
    case (wakes_except g tg cur m b excl n)
    then show ?thesis using sim [OF wake(3)] by simp
  qed
qed

text \<open>
  The runtime refines the specification: every operation, by whichever thread, keeps the invariant (waiter lists
  consistent, every bthread alive and in one place only, main tasks apart) and is a step of the set of bthreads
  that are alive.  Only a start adds a bthread, which was not alive, only the end of a bthread removes one, and
  nothing else loses or makes any.
\<close>

lemma system_refines:
  assumes "outside_ok X" and "system_ok X w" and "system_step X w e w'"
  shows "system_ok X w' \<and> abs_step (alive X w) e = Some (alive X w')"
  using system_step_simulates [OF assms] by (simp add: simulates_def)

inductive system_run ::
  "('q, 'r, 'x) ext \<Rightarrow> ('q, 'r, 'x) world \<Rightarrow> event list \<Rightarrow> ('q, 'r, 'x) world \<Rightarrow> bool" for X where
  stays: "system_run X w [] w"
| goes: "system_step X w e v \<Longrightarrow> system_run X v es w' \<Longrightarrow> system_run X w (e # es) w'"

lemma system_run_simulates:
  assumes "system_run X w es w'" and "outside_ok X" and "system_ok X w"
  shows "system_ok X w' \<and> abs_run (alive X w) es = Some (alive X w')"
  using assms
proof (induction rule: system_run.induct)
  case (goes w e v es w')
  then have "simulates X w e v" by (intro system_step_simulates)
  then show ?case using goes by (simp add: simulates_def)
qed simp

text \<open>
  However the operations of all threads are interleaved, a bthread that was alive or has been started and has
  not ended is in exactly one place: in one queue, or running on one worker, or waiting in one list, or in one
  callback, and there once.
\<close>

lemma no_bthread_lost:
  assumes "outside_ok X" and "system_ok X w" and "system_run X w es w'"
    and "t \<in> alive X w \<or> Starts t \<in> set es" and "Ends t \<notin> set es"
  shows "count (queued X w') t + count (running w') t + count (waiting w') t + count (pending w') t = 1"
proof -
  have ok: "system_ok X w'" and run: "abs_run (alive X w) es = Some (alive X w')"
    using system_run_simulates [OF assms(3,1,2)] by simp_all
  have "t \<in> alive X w'" by (rule abs_run_alive [OF run assms(4,5)])
  then have "count (tasks X w') t = 1" using ok by (simp add: alive_def system_ok_def tasks_ok_def)
  then show ?thesis by (simp add: tasks_def)
qed

text \<open>Only the bthread that the executing worker runs can end.\<close>

inductive_cases system_step_EndsE: "system_step X w (Ends t) w'"
inductive_cases system_step_StartsE: "system_step X w (Starts t) w'"

lemma only_the_runner_ends:
  assumes "system_step X w (Ends t) w'"
  shows "\<exists>g tg cur m. runs_bthread_of g tg cur m w \<and> tm_tid m = t"
  using assms by (rule system_step_EndsE) (auto simp: started_event_def split: option.splits)

lemma started_event_simps [simp]: "started_event None = Tau" "started_event (Some t) = Starts t"
  by (simp_all add: started_event_def)

section \<open>A run\<close>

lemma demo_outside_ok: "outside_ok demo_ext"
  using demo_pool_ok demo_group_memory_ok main_world_ok(3) by (simp add: outside_ok_def) (simp add: demo_ext_def)

lemma run_world_tasks: "tasks demo_ext (run_world [make_tid 1 5]) = {#make_tid 1 3, make_tid 1 5#}"
  by (simp add: tasks_def queued_def running_def waiting_def pending_def queue_of_def running_in_def remained_tids_def
      bthreads_of_def meta_tid_def run_world_def make_tid_demo demo_defs)

lemma run_world_system_ok: "system_ok demo_ext (run_world [make_tid 1 5])"
proof -
  have "butexes_ok (run_world [make_tid 1 5])"
    by (auto simp: butexes_ok_def run_world_def demo_defs nth_opt_def nth_Cons split: nat.splits if_splits)
  then show ?thesis unfolding system_ok_def tasks_ok_def mains_ok_def run_world_tasks
    by (simp add: mains_def live_task_def meta_tid_def run_world_def make_tid_demo demo_defs)
qed

lemma run_world_runs:
  "runs_bthread_of 0 (demo_group 3 (make_tid 1 1) [make_tid 1 5] []) 3 (demo_meta (make_tid 1 3) 3 (Some 63))
    (run_world [make_tid 1 5])"
  by (simp add: runs_bthread_of_def runs_def run_world_def make_tid_demo demo_defs)

lemma system_refines_witness:
  "\<exists>w'. system_step demo_ext (run_world [make_tid 1 5]) (Ends (make_tid 1 3)) w' \<and> alive demo_ext w' = {make_tid 1 5}"
proof -
  let ?w = "run_world [make_tid 1 5]"
  obtain w' where "task_finish demo_ext 3 ?w = Some (True, 0, w')"
    by (simp add: task_finish_def clean_tls_def retire_version_def butex_wake_except_def ending_sched_def next_task_def
        count_bthreads_def release_last_context_def bump_version_def demo_wake_defs demo_sched_defs Let_def)
  from system_step.finishes [OF run_world_runs this] have st: "system_step demo_ext ?w (Ends (make_tid 1 3)) w'"
    by (simp add: demo_meta_def)
  have "alive demo_ext ?w = {make_tid 1 3, make_tid 1 5}" unfolding alive_def run_world_tasks by auto
  moreover have "make_tid 1 5 \<noteq> make_tid 1 3" by (simp add: make_tid_demo)
  ultimately have "alive demo_ext w' = {make_tid 1 5}"
    using system_refines [OF demo_outside_ok run_world_system_ok st] by auto
  then show ?thesis using st by blast
qed

text \<open>The bthread of slot 3 starts another one, in slot 6, and another thread goes on.\<close>

lemma no_bthread_lost_witness:
  "\<exists>w'. system_run demo_ext (run_world [make_tid 1 5]) [Starts (make_tid 1 6), Tau] w'
    \<and> count (queued demo_ext w') (make_tid 1 6) + count (running w') (make_tid 1 6)
      + count (waiting w') (make_tid 1 6) + count (pending w') (make_tid 1 6) = 1"
proof -
  let ?w = "run_world [make_tid 1 5]"
  have fresh: "pool_fresh_any demo_ext ?w" unfolding pool_fresh_any_def slot_free_def places_def run_world_tasks
    by (auto simp: sleeping_def sleep_tids_def unused_def run_world_def make_tid_demo demo_defs Let_def split: if_splits)
  obtain v where "start_background demo_ext False 0 None (Some 9) 0 ?w = Some (E0, Some (make_tid 1 6), v)"
    by (simp add: start_background_def create_task_def init_meta_def using_attr_def version_of_def
        count_bthreads_def demo_wake_defs demo_sched_defs Let_def)
  then have "system_step demo_ext ?w (Starts (make_tid 1 6)) v" using system_step.background [OF fresh] by force
  moreover have "system_step demo_ext v Tau (v\<lparr>cur_tls := demo_tls None\<rparr>)" by (rule system_step.other_thread)
  ultimately have run: "system_run demo_ext ?w [Starts (make_tid 1 6), Tau] (v\<lparr>cur_tls := demo_tls None\<rparr>)"
    by (blast intro: system_run.intros)
  then show ?thesis using no_bthread_lost [OF demo_outside_ok run_world_system_ok run] by auto
qed

end
