(* ===== verification/Kept.thy ===== *)
theory Kept
  imports System
begin

text \<open>
  What operations keep.  A relation between the worlds before and after that all elementary changes have (an update of a record, a
  quiet call, the steps of other threads) holds for every operation.  \<open>Addresses\<close> interprets the locale on the validity of
  pointers, \<open>Sleepers\<close> on the timer.
\<close>

section \<open>The elementary changes\<close>

locale kept_by_operations =
  fixes Q :: "('q, 'r, 'x) ext \<Rightarrow> ('q, 'r, 'x) world \<Rightarrow> ('q, 'r, 'x) world \<Rightarrow> bool"
  assumes refl [simp, intro]: "Q X w w"
    and trans: "Q X u v \<Longrightarrow> Q X v w \<Longrightarrow> Q X u w"
    and same: "groups w' = groups w \<Longrightarrow> metas w' = metas w \<Longrightarrow> butexes w' = butexes w \<Longrightarrow> waiters w' = waiters w \<Longrightarrow>
      tls_task_group (cur_tls w') = tls_task_group (cur_tls w) \<Longrightarrow> tc_groups (control w') = tc_groups (control w) \<Longrightarrow>
      tc_ngroup (control w') = tc_ngroup (control w) \<Longrightarrow> outside w' = outside w \<Longrightarrow> Q X w w'"
    and quiet: "quiet_call X (outside w) x \<Longrightarrow> Q X w (w\<lparr>outside := x\<rparr>)"
    and one_group: "group_at w g = Some tg \<Longrightarrow>
      (\<And>s. tg_cur_meta tg' = Some s \<Longrightarrow> tg_cur_meta tg = Some s \<or> (\<exists>m. metas w s = Some m)) \<Longrightarrow>
      (\<And>e. tg_last_context_remained tg' = Some (AddSleepEvent e) \<Longrightarrow> tg_last_context_remained tg = Some (AddSleepEvent e)) \<Longrightarrow>
      Q X w (put_group g tg' w)"
    and one_meta: "metas w s = Some m \<Longrightarrow> tm_version_butex m' = tm_version_butex m \<Longrightarrow>
      (tm_current_sleep m' = 0 \<or> tm_current_sleep m' = tm_current_sleep m) \<and> tm_tid m' = tm_tid m \<Longrightarrow> Q X w (put_meta s m' w)"
    and one_butex: "Q X w (put_butex b bx w)"
    and one_waiter: "waiters w i = Some bw \<Longrightarrow> w_tid bw' = w_tid bw \<Longrightarrow> w_task_meta bw' = w_task_meta bw \<Longrightarrow>
      w_initial_butex bw' = w_initial_butex bw \<Longrightarrow> w_sleep_id bw' = w_sleep_id bw \<Longrightarrow> Q X w (put_waiter i bw' w)"
    and new_waiter: "metas w s = Some m \<Longrightarrow> butex_at w b = Some bx \<Longrightarrow>
      Q X w (put_waiter i (new_bthread_waiter t s expected b) w)"
    and queues: "queues_frame w w' \<Longrightarrow> Q X w w'"
    and signal: "Q X w (signal_task X n w)"
    and naps: "Q X w (nap X w)" and spins: "Q X w (spin X w)" and grabs: "Q X w (grab X b w)"
    and lot_waits: "Q X w (pl_wait X i st w)"
    and ready_remote_general: "ready_nosignal_tasks_remote X g w = Some w' \<Longrightarrow> Q X w w'"
    and unscheduled: "unsleep_if_necessary X i w = Some (rc, w') \<Longrightarrow> Q X w w'"
    and timeout_set: "schedule_timeout X i abstime w = Some (err, w') \<Longrightarrow> Q X w w'"
    and put_to_sleep: "group_at w g = Some tg \<Longrightarrow> tg_last_context_remained tg = Some (AddSleepEvent e) \<Longrightarrow>
      add_sleep_event X e (put_group g (tg\<lparr>tg_last_context_remained := None\<rparr>) w) = Some w' \<Longrightarrow> Q X w w'"
    and created: "pool_ok X \<Longrightarrow> pool_fresh_any X w \<Longrightarrow> create_task X a fn arg w = Some (r, w') \<Longrightarrow> Q X w w'"
    and new_group: "tg_cur_meta tg = None \<Longrightarrow> tg_last_context_remained tg = None \<Longrightarrow> Q X w (w\<lparr>groups := groups w @ [tg]\<rparr>)"
    and pool_empty: "pool_ok X \<Longrightarrow> get_meta X w = (w', None) \<Longrightarrow> Q X w w'"
    and main_created: "pool_ok X \<Longrightarrow> pool_fresh_any X u \<Longrightarrow> Q X u v \<Longrightarrow> metas v = metas u \<Longrightarrow> butexes v = butexes u \<Longrightarrow>
      get_meta X v = (w, Some sl) \<Longrightarrow> init_main_meta X sl stk w = Some (tid, w') \<Longrightarrow> Q X u w'"
    and listing: "Q X u w \<Longrightarrow> control w = control u \<Longrightarrow> length (groups u) \<le> g \<Longrightarrow> g < length (groups w) \<Longrightarrow>
      add_group X (Some g) w = (rcode, w') \<Longrightarrow> Q X u w'"

sublocale kept_by_operations \<subseteq> pushes: kept_by_pushes Q
proof unfold_locales
  fix X :: "('q, 'r, 'x) ext" and w :: "('q, 'r, 'x) world" and g tg tg'
  show "group_at w g = Some tg \<Longrightarrow> queue_part_only tg tg' \<Longrightarrow> Q X w (put_group g tg' w)"
    by (rule one_group) (simp_all add: queue_part_only_same [of tg tg'])
qed (auto intro: trans signal naps)

text \<open>
  The facts have the form \<open>after any changes that began in u\<close>.
\<close>

named_theorems then_kept

lemmas quiet_eqs = quiet_clock quiet_rand quiet_time quiet_pthread quiet_group quiet_rand_less quiet_get_stack quiet_futex_wake

declare quiet_return_stack [simp] quiet_return_meta [simp] quiet_keytable [simp]

context kept_by_operations begin

lemma keep_after: "Q X v w \<Longrightarrow> Q X u v \<Longrightarrow> Q X u w"
  by (rule trans)

lemma keep_cong:
  assumes "groups w' = groups w" and "metas w' = metas w" and "butexes w' = butexes w" and "waiters w' = waiters w"
    and "tls_task_group (cur_tls w') = tls_task_group (cur_tls w)"
    and "tc_groups (control w') = tc_groups (control w)" and "tc_ngroup (control w') = tc_ngroup (control w)"
    and "outside w' = outside w"
  shows "Q X u w' = Q X u w"
  using trans [of X u w w'] trans [of X u w' w] same [OF assms, of X] same [OF assms [symmetric], of X] by blast

lemma keep_changed [simp]:
  "Q X u (w\<lparr>frames := f\<rparr>) = Q X u w"
  "tls_task_group l = tls_task_group (cur_tls w) \<Longrightarrow> Q X u (w\<lparr>cur_tls := l\<rparr>) = Q X u w"
  "Q X u (log_fatal ft w) = Q X u w"
  "Q X u (set_errno e w) = Q X u w"
  "Q X u (count_bthreads n w) = Q X u w"
  by (rule keep_cong; simp add: count_bthreads_def)+

lemma keep_quiet: "(quiet_call X)\<^sup>*\<^sup>* (outside w) x \<Longrightarrow> Q X u w \<Longrightarrow> Q X u (w\<lparr>outside := x\<rparr>)"
proof (induction rule: rtranclp_induct)
  case base
  then show ?case by (simp add: keep_cong [of "w\<lparr>outside := outside w\<rparr>" w])
next
  case (step x x')
  have "Q X (w\<lparr>outside := x\<rparr>) (w\<lparr>outside := x'\<rparr>)" using quiet [of X "w\<lparr>outside := x\<rparr>" x'] step.hyps(2) by simp
  then show ?case using step.IH [OF step.prems] trans by blast
qed

lemma keep_quiet_1 [simp]: "quiet_call X (outside w) x \<Longrightarrow> Q X u w \<Longrightarrow> Q X u (w\<lparr>outside := x\<rparr>)"
  by (rule keep_quiet [OF quiet_one])

lemma keep_group:
  "Q X u w \<Longrightarrow> group_at w g = Some tg \<Longrightarrow>
   (\<And>s. tg_cur_meta tg' = Some s \<Longrightarrow> tg_cur_meta tg = Some s \<or> (\<exists>m. metas w s = Some m)) \<Longrightarrow>
   (\<And>e. tg_last_context_remained tg' = Some (AddSleepEvent e) \<Longrightarrow> tg_last_context_remained tg = Some (AddSleepEvent e)) \<Longrightarrow>
   Q X u (put_group g tg' w)"
  using one_group trans by blast

lemma keep_group_same:
  "Q X u w \<Longrightarrow> group_at w g = Some tg \<Longrightarrow> tg_cur_meta tg' = tg_cur_meta tg \<Longrightarrow>
   tg_last_context_remained tg' = tg_last_context_remained tg \<or> tg_last_context_remained tg' = None \<Longrightarrow>
   Q X u (put_group g tg' w)"
  by (erule keep_group) auto

lemma keep_meta:
  "Q X u w \<Longrightarrow> metas w s = Some m \<Longrightarrow> tm_version_butex m' = tm_version_butex m \<Longrightarrow>
   (tm_current_sleep m' = 0 \<or> tm_current_sleep m' = tm_current_sleep m) \<and> tm_tid m' = tm_tid m \<Longrightarrow> Q X u (put_meta s m' w)"
  using one_meta trans by blast

lemma keep_butex: "Q X u w \<Longrightarrow> Q X u (put_butex b bx w)"
  using one_butex trans by blast

lemma keep_waiter:
  "Q X u w \<Longrightarrow> waiters w i = Some bw \<Longrightarrow> w_tid bw' = w_tid bw \<Longrightarrow> w_task_meta bw' = w_task_meta bw \<Longrightarrow>
   w_initial_butex bw' = w_initial_butex bw \<Longrightarrow> w_sleep_id bw' = w_sleep_id bw \<Longrightarrow> Q X u (put_waiter i bw' w)"
  using one_waiter trans by blast

lemma keep_unsleep [then_kept]: "unsleep_if_necessary X i w = Some (rc, w') \<Longrightarrow> Q X u w \<Longrightarrow> Q X u w'"
  using unscheduled trans by blast

lemma keep_schedule_timeout [then_kept]: "schedule_timeout X i abstime w = Some (e, w') \<Longrightarrow> Q X u w \<Longrightarrow> Q X u w'"
  using timeout_set trans by blast

lemma keep_queues_frame: "queues_frame w w' \<Longrightarrow> Q X u w \<Longrightarrow> Q X u w'"
  using queues trans by blast

lemmas keep_ready [then_kept] =
  keep_after [OF pushes.ready] keep_after [OF pushes.ready_remote] keep_after [OF pushes.push]
  keep_after [OF pushes.flush_any]

lemma keep_ready_general [then_kept]:
  assumes "ready_to_run_general X g t ns w = Some w'" and "Q X u w"
  shows "Q X u w'"
proof (cases "tls_task_group (cur_tls w) = Some g")
  case True
  then show ?thesis using assms keep_ready(1) by (simp add: ready_to_run_general_def)
next
  case False
  then have "Q X w w'" using assms(1) ready_remote_general by (simp add: ready_to_run_general_def)
  then show ?thesis using assms(2) trans by blast
qed

section \<open>Waiters\<close>

lemma keep_wakeup_pthread [then_kept]:
  assumes "wakeup_pthread X i w = Some w'" and "Q X u w"
  shows "Q X u w'"
proof -
  obtain pw where pw: "waiters w i = Some pw" using assms(1) by (auto simp: wakeup_pthread_def bind_Some_conv)
  have "Q X u (put_waiter i (pw\<lparr>w_sig := True\<rparr>) w)" using assms(2) pw by (intro keep_waiter [of X u _ i pw]) simp_all
  then show ?thesis using assms(1) pw by (auto simp: wakeup_pthread_def Let_def split: prod.splits dest: quiet_eqs)
qed

lemma keep_choose [then_kept]: "choose_one_group X w = Some (go, w') \<Longrightarrow> Q X u w \<Longrightarrow> Q X u w'"
  by (auto simp: choose_one_group_def bind_Some_conv Let_def split: if_splits prod.splits dest: quiet_eqs)

lemma keep_get_task_group [then_kept]: "get_task_group X w = Some (go, w') \<Longrightarrow> Q X u w \<Longrightarrow> Q X u w'"
  by (auto simp: get_task_group_def split: option.splits intro: keep_choose)

lemma keep_enqueue:
  assumes "Q X u w" and "waiters w i = Some bw"
  shows "Q X u (enqueue_waiter b i bw bx w)"
  unfolding enqueue_waiter_def using assms
  by (intro keep_waiter [of X u _ i bw] keep_butex) simp_all

lemma keep_wait_for_butex [then_kept]:
  assumes "wait_for_butex X i w = Some w'" and "Q X u w"
  shows "Q X u w'"
proof -
  obtain bw where bw: "waiters w i = Some bw" using assms(1) by (auto simp: wait_for_butex_def bind_Some_conv)
  have "Q X u (put_waiter i (bw\<lparr>w_state := WAITER_STATE_UNMATCHEDVALUE\<rparr>) w)"
    using assms(2) bw by (intro keep_waiter [of X u _ i bw]) simp_all
  then show ?thesis using assms bw
    by (auto simp: wait_for_butex_def bind_Some_conv Let_def split: if_splits
        intro: keep_enqueue keep_ready keep_unsleep)
qed

lemma keep_release [then_kept]:
  assumes "release_last_context X s w = Some w'" and "Q X u w"
  shows "Q X u w'"
proof -
  obtain m where m: "metas w s = Some m" using assms(1) by (auto simp: release_last_context_def bind_Some_conv)
  have "Q X u (put_meta s (m\<lparr>tm_stack := None\<rparr>) v)" if "Q X u v" "metas v = metas w" for v
    using that m by (intro keep_meta [of X u v s m]) simp_all
  then have "Q X u (put_meta s (m\<lparr>tm_stack := None\<rparr>) w)"
    "quiet_call X (outside w) x \<Longrightarrow> Q X u (put_meta s (m\<lparr>tm_stack := None\<rparr>) (w\<lparr>outside := x\<rparr>))" for x
    using assms(2) by simp_all
  then show ?thesis using assms m by (auto simp: release_last_context_def Let_def)
qed

section \<open>Taking tasks out of queues\<close>

lemma keep_control_steal:
  assumes "ext_queues_ok X" and "control_steal_task X seed off w = Some (t, s', w')" and "Q X u w"
  shows "Q X u w'"
proof (cases "tc_ngroup (control w) = 0")
  case True
  then show ?thesis using assms(2,3) by (simp add: control_steal_task_def)
next
  case False
  then have "steal_loop X (tc_ngroup (control w)) (tc_ngroup (control w)) off seed w = Some (t, s', w')"
    using assms(2) by (simp add: control_steal_task_def Let_def)
  from steal_loop_spec [OF assms(1) this] show ?thesis using assms(3) keep_queues_frame by blast
qed

lemma keep_group_steal:
  assumes "ext_queues_ok X" and "group_steal_task X g w = Some (t, w')" and "Q X u w"
  shows "Q X u w'"
proof -
  obtain tg where tg: "group_at w g = Some tg" using assms(2) by (auto simp: group_steal_task_def bind_Some_conv)
  obtain r a where pop: "rrq_pop X (tg_remote_rq tg) = (r, a)" by fastforce
  have one: "Q X u (put_group g (tg\<lparr>tg_remote_rq := r\<rparr>) w)"
    "Q X u (put_group g (tg\<lparr>tg_remote_rq := r, tg_last_pl_state := v\<rparr>) w)" for v
    by (rule keep_group_same [OF assms(3) tg]; simp)+
  show ?thesis
  proof (cases a)
    case (Some b)
    then show ?thesis using assms(2) tg pop one by (simp add: group_steal_task_def)
  next
    case None
    then show ?thesis using assms(2) tg pop keep_control_steal [OF assms(1) _ one(2)]
      by (auto simp: group_steal_task_def bind_Some_conv Let_def intro: keep_group_same)
  qed
qed

lemma keep_next_task:
  assumes "ext_queues_ok X" and "next_task X g w = Some (t, w')" and "Q X u w"
  shows "Q X u w'"
proof -
  obtain tg where tg: "group_at w g = Some tg" using assms(2) by (auto simp: next_task_def bind_Some_conv)
  have "Q X u (put_group g (tg\<lparr>tg_rq := q\<rparr>) w)" for q by (rule keep_group_same [OF assms(3) tg]) simp_all
  then show ?thesis using assms(2) tg keep_group_steal [OF assms(1)]
    by (auto simp: next_task_def bind_Some_conv Let_def split: option.splits prod.splits)
qed

section \<open>Switching\<close>

lemma keep_set_remained [then_kept]:
  assumes "set_remained g r w = Some w'" and "Q X u w" and "\<And>e. r \<noteq> AddSleepEvent e"
  shows "Q X u w'"
proof -
  obtain tg where tg: "group_at w g = Some tg" using assms(1) by (auto simp: set_remained_def bind_Some_conv)
  moreover have "Q X u (put_group g (tg\<lparr>tg_last_context_remained := Some r\<rparr>) w)"
    using assms(3) by (intro keep_group [OF assms(2) tg]) auto
  ultimately show ?thesis using assms by (auto simp: set_remained_def)
qed

lemma keep_run_callback:
  assumes "run_callback X r w = Some w'" and "Q X u w" and "\<And>e. r \<noteq> AddSleepEvent e"
  shows "Q X u w'"
  using assms
  by (cases r) (auto simp: ready_to_run_in_worker_def ready_to_run_in_worker_ignoresignal_def bind_Some_conv
      intro: then_kept)

lemma keep_run_remained [then_kept]:
  assumes "run_remained X g w = Some (g', w')" and "Q X u w"
  shows "Q X u w'"
proof -
  have "X' = X \<longrightarrow> Q X v (snd r)" if "run_remained X' g v = Some r" for X' g v r
  proof (rule run_remained.raw_induct [OF _ that], goal_cases)
    case (1 rec X' g v r)
    then obtain tg where tg: "group_at v g = Some tg" by (auto simp: bind_Some_conv)
    let ?v = "put_group g (tg\<lparr>tg_last_context_remained := None\<rparr>) v"
    have k: "Q X v ?v" by (rule keep_group_same [OF refl tg]) simp_all
    show ?case
    proof
      assume X: "X' = X"
      show "Q X v (snd r)"
      proof (cases "tg_last_context_remained tg")
        case None
        then show ?thesis using 1(2) tg by auto
      next
        case (Some cb)
        then obtain v1 g1 where cb: "run_callback X cb ?v = Some v1" and rest: "rec X g1 v1 = Some r"
          using 1(2) tg X by (auto simp: bind_Some_conv)
        have "Q X v1 (snd r)" using 1(1) [OF rest] by simp
        moreover have "Q X v v1"
        proof (cases "\<exists>e. cb = AddSleepEvent e")
          case True
          then show ?thesis using put_to_sleep [OF tg, of _ X v1] Some cb by auto
        next
          case False
          then show ?thesis using keep_run_callback [OF cb k] by blast
        qed
        ultimately show ?thesis using trans by blast
      qed
    qed
  qed
  then show ?thesis using assms trans by fastforce
qed

lemma keep_sched_account [then_kept]:
  assumes "sched_account X g cur w = Some w'" and "Q X u w"
  shows "Q X u w'"
proof -
  obtain tg mc where tg: "group_at w g = Some tg" and mc: "metas w cur = Some mc"
    using assms(1) by (auto simp: sched_account_def bind_Some_conv)
  have "Q X u (put_group g tg' (put_meta cur mc' v))"
    if "tg_cur_meta tg' = tg_cur_meta tg" "tg_last_context_remained tg' = tg_last_context_remained tg"
      "tm_version_butex mc' = tm_version_butex mc" "tm_current_sleep mc' = tm_current_sleep mc" "tm_tid mc' = tm_tid mc" "Q X u v"
      "groups v = groups w" "metas v = metas w" for tg' mc' v
    using that tg mc by (intro keep_group_same [of X u _ g tg] keep_meta [of X u v cur mc]) simp_all
  then show ?thesis using assms tg mc by (auto simp: sched_account_def Let_def split: prod.splits dest: quiet_eqs)
qed

lemma keep_sched_switch [then_kept]:
  assumes "sched_switch g cur next w = Some (j, w')" and "Q X u w"
  shows "Q X u w'"
proof -
  obtain tg mc mn where tg: "group_at w g = Some tg" and mc: "metas w cur = Some mc" and mn: "metas w next = Some mn"
    using assms(1) by (auto simp: sched_switch_def bind_Some_conv)
  have "Q X u (put_group g (tg\<lparr>tg_cur_meta := Some next\<rparr>) w)"
    using mn by (intro keep_group [OF assms(2) tg]) simp_all
  then have "Q X u (put_meta cur (mc\<lparr>tm_local_storage := ls\<rparr>) (put_group g (tg\<lparr>tg_cur_meta := Some next\<rparr>) w))" for ls
    using mc by (intro keep_meta [of X u _ cur mc]) simp_all
  then show ?thesis using assms tg mc mn by (auto simp: sched_switch_def Let_def split: if_splits)
qed

lemma keep_sched_arrive [then_kept]:
  assumes "sched_arrive X g fr w = Some (g', w')" and "Q X u w"
  shows "Q X u w'"
proof -
  obtain g1 w1 where rem: "run_remained X g w = Some (g1, w1)" using assms(1) by (auto simp: sched_arrive_def bind_Some_conv)
  note k = keep_run_remained [OF rem assms(2)]
  then show ?thesis using assms(1) rem
    by (cases fr) (auto simp: sched_arrive_def bind_Some_conv Let_def intro!: keep_group_same)
qed

lemma keep_sched_to_meta [then_kept]:
  assumes "sched_to_meta X g next w = Some (j, g', w')" and "Q X u w"
  shows "Q X u w'"
proof -
  obtain tg cur w1 where cur: "group_at w g = Some tg" "tg_cur_meta tg = Some cur" and acc: "sched_account X g cur w = Some w1"
    using assms(1) by (auto simp: sched_to_meta_def bind_Some_conv)
  note k1 = keep_sched_account [OF acc assms(2)]
  show ?thesis
  proof (cases "next = cur")
    case True
    then show ?thesis using assms(1) cur acc k1 by (simp add: sched_to_meta_def)
  next
    case False
    then obtain jj w2 where sw: "sched_switch g cur next w1 = Some (jj, w2)"
      using assms(1) cur acc by (auto simp: sched_to_meta_def bind_Some_conv)
    note k2 = keep_sched_switch [OF sw k1]
    obtain g2 fr v where "sched_arrive X g2 fr v = Some (g', w')" "Q X u v = Q X u w2"
      using assms(1) cur acc sw False by (cases jj) (auto simp: sched_to_meta_def bind_Some_conv)
    then show ?thesis using k2 keep_sched_arrive by blast
  qed
qed

lemma keep_give_stack [then_kept]:
  assumes "give_stack X g s w = Some w'" and "Q X u w"
  shows "Q X u w'"
proof -
  obtain m where m: "metas w s = Some m" using assms(1) by (auto simp: give_stack_def bind_Some_conv)
  obtain x stk where gs: "get_stack X (outside w) (attr_stack_type (tm_attr m)) = (x, stk)" by fastforce
  have "Q X u (put_meta s m' (w\<lparr>outside := x\<rparr>))"
    if "tm_version_butex m' = tm_version_butex m" "tm_current_sleep m' = tm_current_sleep m" "tm_tid m' = tm_tid m" for m'
    using that assms(2) m quiet_get_stack [OF gs] by (intro keep_meta [of X u _ s m]) simp_all
  then show ?thesis using assms(1) m gs by (cases stk) (auto simp: give_stack_def bind_Some_conv)
qed

lemma keep_sched_to [then_kept]:
  assumes "sched_to X g t w = Some (j, g', w')" and "Q X u w"
  shows "Q X u w'"
  using assms by (auto simp: sched_to_def bind_Some_conv split: if_splits intro: then_kept)

lemma keep_exchange [then_kept]:
  assumes "exchange X g t w = Some (j, g', w')" and "Q X u w"
  shows "Q X u w'"
  using assms by (auto simp: exchange_def bind_Some_conv split: if_splits intro: then_kept)

lemma keep_sched:
  assumes "ext_queues_ok X" and "sched X g w = Some (j, g', w')" and "Q X u w"
  shows "Q X u w'"
  using assms(2,3) by (auto simp: sched_def bind_Some_conv intro: keep_sched_to keep_next_task [OF assms(1)])

lemma keep_yield:
  assumes "ext_queues_ok X" and "yield X g w = Some (j, g', w')" and "Q X u w"
  shows "Q X u w'"
  using assms(2,3) by (auto simp: yield_def bind_Some_conv intro: keep_sched [OF assms(1)] keep_set_remained)

lemma keep_ending_sched:
  assumes "ext_queues_ok X" and "ending_sched X g w = Some (j, g', w')" and "Q X u w"
  shows "Q X u w'"
proof -
  obtain t w1 tg cur mc mn where nt: "next_task X g w = Some (t, w1)" and tg: "group_at w1 g = Some tg" "tg_cur_meta tg = Some cur"
    and mc: "metas w1 cur = Some mc" and mn: "metas w1 (get_slot t) = Some mn"
    using assms(2) by (auto simp: ending_sched_def bind_Some_conv Let_def)
  note k = keep_next_task [OF assms(1) nt assms(3)]
  have "Q X u (put_meta cur (mc\<lparr>tm_stack := None\<rparr>) w1)" by (rule keep_meta [OF k mc]) simp_all
  then have "Q X u (put_meta (get_slot t) (mn\<lparr>tm_stack := tm_stack mc\<rparr>) (put_meta cur (mc\<lparr>tm_stack := None\<rparr>) w1))"
    using mn mc by (cases "get_slot t = cur") (auto intro!: keep_meta)
  then show ?thesis using assms(2) nt tg mc mn k
    by (auto simp: ending_sched_def bind_Some_conv Let_def split: if_splits intro: then_kept)
qed

section \<open>Waking, starting and ending\<close>

lemma keep_wake_front [then_kept]:
  assumes "wake_front X front w = Some (n, j, w')" and "Q X u w"
  shows "Q X u w'"
  using assms by (auto simp: wake_front_def Let_def elim!: bind_SomeE split: cases_asm dest!: then_kept [where u = u])

lemma keep_pop_waiter [then_kept]:
  assumes "pop_waiter b bx front rest w = Some w'" and "Q X u w"
  shows "Q X u w'"
proof -
  obtain bw where bw: "waiters w front = Some bw" using assms(1) by (auto simp: pop_waiter_def bind_Some_conv)
  have "Q X u (put_waiter front (bw\<lparr>w_container := None\<rparr>) (put_butex b (bx\<lparr>bx_waiters := rest\<rparr>) w))"
    using assms(2) bw by (intro keep_waiter [of X u _ front bw] keep_butex) simp_all
  then show ?thesis using assms(1) bw by (auto simp: pop_waiter_def)
qed

lemma keep_split_waiters [then_kept]:
  "split_waiters excl ws bs ps ex w = Some (bs', ps', ex', w') \<Longrightarrow> Q X u w \<Longrightarrow> Q X u w'"
proof (induction ws arbitrary: bs ps ex w)
  case (Cons i ws)
  obtain bw where bw: "waiters w i = Some bw" using Cons.prems(1) by (auto simp: bind_Some_conv)
  have "Q X u (put_waiter i (bw\<lparr>w_container := None\<rparr>) w)" by (rule keep_waiter [OF Cons.prems(2) bw]) simp_all
  then show ?case using Cons.prems bw by (auto simp: Let_def split: if_splits intro: Cons.IH)
qed simp

lemma keep_take_waiters [then_kept]:
  assumes "take_waiters b excl w = Some (bs, ps, w')" and "Q X u w"
  shows "Q X u w'"
  using assms by (auto simp: take_waiters_def bind_Some_conv intro!: keep_butex intro: keep_split_waiters)

lemma keep_wake_pthreads [then_kept]:
  "wake_pthreads X ps n w = Some (n', w') \<Longrightarrow> Q X u w \<Longrightarrow> Q X u w'"
  by (induction ps arbitrary: n w) (auto simp: bind_Some_conv intro: keep_wakeup_pthread)

lemma keep_ready_waiters [then_kept]:
  "ready_waiters X g ws n w = Some (n', w') \<Longrightarrow> Q X u w \<Longrightarrow> Q X u w'"
  by (induction ws arbitrary: n w) (auto elim!: bind_SomeE dest!: keep_unsleep [where u = u] keep_ready_general [where u = u])

lemma keep_wake:
  assumes "butex_wake X b w = Some (n, j, w')" and "Q X u w"
  shows "Q X u w'"
  using assms by (auto simp: butex_wake_def Let_def elim!: bind_SomeE split: cases_asm dest!: then_kept [where u = u])

lemma keep_wake_except:
  assumes "butex_wake_except X b excl w = Some (n, w')" and "Q X u w"
  shows "Q X u w'"
  using assms by (auto simp: butex_wake_except_def Let_def elim!: bind_SomeE split: cases_asm dest!: then_kept [where u = u])

lemma keep_wake_all:
  assumes "butex_wake_all X b w = Some (n, j, w')" and "Q X u w"
  shows "Q X u w'"
  using assms by (auto simp: butex_wake_all_def Let_def elim!: bind_SomeE split: cases_asm dest!: then_kept [where u = u])

lemma keep_start_background:
  assumes "pool_ok X" and "pool_fresh_any X w" and "start_background X remote g attr fn arg w = Some (r, th, w')" and "Q X u w"
  shows "Q X u w'"
  using assms by (auto simp: start_background_def Let_def elim!: bind_SomeE split: cases_asm dest!: keep_after [OF created [OF assms(1,2)], where u = u] then_kept [where u = u])

lemma keep_start_foreground:
  assumes "pool_ok X" and "pool_fresh_any X w" and "start_foreground X g attr fn arg w = Some (r, th, j, g', w')" and "Q X u w"
  shows "Q X u w'"
  using assms by (auto simp: start_foreground_def Let_def elim!: bind_SomeE split: cases_asm dest!: keep_after [OF created [OF assms(1,2)], where u = u] then_kept [where u = u])

lemma keep_clean_tls [then_kept]:
  assumes "clean_tls X s w = Some w'" and "Q X u w"
  shows "Q X u w'"
proof -
  obtain m where m: "metas w s = Some m" using assms(1) by (auto simp: clean_tls_def bind_Some_conv)
  have "Q X u (put_meta s (m\<lparr>tm_local_storage := None\<rparr>) v)" if "Q X u v" "metas v = metas w" for v
    using that m by (intro keep_meta [of X u v s m]) simp_all
  then show ?thesis using assms m by (auto simp: clean_tls_def split: option.splits)
qed

lemma keep_retire_version [then_kept]: "retire_version s w = Some w' \<Longrightarrow> Q X u w \<Longrightarrow> Q X u w'"
  by (auto simp: retire_version_def bind_Some_conv intro: keep_butex)

lemma keep_task_finish:
  assumes "ext_queues_ok X" and "task_finish X s w = Some (j, g', w')" and "Q X u w"
  shows "Q X u w'"
  using assms by (auto simp: task_finish_def Let_def elim!: bind_SomeE split: cases_asm dest!: then_kept [where u = u] keep_wake_except [where u = u] keep_ending_sched [where u = u])

section \<open>Waiting and interrupting\<close>

text \<open>A bthread that is about to wait has a meta and checks a butex that exists: its waiter is good.\<close>

lemma keep_wait_begin:
  assumes "ext_queues_ok X" and "butex_wait_begin X b expected abstime i w = Some (r, w')" and "Q X u w"
    and "runs g tg cur m w" and "\<not> is_current_pthread_task X tg (Some m)"
  shows "Q X u w'"
proof -
  have run: "tls_task_group (cur_tls w) = Some g" "group_at w g = Some tg" "tg_cur_meta tg = Some cur" "metas w cur = Some m"
    using assms(4) by (simp_all add: runs_def)
  obtain bx where bx: "butex_at w b = Some bx" using assms(2) by (auto simp: butex_wait_begin_def elim!: bind_SomeE)
  let ?bw = "new_bthread_waiter (tm_tid m) cur expected b"
  have k1: "Q X u (put_waiter i ?bw w)"
    by (rule trans [OF assms(3) new_waiter [OF run(4) bx]])
  have "Q X u v \<and> Q X u (put_meta cur (m\<lparr>tm_current_waiter := Some i\<rparr>) v)"
    if st: "schedule_timeout X i abstime (put_waiter i ?bw w) = Some (e, v)" for e v
  proof -
    have "metas v = metas w" using st by (auto simp: schedule_timeout_def Let_def elim!: bind_SomeE split: cases_asm)
    then show ?thesis using keep_schedule_timeout [OF st k1] run(4) by (intro conjI keep_meta [of X u v cur m]) simp_all
  qed
  moreover have "bx_value bx \<noteq> expected \<Longrightarrow> w' = set_errno EWOULDBLOCK w"
    and rest: "bx_value bx = expected \<Longrightarrow> schedule_timeout X i abstime (put_waiter i ?bw w) \<bind> (\<lambda>(e, w1).
        if e \<noteq> E0 then Some (Inl (-1), set_errno e w1)
        else set_remained g (WaitForButex i) (put_meta cur (m\<lparr>tm_current_waiter := Some i\<rparr>) w1) \<bind> (\<lambda>w2.
          sched X g w2 \<bind> (\<lambda>(jumped, g', w3). Some (Inr (jumped, g'), w3)))) = Some (r, w')"
    using assms(2,5) run bx by (simp_all add: butex_wait_begin_def)
  ultimately show ?thesis using assms(3)
    by (cases "bx_value bx = expected") (auto elim!: bind_SomeE split: if_split_asm dest!: keep_set_remained [where u = u] keep_sched [OF assms(1), where u = u])
qed

lemma keep_unsleep_loop [then_kept]:
  assumes "unsleep_loop X i w = Some w'" and "Q X u w"
  shows "Q X u w'"
proof -
  have "X' = X \<longrightarrow> Q X v v'" if "unsleep_loop X' j v = Some v'" for X' j v v'
  proof (rule unsleep_loop.raw_induct [OF _ that], goal_cases)
    case (1 rec X' j v v')
    then obtain rc v1 where un: "unsleep_if_necessary X' j v = Some (rc, v1)"
      and rest: "(if rc < 0 then rec X' j (spin X' v1) else Some v1) = Some v'" by (auto simp: bind_Some_conv)
    show ?case
    proof
      assume X: "X' = X"
      have k: "Q X v v1" using keep_unsleep [OF un refl] X by simp
      have "Q X v1 (spin X v1)" by (intro spins grabs lot_waits)
      then have "Q X v (spin X v1)" by (rule trans [OF k])
      then show "Q X v v'"
        using rest k 1(1) [of X' j "spin X' v1" v'] X trans [of X v "spin X v1" v'] by (cases "rc < 0") auto
    qed
  qed
  then show ?thesis using assms trans by blast
qed

lemma keep_take_current_waiter [then_kept]:
  assumes "take_current_waiter X s w = Some w'" and "Q X u w"
  shows "Q X u w'"
proof -
  have "X' = X \<longrightarrow> Q X v v'" if "take_current_waiter X' s v = Some v'" for X' s v v'
  proof (rule take_current_waiter.raw_induct [OF _ that], goal_cases)
    case (1 rec X' s v v')
    then obtain m where m: "metas v s = Some m" by (auto simp: bind_Some_conv)
    let ?v = "put_meta s (m\<lparr>tm_current_waiter := None\<rparr>) v"
    have p: "Q X v ?v" by (rule keep_meta [OF refl m]) simp_all
    have rest: "(if tm_current_waiter m = None then rec X' s (spin X' ?v) else Some ?v) = Some v'"
      using 1(2) m by (simp add: Let_def split: option.splits)
    show ?case
    proof
      assume X: "X' = X"
      have "Q X ?v (spin X ?v)" by (intro spins grabs lot_waits)
      then have "Q X v (spin X ?v)" by (rule trans [OF p])
      then show "Q X v v'"
        using rest p 1(1) [of X' s "spin X' ?v" v'] X trans [of X v "spin X ?v" v']
        by (cases "tm_current_waiter m = None") auto
    qed
  qed
  then show ?thesis using assms trans by blast
qed

lemma keep_wait_end:
  assumes "butex_wait_end X i w = Some (rc, w')" and "Q X u w"
  shows "Q X u w'"
proof -
  obtain w1 bw w2 m where ops: "unsleep_loop X i w = Some w1" "waiters w1 i = Some bw"
      "take_current_waiter X (w_task_meta bw) w1 = Some w2" and m: "metas w2 (w_task_meta bw) = Some m"
    using assms(1) by (auto simp: butex_wait_end_def Let_def elim!: bind_SomeE)
  have k2: "Q X u w2" by (rule keep_take_current_waiter [OF ops(3) keep_unsleep_loop [OF ops(1) assms(2)]])
  have "Q X u (put_meta (w_task_meta bw) (m\<lparr>tm_interrupted := False\<rparr>) w2)" by (rule keep_meta [OF k2 m]) simp_all
  then show ?thesis using assms(1) ops m k2
    by (auto simp: butex_wait_end_def Let_def elim!: bind_SomeE split: if_split_asm)
qed

lemma keep_set_stopped [then_kept]: "set_stopped tid w = Some w' \<Longrightarrow> Q X u w \<Longrightarrow> Q X u w'"
  by (auto simp: set_stopped_def address_meta_def elim!: bind_SomeE split: cases_asm intro!: keep_meta)

lemma keep_erase_loop [then_kept]:
  assumes "erase_loop X i st w = Some (erased, w')" and "Q X u w"
  shows "Q X u w'"
proof -
  have "X' = X \<longrightarrow> Q X v (snd r)" if "erase_loop X' j st v = Some r" for X' j st v r
  proof (rule erase_loop.raw_induct [OF _ that], goal_cases)
    case (1 rec X' j st v r)
    then obtain bw where bw: "waiters v j = Some bw" by (auto simp: bind_Some_conv)
    show ?case
    proof
      assume X: "X' = X"
      show "Q X v (snd r)"
      proof (cases "w_container bw")
        case None
        then show ?thesis using 1(2) bw by auto
      next
        case (Some b)
        have g: "Q X v (grab X b v)" by (intro spins grabs lot_waits)
        obtain bw1 where bw1: "waiters (grab X b v) j = Some bw1"
          using 1(2) bw Some X by (auto simp: Let_def elim!: bind_SomeE)
        show ?thesis
        proof (cases "w_container bw1 = Some b")
          case True
          then show ?thesis using 1(2) bw Some X bw1 g
            by (auto simp: Let_def elim!: bind_SomeE intro!: keep_waiter [of X v _ j bw1] keep_butex)
        next
          case False
          then have "rec X j st (grab X b v) = Some r" using 1(2) bw Some X bw1 by (simp add: Let_def)
          then show ?thesis using 1(1) [of X j st "grab X b v" r] g trans by blast
        qed
      qed
    qed
  qed
  then show ?thesis using assms trans by fastforce
qed

lemma keep_interrupt:
  assumes "interrupt X tid has_c w = Some (rc, w')" and "Q X u w"
    and "\<And>m. address_meta w tid = Some m \<Longrightarrow> tm_current_sleep m = 0"
  shows "Q X u w'"
proof -
  have erase: "Q X u v'" if "erase_from_butex X i wakeup st v = Some (e, v')" "Q X u v" for i wakeup st v e v'
    using that by (auto simp: erase_from_butex_def Let_def elim!: bind_SomeE split: cases_asm dest!: then_kept [where u = u])
  have start: "Q X u v'" if "interrupt_and_consume_waiters tid v = Some (r, v')" "Q X u v" for v r v'
    using that by (auto simp: interrupt_and_consume_waiters_def address_meta_def elim!: bind_SomeE split: cases_asm
        intro!: keep_meta)
  have set: "Q X u v'" if "set_butex_waiter tid i v = Some (r, v')" "Q X u v" for i v r v'
    using that by (auto simp: set_butex_waiter_def address_meta_def elim!: bind_SomeE split: cases_asm intro!: keep_meta)
  obtain q v where iv: "interrupt_and_consume_waiters tid w = Some (q, v)"
    using assms(1) by (auto simp: interrupt_def elim!: bind_SomeE)
  have k: "Q X u v" by (rule start [OF iv assms(2)])
  show ?thesis
  proof (cases q)
    case (Inl e)
    then show ?thesis using assms(1) iv k by (simp add: interrupt_def)
  next
    case (Inr bs)
    moreover obtain bw s where bs: "bs = (bw, s)" by fastforce
    ultimately have "s = 0" using iv assms(3)
      by (auto simp: interrupt_and_consume_waiters_def elim!: bind_SomeE split: cases_asm)
    then show ?thesis using assms(1) iv k Inr bs
      by (cases bw) (auto simp: interrupt_def erase_from_butex_because_of_interruption_def Let_def elim!: bind_SomeE
          split: cases_asm dest!: set erase)
  qed
qed

section \<open>Workers\<close>

lemma keep_wait_task:
  assumes "ext_queues_ok X" and "wait_task X g w = Some (t, w')" and "Q X u w"
  shows "Q X u w'"
proof -
  have "X' = X \<longrightarrow> Q X v (snd r)" if "wait_task X' g v = Some r" for X' g v r
  proof (rule wait_task.raw_induct [OF _ that], goal_cases)
    case (1 rec X' g v r)
    then obtain tg where tg: "group_at v g = Some tg" by (auto simp: bind_Some_conv)
    show ?case
    proof
      assume X: "X' = X"
      show "Q X v (snd r)"
      proof (cases "pl_stopped (tg_last_pl_state tg)")
        case True
        then show ?thesis using 1(2) tg by auto
      next
        case False
        let ?v = "pl_wait X (tg_pl tg) (tg_last_pl_state tg) v"
        obtain a v1 where gs: "group_steal_task X g ?v = Some (a, v1)"
          and rest: "(if a \<noteq> None then Some (a, v1) else rec X g v1) = Some r"
          using 1(2) tg False X by (auto simp: Let_def elim!: bind_SomeE)
        have "Q X v ?v" by (intro spins grabs lot_waits)
        then have k: "Q X v v1" by (rule keep_group_steal [OF assms(1) gs])
        then show ?thesis using rest 1(1) [of X g v1 r] X trans [of X v v1 "snd r"] by (cases a) auto
      qed
    qed
  qed
  then show ?thesis using assms trans by fastforce
qed

lemma keep_main_task_enter:
  assumes "ext_queues_ok X" and "main_task_enter X g w = Some (r, w')" and "Q X u w"
  shows "Q X u w'"
  using assms
  by (auto simp: main_task_enter_def elim!: bind_SomeE split: cases_asm
      dest!: keep_sched_to [where u = u] keep_wait_task [where u = u])

lemma keep_init_group:
  assumes "pool_ok X" and "pool_fresh_any X u" and "Q X u w" and "metas w = metas u" and "butexes w = butexes u"
    and "init_group X cap g w = Some (rc, w')"
  shows "Q X u w' \<and> control w' = control w \<and> length (groups w') = length (groups w)"
proof -
  obtain tg where tg: "group_at w g = Some tg" using assms(6) by (auto simp: init_group_def elim!: bind_SomeE)
  obtain q qo r ro where qs: "wsq_init X (tg_rq tg) cap = (q, qo)" "rrq_init X (tg_remote_rq tg) (cap div 2) = (r, ro)"
    by fastforce
  let ?w1 = "put_group g (tg\<lparr>tg_rq := q, tg_remote_rq := r\<rparr>) w"
  have k0: "Q X u (put_group g (tg\<lparr>tg_rq := q\<rparr>) w)" "Q X u ?w1" by (rule keep_group_same [OF assms(3) tg]; simp)+
  obtain x stk where gs: "get_stack X (outside ?w1) STACK_TYPE_MAIN = (x, stk)" by fastforce
  have k1: "Q X u (?w1\<lparr>outside := x\<rparr>)" using k0(2) quiet_get_stack [OF gs] by simp
  obtain w2 s where gm: "get_meta X (?w1\<lparr>outside := x\<rparr>) = (w2, s)" by fastforce
  have k2: "Q X u w2" if "s = None" using pool_empty [OF assms(1)] gm that by (blast intro: trans [OF k1])
  have w2: "control w2 = control w" "groups w2 = groups ?w1"
    using assms(1) [unfolded pool_ok_def, rule_format, OF gm] by simp_all
  show ?thesis
  proof (cases "qo \<and> ro \<and> stk \<noteq> None \<and> s \<noteq> None")
    case False
    then show ?thesis using assms(6) tg qs gs gm k0 k1 k2 w2
      by (cases qo; cases ro; cases stk; cases s) (auto simp: init_group_def)
  next
    case True
    then obtain k sl where ks: "stk = Some k" "s = Some sl" "qo" "ro" by blast
    obtain tid w3 where im: "init_main_meta X sl k w2 = Some (tid, w3)"
      using assms(6) tg qs gs gm ks by (auto simp: init_group_def Let_def elim!: bind_SomeE)
    have k3: "Q X u w3" using assms(4,5) gm ks by (intro main_created [OF assms(1,2) k1 _ _ _ im]) simp_all
    have w3: "control w3 = control w" "groups w3 = groups ?w1" "\<exists>m'. metas w3 sl = Some m'"
      using im w2 by (auto simp: init_main_meta_def Let_def elim!: bind_SomeE split: cases_asm)
    obtain tg3 where tg3: "group_at w3 g = Some tg3" using tg w3(2) by (auto simp: nth_opt_Some)
    have "Q X u (put_group g (tg3\<lparr>tg_cur_meta := Some sl, tg_main_tid := tid, tg_main_stack := k, tg_last_run_ns := now\<rparr>)
        (w3\<lparr>outside := y\<rparr>))" if "cpuwide_time_ns X (outside w3) = (y, now)" for now y
      using k3 w3(3) tg3 quiet_clock [OF that] by (intro keep_group [where tg = tg3]) auto
    then show ?thesis using assms(6) tg qs gs gm ks im tg3 w3
      by (auto simp: init_group_def Let_def split: cases_asm)
  qed
qed

lemma keep_delete_task_group:
  assumes "delete_task_group X g w = Some w'" and "Q X u w"
  shows "Q X u w'"
proof -
  obtain w1 tg1 where ds: "destruct_group X g w = Some w1" and tg1: "group_at w1 g = Some tg1"
    and w': "w' = put_group g (tg1\<lparr>tg_cur_meta := None\<rparr>) w1"
    using assms(1) by (auto simp: delete_task_group_def elim!: bind_SomeE)
  obtain tg where tg: "group_at w g = Some tg" using ds by (auto simp: destruct_group_def elim!: bind_SomeE)
  have "Q X u w1"
  proof (cases "tg_main_tid tg = 0")
    case True
    then show ?thesis using ds tg assms(2) by (simp add: destruct_group_def)
  next
    case False
    then obtain m where m: "metas w (get_slot (tg_main_tid tg)) = Some m"
      using ds tg by (auto simp: destruct_group_def address_meta_def Let_def elim!: bind_SomeE)
    have "Q X u (put_group g (tg\<lparr>tg_main_tid := 0\<rparr>)
        ((put_meta (get_slot (tg_main_tid tg)) (m\<lparr>tm_stack := None\<rparr>) v0)\<lparr>outside := y\<rparr>))"
      if "Q X u v0" "metas v0 = metas w" "groups v0 = groups w" "quiet_call X (outside v0) y" for v0 y
      using that tg m by (intro keep_group_same [of X u _ g tg] keep_quiet_1 keep_meta [of X u v0 _ m]) simp_all
    then show ?thesis using ds tg m False assms(2) by (auto simp: destruct_group_def address_meta_def Let_def)
  qed
  then show ?thesis unfolding w' by (rule keep_group [OF _ tg1]) simp_all
qed

lemma keep_create_group:
  assumes "pool_ok X" and "pool_fresh_any X w" and "create_group X w = Some (r, w')"
  shows "Q X w w'"
proof -
  obtain x raw where nt: "new_task_group X (outside w) = (x, raw)" by fastforce
  have k0: "Q X w (w\<lparr>outside := x\<rparr>)" using quiet_group [OF nt] by simp
  show ?thesis
  proof (cases raw)
    case None
    then show ?thesis using assms(3) nt k0 by (auto simp: create_group_def)
  next
    case (Some rw)
    obtain tg w1 where cg: "construct_group X rw (w\<lparr>outside := x\<rparr>) = Some (tg, w1)"
      using assms(3) nt Some by (auto simp: create_group_def elim!: bind_SomeE)
    obtain x1 now y seed where clk: "cpuwide_time_ns X x = (x1, now)" "fast_rand X x1 = (y, seed)" by fastforce
    with cg obtain off where "nth_opt (offset_table X) (unat seed mod length (offset_table X)) = Some off"
      by (auto simp: construct_group_def elim!: bind_SomeE)
    with cg clk have w1: "w1 = w\<lparr>outside := y\<rparr>"
      and tg: "tg_cur_meta tg = None" "tg_last_context_remained tg = None" by (auto simp: construct_group_def)
    let ?u = "w1\<lparr>groups := groups w1 @ [tg]\<rparr>" and ?g = "length (groups w1)"
    have "(quiet_call X)\<^sup>*\<^sup>* (outside w) y" using quiet_group [OF nt] quiet_clock [OF clk(1)] quiet_rand [OF clk(2)]
      by (meson quiet_one quiet_first)
    then have ku: "Q X w ?u" unfolding w1 by (intro keep_after [OF new_group [OF tg]] keep_quiet) simp_all
    obtain rc w2 where ig: "init_group X task_group_runqueue_capacity ?g ?u = Some (rc, w2)"
      using assms(3) nt Some cg by (auto simp: create_group_def Let_def elim!: bind_SomeE)
    have k2: "Q X w w2" "control w2 = control ?u" "length (groups w2) = length (groups ?u)"
      using keep_init_group [OF assms(1,2) ku _ _ ig] by (simp_all add: w1)
    obtain rc2 w3 where ag: "add_group X (Some ?g) w2 = (rc2, w3)" by fastforce
    have "Q X w w3" using k2 by (intro listing [OF _ _ _ _ ag]) (simp_all add: w1)
    then show ?thesis using assms(3) nt Some cg ig k2 ag
      by (auto simp: create_group_def Let_def elim!: bind_SomeE split: if_split_asm intro: keep_delete_task_group)
  qed
qed

end

end
