(* ===== verification/Addresses.thy ===== *)
theory Addresses
  imports Kept
begin

text \<open>
  Pointers.  \<open>addresses_ok\<close> is the typing of a world: every pointer that the operations follow points to an object that
  exists.  Each operation keeps it, and never frees an object that it was given, whatever the queues contain.
  \<open>Progress\<close> shows with it that the operations cannot get stuck.
\<close>

section \<open>Pointers that are followed\<close>

text \<open>
  The version butex of a meta, the meta and the butex of a waiter that belongs to a bthread, the current meta of a
  group and the groups of the array.
\<close>

definition meta_ok :: "('q, 'r, 'x) world \<Rightarrow> task_meta \<Rightarrow> bool" where
  "meta_ok w m \<longleftrightarrow> tm_version_butex m < length (butexes w)"

definition waiter_ok :: "('q, 'r, 'x) world \<Rightarrow> waiter \<Rightarrow> bool" where
  "waiter_ok w bw \<longleftrightarrow> metas w (w_task_meta bw) \<noteq> None \<and> w_initial_butex bw < length (butexes w)"

definition cur_ok :: "('q, 'r, 'x) world \<Rightarrow> ('q, 'r) task_group \<Rightarrow> bool" where
  "cur_ok w tg \<longleftrightarrow> (\<forall>s. tg_cur_meta tg = Some s \<longrightarrow> metas w s \<noteq> None)"

definition addresses_ok :: "('q, 'r, 'x) ext \<Rightarrow> ('q, 'r, 'x) world \<Rightarrow> bool" where
  "addresses_ok X w \<longleftrightarrow>
     (\<forall>s m. metas w s = Some m \<longrightarrow> meta_ok w m)
   \<and> (\<forall>i bw. waiters w i = Some bw \<longrightarrow> w_tid bw \<noteq> 0 \<longrightarrow> waiter_ok w bw)
   \<and> (\<forall>tg \<in> set (groups w). cur_ok w tg)
   \<and> groups_ok X w"

text \<open>
  \<open>outlives X w w'\<close>: what exists in \<open>w\<close> exists in \<open>w'\<close>, the thread belongs to the same group, and if the
  pointers of \<open>w\<close> are good, so are those of \<open>w'\<close>.
\<close>

definition outlives :: "('q, 'r, 'x) ext \<Rightarrow> ('q, 'r, 'x) world \<Rightarrow> ('q, 'r, 'x) world \<Rightarrow> bool" where
  "outlives X w w' \<longleftrightarrow>
     tls_task_group (cur_tls w') = tls_task_group (cur_tls w)
   \<and> length (groups w) \<le> length (groups w') \<and> length (butexes w) \<le> length (butexes w')
   \<and> (\<forall>s. metas w s \<noteq> None \<longrightarrow> metas w' s \<noteq> None)
   \<and> (\<forall>i. waiters w i \<noteq> None \<longrightarrow> waiters w' i \<noteq> None)
   \<and> (addresses_ok X w \<longrightarrow> addresses_ok X w')"

text \<open>The law of the other threads: they too free no object that is in use, and follow the same typing.\<close>

definition others_ok :: "('q, 'r, 'x) ext \<Rightarrow> bool" where
  "others_ok X \<longleftrightarrow>
     (\<forall>w. outlives X w (nap X w) \<and> outlives X w (spin X w)
        \<and> (\<forall>b. outlives X w (grab X b w)) \<and> (\<forall>i v. outlives X w (pl_wait X i v w))
        \<and> (\<forall>g w'. ready_nosignal_tasks_remote X g w = Some w' \<longrightarrow> outlives X w w'))"

definition kept :: "('q, 'r, 'x) ext \<Rightarrow> ('q, 'r, 'x) world \<Rightarrow> ('q, 'r, 'x) world \<Rightarrow> bool" where
  "kept X w w' \<longleftrightarrow> (others_ok X \<longrightarrow> outlives X w w')"

lemma outlives_kept: "outlives X w w' \<Longrightarrow> kept X w w'"
  by (simp add: kept_def)

lemma kept_refl [simp, intro]: "kept X w w"
  by (simp add: kept_def outlives_def)

lemma kept_trans [trans]: "kept X u v \<Longrightarrow> kept X v w \<Longrightarrow> kept X u w"
  by (auto simp: kept_def outlives_def)

lemma kept_after: "kept X v w \<Longrightarrow> kept X u v \<Longrightarrow> kept X u w"
  by (rule kept_trans)

lemma kept_same:
  assumes "groups w' = groups w" and "metas w' = metas w" and "butexes w' = butexes w" and "waiters w' = waiters w"
    and "tls_task_group (cur_tls w') = tls_task_group (cur_tls w)"
    and "tc_groups (control w') = tc_groups (control w)" and "tc_ngroup (control w') = tc_ngroup (control w)"
  shows "kept X w w'"
  using assms
  by (simp add: kept_def outlives_def addresses_ok_def meta_ok_def waiter_ok_def cur_ok_def groups_ok_def listed_def)

lemma kept_cong:
  assumes "groups w' = groups w" and "metas w' = metas w" and "butexes w' = butexes w" and "waiters w' = waiters w"
    and "tls_task_group (cur_tls w') = tls_task_group (cur_tls w)"
    and "tc_groups (control w') = tc_groups (control w)" and "tc_ngroup (control w') = tc_ngroup (control w)"
  shows "kept X u w' = kept X u w"
  using kept_trans [of X u w w'] kept_trans [of X u w' w] kept_same [OF assms, of X]
    kept_same [OF assms [symmetric], of X] by blast

lemma kept_changed [simp]:
  "kept X u (w\<lparr>outside := x\<rparr>) = kept X u w"
  "kept X u (w\<lparr>frames := f\<rparr>) = kept X u w"
  "tls_task_group l = tls_task_group (cur_tls w) \<Longrightarrow> kept X u (w\<lparr>cur_tls := l\<rparr>) = kept X u w"
  "kept X u (log_fatal ft w) = kept X u w"
  "kept X u (set_errno e w) = kept X u w"
  "kept X u (count_bthreads n w) = kept X u w"
  by (rule kept_cong; simp add: count_bthreads_def)+

lemma group_exists: "kept X w w' \<Longrightarrow> others_ok X \<Longrightarrow> group_at w g = Some tg \<Longrightarrow> \<exists>tg'. group_at w' g = Some tg'"
  by (auto simp: kept_def outlives_def nth_opt_Some)

lemma butex_exists: "kept X w w' \<Longrightarrow> others_ok X \<Longrightarrow> b < length (butexes w) \<Longrightarrow> \<exists>bx. butex_at w' b = Some bx"
  by (auto simp: kept_def outlives_def nth_opt_Some)

lemma meta_exists: "kept X w w' \<Longrightarrow> others_ok X \<Longrightarrow> metas w s = Some m \<Longrightarrow> \<exists>m'. metas w' s = Some m'"
  by (auto simp: kept_def outlives_def)

lemma waiter_exists: "kept X w w' \<Longrightarrow> others_ok X \<Longrightarrow> waiters w i = Some bw \<Longrightarrow> \<exists>bw'. waiters w' i = Some bw'"
  by (auto simp: kept_def outlives_def)

lemma kept_ok: "kept X w w' \<Longrightarrow> others_ok X \<Longrightarrow> addresses_ok X w \<Longrightarrow> addresses_ok X w'"
  by (simp add: kept_def outlives_def)

lemma kept_tls: "kept X w w' \<Longrightarrow> others_ok X \<Longrightarrow> tls_task_group (cur_tls w') = tls_task_group (cur_tls w)"
  by (simp add: kept_def outlives_def)

lemma kept_group:
  assumes "kept X u w" and "\<And>s. tg_cur_meta tg' = Some s \<Longrightarrow> tg_cur_meta tg = Some s \<or> (\<exists>m. metas w s = Some m)"
    and "group_at w g = Some tg"
  shows "kept X u (put_group g tg' w)"
proof -
  let ?w = "put_group g tg' w"
  have "cur_ok w tg'" if "cur_ok w tg" using that assms(2) by (auto simp: cur_ok_def)
  moreover have "tg \<in> set (groups w)" using assms(3) by (auto simp: nth_opt_Some)
  moreover have "h = tg' \<or> h \<in> set (groups w)" if "h \<in> set (groups ?w)" for h
    using that set_update_subset_insert [of "groups w" g tg'] by (auto simp: put_group_def)
  ultimately have "\<forall>h \<in> set (groups ?w). cur_ok w h" if "\<forall>h \<in> set (groups w). cur_ok w h"
    using that by blast
  then have "addresses_ok X ?w" if "addresses_ok X w"
    using that by (simp add: addresses_ok_def meta_ok_def waiter_ok_def cur_ok_def groups_ok_def listed_def put_group_def)
  then have "outlives X w ?w" by (simp add: outlives_def put_group_def)
  then show ?thesis using assms(1) outlives_kept kept_trans by blast
qed

lemma kept_group_same:
  "kept X u w \<Longrightarrow> group_at w g = Some tg \<Longrightarrow> tg_cur_meta tg' = tg_cur_meta tg \<Longrightarrow> kept X u (put_group g tg' w)"
  by (erule kept_group) simp_all

lemma kept_meta:
  assumes "kept X u w" and "metas w s = Some m" and "tm_version_butex m' = tm_version_butex m"
  shows "kept X u (put_meta s m' w)"
proof -
  have "meta_ok w m' = meta_ok w m" by (simp add: meta_ok_def assms(3))
  then have "outlives X w (put_meta s m' w)" using assms(2)
    by (auto simp: outlives_def addresses_ok_def meta_ok_def waiter_ok_def cur_ok_def groups_ok_def listed_def put_meta_def)
  then show ?thesis using assms(1) outlives_kept kept_trans by blast
qed

lemma kept_butex: "kept X u w \<Longrightarrow> kept X u (put_butex b bx w)"
  by (erule kept_trans, rule outlives_kept)
    (simp add: outlives_def addresses_ok_def meta_ok_def waiter_ok_def cur_ok_def groups_ok_def listed_def put_butex_def)

lemma kept_new_waiter:
  assumes "kept X u w" and "others_ok X \<Longrightarrow> w_tid bw' \<noteq> 0 \<Longrightarrow> addresses_ok X w \<Longrightarrow> waiter_ok w bw'"
  shows "kept X u (put_waiter i bw' w)"
proof -
  have "outlives X w (put_waiter i bw' w)" if "others_ok X" using assms(2) [OF that]
    by (auto simp: outlives_def addresses_ok_def meta_ok_def waiter_ok_def cur_ok_def groups_ok_def listed_def put_waiter_def)
  then show ?thesis using assms(1) kept_trans by (simp add: kept_def outlives_def)
qed

lemma kept_waiter:
  assumes "kept X u w" and "waiters w i = Some bw" and "w_tid bw' = w_tid bw" and "w_task_meta bw' = w_task_meta bw"
    and "w_initial_butex bw' = w_initial_butex bw"
  shows "kept X u (put_waiter i bw' w)"
  using assms(1)
proof (rule kept_new_waiter)
  show "w_tid bw' \<noteq> 0 \<Longrightarrow> addresses_ok X w \<Longrightarrow> waiter_ok w bw'"
    using assms(2-5) by (simp add: addresses_ok_def waiter_ok_def)
qed

section \<open>Elementary changes\<close>
lemma kept_signal_task [simp]: "kept X u (signal_task X n w) = kept X u w"
proof -
  have "kept X w (signal_task X n w)" and "kept X (signal_task X n w) w" by (rule kept_same; simp)+
  then show ?thesis using kept_trans by blast
qed

interpretation pushed: kept_by_pushes kept
proof unfold_locales
  fix X :: "('a, 'b, 'c) ext" and u v w :: "('a, 'b, 'c) world" and g tg tg' n
  show "kept X w w" by simp
  show "kept X u v \<Longrightarrow> kept X v w \<Longrightarrow> kept X u w" by (rule kept_trans)
  show "group_at w g = Some tg \<Longrightarrow> queue_part_only tg tg' \<Longrightarrow> kept X w (put_group g tg' w)"
    by (rule kept_group_same [OF kept_refl, of w g tg tg']) (auto simp: queue_part_only_def)
  show "kept X w (signal_task X n w)" by simp
  show "kept X w (nap X w)" by (simp add: kept_def others_ok_def)
qed

lemma kept_unsleep:
  assumes "unsleep_if_necessary X i w = Some (rc, w')" and "kept X u w"
  shows "kept X u w'"
proof -
  obtain bw where bw: "waiters w i = Some bw" using assms(1) by (auto simp: unsleep_if_necessary_def bind_Some_conv)
  have "kept X u (put_waiter i (bw\<lparr>w_sleep_id := 0\<rparr>) (w\<lparr>outside := x\<rparr>))" for x
    using assms(2) bw by (intro kept_waiter [of X u _ i bw]) simp_all
  then show ?thesis using assms bw
    by (auto simp: unsleep_if_necessary_def Let_def split: if_splits prod.splits)
qed

lemma kept_add_sleep_event:
  assumes "add_sleep_event X e w = Some w'" and "kept X u w"
  shows "kept X u w'"
proof -
  have "kept X u (put_meta s (m\<lparr>tm_current_sleep := k\<rparr>) (w\<lparr>outside := x\<rparr>))" if "metas w s = Some m" for s m k x
    using that assms(2) by (intro kept_meta [of X u _ s m]) simp_all
  then show ?thesis using assms
    by (auto simp: add_sleep_event_def bind_Some_conv Let_def split: if_splits prod.splits intro: kept_after [OF pushed.ready])
qed


lemma kept_queues_frame:
  assumes "queues_frame w w'"
  shows "kept X w w'"
proof -
  note same = queues_frame_same [OF assms]
  have "cur_ok w' tg'" if w: "\<forall>tg \<in> set (groups w). cur_ok w tg" and tg': "tg' \<in> set (groups w')" for tg'
  proof -
    obtain g where g: "group_at w' g = Some tg'" using tg' by (auto simp: in_set_conv_nth nth_opt_Some)
    then obtain tg where tg: "group_at w g = Some tg" using same(11) by (auto simp: nth_opt_Some)
    have "tg_cur_meta tg' = tg_cur_meta tg"
    proof (rule queues_frame_group [OF assms tg])
      fix tg2 assume "group_at w' g = Some tg2"
        and "\<And>q r. tg2\<lparr>tg_rq := q, tg_remote_rq := r\<rparr> = tg\<lparr>tg_rq := q, tg_remote_rq := r\<rparr>"
      from this(1) this(2) [of "tg_remote_rq tg" "tg_rq tg"] g show ?thesis by (cases tg; cases tg2) simp
    qed
    moreover have "tg \<in> set (groups w)" using tg by (auto simp: nth_opt_Some)
    ultimately show ?thesis using w same(1) by (simp add: cur_ok_def)
  qed
  then have "addresses_ok X w \<longrightarrow> addresses_ok X w'"
    using same queues_frame_places(4) [OF assms, of X] by (simp add: addresses_ok_def meta_ok_def waiter_ok_def)
  then show ?thesis using same by (intro outlives_kept) (simp add: outlives_def)
qed

lemma kept_get_meta:
  assumes "pool_ok X" and "get_meta X w = (w', r)" and "kept X u w"
  shows "kept X u w'"
proof -
  have law: "groups w' = groups w" "waiters w' = waiters w" "control w' = control w" "cur_tls w' = cur_tls w"
    and bs: "length (butexes w) \<le> length (butexes w')"
    and old: "metas w s = Some m \<Longrightarrow> metas w' s = Some m" "r \<noteq> Some s \<Longrightarrow> metas w' s = metas w s"
    and new: "r = Some s \<Longrightarrow> \<exists>m v. metas w' s = Some m \<and> version_of w' m = Some v" for s m
    using assms(1) [unfolded pool_ok_def, rule_format, OF assms(2)] by auto
  have "meta_ok w' m" if "\<forall>s m. metas w s = Some m \<longrightarrow> meta_ok w m" "metas w' s = Some m" for s m
  proof (cases "r = Some s")
    case True
    then show ?thesis using new that(2) by (auto simp: meta_ok_def version_of_def nth_opt_Some)
  next
    case False
    then show ?thesis using old(2) that bs by (fastforce simp: meta_ok_def)
  qed
  moreover have "waiter_ok w' bw" if "waiter_ok w bw" for bw using that old(1) bs by (auto simp: waiter_ok_def)
  moreover have "cur_ok w' tg" if "cur_ok w tg" for tg using that old(1) by (auto simp: cur_ok_def)
  ultimately have "addresses_ok X w \<longrightarrow> addresses_ok X w'"
    using law by (simp add: addresses_ok_def groups_ok_def listed_def)
  then have "outlives X w w'" using law bs old(1) by (auto simp: outlives_def)
  then show ?thesis using assms(3) outlives_kept kept_trans by blast
qed

lemma kept_init_meta:
  assumes "init_meta X s fn arg a ns w = Some (t, w')" and "kept X u w"
  shows "kept X u w'"
proof -
  obtain m where m: "metas w s = Some m" using assms(1) by (auto simp: init_meta_def bind_Some_conv)
  have "kept X u (put_meta s m' v)" if "tm_version_butex m' = tm_version_butex m" "kept X u v" "metas v = metas w" for m' v
    using that m by (intro kept_meta [of X u v s m]) simp_all
  then show ?thesis using assms m by (auto simp: init_meta_def bind_Some_conv Let_def)
qed

lemma kept_create_task:
  assumes "pool_ok X" and "create_task X a fn arg w = Some (r, w')" and "kept X u w"
  shows "kept X u w'"
proof (cases fn)
  case None
  then show ?thesis using assms(2,3) by (simp add: create_task_def)
next
  case (Some f)
  obtain x ns where clk: "cpuwide_time_ns X (outside w) = (x, ns)" by fastforce
  obtain w1 s where gm: "get_meta X (w\<lparr>outside := x\<rparr>) = (w1, s)" by fastforce
  have "kept X u w1" using assms(3) by (intro kept_get_meta [OF assms(1) gm]) simp
  then show ?thesis using assms(2) Some clk gm
    by (cases s) (auto simp: create_task_def bind_Some_conv intro: kept_init_meta)
qed

lemma others_kept:
  "kept X w (nap X w)" "kept X w (spin X w)" "kept X w (grab X b w)" "kept X w (pl_wait X i v w)"
  "ready_nosignal_tasks_remote X g w = Some w' \<Longrightarrow> kept X w w'"
  by (simp_all add: kept_def others_ok_def)

lemma kept_schedule_timeout:
  assumes "schedule_timeout X i abstime w = Some (e, w')" and "kept X u w"
  shows "kept X u w'"
proof -
  have "kept X u (put_waiter i (bw\<lparr>w_sleep_id := k\<rparr>) (w\<lparr>outside := x\<rparr>))" if "waiters w i = Some bw" for bw k x
    using that assms(2) by (intro kept_waiter [of X u _ i bw]) simp_all
  then show ?thesis using assms
    by (auto simp: schedule_timeout_def Let_def elim!: bind_SomeE split: cases_asm)
qed

lemma kept_new_group:
  assumes "kept X u w" and "tg_cur_meta tg = None"
  shows "kept X u (w\<lparr>groups := groups w @ [tg]\<rparr>)"
proof -
  have "outlives X w (w\<lparr>groups := groups w @ [tg]\<rparr>)" using assms(2)
    by (fastforce simp: outlives_def addresses_ok_def meta_ok_def waiter_ok_def cur_ok_def groups_ok_def listed_def)
  then show ?thesis using assms(1) outlives_kept kept_trans by blast
qed

lemma kept_add_group:
  assumes "add_group X (Some g) w = (rc, w')" and "kept X u w" and "g < length (groups w)"
    and "addresses_ok X u \<Longrightarrow> Some g \<notin> set (listed w)"
  shows "kept X u w'"
proof -
  have same: "groups w' = groups w" "metas w' = metas w" "butexes w' = butexes w" "waiters w' = waiters w" "cur_tls w' = cur_tls w"
    using assms(1) by (auto simp: add_group_def Let_def split: if_splits)
  have "groups_ok X w'" if "addresses_ok X u" "groups_ok X w"
    using add_group_spec [OF that(2) assms(3) assms(4) [OF that(1)] assms(1)] by simp
  then show ?thesis using assms(2)
    by (auto simp: kept_def outlives_def same addresses_ok_def meta_ok_def waiter_ok_def cur_ok_def)
qed

lemma kept_main_created:
  assumes "pool_ok X" and "kept X u v" and "get_meta X v = (w, Some sl)" and "init_main_meta X sl stk w = Some (tid, w')"
  shows "kept X u w'"
proof -
  obtain m where m: "metas w sl = Some m" using assms(4) by (auto simp: init_main_meta_def elim!: bind_SomeE)
  have "kept X u (put_meta sl m' (w\<lparr>outside := y\<rparr>))" if "tm_version_butex m' = tm_version_butex m" for m' y
    using that kept_get_meta [OF assms(1,3,2)] m by (intro kept_meta [of X u _ sl m]) simp_all
  then show ?thesis using assms(4) m by (auto simp: init_main_meta_def Let_def elim!: bind_SomeE split: cases_asm)
qed

section \<open>All operations keep the typing\<close>

interpretation addresses: kept_by_operations kept
proof unfold_locales
  fix X :: "('a, 'b, 'c) ext" and u v w w' :: "('a, 'b, 'c) world" and g tg s m m' b bx i bw bw' e x n
    and tg' :: "('a, 'b) task_group"
  note r = kept_refl [of X w]
  show "kept X w w" by (rule r)
  show "kept X u v \<Longrightarrow> kept X v w \<Longrightarrow> kept X u w" by (rule kept_trans)
  show "kept X w (w\<lparr>outside := x\<rparr>)" by simp
  show "group_at w g = Some tg \<Longrightarrow> (\<And>s. tg_cur_meta tg' = Some s \<Longrightarrow> tg_cur_meta tg = Some s \<or> (\<exists>m. metas w s = Some m)) \<Longrightarrow>
      kept X w (put_group g tg' w)"
    by (rule kept_group [OF r])
  show "metas w s = Some m \<Longrightarrow> tm_version_butex m' = tm_version_butex m \<Longrightarrow> kept X w (put_meta s m' w)" by (rule kept_meta [OF r])
  show "kept X w (put_butex b bx w)" by (rule kept_butex [OF r])
  show "waiters w i = Some bw \<Longrightarrow> w_tid bw' = w_tid bw \<Longrightarrow> w_task_meta bw' = w_task_meta bw \<Longrightarrow>
      w_initial_butex bw' = w_initial_butex bw \<Longrightarrow> kept X w (put_waiter i bw' w)"
    by (rule kept_waiter [OF r])
  show "metas w s = Some m \<Longrightarrow> butex_at w b = Some bx \<Longrightarrow> kept X w (put_waiter i (new_bthread_waiter t s v b) w)" for t v
    by (rule kept_new_waiter [OF r]) (simp add: waiter_ok_def new_bthread_waiter_def nth_opt_Some)
  show "queues_frame w w' \<Longrightarrow> kept X w w'" by (rule kept_queues_frame)
  show "kept X w (signal_task X n w)" by simp
  show "unsleep_if_necessary X i w = Some (rc, w') \<Longrightarrow> kept X w w'" for rc by (rule kept_unsleep [OF _ r])
  show "schedule_timeout X i t w = Some (err, w') \<Longrightarrow> kept X w w'" for t err by (rule kept_schedule_timeout [OF _ r])
  show "group_at w g = Some tg \<Longrightarrow> tg_last_context_remained tg = Some (AddSleepEvent e) \<Longrightarrow>
      add_sleep_event X e (put_group g (tg\<lparr>tg_last_context_remained := None\<rparr>) w) = Some w' \<Longrightarrow> kept X w w'"
    by (erule kept_add_sleep_event) (auto intro: kept_group_same [OF r])
  show "pool_ok X \<Longrightarrow> create_task X a fn arg w = Some (rs, w') \<Longrightarrow> kept X w w'" for a fn arg rs by (rule kept_create_task [OF _ _ r])
  show "tg_cur_meta tg' = None \<Longrightarrow> kept X w (w\<lparr>groups := groups w @ [tg']\<rparr>)" by (rule kept_new_group [OF r])
  show "pool_ok X \<Longrightarrow> get_meta X w = (w', None) \<Longrightarrow> kept X w w'" by (rule kept_get_meta [OF _ _ r])
  show "pool_ok X \<Longrightarrow> kept X u v \<Longrightarrow> get_meta X v = (w, Some sl) \<Longrightarrow> init_main_meta X sl stk w = Some (tid, w') \<Longrightarrow> kept X u w'"
    for sl stk tid by (rule kept_main_created)
  show "kept X u w'" if "kept X u w" "control w = control u" "length (groups u) \<le> g" "g < length (groups w)"
    "add_group X (Some g) w = (rcode, w')" for rcode
    using that by (intro kept_add_group [OF that(5,1,4)]) (auto simp: addresses_ok_def groups_ok_def listed_def)
qed (rule kept_same others_kept; assumption)+

text \<open>The facts that \<open>Progress\<close> uses.\<close>

lemmas kept_clean_tls = addresses.keep_clean_tls
lemmas kept_give_stack = addresses.keep_give_stack
lemmas kept_next_task = addresses.keep_next_task
lemmas kept_pop_waiter = addresses.keep_pop_waiter
lemmas kept_ready = addresses.keep_ready
lemmas kept_ready_general = addresses.keep_ready_general
lemmas kept_ready_waiters = addresses.keep_ready_waiters
lemmas kept_retire_version = addresses.keep_retire_version
lemmas kept_run_remained = addresses.keep_run_remained
lemmas kept_sched_account = addresses.keep_sched_account
lemmas kept_sched_switch = addresses.keep_sched_switch
lemmas kept_take_waiters = addresses.keep_take_waiters
lemmas kept_wake_except = addresses.keep_wake_except
lemmas kept_wake_pthreads = addresses.keep_wake_pthreads
lemmas kept_wakeup_pthread = addresses.keep_wakeup_pthread

section \<open>Workers\<close>

lemma kept_stop_workers: "kept X w (stop_workers X w)"
proof -
  have stop: "kept X v (pl_stop X i v)" for i v
    using pl_stop_control_frame [of v X i] by (intro kept_same) (simp_all add: control_frame_def)
  have fold: "kept X v (fold (pl_stop X) ls v)" for ls v
    by (induction ls arbitrary: v) (auto intro: kept_trans [OF stop])
  let ?v = "upd_control (\<lambda>c. c\<lparr>tc_stop := True, tc_ngroup := 0\<rparr>) w"
  have "outlives X w ?v"
    by (simp add: outlives_def addresses_ok_def meta_ok_def waiter_ok_def cur_ok_def groups_ok_def listed_def)
  then show ?thesis unfolding stop_workers_def using fold [of ?v] outlives_kept kept_trans by blast
qed

lemma addresses_ok_tls: "addresses_ok X (w\<lparr>cur_tls := tls\<rparr>) = addresses_ok X w"
  by (simp add: addresses_ok_def meta_ok_def waiter_ok_def cur_ok_def groups_ok_def listed_def)

lemma worker_end_addresses:
  assumes "addresses_ok X w" and "worker_end X g w = Some w'" and "others_ok X"
  shows "addresses_ok X w'"
proof -
  let ?w = "w\<lparr>cur_tls := (cur_tls w)\<lparr>tls_task_group := None\<rparr>\<rparr>"
  have ok: "addresses_ok X ?w" and ds: "destroy_self X g ?w = Some w'"
    using assms by (simp_all add: addresses_ok_tls worker_end_def)
  obtain tg where tg: "group_at w g = Some tg" using ds by (auto simp: destroy_self_def elim!: bind_SomeE)
  show ?thesis
  proof (cases "tg_has_control tg")
    case False
    then show ?thesis using ds tg ok
      by (auto simp: destroy_self_def log_fatal_def addresses_ok_def meta_ok_def waiter_ok_def cur_ok_def groups_ok_def listed_def)
  next
    case True
    then obtain rc w1 tg1 where dg: "delete_group X (Some g) ?w = Some (rc, w1)" and tg1: "group_at w1 g = Some tg1"
      and w': "w' = put_group g (tg1\<lparr>tg_has_control := False\<rparr>) w1"
      using ds tg by (auto simp: destroy_self_def elim!: bind_SomeE)
    note same = delete_group_frame [OF dg]
    have "groups_ok X w1" using delete_group_spec [of X ?w g tg rc w1] ok tg True dg by (simp add: addresses_ok_def)
    then have ok1: "addresses_ok X w1" using ok by (simp add: addresses_ok_def meta_ok_def waiter_ok_def cur_ok_def same)
    show ?thesis unfolding w' by (rule kept_ok [OF kept_group_same [OF kept_refl tg1] assms(3) ok1]) simp
  qed
qed

section \<open>Sleeping\<close>

lemma kept_set_remained: "set_remained g r w = Some w' \<Longrightarrow> kept X u w \<Longrightarrow> kept X u w'"
  by (auto simp: set_remained_def elim!: bind_SomeE intro: kept_group_same)

lemma kept_usleep:
  assumes "ext_queues_ok X" and "usleep_begin X g us w = Some (eo, j, g', w')" and "kept X u w"
  shows "kept X u w'"
proof (cases "us = 0")
  case True
  then show ?thesis using assms(2) addresses.keep_yield [OF assms(1) _ assms(3)]
    by (auto simp: usleep_begin_def elim!: bind_SomeE)
next
  case False
  then obtain r w1 where "set_remained g r w = Some w1" and sc: "sched X g w1 = Some (j, g', w')"
    using assms(2) by (auto simp: usleep_begin_def Let_def elim!: bind_SomeE)
  then show ?thesis using addresses.keep_sched [OF assms(1) sc] kept_set_remained assms(3) by blast
qed

lemma kept_usleep_end:
  assumes "usleep_end eo w = Some (rc, w')" and "kept X u w"
  shows "kept X u w'"
proof (cases eo)
  case None
  then show ?thesis using assms by (simp add: usleep_end_def)
next
  case (Some e)
  then obtain m where m: "metas w (sa_meta e) = Some m" using assms(1) by (auto simp: usleep_end_def elim!: bind_SomeE)
  have "kept X u (put_meta (sa_meta e) m' w)" if "tm_version_butex m' = tm_version_butex m" for m'
    by (rule kept_meta [OF assms(2) m that])
  then show ?thesis using assms(1) Some m by (auto simp: usleep_end_def split: if_splits)
qed

lemma kept_timer_thread: "ready_to_run_from_timer_thread X e w = Some w' \<Longrightarrow> kept X u w \<Longrightarrow> kept X u w'"
  by (auto simp: ready_to_run_from_timer_thread_def Let_def elim!: bind_SomeE split: if_splits
      dest!: addresses.keep_ready(2) [where u = u] addresses.keep_choose [where u = u])

lemma kept_wake_sleeper: "wake_sleeper X tid has_c w = Some (rc, w') \<Longrightarrow> kept X u w \<Longrightarrow> kept X u w'"
  by (auto simp: wake_sleeper_def elim!: bind_SomeE split: cases_asm
      intro: addresses.keep_ready(1,2) addresses.keep_choose)

lemma kept_interrupt_sleeper:
  assumes "interrupt X tid has_c w = Some (rc, w')" and "\<And>m. address_meta w tid = Some m \<Longrightarrow> tm_current_waiter m = None"
    and "kept X u w"
  shows "kept X u w'"
proof -
  obtain q v where iv: "interrupt_and_consume_waiters tid w = Some (q, v)"
    using assms(1) by (auto simp: interrupt_def elim!: bind_SomeE)
  have k: "kept X u v" using iv assms(3)
    by (auto simp: interrupt_and_consume_waiters_def address_meta_def elim!: bind_SomeE split: cases_asm intro!: kept_meta)
  have none: "bw = None" if "q = Inr (bw, s)" for bw s
    using that iv assms(2) by (auto simp: interrupt_and_consume_waiters_def elim!: bind_SomeE split: cases_asm)
  show ?thesis using assms(1) iv k none
    by (cases q) (auto simp: interrupt_def Let_def split: cases_asm intro: kept_wake_sleeper)
qed

section \<open>The typing is kept\<close>

lemma system_step_addresses:
  assumes "outside_ok X" and "others_ok X" and "system_step X w e w'" and "addresses_ok X w"
  shows "addresses_ok X w'"
proof -
  have laws: "ext_queues_ok X" "pool_ok X" using assms(1) by (simp_all add: outside_ok_def)
  have by_kept: "addresses_ok X w'" if "kept X w w'" using that assms(2,4) by (rule kept_ok)
  note r = kept_refl
  from assms(3) show ?thesis
  proof cases
    case (other_thread tls)
    then show ?thesis using assms(4) by (simp add: addresses_ok_tls)
  next
    case (store b bx v)
    then show ?thesis using by_kept kept_butex [OF r] by blast
  next
    case (background remote g attr fn arg r th)
    then show ?thesis using by_kept addresses.keep_start_background [OF laws(2) _ _ r] by blast
  next
    case (foreground g tg cur m attr fn arg r th jumped g')
    then show ?thesis using by_kept addresses.keep_start_foreground [OF laws(2) _ _ r] by blast
  next
    case (yields g tg cur m jumped g')
    then show ?thesis using by_kept addresses.keep_yield [OF laws(1) _ r] by blast
  next
    case (finishes g tg cur m jumped g')
    then show ?thesis using by_kept addresses.keep_task_finish [OF laws(1) _ r] by blast
  next
    case (waits g tg cur m i b expected abstime r)
    then show ?thesis using by_kept addresses.keep_wait_begin [OF laws(1) _ r] by (auto simp: runs_bthread_of_def)
  next
    case (goes_on i rc)
    then show ?thesis using by_kept addresses.keep_wait_end [OF _ r] by blast
  next
    case (wakes b n jumped)
    then show ?thesis using by_kept addresses.keep_wake [OF _ r] by blast
  next
    case (wakes_all g tg cur m b n jumped)
    then show ?thesis using by_kept addresses.keep_wake_all [OF _ r] by blast
  next
    case (wakes_except g tg cur m b excl n)
    then show ?thesis using by_kept addresses.keep_wake_except [OF _ r] by blast
  next
    case (interrupts tid has_c rc)
    then show ?thesis using by_kept addresses.keep_interrupt [OF _ r] by blast
  next
    case (stops tid)
    then show ?thesis using by_kept addresses.keep_set_stopped [OF _ r] by blast
  next
    case (idles g tg cur m r)
    then show ?thesis using by_kept addresses.keep_main_task_enter [OF laws(1) _ kept_refl] by blast
  next
    case (worker_starts r)
    then show ?thesis using by_kept addresses.keep_create_group [OF laws(2)] by blast
  next
    case (worker_ends g)
    then show ?thesis using worker_end_addresses [OF assms(4) _ assms(2)] by blast
  next
    case stops_workers
    then show ?thesis using by_kept kept_stop_workers by blast
  qed
qed

end
