(* ===== verification/Sleepers.thy ===== *)
theory Sleepers
  imports Kept
begin

text \<open>
  The runtime with its sleeping bthreads.  The timer is a fifth place of bthreads: \<open>usleep\<close> leads to it, and its firing or an
  interruption back to a run queue.  The invariant ties the records of the sleepers to the timer; with it the refinement
  of \<open>System\<close> extends to all places, for every run from the start of the process.
\<close>

section \<open>Timer identifiers\<close>

text \<open>
  \<open>I x\<close>: the identifiers that the timer has handed out up to the state \<open>x\<close> of the outside.  The timers that are scheduled have
  different ones of them.
\<close>

definition timers_ok :: "('x \<Rightarrow> 64 word set) \<Rightarrow> ('q, 'r, 'x) ext \<Rightarrow> 'x \<Rightarrow> bool" where
  "timers_ok I X x \<longleftrightarrow>
     distinct (map fst (timer_items X x)) \<and> 0 \<notin> fst ` set (timer_items X x) \<and> fst ` set (timer_items X x) \<subseteq> I x"

text \<open>The timer that a waiter has recorded wakes no sleeper; the one that a TaskMeta has recorded wakes its bthread.\<close>

definition waiter_timer_ok :: "('x \<Rightarrow> 64 word set) \<Rightarrow> ('q, 'r, 'x) ext \<Rightarrow> 'x \<Rightarrow> waiter \<Rightarrow> bool" where
  "waiter_timer_ok I X x bw \<longleftrightarrow>
     w_sleep_id bw = 0
   \<or> w_sleep_id bw \<in> I x \<and> (\<forall>e. (w_sleep_id bw, ReadyToRunFromTimerThread e) \<notin> set (timer_items X x))"

definition meta_timer_ok :: "('x \<Rightarrow> 64 word set) \<Rightarrow> ('q, 'r, 'x) ext \<Rightarrow> 'x \<Rightarrow> task_meta \<Rightarrow> bool" where
  "meta_timer_ok I X x m \<longleftrightarrow>
     tm_current_sleep m = 0
   \<or> tm_current_sleep m \<in> I x
     \<and> (\<forall>cb. (tm_current_sleep m, cb) \<in> set (timer_items X x) \<longrightarrow>
          (\<exists>e. cb = ReadyToRunFromTimerThread e \<and> sa_tid e = tm_tid m))"

text \<open>
  The records of the world.  A TaskMeta has the identifier of its slot, and no callback that puts a bthread to
  sleep is pending: \<open>usleep\<close> is one step.
\<close>

definition awake_group :: "('q, 'r) task_group \<Rightarrow> bool" where
  "awake_group tg \<longleftrightarrow> (\<forall>e. tg_last_context_remained tg \<noteq> Some (AddSleepEvent e))"

definition sleepers_ok :: "('x \<Rightarrow> 64 word set) \<Rightarrow> ('q, 'r, 'x) ext \<Rightarrow> ('q, 'r, 'x) world \<Rightarrow> bool" where
  "sleepers_ok I X w \<longleftrightarrow>
     timers_ok I X (outside w)
   \<and> (\<forall>i bw. waiters w i = Some bw \<longrightarrow> waiter_timer_ok I X (outside w) bw)
   \<and> (\<forall>s m. metas w s = Some m \<longrightarrow> meta_timer_ok I X (outside w) m \<and> get_slot (tm_tid m) = s)
   \<and> (\<forall>tg \<in> set (groups w). awake_group tg)"

definition sleepers_same ::
  "('x \<Rightarrow> 64 word set) \<Rightarrow> ('q, 'r, 'x) ext \<Rightarrow> ('q, 'r, 'x) world \<Rightarrow> ('q, 'r, 'x) world \<Rightarrow> bool" where
  "sleepers_same I X w w' \<longleftrightarrow> (sleepers_ok I X w \<longrightarrow> sleepers_ok I X w' \<and> sleeping X w' = sleeping X w)"

text \<open>
  The laws: an identifier is handed out once, the pool constructs a TaskMeta that does not sleep and has
  nothing to do with the timer, and other threads keep the records.
\<close>

definition timer_ids_ok :: "('x \<Rightarrow> 64 word set) \<Rightarrow> ('q, 'r, 'x) ext \<Rightarrow> bool" where
  "timer_ids_ok I X \<longleftrightarrow>
     (\<forall>x x'. quiet_call X x x' \<longrightarrow> I x \<subseteq> I x')
   \<and> (\<forall>x cb us x' i. timer_schedule X x cb us = (x', i) \<longrightarrow> I x \<subseteq> I x' \<and> (i \<noteq> 0 \<longrightarrow> i \<notin> I x \<and> i \<in> I x'))
   \<and> (\<forall>x i x' rc. timer_unschedule X x i = (x', rc) \<longrightarrow> I x \<subseteq> I x')
   \<and> (\<forall>w w' r. get_meta X w = (w', r) \<longrightarrow>
        timer_items X (outside w') = timer_items X (outside w) \<and> I (outside w) \<subseteq> I (outside w')
      \<and> (\<forall>s m. metas w s = None \<longrightarrow> metas w' s = Some m \<longrightarrow> tm_current_sleep m = 0))"

definition sleep_laws :: "('x \<Rightarrow> 64 word set) \<Rightarrow> ('q, 'r, 'x) ext \<Rightarrow> bool" where
  "sleep_laws I X \<longleftrightarrow> timer_ok X \<and> timer_ids_ok I X
   \<and> (\<forall>w. sleepers_same I X w (nap X w) \<and> sleepers_same I X w (spin X w)
        \<and> (\<forall>b. sleepers_same I X w (grab X b w)) \<and> (\<forall>i v. sleepers_same I X w (pl_wait X i v w))
        \<and> (\<forall>g w'. ready_nosignal_tasks_remote X g w = Some w' \<longrightarrow> sleepers_same I X w w'))"

text \<open>The laws, one by one.\<close>

lemma law_quiet:
  assumes "sleep_laws I X" and "quiet_call X x x'"
  shows "timer_items X x' = timer_items X x" and "I x \<subseteq> I x'"
  using assms by (simp_all add: sleep_laws_def timer_ok_def timer_ids_ok_def)

lemma law_schedule:
  assumes "sleep_laws I X" and "timer_schedule X x cb us = (x', i)"
  shows "timer_items X x' = (if i = 0 then timer_items X x else timer_items X x @ [(i, cb)])"
    and "i \<noteq> 0 \<Longrightarrow> i \<notin> fst ` set (timer_items X x)" and "I x \<subseteq> I x'" and "i \<noteq> 0 \<Longrightarrow> i \<notin> I x \<and> i \<in> I x'"
  using assms by (simp_all add: sleep_laws_def timer_ok_def timer_ids_ok_def)

lemma law_unschedule:
  assumes "sleep_laws I X" and "timer_unschedule X x i = (x', rc)"
  shows "timer_items X x' = (if rc = 0 then filter (\<lambda>e. fst e \<noteq> i) (timer_items X x) else timer_items X x)"
    and "rc = 0 \<Longrightarrow> i \<in> fst ` set (timer_items X x)" and "I x \<subseteq> I x'"
proof -
  have "if rc = 0 then i \<in> fst ` set (timer_items X x) \<and> timer_items X x' = filter (\<lambda>e. fst e \<noteq> i) (timer_items X x)
      else timer_items X x' = timer_items X x"
    using assms unfolding sleep_laws_def timer_ok_def by blast
  then show "timer_items X x' = (if rc = 0 then filter (\<lambda>e. fst e \<noteq> i) (timer_items X x) else timer_items X x)"
    "rc = 0 \<Longrightarrow> i \<in> fst ` set (timer_items X x)" by (simp_all split: if_splits)
  show "I x \<subseteq> I x'" using assms unfolding sleep_laws_def timer_ids_ok_def by blast
qed

lemma law_pool:
  assumes "sleep_laws I X" and "get_meta X w = (w', r)"
  shows "timer_items X (outside w') = timer_items X (outside w)" and "I (outside w) \<subseteq> I (outside w')"
    and "metas w s = None \<Longrightarrow> metas w' s = Some m \<Longrightarrow> tm_current_sleep m = 0"
  using assms unfolding sleep_laws_def timer_ids_ok_def by blast+

section \<open>Changes of the timer\<close>

text \<open>\<open>timer_later\<close>: what was recorded in \<open>x\<close> is still right in \<open>x'\<close>.\<close>

definition timer_later :: "('x \<Rightarrow> 64 word set) \<Rightarrow> ('q, 'r, 'x) ext \<Rightarrow> 'x \<Rightarrow> 'x \<Rightarrow> bool" where
  "timer_later I X x x' \<longleftrightarrow> (timers_ok I X x \<longrightarrow>
     timers_ok I X x' \<and> (\<forall>bw. waiter_timer_ok I X x bw \<longrightarrow> waiter_timer_ok I X x' bw)
   \<and> (\<forall>m. meta_timer_ok I X x m \<longrightarrow> meta_timer_ok I X x' m))"

lemma timer_later_trans: "timer_later I X x y \<Longrightarrow> timer_later I X y z \<Longrightarrow> timer_later I X x z"
  by (simp add: timer_later_def)

lemma timer_later_fewer:
  assumes "set (timer_items X x') \<subseteq> set (timer_items X x)" and "distinct (map fst (timer_items X x)) \<Longrightarrow> distinct (map fst (timer_items X x'))"
    and "I x \<subseteq> I x'"
  shows "timer_later I X x x'"
  using assms unfolding timer_later_def timers_ok_def waiter_timer_ok_def meta_timer_ok_def by fast

lemma timer_later_quiet:
  assumes "sleep_laws I X" and "(quiet_call X)\<^sup>*\<^sup>* x x'"
  shows "timer_items X x' = timer_items X x" and "timer_later I X x x'"
proof -
  have "timer_items X x' = timer_items X x \<and> I x \<subseteq> I x'"
    using assms(2) by (induction rule: rtranclp_induct) (auto dest: law_quiet [OF assms(1)])
  then show "timer_items X x' = timer_items X x" "timer_later I X x x'" by (auto intro: timer_later_fewer)
qed

lemma timer_later_unschedule:
  assumes "sleep_laws I X" and "timer_unschedule X x i = (x', rc)"
  shows "timer_later I X x x'"
  by (rule timer_later_fewer) (use law_unschedule [OF assms] in \<open>auto simp: distinct_map_filter split: if_splits\<close>)

lemma timer_later_schedule:
  assumes "sleep_laws I X" and "timer_schedule X x cb us = (x', i)"
  shows "timer_later I X x x'"
    and "i \<noteq> 0 \<Longrightarrow> timers_ok I X x \<Longrightarrow> i \<in> I x' \<and> (\<forall>cb'. (i, cb') \<in> set (timer_items X x') \<longrightarrow> cb' = cb)"
proof -
  note law = law_schedule [OF assms]
  show "timer_later I X x x'"
  proof (cases "i = 0")
    case True
    then show ?thesis by (intro timer_later_fewer) (use law in auto)
  next
    case False
    then show ?thesis unfolding timer_later_def timers_ok_def waiter_timer_ok_def meta_timer_ok_def
      using law by auto
  qed
  show "i \<in> I x' \<and> (\<forall>cb'. (i, cb') \<in> set (timer_items X x') \<longrightarrow> cb' = cb)" if "i \<noteq> 0" "timers_ok I X x"
    using law that by (force simp: timers_ok_def)
qed

text \<open>A world whose records are those of another one, later.\<close>

lemma sleepers_later:
  assumes "sleepers_ok I X w" and "timer_later I X (outside w) (outside w')"
    and "\<And>i bw. waiters w' i = Some bw \<Longrightarrow> waiters w i = Some bw \<or> waiter_timer_ok I X (outside w') bw"
    and "\<And>s m. metas w' s = Some m \<Longrightarrow> get_slot (tm_tid m) = s
      \<and> ((\<exists>m0. metas w s = Some m0 \<and> tm_current_sleep m = tm_current_sleep m0 \<and> tm_tid m = tm_tid m0) \<or> meta_timer_ok I X (outside w') m)"
    and "\<And>tg. tg \<in> set (groups w') \<Longrightarrow> tg \<in> set (groups w) \<or> awake_group tg"
  shows "sleepers_ok I X w'"
proof -
  have ok: "timers_ok I X (outside w)" "\<And>i bw. waiters w i = Some bw \<Longrightarrow> waiter_timer_ok I X (outside w) bw"
    "\<And>s m. metas w s = Some m \<Longrightarrow> meta_timer_ok I X (outside w) m" "\<And>tg. tg \<in> set (groups w) \<Longrightarrow> awake_group tg"
    using assms(1) by (simp_all add: sleepers_ok_def)
  have later: "timers_ok I X (outside w')" "\<And>bw. waiter_timer_ok I X (outside w) bw \<Longrightarrow> waiter_timer_ok I X (outside w') bw"
    "\<And>m. meta_timer_ok I X (outside w) m \<Longrightarrow> meta_timer_ok I X (outside w') m"
    using assms(2) ok(1) by (simp_all add: timer_later_def)
  have "meta_timer_ok I X (outside w') m" if "metas w' s = Some m" for s m
    using assms(4) [OF that] later(3) [OF ok(3), of s] by (auto simp: meta_timer_ok_def)
  then show ?thesis using assms(3-5) ok later unfolding sleepers_ok_def by blast
qed

lemma sleepers_same_refl: "sleepers_same I X w w"
  by (simp add: sleepers_same_def)

lemma sleepers_same_trans: "sleepers_same I X u v \<Longrightarrow> sleepers_same I X v w \<Longrightarrow> sleepers_same I X u w"
  by (simp add: sleepers_same_def)

section \<open>All operations keep the sleepers\<close>

text \<open>A world with the sleepers of another one.\<close>

lemma sleepers_same_later:
  assumes "timer_later I X (outside w) (outside w')" and "sleeping X w' = sleeping X w"
    and "\<And>i bw. sleepers_ok I X w \<Longrightarrow> waiters w' i = Some bw \<Longrightarrow> waiters w i = Some bw \<or> waiter_timer_ok I X (outside w') bw"
    and "\<And>s m. sleepers_ok I X w \<Longrightarrow> metas w' s = Some m \<Longrightarrow> get_slot (tm_tid m) = s
      \<and> ((\<exists>m0. metas w s = Some m0 \<and> tm_current_sleep m = tm_current_sleep m0 \<and> tm_tid m = tm_tid m0) \<or> meta_timer_ok I X (outside w') m)"
    and "\<And>tg. sleepers_ok I X w \<Longrightarrow> tg \<in> set (groups w') \<Longrightarrow> tg \<in> set (groups w) \<or> awake_group tg"
  shows "sleepers_same I X w w'"
  unfolding sleepers_same_def using sleepers_later [OF _ assms(1,3-5)] assms(2) by blast

lemma sleepers_meta_slot: "sleepers_ok I X w \<Longrightarrow> metas w s = Some m \<Longrightarrow> get_slot (tm_tid m) = s"
  by (simp add: sleepers_ok_def)

lemma timer_later_refl [simp, intro]: "timer_later I X x x"
  by (simp add: timer_later_def)

text \<open>A change of one kind of object.\<close>

lemma sleepers_frame:
  assumes "outside w' = outside w" and "metas w' = metas w" and "waiters w' = waiters w"
    and "\<And>tg. sleepers_ok I X w \<Longrightarrow> tg \<in> set (groups w') \<Longrightarrow> tg \<in> set (groups w) \<or> awake_group tg"
  shows "sleepers_same I X w w'"
  by (rule sleepers_same_later) (use assms in \<open>auto simp: sleeping_def dest: sleepers_meta_slot\<close>)

lemma sleepers_quiet:
  assumes "sleep_laws I X" and "(quiet_call X)\<^sup>*\<^sup>* (outside w) x"
  shows "sleepers_same I X w (w\<lparr>outside := x\<rparr>)"
  by (rule sleepers_same_later) (use timer_later_quiet [OF assms] in \<open>auto simp: sleeping_def dest: sleepers_meta_slot\<close>)

lemma sleepers_put_meta:
  assumes "metas w s = Some m" and "(tm_current_sleep m' = 0 \<or> tm_current_sleep m' = tm_current_sleep m) \<and> tm_tid m' = tm_tid m"
  shows "sleepers_same I X w (put_meta s m' w)"
  by (rule sleepers_same_later)
    (use assms in \<open>auto simp: sleeping_def meta_timer_ok_def dest: sleepers_meta_slot split: if_splits\<close>)

lemma sleepers_put_waiter:
  assumes "w_sleep_id bw = 0 \<or> (\<exists>bw0. waiters w i = Some bw0 \<and> w_sleep_id bw = w_sleep_id bw0)"
  shows "sleepers_same I X w (put_waiter i bw w)"
proof (rule sleepers_same_later)
  show "waiters (put_waiter i bw w) j = Some bwj \<Longrightarrow>
      waiters w j = Some bwj \<or> waiter_timer_ok I X (outside (put_waiter i bw w)) bwj" if "sleepers_ok I X w" for j bwj
  proof -
    have "waiter_timer_ok I X (outside w) bw0" if "waiters w i = Some bw0" for bw0
      using \<open>sleepers_ok I X w\<close> that by (simp add: sleepers_ok_def)
    then have "waiter_timer_ok I X (outside w) bw" using assms by (auto simp: waiter_timer_ok_def)
    then show "waiters (put_waiter i bw w) j = Some bwj \<Longrightarrow> ?thesis" by (auto split: if_splits)
  qed
qed (auto simp: sleeping_def dest: sleepers_meta_slot)

lemma sleep_tids_other:
  "(\<And>e. (i, ReadyToRunFromTimerThread e) \<notin> set items) \<Longrightarrow> sleep_tids (filter (\<lambda>c. fst c \<noteq> i) items) = sleep_tids items"
proof (induction items)
  case (Cons c items)
  obtain j cb where c: "c = (j, cb)" by fastforce
  have "sleep_tid cb = {#}" if "j = i" using Cons.prems [of "_"] that c by (cases cb) auto
  then show ?case using Cons c by (auto simp: sleep_tids_def)
qed simp

lemma sleepers_unsleep:
  assumes "sleep_laws I X" and "unsleep_if_necessary X i w = Some (rc, w')"
  shows "sleepers_same I X w w'"
proof -
  obtain bw where bw: "waiters w i = Some bw" using assms(2) by (auto simp: unsleep_if_necessary_def elim!: bind_SomeE)
  show ?thesis
  proof (cases "w_sleep_id bw = 0")
    case True
    then show ?thesis using assms(2) bw by (simp add: unsleep_if_necessary_def sleepers_same_refl)
  next
    case False
    obtain x k where un: "timer_unschedule X (outside w) (w_sleep_id bw) = (x, k)" by fastforce
    have "sleepers_same I X w (w\<lparr>outside := x\<rparr>)"
      unfolding sleepers_same_def
    proof (intro impI conjI)
      assume ok: "sleepers_ok I X w"
      then have "\<And>e. (w_sleep_id bw, ReadyToRunFromTimerThread e) \<notin> set (timer_items X (outside w))"
        using bw False by (auto simp: sleepers_ok_def waiter_timer_ok_def)
      then show "sleeping X (w\<lparr>outside := x\<rparr>) = sleeping X w"
        by (simp add: sleeping_def law_unschedule(1) [OF assms(1) un] sleep_tids_other)
      show "sleepers_ok I X (w\<lparr>outside := x\<rparr>)"
        by (rule sleepers_later [OF ok]) (use timer_later_unschedule [OF assms(1) un] ok in \<open>auto dest: sleepers_meta_slot\<close>)
    qed
    moreover have "sleepers_same I X (w\<lparr>outside := x\<rparr>) (put_waiter i (bw\<lparr>w_sleep_id := 0\<rparr>) (w\<lparr>outside := x\<rparr>))"
      by (rule sleepers_put_waiter) simp
    ultimately show ?thesis using assms(2) bw False un
      by (auto simp: unsleep_if_necessary_def Let_def split: if_splits intro: sleepers_same_trans)
  qed
qed

text \<open>Scheduling a timer that wakes no sleeper.\<close>

lemma sleepers_schedule:
  assumes "sleep_laws I X" and "timer_schedule X (outside w) cb us = (x, i)" and "sleep_tid cb = {#}"
  shows "sleepers_same I X w (w\<lparr>outside := x\<rparr>)"
  by (rule sleepers_same_later)
    (use timer_later_schedule(1) [OF assms(1,2)] law_schedule(1) [OF assms(1,2)] assms(3) in
      \<open>auto simp: sleeping_def sleep_tids_def dest: sleepers_meta_slot\<close>)

lemma sleepers_timeout:
  assumes "sleep_laws I X" and "schedule_timeout X i abstime w = Some (err, w')"
  shows "sleepers_same I X w w'"
proof (cases abstime)
  case None
  then show ?thesis using assms(2) by (simp add: schedule_timeout_def sleepers_same_refl)
next
  case (Some us)
  obtain x now where tm: "gettimeofday_us X (outside w) = (x, now)" by fastforce
  have s1: "sleepers_same I X w (w\<lparr>outside := x\<rparr>)" by (rule sleepers_quiet [OF assms(1) quiet_one [OF quiet_time [OF tm]]])
  show ?thesis
  proof (cases "us < now + MIN_SLEEP_US")
    case True
    then show ?thesis using assms(2) Some tm s1 by (simp add: schedule_timeout_def)
  next
    case False
    obtain x' k where sc: "timer_schedule X x (EraseFromButexAndWakeup i) (us - now) = (x', k)" by fastforce
    then obtain bw where bw: "waiters w i = Some bw" using assms(2) Some tm False
      by (auto simp: schedule_timeout_def Let_def elim!: bind_SomeE)
    have w': "w' = put_waiter i (bw\<lparr>w_sleep_id := k\<rparr>) (w\<lparr>outside := x'\<rparr>)"
      using assms(2) Some tm False sc bw by (simp add: schedule_timeout_def)
    note later = timer_later_schedule [OF assms(1) sc]
    have "sleepers_same I X (w\<lparr>outside := x\<rparr>) w'"
    proof (rule sleepers_same_later)
      show "timer_later I X (outside (w\<lparr>outside := x\<rparr>)) (outside w')" using later(1) by (simp add: w')
      show "sleeping X w' = sleeping X (w\<lparr>outside := x\<rparr>)"
        by (simp add: w' sleeping_def sleep_tids_def law_schedule(1) [OF assms(1) sc])
      show "waiters (w\<lparr>outside := x\<rparr>) j = Some bwj \<or> waiter_timer_ok I X (outside w') bwj"
        if "sleepers_ok I X (w\<lparr>outside := x\<rparr>)" "waiters w' j = Some bwj" for j bwj
        using that later(2) by (auto simp: w' waiter_timer_ok_def sleepers_ok_def split: if_splits)
    qed (auto simp: w' dest: sleepers_meta_slot)
    then show ?thesis by (rule sleepers_same_trans [OF s1])
  qed
qed

text \<open>
  A slot from the pool that no sleeper has: the old record of its TaskMeta, if any, belongs to no timer that is
  scheduled, and the new identifier takes its place.
\<close>

lemma sleepers_recreated:
  assumes "sleep_laws I X" and "pool_ok X" and "get_meta X v = (u, Some s)" and "metas u s = Some m"
    and "\<And>t. sleepers_ok I X v \<Longrightarrow> t \<in># sleeping X v \<Longrightarrow> get_slot t \<noteq> s"
    and "tm_current_sleep m' = tm_current_sleep m" and "get_slot (tm_tid m') = s"
  shows "sleepers_same I X v (put_meta s m' u)"
proof -
  have pool: "groups u = groups v" "waiters u = waiters v" "\<And>t m. metas v t = Some m \<Longrightarrow> metas u t = Some m"
    "\<And>t. t \<noteq> s \<Longrightarrow> metas u t = metas v t"
    using assms(2) [unfolded pool_ok_def, rule_format, OF assms(3)] by auto
  note law = law_pool [OF assms(1,3)]
  have later: "timer_later I X (outside v) (outside u)" by (rule timer_later_fewer) (use law in auto)
  show ?thesis
  proof (rule sleepers_same_later)
    show "timer_later I X (outside v) (outside (put_meta s m' u))" using later by simp
    show "sleeping X (put_meta s m' u) = sleeping X v" by (simp add: sleeping_def law(1))
    fix t mt assume ok: "sleepers_ok I X v" and mt: "metas (put_meta s m' u) t = Some mt"
    have "meta_timer_ok I X (outside u) m'"
    proof (cases "metas v s")
      case None
      then show ?thesis using law(3) [OF None assms(4)] assms(6) by (simp add: meta_timer_ok_def)
    next
      case (Some m0)
      then have m: "m0 = m" using pool(3) assms(4) by fastforce
      have old: "meta_timer_ok I X (outside v) m" "get_slot (tm_tid m) = s" using ok Some m by (simp_all add: sleepers_ok_def)
      have "(tm_current_sleep m, cb) \<notin> set (timer_items X (outside v))" if "tm_current_sleep m \<noteq> 0" for cb
      proof
        assume it: "(tm_current_sleep m, cb) \<in> set (timer_items X (outside v))"
        then obtain e where e: "cb = ReadyToRunFromTimerThread e" "sa_tid e = tm_tid m"
          using old(1) \<open>tm_current_sleep m \<noteq> 0\<close> by (auto simp: meta_timer_ok_def)
        have "sa_tid e \<in># sleeping X v"
          using sleep_tids_remove [OF it] ok e(1) by (simp add: sleeping_def sleepers_ok_def timers_ok_def)
        then show False using assms(5) [OF ok] e(2) old(2) by auto
      qed
      then show ?thesis using old(1) law(1,2) assms(6) by (auto simp: meta_timer_ok_def)
    qed
    then show "get_slot (tm_tid mt) = t
      \<and> ((\<exists>m0. metas v t = Some m0 \<and> tm_current_sleep mt = tm_current_sleep m0 \<and> tm_tid mt = tm_tid m0)
         \<or> meta_timer_ok I X (outside (put_meta s m' u)) mt)"
      using mt assms(7) pool(4) [of t] sleepers_meta_slot [OF ok, of t mt] by (cases "t = s") auto
  qed (simp_all add: pool(1,2))
qed

lemma sleepers_pool_empty:
  assumes "sleep_laws I X" and "pool_ok X" and "get_meta X w = (w', None)"
  shows "sleepers_same I X w w'"
proof -
  have pool: "groups w' = groups w" "waiters w' = waiters w" "metas w' t = metas w t" for t
    using assms(2) [unfolded pool_ok_def, rule_format, OF assms(3)] by auto
  note law = law_pool [OF assms(1,3)]
  have later: "timer_later I X (outside w) (outside w')" by (rule timer_later_fewer) (use law in auto)
  show ?thesis
    by (rule sleepers_same_later) (use later law(1) pool in \<open>auto simp: sleeping_def dest: sleepers_meta_slot\<close>)
qed

lemma slot_free_sleeping: "slot_free X s w \<Longrightarrow> t \<in># sleeping X w \<Longrightarrow> get_slot t \<noteq> s"
  by (simp add: slot_free_def places_def)

lemma sleepers_created:
  assumes "sleep_laws I X" and "pool_ok X" and "pool_fresh_any X w" and "create_task X a fn arg w = Some (r, w')"
  shows "sleepers_same I X w w'"
proof (cases fn)
  case None
  then show ?thesis using assms(4) by (simp add: create_task_def sleepers_same_refl)
next
  case (Some f)
  obtain x ns where clk: "cpuwide_time_ns X (outside w) = (x, ns)" by fastforce
  have s1: "sleepers_same I X w (w\<lparr>outside := x\<rparr>)" by (rule sleepers_quiet [OF assms(1) quiet_one [OF quiet_clock [OF clk]]])
  obtain u so where gm: "get_meta X (w\<lparr>outside := x\<rparr>) = (u, so)" by fastforce
  show ?thesis
  proof (cases so)
    case None
    then show ?thesis using assms(4) Some clk gm sleepers_same_trans [OF s1 sleepers_pool_empty [OF assms(1,2)]]
      by (simp add: create_task_def)
  next
    case (Some s)
    note gm = gm [unfolded Some]
    have free: "slot_free X s w" using assms(3) [unfolded pool_fresh_any_def, rule_format, OF _ _ gm] by simp
    have "slot_ok s" using assms(2) [unfolded pool_ok_def, rule_format, OF gm] by simp
    then have slot: "get_slot (make_tid v s) = s" for v by (rule get_slot_make_tid)
    obtain tid where im: "init_meta X s f arg a ns u = Some (tid, w')"
      using assms(4) clk gm \<open>fn = Some f\<close> by (auto simp: create_task_def elim!: bind_SomeE)
    obtain m where m: "metas u s = Some m" using im by (auto simp: init_meta_def elim!: bind_SomeE)
    have asleep: "get_slot t \<noteq> s" if "t \<in># sleeping X (w\<lparr>outside := x\<rparr>)" for t
      using slot_free_sleeping [OF free] that timer_later_quiet(1) [OF assms(1) quiet_one [OF quiet_clock [OF clk]]]
      by (simp add: sleeping_def)
    define m' where "m' = the (metas w' s)"
    have w': "groups w' = groups u" "waiters w' = waiters u" "outside w' = outside u" "metas w' = (metas u)(s \<mapsto> m')"
      and m': "tm_current_sleep m' = tm_current_sleep m" "get_slot (tm_tid m') = s"
      using im m slot by (auto simp: m'_def init_meta_def Let_def elim!: bind_SomeE)
    have s2: "sleepers_same I X (w\<lparr>outside := x\<rparr>) (put_meta s m' u)"
      by (rule sleepers_recreated [OF assms(1,2) gm m asleep m'])
    have "sleepers_same I X (put_meta s m' u) w'" by (rule sleepers_frame) (use w' in simp_all)
    then show ?thesis using s1 s2 sleepers_same_trans by blast
  qed
qed

lemma sleepers_main_created:
  assumes "sleep_laws I X" and "pool_ok X" and "pool_fresh_any X u" and "sleepers_same I X u v"
    and "metas v = metas u" and "butexes v = butexes u"
    and gm: "get_meta X v = (w, Some s)" and "init_main_meta X s stk w = Some (tid, w')"
  shows "sleepers_same I X u w'"
  unfolding sleepers_same_def
proof
  assume "sleepers_ok I X u"
  then have u: "sleepers_ok I X v" "sleeping X v = sleeping X u" using assms(4) by (simp_all add: sleepers_same_def)
  have free: "slot_free X s u" using assms(3) [unfolded pool_fresh_any_def, rule_format, OF assms(5,6) gm] .
  have "slot_ok s" using assms(2) [unfolded pool_ok_def, rule_format, OF gm] by simp
  then have slot: "get_slot (make_tid v s) = s" for v by (rule get_slot_make_tid)
  obtain m where m: "metas w s = Some m" using assms(8) by (auto simp: init_main_meta_def elim!: bind_SomeE)
  obtain x now where clk: "cpuwide_time_ns X (outside w) = (x, now)" by fastforce
  define m' where "m' = the (metas w' s)"
  have w': "w' = (put_meta s m' w)\<lparr>outside := x\<rparr>" and m': "tm_current_sleep m' = tm_current_sleep m" "get_slot (tm_tid m') = s"
    using assms(8) m clk slot by (auto simp: m'_def init_main_meta_def put_meta_def Let_def elim!: bind_SomeE)
  have asleep: "t \<in># sleeping X v \<Longrightarrow> get_slot t \<noteq> s" for t using slot_free_sleeping [OF free] u(2) by simp
  have "sleepers_same I X v (put_meta s m' w)"
    by (rule sleepers_recreated [OF assms(1,2) gm m asleep m'])
  moreover have "sleepers_same I X (put_meta s m' w) w'" unfolding w'
    by (rule sleepers_quiet [OF assms(1)]) (use quiet_one [OF quiet_clock [OF clk]] in simp)
  ultimately show "sleepers_ok I X w' \<and> sleeping X w' = sleeping X u" using u by (simp add: sleepers_same_def)
qed

definition sleepers_kept ::
  "('x \<Rightarrow> 64 word set) \<Rightarrow> ('q, 'r, 'x) ext \<Rightarrow> ('q, 'r, 'x) world \<Rightarrow> ('q, 'r, 'x) world \<Rightarrow> bool" where
  "sleepers_kept I X w w' \<longleftrightarrow> (sleep_laws I X \<longrightarrow> sleepers_same I X w w')"

lemma awake_group_cong: "tg_last_context_remained tg' = tg_last_context_remained tg \<Longrightarrow> awake_group tg' = awake_group tg"
  by (simp add: awake_group_def)

lemma sleepers_group_at: "sleepers_ok I X w \<Longrightarrow> group_at w g = Some tg \<Longrightarrow> awake_group tg"
  by (auto simp: sleepers_ok_def nth_opt_Some)

lemma in_put_group: "tg' \<in> set (groups (put_group g tg w)) \<Longrightarrow> tg' = tg \<or> tg' \<in> set (groups w)"
  using set_update_subset_insert [of "groups w" g tg] by (auto simp: put_group_def)

lemma sleepers_put_group:
  assumes "group_at w g = Some tg"
    and "\<And>e. tg_last_context_remained tg' = Some (AddSleepEvent e) \<Longrightarrow> tg_last_context_remained tg = Some (AddSleepEvent e)"
  shows "sleepers_same I X w (put_group g tg' w)"
proof (rule sleepers_frame)
  show "h \<in> set (groups w) \<or> awake_group h" if "sleepers_ok I X w" "h \<in> set (groups (put_group g tg' w))" for h
    using in_put_group [OF that(2)] sleepers_group_at [OF that(1) assms(1)] assms(2) by (auto simp: awake_group_def)
qed simp_all

lemma sleepers_queues_frame:
  assumes "queues_frame w w'"
  shows "sleepers_same I X w w'"
proof (rule sleepers_frame)
  note same = queues_frame_same [OF assms]
  show "outside w' = outside w" "metas w' = metas w" "waiters w' = waiters w" using same by simp_all
  fix h assume ok: "sleepers_ok I X w" and h: "h \<in> set (groups w')"
  obtain g where g: "group_at w' g = Some h" using h by (auto simp: in_set_conv_nth nth_opt_Some)
  then obtain tg where tg: "group_at w g = Some tg" using same(11) by (auto simp: nth_opt_Some)
  obtain tg2 where "group_at w' g = Some tg2"
    and eq: "\<And>q r. tg2\<lparr>tg_rq := q, tg_remote_rq := r\<rparr> = tg\<lparr>tg_rq := q, tg_remote_rq := r\<rparr>"
    using queues_frame_group [OF assms tg] by blast
  then have "tg_last_context_remained h = tg_last_context_remained tg"
    using g eq [of q r for q r] by (cases tg; cases tg2) simp
  then show "h \<in> set (groups w) \<or> awake_group h"
    using awake_group_cong sleepers_group_at [OF ok tg] by blast
qed

lemma sleepers_signal:
  assumes "sleep_laws I X"
  shows "sleepers_same I X w (signal_task X n w)"
proof -
  have "sleepers_same I X (w\<lparr>outside := outside (signal_task X n w)\<rparr>) (signal_task X n w)"
    by (rule sleepers_frame) simp_all
  then show ?thesis using sleepers_quiet [OF assms quiet_signal_task] sleepers_same_trans by blast
qed

text \<open>The pending callback that puts a bthread to sleep is none of a world with the invariant.\<close>

lemma sleepers_no_sleep_event:
  assumes "group_at w g = Some tg" and "tg_last_context_remained tg = Some (AddSleepEvent e)"
  shows "sleepers_same I X w w'"
  using sleepers_group_at [OF _ assms(1)] assms(2) by (auto simp: sleepers_same_def awake_group_def)

lemma sleepers_add_group:
  assumes "sleep_laws I X" and "add_group X (Some g) w = (rc, w')"
  shows "sleepers_same I X w w'"
proof -
  define u where "u = (if tc_ngroup (control w) < max_concurrency X then
      upd_control (\<lambda>c. c\<lparr>tc_groups := (tc_groups c)[tc_ngroup (control w) := Some g], tc_ngroup := tc_ngroup (control w) + 1\<rparr>) w
      else w)"
  have "sleepers_same I X w u" by (rule sleepers_frame) (auto simp: u_def split: if_splits)
  moreover have "w' = w \<or> w' = signal_task X 65536 u"
    using assms(2) by (simp add: add_group_def u_def [symmetric] Let_def split: if_splits)
  ultimately show ?thesis
    using sleepers_same_refl sleepers_same_trans [OF _ sleepers_signal [OF assms(1)]] by blast
qed

interpretation sleepers: kept_by_operations "sleepers_kept I" for I :: "'c \<Rightarrow> 64 word set"
proof unfold_locales
  fix X :: "('a, 'b, 'c) ext" and u v w w' :: "('a, 'b, 'c) world" and g tg s m m' b bx i bw bw' e x n
    and tg' :: "('a, 'b) task_group"
  note defs = sleepers_kept_def
  show "sleepers_kept I X w w" by (simp add: defs sleepers_same_refl)
  show "sleepers_kept I X u v \<Longrightarrow> sleepers_kept I X v w \<Longrightarrow> sleepers_kept I X u w"
    using sleepers_same_trans [of I X u v w] by (simp add: defs)
  show "sleepers_kept I X w w'" if "groups w' = groups w" "metas w' = metas w" "waiters w' = waiters w" "outside w' = outside w"
    unfolding defs by (rule impI, rule sleepers_frame) (use that in simp_all)
  show "quiet_call X (outside w) x \<Longrightarrow> sleepers_kept I X w (w\<lparr>outside := x\<rparr>)"
    unfolding defs by (rule impI, rule sleepers_quiet [OF _ quiet_one])
  show "group_at w g = Some tg \<Longrightarrow>
      (\<And>e. tg_last_context_remained tg' = Some (AddSleepEvent e) \<Longrightarrow> tg_last_context_remained tg = Some (AddSleepEvent e)) \<Longrightarrow>
      sleepers_kept I X w (put_group g tg' w)"
    unfolding defs by (rule impI, rule sleepers_put_group)
  show "metas w s = Some m \<Longrightarrow>
      (tm_current_sleep m' = 0 \<or> tm_current_sleep m' = tm_current_sleep m) \<and> tm_tid m' = tm_tid m \<Longrightarrow> sleepers_kept I X w (put_meta s m' w)"
    unfolding defs by (rule impI, rule sleepers_put_meta)
  show "sleepers_kept I X w (put_butex b bx w)"
    unfolding defs by (rule impI, rule sleepers_frame) simp_all
  show "waiters w i = Some bw \<Longrightarrow> w_sleep_id bw' = w_sleep_id bw \<Longrightarrow> sleepers_kept I X w (put_waiter i bw' w)"
    unfolding defs by (rule impI, rule sleepers_put_waiter) simp
  show "sleepers_kept I X w (put_waiter i (new_bthread_waiter t s c b) w)" for t c
    unfolding defs by (rule impI, rule sleepers_put_waiter) (simp add: new_bthread_waiter_def)
  show "queues_frame w w' \<Longrightarrow> sleepers_kept I X w w'" unfolding defs by (rule impI, rule sleepers_queues_frame)
  show "sleepers_kept I X w (signal_task X n w)" unfolding defs by (rule impI, rule sleepers_signal)
  show "unsleep_if_necessary X i w = Some (rc, w') \<Longrightarrow> sleepers_kept I X w w'" for rc
    unfolding defs by (rule impI, rule sleepers_unsleep)
  show "schedule_timeout X i t w = Some (err, w') \<Longrightarrow> sleepers_kept I X w w'" for t err
    unfolding defs by (rule impI, rule sleepers_timeout)
  show "group_at w g = Some tg \<Longrightarrow> tg_last_context_remained tg = Some (AddSleepEvent e) \<Longrightarrow> sleepers_kept I X w w'"
    unfolding defs by (rule impI, rule sleepers_no_sleep_event)
  show "pool_ok X \<Longrightarrow> pool_fresh_any X w \<Longrightarrow> create_task X a fn arg w = Some (r, w') \<Longrightarrow> sleepers_kept I X w w'" for a fn arg r
    unfolding defs by (rule impI, rule sleepers_created)
  show "tg_last_context_remained tg' = None \<Longrightarrow> sleepers_kept I X w (w\<lparr>groups := groups w @ [tg']\<rparr>)"
    unfolding defs by (rule impI, rule sleepers_frame) (auto simp: awake_group_def)
  show "pool_ok X \<Longrightarrow> get_meta X w = (w', None) \<Longrightarrow> sleepers_kept I X w w'"
    unfolding defs by (rule impI, rule sleepers_pool_empty)
  show "pool_ok X \<Longrightarrow> pool_fresh_any X u \<Longrightarrow> sleepers_kept I X u v \<Longrightarrow> metas v = metas u \<Longrightarrow> butexes v = butexes u \<Longrightarrow>
      get_meta X v = (w, Some sl) \<Longrightarrow> init_main_meta X sl stk w = Some (tid, w') \<Longrightarrow> sleepers_kept I X u w'" for sl stk tid
    unfolding defs using sleepers_main_created by blast
  show "sleepers_kept I X u w'" if "sleepers_kept I X u w" "add_group X (Some g) w = (rcode, w')" for rcode
    using that sleepers_add_group [of I X g w rcode w'] sleepers_same_trans [of I X u w w'] by (simp add: defs)
qed (simp_all add: sleepers_kept_def sleep_laws_def)

lemma sleepers_worker_end:
  assumes "sleep_laws I X" and "worker_end X g w = Some w'"
  shows "sleepers_same I X w w'"
proof -
  let ?w = "w\<lparr>cur_tls := (cur_tls w)\<lparr>tls_task_group := None\<rparr>\<rparr>"
  have s0: "sleepers_same I X w ?w" by (rule sleepers_frame) simp_all
  have ds: "destroy_self X g ?w = Some w'" using assms(2) by (simp add: worker_end_def)
  then obtain tg where tg: "group_at w g = Some tg" by (auto simp: destroy_self_def elim!: bind_SomeE)
  show ?thesis
  proof (cases "tg_has_control tg")
    case False
    then have "w' = log_fatal CheckDestroy ?w" using ds tg by (simp add: destroy_self_def)
    then have "sleepers_same I X ?w w'" by (intro sleepers_frame) simp_all
    then show ?thesis by (rule sleepers_same_trans [OF s0])
  next
    case True
    then obtain rc w1 tg1 where dg: "delete_group X (Some g) ?w = Some (rc, w1)" and tg1: "group_at w1 g = Some tg1"
      and w': "w' = put_group g (tg1\<lparr>tg_has_control := False\<rparr>) w1"
      using ds tg by (auto simp: destroy_self_def elim!: bind_SomeE)
    obtain x i where sc: "timer_schedule X (outside ?w) (DeleteTaskGroup g) task_group_delete_delay_us = (x, i)" by fastforce
    have "sleepers_same I X ?w (?w\<lparr>outside := x\<rparr>)" by (rule sleepers_schedule [OF assms(1) sc]) simp
    moreover have "sleepers_same I X v w1" if "v = ?w\<lparr>outside := outside w1\<rparr>" for v
      using that delete_group_frame [OF dg] by (intro sleepers_frame) simp_all
    moreover have "outside w1 = outside ?w \<or> outside w1 = x"
      using dg tg True sc by (auto simp: delete_group_def Let_def split: if_splits prod.splits)
    ultimately have "sleepers_same I X ?w w1" using sleepers_same_trans sleepers_frame [of "?w\<lparr>outside := outside ?w\<rparr>" ?w] by fastforce
    moreover have "sleepers_same I X w1 w'" unfolding w' by (rule sleepers_put_group [OF tg1]) simp
    ultimately show ?thesis using s0 sleepers_same_trans by blast
  qed
qed

lemma sleepers_stop_workers:
  assumes "sleep_laws I X"
  shows "sleepers_same I X w (stop_workers X w)"
proof -
  have stop: "sleepers_same I X v (pl_stop X i v)" for i v
  proof -
    obtain x n where fw: "futex_wake X (outside v) (LotFutex i) 10000 = (x, n)" by fastforce
    have eq: "pl_stop X i v = set_pl i (pl_stop_value (pl_value v i)) v\<lparr>outside := x\<rparr>"
      using fw by (simp add: pl_stop_def Let_def set_pl_def)
    have "sleepers_same I X (v\<lparr>outside := x\<rparr>) (pl_stop X i v)"
      by (rule sleepers_frame) (simp_all add: eq set_pl_def)
    then show ?thesis
      using sleepers_quiet [OF assms quiet_one [OF quiet_futex_wake [OF fw]]] sleepers_same_trans by blast
  qed
  have fold: "sleepers_same I X v (fold (pl_stop X) ls v)" for ls v
    by (induction ls arbitrary: v) (auto intro: sleepers_same_refl sleepers_same_trans [OF stop])
  let ?v = "upd_control (\<lambda>c. c\<lparr>tc_stop := True, tc_ngroup := 0\<rparr>) w"
  have "sleepers_same I X w ?v" by (rule sleepers_frame) simp_all
  then show ?thesis unfolding stop_workers_def using fold [of ?v] sleepers_same_trans by blast
qed

text \<open>No operation other than \<open>usleep\<close>, the timer's callback and the interruption of a sleeper changes who sleeps.\<close>

lemma system_step_sleepers:
  assumes "outside_ok X" and "sleep_laws I X" and "system_step X w e w'"
  shows "sleepers_same I X w w'"
proof -
  have laws: "ext_queues_ok X" "pool_ok X" using assms(1) by (simp_all add: outside_ok_def)
  have by_kept: "sleepers_same I X w w'" if "sleepers_kept I X w w'" using that assms(2) by (simp add: sleepers_kept_def)
  note r = sleepers.refl [of I X w]
  from assms(3) show ?thesis
  proof cases
    case (other_thread tls)
    then show ?thesis by (auto intro: sleepers_frame)
  next
    case (store b bx v)
    then show ?thesis using by_kept sleepers.keep_butex [OF r] by blast
  next
    case (background remote g attr fn arg r th)
    then show ?thesis using by_kept sleepers.keep_start_background [OF laws(2) _ _ sleepers.refl] by blast
  next
    case (foreground g tg cur m attr fn arg r th jumped g')
    then show ?thesis using by_kept sleepers.keep_start_foreground [OF laws(2) _ _ sleepers.refl] by blast
  next
    case (yields g tg cur m jumped g')
    then show ?thesis using by_kept sleepers.keep_yield [OF laws(1) _ r] by blast
  next
    case (finishes g tg cur m jumped g')
    then show ?thesis using by_kept sleepers.keep_task_finish [OF laws(1) _ r] by blast
  next
    case (waits g tg cur m i b expected abstime q)
    then show ?thesis using by_kept sleepers.keep_wait_begin [OF laws(1) _ r] by (auto simp: runs_bthread_of_def)
  next
    case (goes_on i rc)
    then show ?thesis using by_kept sleepers.keep_wait_end [OF _ r] by blast
  next
    case (wakes b n jumped)
    then show ?thesis using by_kept sleepers.keep_wake [OF _ r] by blast
  next
    case (wakes_all g tg cur m b n jumped)
    then show ?thesis using by_kept sleepers.keep_wake_all [OF _ r] by blast
  next
    case (wakes_except g tg cur m b excl n)
    then show ?thesis using by_kept sleepers.keep_wake_except [OF _ r] by blast
  next
    case (interrupts tid has_c rc)
    then show ?thesis using by_kept sleepers.keep_interrupt [OF _ r] by blast
  next
    case (stops tid)
    then show ?thesis using by_kept sleepers.keep_set_stopped [OF _ r] by blast
  next
    case (idles g tg cur m q)
    then show ?thesis using by_kept sleepers.keep_main_task_enter [OF laws(1) _ r] by blast
  next
    case (worker_starts q)
    then show ?thesis using by_kept sleepers.keep_create_group [OF laws(2)] by blast
  next
    case (worker_ends g)
    then show ?thesis using sleepers_worker_end [OF assms(2)] by blast
  next
    case stops_workers
    then show ?thesis using sleepers_stop_workers [OF assms(2)] by blast
  qed
qed

end
