(* ===== verification/Runtime.thy ===== *)
theory Runtime
  imports Sleepers
begin

text \<open>
  The steps of the runtime with sleeping, their invariant over all five places, and the refinement from the start of the process
  on.
\<close>

section \<open>The invariant over all places\<close>

definition living :: "('q, 'r, 'x) ext \<Rightarrow> ('q, 'r, 'x) world \<Rightarrow> bthread_t set" where
  "living X w = set_mset (places X w)"

definition places_ok :: "('q, 'r, 'x) ext \<Rightarrow> ('q, 'r, 'x) world \<Rightarrow> bool" where
  "places_ok X w \<longleftrightarrow>
     0 \<notin> living X w \<and> (\<forall>t \<in> living X w. live_task w t \<and> count (places X w) t = 1)
   \<and> (\<forall>t \<in> set (mains w). t \<noteq> 0 \<longrightarrow> live_task w t \<and> t \<notin> living X w)"

definition runtime_ok :: "('x \<Rightarrow> 64 word set) \<Rightarrow> ('q, 'r, 'x) ext \<Rightarrow> ('q, 'r, 'x) world \<Rightarrow> bool" where
  "runtime_ok I X w \<longleftrightarrow> butexes_ok w \<and> places_ok X w \<and> sleepers_ok I X w"

lemma living_parts: "living X w = alive X w \<union> set_mset (sleeping X w)"
  by (simp add: living_def alive_def places_def)

lemma runtime_system:
  assumes "runtime_ok I X w"
  shows "system_ok X w"
proof -
  have "count (tasks X w) t = 1" if "t \<in># tasks X w" for t
  proof -
    have "count (places X w) t = 1" using assms that by (simp add: runtime_ok_def places_ok_def living_def places_def)
    moreover have "count (tasks X w) t \<noteq> 0" using that by simp
    ultimately show ?thesis unfolding places_def count_union by linarith
  qed
  then show ?thesis using assms
    by (auto simp: runtime_ok_def places_ok_def living_def places_def system_ok_def tasks_ok_def mains_ok_def)
qed

lemma awake_or_asleep:
  assumes "places_ok X w" and "t \<in># sleeping X w"
  shows "t \<notin># tasks X w" and "count (sleeping X w) t = 1" and "live_task w t" and "t \<noteq> 0"
    and "\<not> slot_free X (get_slot t) w" and "t \<notin> set (mains w)"
proof -
  have t: "t \<in> living X w" using assms(2) by (simp add: living_parts)
  then have c: "count (tasks X w) t + count (sleeping X w) t = 1" "live_task w t" "t \<noteq> 0"
    using assms(1) by (auto simp: places_ok_def places_def)
  moreover have "count (sleeping X w) t \<noteq> 0" using assms(2) by simp
  ultimately have "count (tasks X w) t = 0" "count (sleeping X w) t = 1" by linarith+
  then show "t \<notin># tasks X w" "count (sleeping X w) t = 1" "live_task w t" "t \<noteq> 0"
    using c by (simp_all add: not_in_iff)
  show "\<not> slot_free X (get_slot t) w" using t by (auto simp: slot_free_def living_def)
  show "t \<notin> set (mains w)" using assms(1) t c(3) by (auto simp: places_ok_def)
qed

text \<open>A step of the specification that keeps the invariant.\<close>

definition refines_by ::
  "('x \<Rightarrow> 64 word set) \<Rightarrow> ('q, 'r, 'x) ext \<Rightarrow> ('q, 'r, 'x) world \<Rightarrow> event \<Rightarrow> ('q, 'r, 'x) world \<Rightarrow> bool" where
  "refines_by I X w e w' \<longleftrightarrow> runtime_ok I X w' \<and> abs_step (living X w) e = Some (living X w')"

lemma refines_same:
  assumes "runtime_ok I X w" and "sleepers_ok I X w'" and "places X w' = places X w" and "meta_tid w' = meta_tid w"
    and "mains w' = mains w" and "butexes_ok w'"
  shows "refines_by I X w Tau w'"
  using assms by (simp add: refines_by_def runtime_ok_def places_ok_def living_def live_task_def)

text \<open>An operation that does not touch the timer's bthreads.\<close>

lemma refines_system_step:
  assumes "outside_ok X" and "sleep_laws I X" and "runtime_ok I X w" and "system_step X w e w'"
  shows "refines_by I X w e w'"
proof -
  have sim: "system_ok X w'" "abs_step (alive X w) e = Some (alive X w')" "slots_kept X w e w'"
    using system_step_simulates [OF assms(1) runtime_system [OF assms(3)] assms(4)] by (simp_all add: simulates_def)
  have sl: "sleepers_ok I X w'" "sleeping X w' = sleeping X w"
    using system_step_sleepers [OF assms(1,2,4)] assms(3) by (simp_all add: sleepers_same_def runtime_ok_def)
  have pl: "places_ok X w" using assms(3) by (simp add: runtime_ok_def)
  note asleep = awake_or_asleep [OF pl]
  have free: "get_slot u \<noteq> get_slot t" if "t \<in># sleeping X w" "slot_free X (get_slot u) w" for t u
    using asleep(5) [OF that(1)] that(2) by auto
  have apart: "t \<notin> alive X w'" if t: "t \<in># sleeping X w" for t
  proof -
    have "t \<notin> alive X w" using asleep(1) [OF t] by (simp add: alive_def)
    moreover have "e \<noteq> Starts t" using sim(3) free [OF t, of t] by (auto simp: slots_kept_def)
    moreover have "alive X w' \<subseteq> alive X w \<union> {u. e = Starts u}" using sim(2) by (cases e) (force split: if_splits)+
    ultimately show ?thesis by blast
  qed
  have live: "live_task w' t" if t: "t \<in># sleeping X w" for t
    using asleep(3,5) [OF t] sim(3) by (auto simp: slots_kept_def live_task_def)
  have count: "count (places X w') t = 1" if "t \<in> living X w'" for t
  proof (cases "t \<in># sleeping X w")
    case True
    then show ?thesis using apart [OF True] asleep(2) [OF True] by (simp add: places_def sl(2) alive_def not_in_iff)
  next
    case False
    then have "t \<in> alive X w'" using that by (simp add: living_parts sl(2))
    then show ?thesis using sim(1) False by (simp add: system_ok_def tasks_ok_def alive_def places_def sl(2) not_in_iff)
  qed
  have mains: "t \<notin># sleeping X w" if "t \<in> set (mains w')" "t \<noteq> 0" for t
    using sim(3) that asleep(6) [of t] free [of t t] by (auto simp: slots_kept_def)
  have "places_ok X w'"
    unfolding places_ok_def living_parts sl(2)
    using sim(1) live count asleep(4) mains
    by (auto simp: living_parts sl(2) system_ok_def tasks_ok_def mains_ok_def alive_def)
  moreover have "abs_step (living X w) e = Some (living X w')"
    using sim(2) apart unfolding living_parts sl(2) using asleep(1) free sim(3)
    by (cases e) (auto simp: alive_def slots_kept_def split: if_splits)
  ultimately show ?thesis using sim(1) sl(1) by (simp add: refines_by_def runtime_ok_def system_ok_def)
qed

section \<open>Going to sleep\<close>

lemma sleepers_ready:
  "ready_to_run X g t ns w = Some w' \<Longrightarrow> sleep_laws I X \<Longrightarrow> sleepers_same I X w w'"
  "ready_to_run_remote X g t ns w = Some w' \<Longrightarrow> sleep_laws I X \<Longrightarrow> sleepers_same I X w w'"
  using sleepers.pushes.ready [of X g t ns w w' I] sleepers.pushes.ready_remote [of X g t ns w w' I]
  by (simp_all add: sleepers_kept_def)

text \<open>The state of the timer alone.\<close>

lemma sleepers_outside:
  assumes "sleepers_ok I X w" and "timer_later I X (outside w) x"
  shows "sleepers_ok I X (w\<lparr>outside := x\<rparr>)"
  by (rule sleepers_later [OF assms(1)]) (use assms(2) sleepers_meta_slot [OF assms(1)] in auto)

lemma add_sleep_event_sleepers:
  assumes "sleep_laws I X" and "sleepers_ok I X w" and "add_sleep_event X e w = Some w'"
    and "\<And>m. metas w (sa_meta e) = Some m \<Longrightarrow> tm_tid m = sa_tid e"
  shows "sleepers_ok I X w'"
proof -
  have ids: "timers_ok I X (outside w)" using assms(2) by (simp add: sleepers_ok_def)
  note outside = sleepers_outside [OF assms(2)] and later = timer_later_schedule [OF assms(1)]
    and undone = timer_later_trans [OF timer_later_schedule(1) timer_later_unschedule, OF assms(1) _ assms(1)]
  have ready: "sleepers_ok I X v" if "ready_to_run X (sa_group e) (sa_tid e) False u = Some v" "sleepers_ok I X u" for u v
    using sleepers_ready(1) [OF that(1) assms(1)] that(2) by (simp add: sleepers_same_def)
  from assms(3) show ?thesis
  proof (cases rule: add_sleep_event_cases)
    case (refused x)
    then show ?thesis using ready outside [OF later(1)] by blast
  next
    case (sleeps x i m)
    have "meta_timer_ok I X x (m\<lparr>tm_current_sleep := i\<rparr>)"
      using later(2) [OF sleeps(1,2) ids] assms(4) [OF sleeps(3)] by (auto simp: meta_timer_ok_def)
    then show ?thesis unfolding sleeps(4)
      by (intro sleepers_later [OF assms(2)])
        (use later(1) [OF sleeps(1)] sleeps(3) sleepers_meta_slot [OF assms(2)] in \<open>auto split: if_splits\<close>)
  next
    case (taken_back x i x2)
    then show ?thesis using ready outside [OF undone] by blast
  next
    case (fired x i x2 rc)
    then show ?thesis using outside [OF undone] by blast
  qed
qed

lemma add_sleep_event_moves:
  assumes "ext_queues_ok X" and "naps_ok X" and "add_sleep_event X e w = Some w'"
  shows "\<exists>d. moves X d w w'"
proof -
  have outside: "moves X {#} w (w\<lparr>outside := x\<rparr>)" for x by (rule moves_cong) simp_all
  have ready: "\<exists>d. moves X d w v" if "ready_to_run X (sa_group e) (sa_tid e) False (w\<lparr>outside := x\<rparr>) = Some v" for x v
    by (rule exI, rule moves_trans_0(1) [OF outside ready_to_run_moves [OF assms(1,2) that]])
  have meta: "moves X {#} w (put_meta (sa_meta e) (m\<lparr>tm_current_sleep := k\<rparr>) (w\<lparr>outside := x\<rparr>))"
    if "metas w (sa_meta e) = Some m" for m k x
  proof -
    let ?v = "w\<lparr>outside := x\<rparr>"
    have "switches X {#} {#} ?v (put_meta (sa_meta e) (m\<lparr>tm_current_sleep := k\<rparr>) ?v)"
      by (rule switches_put_meta [of _ _ m]) (use that in simp_all)
    then have "moves X {#} ?v (put_meta (sa_meta e) (m\<lparr>tm_current_sleep := k\<rparr>) ?v)"
      by (simp add: switches_def moves_def steady_def)
    then show ?thesis by (rule moves_trans_0(1) [OF outside])
  qed
  from assms(3) show ?thesis
  proof (cases rule: add_sleep_event_cases)
    case (refused x)
    show ?thesis by (rule ready [OF refused(2)])
  next
    case (sleeps x i m)
    show ?thesis unfolding sleeps(4) by (rule exI, rule meta [OF sleeps(3)])
  next
    case (taken_back x i x2)
    show ?thesis by (rule ready [OF taken_back(4)])
  next
    case (fired x i x2 rc)
    show ?thesis unfolding fired(5) by (rule exI, rule outside)
  qed
qed

text \<open>What is calm for the timer.\<close>

lemma sleepers_calm:
  assumes "sleep_laws I X" and "sleepers_ok I X w" and "calm X g w w'"
    and "map_option tg_last_context_remained (group_at w' g) = Some None"
  shows "sleepers_ok I X w'" and "sleeping X w' = sleeping X w"
proof -
  have cm: "waiters w' = waiters w" "(quiet_call X)\<^sup>*\<^sup>* (outside w) (outside w')"
    "\<And>s. map_option meta_key (metas w' s) = map_option meta_key (metas w s)"
    "\<And>h. h \<noteq> g \<Longrightarrow> map_option tg_last_context_remained (group_at w' h) = map_option tg_last_context_remained (group_at w h)"
    using assms(3) by (simp_all add: calm_def)
  note later = timer_later_quiet [OF assms(1) cm(2)]
  show "sleeping X w' = sleeping X w" by (simp add: sleeping_def later(1))
  show "sleepers_ok I X w'"
  proof (rule sleepers_later [OF assms(2) later(2)])
    fix s m assume m: "metas w' s = Some m"
    then obtain m0 where "metas w s = Some m0" "meta_key m = meta_key m0" using cm(3) [of s] by (cases "metas w s") auto
    then show "get_slot (tm_tid m) = s \<and> ((\<exists>m0. metas w s = Some m0 \<and> tm_current_sleep m = tm_current_sleep m0
        \<and> tm_tid m = tm_tid m0) \<or> meta_timer_ok I X (outside w') m)"
      using sleepers_meta_slot [OF assms(2)] by (auto simp: meta_key_def)
  next
    fix h assume "h \<in> set (groups w')"
    then obtain k where k: "group_at w' k = Some h" by (auto simp: in_set_conv_nth nth_opt_Some)
    show "h \<in> set (groups w) \<or> awake_group h"
    proof (cases "k = g")
      case True
      then show ?thesis using assms(4) k by (simp add: awake_group_def)
    next
      case False
      then obtain tg where "group_at w k = Some tg" "tg_last_context_remained h = tg_last_context_remained tg"
        using cm(4) [OF False] k by (cases "group_at w k") auto
      then show ?thesis using sleepers_group_at [OF assms(2)] awake_group_cong by blast
    qed
  qed (simp add: cm(1))
qed

lemma refines_usleep:
  assumes "outside_ok X" and "sleep_laws I X" and "runtime_ok I X w" and "runs_bthread_of g tg cur m w"
    and "usleep_begin X g us w = Some (eo, jumped, g', w')"
  shows "refines_by I X w Tau w'"
proof (cases "us = 0")
  case True
  then have "yield X g w = Some (jumped, g', w')" using assms(5) by (auto simp: usleep_begin_def elim!: bind_SomeE)
  then show ?thesis by (intro refines_system_step [OF assms(1-3)] system_step.yields [OF assms(4)])
next
  case False
  have laws: "ext_queues_ok X" "naps_ok X" "timer_ok X" using assms(1,2) by (simp_all add: outside_ok_def sleep_laws_def)
  have run: "group_at w g = Some tg" "tg_cur_meta tg = Some cur" "metas w cur = Some m"
    using assms(4) by (simp_all add: runs_bthread_of_def runs_def)
  let ?e = "\<lparr>sa_timeout_us = us, sa_tid = tm_tid m, sa_meta = cur, sa_group = g\<rparr>"
  obtain w1 where w1: "set_remained g (AddSleepEvent ?e) w = Some w1" and sc: "sched X g w1 = Some (jumped, g', w')"
    using assms(5) False run by (auto simp: usleep_begin_def Let_def elim!: bind_SomeE)
  have cb: "callback_moves X (Some (AddSleepEvent ?e)) w"
    unfolding callback_moves_def callback_run_def using add_sleep_event_moves [OF laws(1,2)] by simp
  obtain v v' where s1: "switches X {#} {#tm_tid m#} w v" "calm X g w v"
      "map_option tg_last_context_remained (group_at v g) = Some None"
    and ev: "add_sleep_event X ?e v = Some v'"
    and s2: "switches X {#} {#} v' w'" "calm X g v' w'" "map_option tg_last_context_remained (group_at w' g) = Some None"
    using block_splits [OF laws(1) runs_bthread_ok(1) [OF runtime_system [OF assms(3)] assms(4)] _ cb w1 sc]
    by (auto simp: remained_tids_def)
  have ok: "sleepers_ok I X w" "butexes_ok w" using assms(3) by (simp_all add: runtime_ok_def)
  note c1 = sleepers_calm [OF assms(2) ok(1) s1(2,3)]
  have "metas v cur = Some m0 \<Longrightarrow> tm_tid m0 = tm_tid m" for m0
    using s1(1) run(3) meta_tid_Some [of v cur m0] meta_tid_Some [of w cur m] by (simp add: switches_def)
  then have ok': "sleepers_ok I X v'" by (intro add_sleep_event_sleepers [OF assms(2) c1(1) ev]) simp
  note c2 = sleepers_calm [OF assms(2) ok' s2(2,3)] and pl = add_sleep_event_places [OF laws ev]
  obtain d where mv: "moves X d v v'" using add_sleep_event_moves [OF laws(1,2) ev] by blast
  show ?thesis
  proof (rule refines_same [OF assms(3) c2(1)])
    show "places X w' = places X w" using s1(1) s2(1) pl c1(2) c2(2) by (simp add: switches_def places_def)
    show "meta_tid w' = meta_tid w" "mains w' = mains w" "butexes_ok w'"
      using s1(1) s2(1) mv ok(2) by (simp_all add: switches_def moves_def steady_def)
  qed
qed

lemma refines_usleep_end:
  assumes "runtime_ok I X w" and "usleep_end eo w = Some (rc, w')"
  shows "refines_by I X w Tau w'"
proof -
  have ok: "sleepers_ok I X w" "butexes_ok w" using assms(1) by (simp_all add: runtime_ok_def)
  have put: "refines_by I X w Tau (put_meta s m' w)"
    if m: "metas w s = Some m" and m': "tm_current_sleep m' = 0" "tm_tid m' = tm_tid m" for s m m'
    using sleepers_put_meta [OF m, of m' I X] places_put_meta [OF m m'(2)] m' ok
    by (intro refines_same [OF assms(1)]) (simp_all add: sleepers_same_def)
  have err: "refines_by I X w Tau (set_errno c v)" if "refines_by I X w Tau v" for c v
  proof -
    have "sleepers_same I X v (set_errno c v)" by (rule sleepers_frame) simp_all
    moreover have "meta_tid (set_errno c v) = meta_tid v" by (rule meta_tid_cong) simp
    moreover have "tasks X (set_errno c v) = tasks X v" by (rule tasks_cong) (simp_all add: meta_tid_def waiter_tid_def fun_eq_iff)
    moreover have "butexes_ok (set_errno c v) = butexes_ok v" by (rule butexes_ok_cong) simp_all
    ultimately show ?thesis using that
      by (simp add: refines_by_def runtime_ok_def places_ok_def living_def places_def sleeping_def live_task_def sleepers_same_def)
  qed
  show ?thesis
  proof (cases eo)
    case None
    then show ?thesis using assms ok by (auto simp: usleep_end_def intro: refines_same)
  next
    case (Some e)
    then obtain m where m: "metas w (sa_meta e) = Some m" using assms(2) by (auto simp: usleep_end_def elim!: bind_SomeE)
    show ?thesis using assms(2) Some m put [OF m] err by (auto simp: usleep_end_def split: if_splits)
  qed
qed

section \<open>The end of a sleep\<close>

lemma wake_sleeper_sleepers:
  assumes "sleep_laws I X" and "wake_sleeper X tid has_c w = Some (rc, w')"
  shows "sleepers_same I X w w'"
proof -
  have choose: "sleepers_same I X w v" if "choose_one_group X w = Some (go, v)" for go v
    using sleepers.keep_choose [OF that sleepers.refl] assms(1) by (simp add: sleepers_kept_def)
  show ?thesis using assms(2) choose
    by (auto simp: wake_sleeper_def elim!: bind_SomeE split: cases_asm
        intro: sleepers_same_refl sleepers_ready(1) [OF _ assms(1)] sleepers_same_trans [OF _ sleepers_ready(2) [OF _ assms(1)]])
qed

lemma timer_thread_sleepers:
  assumes "sleep_laws I X" and "ready_to_run_from_timer_thread X e w = Some w'"
  shows "sleepers_same I X w w'"
proof -
  define w0 where "w0 = (if tls_task_group (cur_tls w) = None then w else log_fatal CheckTimerHasGroup w)"
  obtain g w1 where cg: "choose_one_group X w0 = Some (Some g, w1)"
    and rr: "ready_to_run_remote X g (sa_tid e) False w1 = Some w'"
    using assms(2) by (auto simp: ready_to_run_from_timer_thread_def Let_def w0_def bind_Some_conv)
  have "sleepers_same I X w w0" by (rule sleepers_frame) (auto simp: w0_def split: if_splits)
  moreover have "sleepers_same I X w0 w1"
    using sleepers.keep_choose [OF cg sleepers.refl] assms(1) by (simp add: sleepers_kept_def)
  ultimately show ?thesis using sleepers_ready(2) [OF rr assms(1)] sleepers_same_trans by blast
qed

lemma refines_timer:
  assumes "outside_ok X" and "sleep_laws I X" and "runtime_ok I X w"
    and "(i, ReadyToRunFromTimerThread e) \<in> set (timer_items X (outside w))"
    and "timer_items X x = filter (\<lambda>c. fst c \<noteq> i) (timer_items X (outside w))" and "I (outside w) \<subseteq> I x"
    and "ready_to_run_from_timer_thread X e (w\<lparr>outside := x\<rparr>) = Some w'"
  shows "refines_by I X w Tau w'"
proof -
  have laws: "ext_queues_ok X" "naps_ok X" "timer_ok X" using assms(1,2) by (simp_all add: outside_ok_def sleep_laws_def)
  have ok: "sleepers_ok I X w" "butexes_ok w" "distinct (map fst (timer_items X (outside w)))"
    using assms(3) by (simp_all add: runtime_ok_def sleepers_ok_def timers_ok_def)
  have "timer_later I X (outside w) x"
    by (rule timer_later_fewer) (use assms(5,6) in \<open>auto simp: distinct_map_filter\<close>)
  from sleepers_outside [OF ok(1) this] have "sleepers_ok I X w'"
    using timer_thread_sleepers [OF assms(2,7)] by (simp add: sleepers_same_def)
  then show ?thesis
    using timer_wakes_sleeper [OF laws assms(4) ok(3) assms(5,7)] timer_thread_moves(1) [OF laws(1,2) assms(7)] ok(2)
    by (intro refines_same [OF assms(3)]) (simp_all add: moves_def steady_def meta_tid_def fun_eq_iff)
qed

text \<open>The identifier is that of the bthread, or a stale one of its slot.\<close>

lemma refines_interrupt:
  assumes "outside_ok X" and "sleep_laws I X" and "runtime_ok I X w"
    and "address_meta w tid = Some m" and "tm_tid m = tid \<or> version_of w m \<noteq> Some (get_version tid)"
    and "tm_current_waiter m = None" and "tls_task_group (cur_tls w) \<noteq> None \<or> has_c"
    and "interrupt X tid has_c w = Some (rc, w')"
  shows "refines_by I X w Tau w'"
proof -
  have laws: "ext_queues_ok X" "naps_ok X" "timer_ok X" "grabs_ok X"
    using assms(1,2) by (simp_all add: outside_ok_def sleep_laws_def)
  have ok: "sleepers_ok I X w" "butexes_ok w" using assms(3) by (simp_all add: runtime_ok_def)
  obtain v where v: "version_of w m = Some v"
    using assms(4,8) by (auto simp: interrupt_def interrupt_and_consume_waiters_def bind_Some_conv)
  have m: "metas w (get_slot tid) = Some m" using assms(4) by (simp add: address_meta_def)
  show ?thesis
  proof (cases "get_version tid = v")
    case False
    then have "w' = w" using v assms(4,8) by (simp add: interrupt_def interrupt_and_consume_waiters_def)
    then show ?thesis using refines_same [OF assms(3)] ok by simp
  next
    case True
    then have tid: "tm_tid m = tid" and v: "version_of w m = Some (get_version tid)" using assms(5) v by auto
    have timers: "timers_ok I X (outside w)" "meta_timer_ok I X (outside w) m" using ok(1) m by (simp_all add: sleepers_ok_def)
    then have "\<exists>e. cb = ReadyToRunFromTimerThread e \<and> sa_tid e = tid"
      if it: "(tm_current_sleep m, cb) \<in> set (timer_items X (outside w))" for cb
    proof -
      have "tm_current_sleep m \<noteq> 0" using it timers(1) by (force simp: timers_ok_def)
      then show ?thesis using it timers(2) tid by (simp add: meta_timer_ok_def)
    qed
    then have "sleep_recorded X tid m w" using timers(1) by (simp add: sleep_recorded_def timers_ok_def)
    then have pl: "places X w' = places X w" "butexes_ok w'"
      using interrupt_conserves_spec [OF laws ok(2) assms(4) _ _ assms(8)] assms(6,7) by auto
    let ?m = "m\<lparr>tm_current_waiter := None, tm_current_sleep := 0, tm_interrupted := True\<rparr>"
    let ?w1 = "put_meta (get_slot tid) ?m w"
    have s1: "sleepers_ok I X ?w1" using sleepers_put_meta [OF m, of ?m I X] ok(1) by (simp add: sleepers_same_def)
    have t1: "meta_tid ?w1 = meta_tid w" "mains ?w1 = mains w" using places_put_meta(3) [OF m, of ?m] by simp_all
    have t2: "meta_tid (?w1\<lparr>outside := y\<rparr>) = meta_tid w" for y
      using t1(1) by (simp add: meta_tid_def)
    have rest: "sleepers_ok I X w' \<and> meta_tid w' = meta_tid w \<and> mains w' = mains w"
    proof (cases "tm_current_sleep m = 0")
      case True
      then have "w' = ?w1" using interrupt_unfold(1) [OF assms(4) v assms(6)] assms(8) by simp
      then show ?thesis using s1 t1 by simp
    next
      case False
      obtain x k where un: "timer_unschedule X (outside w) (tm_current_sleep m) = (x, k)" by fastforce
      have res: "(if k \<noteq> 0 then Some (E0, ?w1\<lparr>outside := x\<rparr>) else wake_sleeper X tid has_c (?w1\<lparr>outside := x\<rparr>)) = Some (rc, w')"
        using interrupt_unfold(2) [OF assms(4) v assms(6) False un] assms(8) by simp
      have s2: "sleepers_ok I X (?w1\<lparr>outside := x\<rparr>)"
        by (rule sleepers_outside [OF s1]) (use timer_later_unschedule [OF assms(2) un] in simp)
      show ?thesis
      proof (cases "k = 0")
        case False
        then have "w' = ?w1\<lparr>outside := x\<rparr>" using res by simp
        then show ?thesis using s2 t1(2) t2 by simp
      next
        case True
        then have ws: "wake_sleeper X tid has_c (?w1\<lparr>outside := x\<rparr>) = Some (rc, w')" using res by simp
        have "moves X {#tid#} (?w1\<lparr>outside := x\<rparr>) w'" by (rule wake_sleeper_moves [OF laws(1,2) _ ws]) (use assms(7) in simp)
        then show ?thesis
          using wake_sleeper_sleepers [OF assms(2) ws] s2 t1(2) t2
          by (simp add: sleepers_same_def moves_def steady_def)
      qed
    qed
    then show ?thesis using pl by (intro refines_same [OF assms(3)]) simp_all
  qed
qed

section \<open>The steps\<close>

text \<open>
  The operations of \<open>System\<close>, going to sleep and coming back from it, the timer's callback, after the timer has taken the entry
  out (the identifiers it has handed out stay handed out), and an interruption of a bthread that does not wait on a
  butex.
\<close>

inductive runtime_step ::
  "('x \<Rightarrow> 64 word set) \<Rightarrow> ('q, 'r, 'x) ext \<Rightarrow> ('q, 'r, 'x) world \<Rightarrow> event \<Rightarrow> ('q, 'r, 'x) world \<Rightarrow> bool" for I X w where
  operates: "system_step X w e w' \<Longrightarrow> runtime_step I X w e w'"
| sleeps: "runs_bthread_of g tg cur m w \<Longrightarrow> usleep_begin X g us w = Some (eo, jumped, g', w') \<Longrightarrow> runtime_step I X w Tau w'"
| wakes_up: "usleep_end eo w = Some (rc, w') \<Longrightarrow> runtime_step I X w Tau w'"
| timer_fires: "(i, ReadyToRunFromTimerThread e) \<in> set (timer_items X (outside w)) \<Longrightarrow>
    timer_items X x = filter (\<lambda>c. fst c \<noteq> i) (timer_items X (outside w)) \<Longrightarrow> I (outside w) \<subseteq> I x \<Longrightarrow>
    ready_to_run_from_timer_thread X e (w\<lparr>outside := x\<rparr>) = Some w' \<Longrightarrow> runtime_step I X w Tau w'"
| interrupts_sleeper: "address_meta w tid = Some m \<Longrightarrow> tm_tid m = tid \<or> version_of w m \<noteq> Some (get_version tid) \<Longrightarrow>
    tm_current_waiter m = None \<Longrightarrow> tls_task_group (cur_tls w) \<noteq> None \<or> has_c \<Longrightarrow>
    interrupt X tid has_c w = Some (rc, w') \<Longrightarrow> runtime_step I X w Tau w'"

lemma runtime_step_refines:
  assumes "outside_ok X" and "sleep_laws I X" and "runtime_ok I X w" and "runtime_step I X w e w'"
  shows "refines_by I X w e w'"
  using assms(4)
proof cases
  case operates
  then show ?thesis by (rule refines_system_step [OF assms(1-3)])
next
  case (sleeps g tg cur m us eo jumped g')
  then show ?thesis using refines_usleep [OF assms(1-3)] by simp
next
  case (wakes_up eo rc)
  then show ?thesis using refines_usleep_end [OF assms(3)] by simp
next
  case (timer_fires i e x)
  then show ?thesis using refines_timer [OF assms(1-3)] by simp
next
  case (interrupts_sleeper tid m has_c rc)
  then show ?thesis using refines_interrupt [OF assms(1-3)] by simp
qed

inductive runtime_run ::
  "('x \<Rightarrow> 64 word set) \<Rightarrow> ('q, 'r, 'x) ext \<Rightarrow> ('q, 'r, 'x) world \<Rightarrow> event list \<Rightarrow> ('q, 'r, 'x) world \<Rightarrow> bool" for I X where
  stays: "runtime_run I X w [] w"
| goes: "runtime_step I X w e v \<Longrightarrow> runtime_run I X v es w' \<Longrightarrow> runtime_run I X w (e # es) w'"

lemma runtime_run_refines:
  assumes "runtime_run I X w es w'" and "outside_ok X" and "sleep_laws I X" and "runtime_ok I X w"
  shows "runtime_ok I X w' \<and> abs_run (living X w) es = Some (living X w')"
  using assms
proof (induction rule: runtime_run.induct)
  case (goes w e v es w')
  then have "refines_by I X w e v" by (intro runtime_step_refines)
  then show ?case using goes by (simp add: refines_by_def)
qed simp

text \<open>
  The start of the process: no TaskControl has made a worker yet, the pools have constructed nothing and no timer
  is scheduled.
\<close>

definition at_start :: "('q, 'r, 'x) ext \<Rightarrow> ('q, 'r, 'x) world \<Rightarrow> bool" where
  "at_start X w \<longleftrightarrow>
     groups w = [] \<and> butexes w = [] \<and> metas w = Map.empty \<and> waiters w = Map.empty \<and> timer_items X (outside w) = []"

lemma at_start_ok:
  assumes "at_start X w"
  shows "runtime_ok I X w" and "living X w = {}"
proof -
  have w: "groups w = []" "butexes w = []" "metas w = Map.empty" "waiters w = Map.empty" "timer_items X (outside w) = []"
    using assms by (simp_all add: at_start_def)
  have "places X w = {#}"
    by (simp add: places_def sleeping_def sleep_tids_def tasks_def queued_def running_def waiting_def pending_def w)
  then show "living X w = {}" by (simp add: living_def)
  then have "places_ok X w" by (simp add: places_ok_def mains_def w)
  moreover have "butexes_ok w" by (simp add: butexes_ok_def w nth_opt_def)
  moreover have "sleepers_ok I X w" by (simp add: sleepers_ok_def timers_ok_def w)
  ultimately show "runtime_ok I X w" by (simp add: runtime_ok_def)
qed



section \<open>Runs\<close>

text \<open>The identifiers that the timer of the sample outside has handed out.\<close>

definition demo_ids :: "sim \<Rightarrow> 64 word set" where
  "demo_ids x = {i. unat i < sim_next x}"

lemma demo_sleep_laws: "sleep_laws demo_ids demo_ext"
proof -
  have "timer_ids_ok demo_ids demo_ext"
    unfolding timer_ids_ok_def
  proof (intro conjI allI impI)
    fix x x' assume "quiet_call demo_ext x x'"
    then show "demo_ids x \<subseteq> demo_ids x'"
      by (cases rule: quiet_call.cases)
        (auto simp: demo_ids_def demo_ext_def demo_futex_wake_def demo_get_stack_def Let_def split: if_splits)
  next
    fix x cb us x' i assume sc: "timer_schedule demo_ext x cb us = (x', i)"
    then show "demo_ids x \<subseteq> demo_ids x'"
      by (auto simp: demo_ids_def demo_ext_def demo_timer_schedule_def Let_def split: if_splits)
    show "i \<notin> demo_ids x" "i \<in> demo_ids x'" if "i \<noteq> 0"
      using sc that by (auto simp: demo_ids_def demo_ext_def demo_timer_schedule_def Let_def unat_of_nat split: if_splits)
  next
    fix x i x' rc assume "timer_unschedule demo_ext x i = (x', rc)"
    then show "demo_ids x \<subseteq> demo_ids x'"
      by (auto simp: demo_ids_def demo_ext_def demo_timer_unschedule_def split: if_splits)
  next
    fix w w' :: demo_world and r assume gm: "get_meta demo_ext w = (w', r)"
    then show "timer_items demo_ext (outside w') = timer_items demo_ext (outside w)" "demo_ids (outside w) \<subseteq> demo_ids (outside w')"
      by (auto simp: demo_ext_def demo_get_meta_def Let_def split: if_splits)
    show "tm_current_sleep m = 0" if "metas w s = None" "metas w' s = Some m" for s m
      using gm that by (auto simp: demo_ext_def demo_get_meta_def demo_meta_def Let_def split: if_splits)
  qed
  moreover have "sleepers_same demo_ids demo_ext w (nap demo_ext w)" for w
  proof (rule sleepers_frame)
    show "h \<in> set (groups w) \<or> awake_group h"
      if ok: "sleepers_ok demo_ids demo_ext w" and h: "h \<in> set (groups (nap demo_ext w))" for h
    proof -
      have "\<exists>tg \<in> set gs. tg_last_context_remained h = tg_last_context_remained tg" if "h \<in> set (demo_nap_groups gs)" for gs
        using that by (cases gs rule: demo_nap_groups.cases) (auto split: list.splits if_splits)
      then show ?thesis using h ok awake_group_cong by (fastforce simp: demo_ext_def sleepers_ok_def)
    qed
  qed (simp_all add: demo_ext_def)
  ultimately show ?thesis using demo_timer_ok by (auto simp: sleep_laws_def demo_ext_def sleepers_same_refl)
qed

lemma run_world_runtime_ok: "runtime_ok demo_ids demo_ext (run_world [make_tid 1 5])"
proof -
  let ?w = "run_world [make_tid 1 5]"
  have pl: "places demo_ext ?w = {#make_tid 1 3, make_tid 1 5#}"
    unfolding places_def run_world_tasks by (simp add: sleeping_def sleep_tids_def run_world_def demo_defs)
  have "places_ok demo_ext ?w" unfolding places_ok_def living_def pl
    by (simp add: mains_def live_task_def meta_tid_def run_world_def make_tid_demo demo_defs)
  moreover have "sleepers_ok demo_ids demo_ext ?w"
    by (auto simp: sleepers_ok_def timers_ok_def meta_timer_ok_def awake_group_def run_world_def make_tid_demo demo_defs split: if_splits)
  ultimately show ?thesis using run_world_system_ok by (simp add: runtime_ok_def system_ok_def)
qed


definition boot_world :: demo_world where
  "boot_world = (demo_world None [] [] Map.empty)\<lparr>metas := Map.empty, butexes := []\<rparr>"

lemma boot_world_start: "at_start demo_ext boot_world"
  by (simp add: at_start_def boot_world_def demo_defs)

lemmas demo_create_defs = create_group_def construct_group_def init_group_def init_main_meta_def version_of_def nth_opt_def
  add_group_def task_group_runqueue_capacity_def put_defs


end
