(* ===== verification/Progress.thy ===== *)
theory Progress
  imports Addresses Runtime
begin

text \<open>
  Progress.  An operation of the model gives no result if it follows a pointer to nothing or if it spins for ever.  With
  the invariant of the system and the typing of its pointers neither happens to the operations of a bthread
  that runs: they return, provided that a full queue gets room at some time.
\<close>

section \<open>Laws\<close>

text \<open>
  A push that is repeated finds room: the other threads, which take tasks out of the queue, do so during the naps
  between the attempts.  And the random index is an index.
\<close>

definition room_comes :: "('q, 'r, 'x) ext \<Rightarrow> bool" where
  "room_comes X \<longleftrightarrow>
     (\<forall>g t w. group_at w g \<noteq> None \<longrightarrow>
        (\<exists>k wk tg. refused (try_push X) (flush_nosignal_tasks X) (nap X) g t k w = Some wk
           \<and> group_at wk g = Some tg \<and> snd (try_push X tg t))
      \<and> (\<exists>k wk tg. refused (try_push_locked X) (flush_nosignal_tasks_remote_locked X) (nap X) g t k w = Some wk
           \<and> group_at wk g = Some tg \<and> snd (try_push_locked X tg t)))"

definition rand_ok :: "('q, 'r, 'x) ext \<Rightarrow> bool" where
  "rand_ok X \<longleftrightarrow> (\<forall>x n. 0 < n \<longrightarrow> snd (fast_rand_less_than X x n) < n)"

definition live_outside :: "('q, 'r, 'x) ext \<Rightarrow> bool" where
  "live_outside X \<longleftrightarrow> outside_ok X \<and> others_ok X \<and> room_comes X \<and> rand_ok X"

lemma live_outside_laws:
  assumes "live_outside X"
  shows "ext_queues_ok X" "naps_ok X" "pool_ok X" "others_ok X" "room_comes X" "rand_ok X"
  using assms by (simp_all add: live_outside_def outside_ok_def)

section \<open>The operations on queues return\<close>

lemma push_returns:
  assumes "room_comes X" and "group_at w g = Some tg"
  shows "\<exists>w'. push_rq X g t w = Some w'" and "\<exists>w'. push_remote X g t w = Some w'"
proof -
  have found: "try_push X u t = (fst (try_push X u t), True)" if "snd (try_push X u t)" for u
    using that by (simp add: prod_eq_iff)
  have found': "try_push_locked X u t = (fst (try_push_locked X u t), True)" if "snd (try_push_locked X u t)" for u
    using that by (simp add: prod_eq_iff)
  have "group_at w g \<noteq> None" using assms(2) by simp
  note room = assms(1) [unfolded room_comes_def, rule_format, OF this, of t]
  show "\<exists>w'. push_rq X g t w = Some w'" using room found unfolding local_push.loop_refused by blast
  show "\<exists>w'. push_remote X g t w = Some w'" using room found' unfolding remote_push.loop_refused by blast
qed

lemma ready_returns:
  assumes "live_outside X" and "group_at w g = Some tg"
  shows "\<exists>w'. ready_to_run X g t ns w = Some w'" and "\<exists>w'. ready_to_run_remote X g t ns w = Some w'"
proof -
  note laws = live_outside_laws [OF assms(1)]
  obtain w1 where p: "push_rq X g t w = Some w1" using push_returns [OF laws(5) assms(2)] by blast
  obtain tg1 where "group_at w1 g = Some tg1" using group_exists [OF pushed.push [OF p] laws(4) assms(2)] by blast
  then show "\<exists>w'. ready_to_run X g t ns w = Some w'" using p by (simp add: ready_to_run_def Let_def)
  obtain w2 where p: "push_remote X g t w = Some w2" using push_returns [OF laws(5) assms(2)] by blast
  obtain tg2 where "group_at w2 g = Some tg2" using group_exists [OF pushed.push_far [OF p] laws(4) assms(2)] by blast
  then show "\<exists>w'. ready_to_run_remote X g t ns w = Some w'" using p by (simp add: ready_to_run_remote_def Let_def)
qed

lemma ready_general_returns:
  assumes "live_outside X" and "group_at w g = Some tg" and "tls_task_group (cur_tls w) = Some g"
  shows "\<exists>w'. ready_to_run_general X g t ns w = Some w'" and "\<exists>w'. flush_nosignal_tasks_general X g w = Some w'"
  using assms(2,3) ready_returns(1) [OF assms(1,2)]
  by (simp_all add: ready_to_run_general_def flush_nosignal_tasks_general_def flush_nosignal_tasks_def Let_def)

lemma unsleep_returns: "waiters w i = Some bw \<Longrightarrow> \<exists>rc w'. unsleep_if_necessary X i w = Some (rc, w')"
  by (auto simp: unsleep_if_necessary_def Let_def split: prod.split)

lemma wakeup_pthread_returns: "waiters w i = Some pw \<Longrightarrow> \<exists>w'. wakeup_pthread X i w = Some w'"
  by (auto simp: wakeup_pthread_def Let_def split: prod.split)

lemma choose_returns:
  assumes "rand_ok X" and "addresses_ok X w" and "tc_ngroup (control w) \<noteq> 0"
  shows "\<exists>g w' tg. choose_one_group X w = Some (Some g, w') \<and> group_at w' g = Some tg"
proof -
  let ?n = "tc_ngroup (control w)"
  obtain x i where r: "fast_rand_less_than X (outside w) ?n = (x, i)" by fastforce
  moreover have "snd (fast_rand_less_than X (outside w) ?n) < ?n" using assms(1,3) by (simp add: rand_ok_def)
  ultimately have i: "i < ?n" by simp
  have ok: "groups_ok X w" using assms(2) by (simp add: addresses_ok_def)
  obtain g where g: "g < length (groups w)" "tc_groups (control w) ! i = Some g"
    using listed_nth(2) [OF ok i] by blast
  then have "nth_opt (tc_groups (control w)) i = Some (Some g)" using ok i by (simp add: groups_ok_def nth_opt_def)
  then show ?thesis using g(1) assms(3) r by (simp add: choose_one_group_def nth_opt_def)
qed

lemma steal_returns:
  assumes "ext_queues_ok X" and "addresses_ok X w" and "group_at w g = Some tg"
  shows "\<exists>t w'. group_steal_task X g w = Some (t, w')"
proof -
  obtain r a where pop: "rrq_pop X (tg_remote_rq tg) = (r, a)" by fastforce
  let ?w1 = "put_group g (tg\<lparr>tg_remote_rq := r, tg_last_pl_state := pl_value w (tg_pl tg)\<rparr>) w"
  have ok: "groups_ok X ?w1"
    using assms(2) by (simp add: addresses_ok_def groups_ok_def listed_def put_group_def)
  show ?thesis
  proof (cases a)
    case None
    have "\<exists>t s w2. control_steal_task X (tg_steal_seed tg) (tg_steal_offset tg) ?w1 = Some (t, s, w2)"
    proof (cases "tc_ngroup (control ?w1) = 0")
      case False
      then show ?thesis
        using steal_loop_returns [OF assms(1) _ ok refl, of "tc_ngroup (control ?w1)" "tg_steal_offset tg" "tg_steal_seed tg"]
        by (auto simp: control_steal_task_def Let_def)
    qed (simp add: control_steal_task_def)
    then obtain t s w2 where st: "control_steal_task X (tg_steal_seed tg) (tg_steal_offset tg) ?w1 = Some (t, s, w2)" by blast
    have "group_at ?w1 g = Some (tg\<lparr>tg_remote_rq := r, tg_last_pl_state := pl_value w (tg_pl tg)\<rparr>)"
      using assms(3) by (simp add: nth_opt_Some)
    then obtain tg2 where "group_at w2 g = Some tg2"
      using control_steal_task_picks [OF assms(1) st, of g] by (auto simp: picks_def)
    then show ?thesis using assms(3) pop None st by (simp add: group_steal_task_def Let_def)
  qed (use assms(3) pop in \<open>simp add: group_steal_task_def\<close>)
qed

lemma next_task_returns:
  assumes "ext_queues_ok X" and "others_ok X" and "addresses_ok X w" and "group_at w g = Some tg"
  shows "\<exists>t w'. next_task X g w = Some (t, w')"
proof -
  obtain q a where pop: "wsq_pop X (tg_rq tg) = (q, a)" by fastforce
  let ?w1 = "put_group g (tg\<lparr>tg_rq := q\<rparr>) w"
  have "kept X w ?w1" by (rule kept_group_same [OF kept_refl assms(4)]) simp
  then have "addresses_ok X ?w1" using assms(2,3) by (rule kept_ok)
  moreover have "group_at ?w1 g = Some (tg\<lparr>tg_rq := q\<rparr>)" using assms(4) by (simp add: nth_opt_Some)
  ultimately obtain b w2 where "group_steal_task X g ?w1 = Some (b, w2)" using steal_returns [OF assms(1)] by blast
  then show ?thesis using assms(4) pop by (cases a) (auto simp: next_task_def)
qed

section \<open>Switching returns\<close>

text \<open>What the callback of a switch needs.\<close>

definition callback_ok :: "('q, 'r, 'x) world \<Rightarrow> remained option \<Rightarrow> bool" where
  "callback_ok w r \<longleftrightarrow>
     (\<forall>i. r = Some (WaitForButex i) \<longrightarrow> detached i w \<and> waiter_tid w i \<noteq> 0)
   \<and> (\<forall>s. r = Some (ReleaseLastContext s) \<longrightarrow> metas w s \<noteq> None)
   \<and> (\<forall>e. r = Some (AddSleepEvent e) \<longrightarrow> metas w (sa_meta e) \<noteq> None \<and> sa_group e < length (groups w))"

lemma callback_ok_cong:
  assumes "waiters w' = waiters w" and "\<And>s. metas w s \<noteq> None \<Longrightarrow> metas w' s \<noteq> None"
    and "length (groups w) \<le> length (groups w')" and "callback_ok w r"
  shows "callback_ok w' r"
  using assms(2-4) waiter_tid_cong [OF assms(1)] assms(1) unfolding callback_ok_def detached_def by fastforce

lemma callback_ok_kept:
  assumes "kept X w w'" and "others_ok X" and "waiters w' = waiters w" and "callback_ok w r"
  shows "callback_ok w' r"
  by (rule callback_ok_cong [OF assms(3) _ _ assms(4)]) (use assms(1,2) in \<open>simp_all add: kept_def outlives_def\<close>)

lemma callback_ok_moves:
  assumes "ext_queues_ok X" and "naps_ok X" and "callback_ok w (Some r)" and "run_callback X r w = Some w'"
  shows "\<exists>d. moves X d w w'"
proof (cases "\<exists>e. r = AddSleepEvent e")
  case True
  then show ?thesis using add_sleep_event_moves [OF assms(1,2)] assms(4) by auto
next
  case False
  then show ?thesis using run_callback_moves [OF assms(1,2,4)] assms(3) by (auto simp: callback_ok_def)
qed

text \<open>The callback of \<open>usleep\<close>: the timer takes the bthread, or a queue does.\<close>

lemma add_sleep_event_returns:
  assumes "live_outside X" and "addresses_ok X w" and "callback_ok w (Some (AddSleepEvent e))"
  shows "\<exists>w'. add_sleep_event X e w = Some w'"
proof -
  obtain m where m: "metas w (sa_meta e) = Some m" and g: "sa_group e < length (groups w)"
    using assms(3) by (auto simp: callback_ok_def)
  have "meta_ok w m" using assms(2) m by (simp add: addresses_ok_def)
  then obtain v where v: "butex_at w (tm_version_butex m) = Some v" by (simp add: meta_ok_def nth_opt_def)
  have "\<exists>w'. ready_to_run X (sa_group e) (sa_tid e) False (w\<lparr>outside := x\<rparr>) = Some w'" for x
    using g by (intro ready_returns(1) [OF assms(1)]) (simp add: nth_opt_Some)
  then show ?thesis using m v
    by (cases "timer_schedule X (outside w) (ReadyToRunFromTimerThread e) (uint (sa_timeout_us e))")
      (auto simp: add_sleep_event_def Let_def split: prod.split)
qed

lemma callback_returns:
  assumes "live_outside X" and "addresses_ok X w" and "tls_task_group (cur_tls w) = Some g" and "group_at w g = Some tg"
    and "callback_ok w (Some r)"
  shows "\<exists>w'. run_callback X r w = Some w'"
proof (cases r)
  case (ReadyToRunInWorker t ns)
  then show ?thesis using assms(3) ready_returns(1) [OF assms(1,4)] by (simp add: ready_to_run_in_worker_def)
next
  case (ReadyToRunInWorkerIgnoresignal t ns)
  then show ?thesis using assms(3) push_returns(1) [OF live_outside_laws(5) [OF assms(1)] assms(4)]
    by (simp add: ready_to_run_in_worker_ignoresignal_def)
next
  case (WaitForButex i)
  then obtain bw where bw: "waiters w i = Some bw" and "w_tid bw \<noteq> 0"
    using assms(5) by (auto simp: callback_ok_def detached_def waiter_tid_def)
  then have "waiter_ok w bw" using assms(2) by (simp add: addresses_ok_def)
  then obtain bx m where at: "butex_at w (w_initial_butex bw) = Some bx" "metas w (w_task_meta bw) = Some m"
    by (auto simp: waiter_ok_def nth_opt_Some)
  show ?thesis
  proof (cases "bx_value bx = w_expected_value bw \<and> w_state bw = WAITER_STATE_READY \<and> \<not> tm_interrupted m")
    case True
    then show ?thesis using WaitForButex bw at by (simp add: wait_for_butex_def)
  next
    case False
    define w1 where "w1 = (if bx_value bx \<noteq> w_expected_value bw
      then put_waiter i (bw\<lparr>w_state := WAITER_STATE_UNMATCHEDVALUE\<rparr>) w else w)"
    have "\<exists>bw1. waiters w1 i = Some bw1" using bw by (simp add: w1_def)
    then obtain rc w2 where un: "unsleep_if_necessary X i w1 = Some (rc, w2)" using unsleep_returns by blast
    have "kept X w w1" using bw by (auto simp: w1_def intro!: kept_waiter)
    then have k: "kept X w w2" by (rule kept_unsleep [OF un])
    note live = live_outside_laws(4) [OF assms(1)]
    obtain tg2 where "group_at w2 g = Some tg2" using group_exists [OF k live assms(4)] by blast
    then have "\<exists>w'. ready_to_run X g (w_tid bw) False w2 = Some w'" by (rule ready_returns(1) [OF assms(1)])
    moreover have "tls_task_group (cur_tls w2) = Some g" using kept_tls [OF k live] assms(3) by simp
    ultimately show ?thesis using WaitForButex False bw at un by (auto simp: wait_for_butex_def Let_def w1_def)
  qed
next
  case (AddSleepEvent e)
  then show ?thesis using add_sleep_event_returns [OF assms(1,2)] assms(5) by simp
next
  case (ReleaseLastContext s)
  then show ?thesis using assms(5) by (auto simp: callback_ok_def release_last_context_def Let_def)
qed

lemma run_remained_returns:
  assumes "live_outside X" and "addresses_ok X w" and "tls_task_group (cur_tls w) = Some g" and "group_at w g = Some tg"
    and "callback_ok w (tg_last_context_remained tg)"
  shows "\<exists>w'. run_remained X g w = Some (g, w')"
proof (cases "tg_last_context_remained tg")
  case None
  then show ?thesis using run_remained_none [OF assms(4), of X] by simp
next
  case (Some r)
  note laws = live_outside_laws [OF assms(1)]
  let ?tg = "tg\<lparr>tg_last_context_remained := None\<rparr>"
  let ?w = "put_group g ?tg w"
  have "kept X w ?w" by (rule kept_group_same [OF kept_refl assms(4)]) simp
  then have ok: "addresses_ok X ?w" using laws(4) assms(2) by (rule kept_ok)
  have own: "tls_task_group (cur_tls ?w) = Some g" "group_at ?w g = Some ?tg"
    using assms(3,4) by (simp_all add: nth_opt_Some)
  have cok: "callback_ok w (Some r)" using assms(5) by (simp only: Some)
  have cb: "callback_ok ?w (Some r)" by (rule callback_ok_cong [OF _ _ _ cok]) simp_all
  obtain w1 where w1: "run_callback X r ?w = Some w1" using callback_returns [OF assms(1) ok own cb] by blast
  obtain d where "moves X d ?w w1" using callback_ok_moves [OF laws(1,2) cb w1] by blast
  note st = moves_steady(1) [OF this]
  obtain tg1 where tg1: "group_at w1 g = Some tg1" "queue_part_only ?tg tg1" using steady_own [OF st own] by blast
  have "tg_last_context_remained tg1 = None" using queue_part_only_same(5) [OF tg1(2)] by simp
  then have "run_remained X g w1 = Some (g, w1)" by (rule run_remained_none [OF tg1(1)])
  moreover have "tls_task_group (cur_tls w1) = Some g" using steady_sels(1) [OF st] assms(3) by simp
  ultimately show ?thesis using assms(4) Some w1 by (subst run_remained.simps) simp
qed

lemma sched_arrive_returns:
  assumes "live_outside X" and "addresses_ok X w" and "tls_task_group (cur_tls w) = Some g" and "group_at w g = Some tg"
    and "callback_ok w (tg_last_context_remained tg)"
  shows "\<exists>w'. sched_arrive X g fr w = Some (g, w')"
proof -
  obtain w1 where rem: "run_remained X g w = Some (g, w1)" using run_remained_returns [OF assms] by blast
  obtain tg1 where "group_at w1 g = Some tg1"
    using group_exists [OF kept_run_remained [OF rem kept_refl] live_outside_laws(4) [OF assms(1)] assms(4)] by blast
  then show ?thesis using rem by (simp add: sched_arrive_def Let_def split: option.split)
qed

lemma cur_exists:
  assumes "addresses_ok X w" and "group_at w g = Some tg" and "tg_cur_meta tg = Some cur"
  shows "\<exists>m. metas w cur = Some m"
proof -
  have "tg \<in> set (groups w)" using assms(2) by (auto simp: nth_opt_Some)
  then have "cur_ok w tg" using assms(1) by (simp add: addresses_ok_def)
  then show ?thesis using assms(3) by (simp add: cur_ok_def)
qed

lemma sched_to_meta_returns:
  assumes "live_outside X" and "addresses_ok X w" and "tls_task_group (cur_tls w) = Some g" and "group_at w g = Some tg"
    and "tg_cur_meta tg = Some cur" and "metas w next = Some mn" and "callback_ok w (tg_last_context_remained tg)"
  shows "\<exists>j w'. sched_to_meta X g next w = Some (j, g, w')"
proof -
  note live = live_outside_laws(4) [OF assms(1)]
  obtain mc where mc: "metas w cur = Some mc" using cur_exists [OF assms(2,4,5)] by blast
  obtain w1 where acc: "sched_account X g cur w = Some w1"
    using assms(4) mc by (cases "cpuwide_time_ns X (outside w)") (simp add: sched_account_def Let_def)
  note k1 = kept_sched_account [OF acc kept_refl]
  obtain tg1 where tg1: "group_at w1 g = Some tg1" "tg_cur_meta tg1 = Some cur"
      "tg_last_context_remained tg1 = tg_last_context_remained tg" and wt1: "waiters w1 = waiters w"
    using sched_account_switches [OF acc] assms(4,5) by auto
  show ?thesis
  proof (cases "next = cur")
    case True
    then show ?thesis using assms(4,5) acc by (auto simp: sched_to_meta_def)
  next
    case False
    obtain mc1 mn1 where "metas w1 cur = Some mc1" "metas w1 next = Some mn1"
      using meta_exists [OF k1 live] mc assms(6) by blast
    then have "sched_switch g cur next w1 \<noteq> None" using tg1(1) by (auto simp: sched_switch_def Let_def)
    then obtain j w2 where sw: "sched_switch g cur next w1 = Some (j, w2)" by auto
    note k2 = kept_sched_switch [OF sw k1]
    have tg2: "group_at w2 g = Some (tg1\<lparr>tg_cur_meta := Some next\<rparr>)" and wt2: "waiters w2 = waiters w"
      using sched_switch_switches [OF tg1(1,2) sw] wt1 by simp_all
    have "callback_ok w2 (tg_last_context_remained tg)"
      by (rule callback_ok_kept [OF k2 live wt2 assms(7)])
    moreover have "tls_task_group (cur_tls w2) = Some g" using kept_tls [OF k2 live] assms(3) by simp
    ultimately have arr: "\<exists>w'. sched_arrive X g fr w3 = Some (g, w')"
      if "kept X w w3" "groups w3 = groups w2" "waiters w3 = waiters w2" "metas w3 = metas w2" "cur_tls w3 = cur_tls w2"
      for fr w3
      using that tg2 tg1(3) kept_ok [OF that(1) live assms(2)] callback_ok_cong [of w3 w2]
      by (intro sched_arrive_returns [OF assms(1)]) auto
    show ?thesis
    proof (cases j)
      case True
      obtain w' where "sched_arrive X g (frames w2 next) (w2\<lparr>frames := (frames w2)(next := None)\<rparr>) = Some (g, w')"
        using arr [of "w2\<lparr>frames := (frames w2)(next := None)\<rparr>"] k2 by auto
      then show ?thesis using assms(4,5) acc sw False True \<open>tls_task_group (cur_tls w2) = Some g\<close>
        by (auto simp: sched_to_meta_def)
    next
      case False
      then show ?thesis using assms(4,5) acc sw \<open>next \<noteq> cur\<close> arr [OF k2 refl refl refl refl,
          of "Some \<lparr>sf_errno = tls_errno (cur_tls w), sf_unique_user_ptr = tls_unique_user_ptr (cur_tls w)\<rparr>"]
        by (auto simp: sched_to_meta_def)
    qed
  qed
qed

lemma give_stack_returns:
  "metas w s = Some m \<Longrightarrow> group_at w g = Some tg \<Longrightarrow> \<exists>w'. give_stack X g s w = Some w'"
  by (simp add: give_stack_def split: prod.split option.split)

lemma live_task_meta: "live_task w t \<Longrightarrow> \<exists>m. metas w (get_slot t) = Some m"
  by (auto simp: live_task_def meta_tid_def)

lemma sched_to_returns:
  assumes "live_outside X" and "addresses_ok X w" and "tls_task_group (cur_tls w) = Some g" and "group_at w g = Some tg"
    and "tg_cur_meta tg = Some cur" and "live_task w t" and "callback_ok w (tg_last_context_remained tg)"
  shows "\<exists>j w'. sched_to X g t w = Some (j, g, w')"
proof -
  note live = live_outside_laws(4) [OF assms(1)]
  obtain m where m: "metas w (get_slot t) = Some m" using live_task_meta [OF assms(6)] by blast
  show ?thesis
  proof (cases "tm_stack m = None")
    case True
    obtain w1 where gs: "give_stack X g (get_slot t) w = Some w1" using give_stack_returns [OF m assms(4)] by blast
    note k = kept_give_stack [OF gs kept_refl] and same = give_stack_spec [OF gs]
    obtain m1 where m1: "metas w1 (get_slot t) = Some m1" using meta_exists [OF k live m] by blast
    have ok: "addresses_ok X w1" by (rule kept_ok [OF k live assms(2)])
    have own: "tls_task_group (cur_tls w1) = Some g" "group_at w1 g = Some tg" using assms(3,4) same by simp_all
    have "callback_ok w1 (tg_last_context_remained tg)"
      by (rule callback_ok_kept [OF k live same(3) assms(7)])
    from sched_to_meta_returns [OF assms(1) ok own assms(5) m1 this]
    show ?thesis using m True gs by (simp add: sched_to_def address_meta_def)
  next
    case False
    from sched_to_meta_returns [OF assms(1-5) m assms(7)]
    show ?thesis using m False by (auto simp: sched_to_def address_meta_def)
  qed
qed

text \<open>After the next task has been taken out of the queues.\<close>

lemma next_task_ready:
  assumes "live_outside X" and "addresses_ok X w" and "tls_task_group (cur_tls w) = Some g" and "group_at w g = Some tg"
    and "live_task w (tg_main_tid tg)" and "\<forall>t. t \<in># queued X w \<longrightarrow> live_task w t"
  shows "\<exists>t w' tg'. next_task X g w = Some (t, w') \<and> addresses_ok X w' \<and> tls_task_group (cur_tls w') = Some g
    \<and> group_at w' g = Some tg' \<and> same_run tg tg' \<and> live_task w' t \<and> waiters w' = waiters w \<and> metas w' = metas w
    \<and> length (groups w) \<le> length (groups w')"
proof -
  note laws = live_outside_laws [OF assms(1)]
  obtain t w' where nt: "next_task X g w = Some (t, w')" using next_task_returns [OF laws(1,4) assms(2,4)] by blast
  note k = kept_next_task [OF laws(1) nt kept_refl]
  have pk: "picks X g (Some t) w w' \<or> t = tg_main_tid tg \<and> picks X g None w w'" by (rule next_task_picks [OF laws(1) assms(4) nt])
  then have "t \<in># queued X w \<or> t = tg_main_tid tg" by (auto simp: picks_def)
  then have "live_task w t" using assms(5,6) by blast
  moreover have same: "metas w' = metas w" "waiters w' = waiters w" using pk by (auto simp: picks_def)
  moreover have "\<exists>tg'. group_at w' g = Some tg' \<and> same_run tg tg'" using pk assms(4) unfolding picks_def by blast
  ultimately show ?thesis
    using nt kept_ok [OF k laws(4) assms(2)] kept_tls [OF k laws(4)] k laws(4) assms(3)
    by (auto simp: live_task_def meta_tid_def kept_def outlives_def)
qed

lemma sched_returns:
  assumes "live_outside X" and "addresses_ok X w" and "tls_task_group (cur_tls w) = Some g" and "group_at w g = Some tg"
    and "tg_cur_meta tg = Some cur" and "live_task w (tg_main_tid tg)" and "\<forall>t. t \<in># queued X w \<longrightarrow> live_task w t"
    and "callback_ok w (tg_last_context_remained tg)"
  shows "\<exists>j w'. sched X g w = Some (j, g, w')"
proof -
  obtain t w1 tg1 where nt: "next_task X g w = Some (t, w1)" and ok: "addresses_ok X w1" and own: "tls_task_group (cur_tls w1) = Some g"
    "group_at w1 g = Some tg1" and run: "same_run tg tg1" and live: "live_task w1 t" and same: "waiters w1 = waiters w" "metas w1 = metas w" "length (groups w) \<le> length (groups w1)"
    using next_task_ready [OF assms(1-4,6,7)] by blast
  have "callback_ok w1 (tg_last_context_remained tg1)"
    using run by (intro callback_ok_cong [OF same(1)]) (simp_all add: same(2,3) same_run_def assms(8))
  then show ?thesis
    using sched_to_returns [OF assms(1) ok own _ live] run assms(5) nt by (simp add: sched_def same_run_def)
qed

lemma ending_sched_returns:
  assumes "live_outside X" and "addresses_ok X w" and "tls_task_group (cur_tls w) = Some g" and "group_at w g = Some tg"
    and "tg_cur_meta tg = Some cur" and "live_task w (tg_main_tid tg)" and "\<forall>t. t \<in># queued X w \<longrightarrow> live_task w t"
    and "callback_ok w (tg_last_context_remained tg)"
  shows "\<exists>j w'. ending_sched X g w = Some (j, g, w')"
proof -
  note laws = live_outside_laws [OF assms(1)]
  obtain t w1 tg1 where nt: "next_task X g w = Some (t, w1)" and ok: "addresses_ok X w1" and own: "tls_task_group (cur_tls w1) = Some g"
    "group_at w1 g = Some tg1" and run: "same_run tg tg1" and live: "live_task w1 t" and same: "waiters w1 = waiters w" "metas w1 = metas w" "length (groups w) \<le> length (groups w1)"
    using next_task_ready [OF assms(1-4,6,7)] by blast
  have cur: "tg_cur_meta tg1 = Some cur" using run assms(5) by (simp add: same_run_def)
  obtain mc where mc: "metas w1 cur = Some mc" using cur_exists [OF ok own(2) cur] by blast
  obtain mn where mn: "metas w1 (get_slot t) = Some mn" using live_task_meta [OF live] by blast
  have cb: "callback_ok w1 (tg_last_context_remained tg1)"
    using run by (intro callback_ok_cong [OF same(1)]) (simp_all add: same(2,3) same_run_def assms(8))
  have go: "\<exists>j w'. sched_to_meta X g (get_slot t) w2 = Some (j, g, w')"
    if k: "kept X w1 w2" and eq: "groups w2 = groups w1" "waiters w2 = waiters w1" "cur_tls w2 = cur_tls w1" for w2
  proof -
    obtain mn2 where mn2: "metas w2 (get_slot t) = Some mn2" using meta_exists [OF k laws(4) mn] by blast
    have "callback_ok w2 (tg_last_context_remained tg1)"
      by (rule callback_ok_kept [OF k laws(4) eq(2) cb])
    then show ?thesis using own eq cur mn2 kept_ok [OF k laws(4) ok] by (intro sched_to_meta_returns [OF assms(1)]) auto
  qed
  let ?swap = "put_meta (get_slot t) (mn\<lparr>tm_stack := tm_stack mc\<rparr>) (put_meta cur (mc\<lparr>tm_stack := None\<rparr>) w1)"
  have "kept X w1 (put_meta cur (mc\<lparr>tm_stack := None\<rparr>) w1)" by (rule kept_meta [OF kept_refl mc]) simp
  then have "kept X w1 ?swap" using mn mc by (cases "get_slot t = cur") (auto intro!: kept_meta)
  then have swap: "\<exists>j w'. sched_to_meta X g (get_slot t) ?swap = Some (j, g, w')" by (intro go) simp_all
  obtain w2 where gs: "give_stack X g (get_slot t) w1 = Some w2" using give_stack_returns [OF mn own(2)] by blast
  have given: "\<exists>j w'. sched_to_meta X g (get_slot t) w2 = Some (j, g, w')"
    using give_stack_spec [OF gs] by (intro go [OF kept_give_stack [OF gs kept_refl]]) simp_all
  show ?thesis using nt own(2) cur mc mn swap gs given go [OF kept_refl]
    by (simp add: ending_sched_def Let_def)
qed

section \<open>Waking returns\<close>

lemma exchange_returns:
  assumes "live_outside X" and "addresses_ok X w" and "tls_task_group (cur_tls w) = Some g" and "waker_ok w t"
  shows "\<exists>j w'. exchange X g t w = Some (j, g, w')"
proof -
  obtain tg cur t0 where tg: "group_at w g = Some tg" "tg_cur_meta tg = Some cur" and mt: "meta_tid w cur = Some t0"
    and none: "tg_last_context_remained tg = None" and live: "live_task w t"
    using assms(3,4) unfolding waker_ok_def by blast
  obtain m where m: "metas w cur = Some m" using mt by (auto simp: meta_tid_def)
  show ?thesis
  proof (cases "is_current_pthread_task X tg (Some m)")
    case True
    obtain w' where "ready_to_run X g t False w = Some w'" using ready_returns(1) [OF assms(1) tg(1)] by blast
    then show ?thesis using True tg m by (auto simp: exchange_def)
  next
    case False
    define r where "r = (if tm_about_to_quit m then ReadyToRunInWorkerIgnoresignal else ReadyToRunInWorker) (tm_tid m) False"
    let ?tg = "tg\<lparr>tg_last_context_remained := Some r\<rparr>"
    let ?w = "put_group g ?tg w"
    have k: "kept X w ?w" by (rule kept_group_same [OF kept_refl tg(1)]) simp
    have "addresses_ok X ?w" by (rule kept_ok [OF k live_outside_laws(4) [OF assms(1)] assms(2)])
    moreover have "tls_task_group (cur_tls ?w) = Some g" "group_at ?w g = Some ?tg" "tg_cur_meta ?tg = Some cur" "live_task ?w t"
      using assms(3) tg live by (simp_all add: nth_opt_Some live_task_def)
    moreover have "callback_ok ?w (tg_last_context_remained ?tg)" by (simp add: callback_ok_def remained_ok_def r_def)
    ultimately have "\<exists>j w'. sched_to X g t ?w = Some (j, g, w')" by (rule sched_to_returns [OF assms(1)])
    then show ?thesis using False tg m by (simp add: exchange_def set_remained_def r_def)
  qed
qed

lemma wake_front_returns:
  assumes "live_outside X" and "addresses_ok X w" and "waiters w i = Some bw"
    and "w_tid bw \<noteq> 0 \<longrightarrow> waker_ok w (w_tid bw)" and "tls_task_group (cur_tls w) = None \<longrightarrow> tc_ngroup (control w) \<noteq> 0"
  shows "\<exists>n j w'. wake_front X i w = Some (n, j, w')"
proof (cases "w_tid bw = 0")
  case True
  then show ?thesis using assms(3) wakeup_pthread_returns [OF assms(3), of X] by (auto simp: wake_front_def)
next
  case False
  note laws = live_outside_laws [OF assms(1)]
  obtain rc w1 where un: "unsleep_if_necessary X i w = Some (rc, w1)" using unsleep_returns [OF assms(3)] by blast
  note k = kept_unsleep [OF un kept_refl] and same = unsleep_same [OF un]
  have ok: "addresses_ok X w1" by (rule kept_ok [OF k laws(4) assms(2)])
  have wk: "waker_ok w1 (w_tid bw)" using waker_ok_steady [OF moves_steady(1) [OF unsleep_moves [OF un]]] assms(4) False by blast
  show ?thesis
  proof (cases "tls_task_group (cur_tls w1)")
    case (Some g)
    then show ?thesis using exchange_returns [OF assms(1) ok Some wk] assms(3) False un by (auto simp: wake_front_def)
  next
    case None
    then obtain g w2 tg where ch: "choose_one_group X w1 = Some (Some g, w2)" and g: "group_at w2 g = Some tg"
      using choose_returns [OF laws(6) ok] assms(5) same by auto
    obtain w3 where "ready_to_run_remote X g (w_tid bw) False w2 = Some w3" using ready_returns(2) [OF assms(1) g] by blast
    then show ?thesis using None assms(3) False un ch by (auto simp: wake_front_def)
  qed
qed

lemma butexes_ok_waiter:
  "butexes_ok w \<Longrightarrow> butex_at w b = Some bx \<Longrightarrow> i \<in> set (bx_waiters bx) \<Longrightarrow> \<exists>bw. waiters w i = Some bw"
  using butexes_okD(2) [of w b bx i] by blast

lemma butex_wake_returns:
  assumes "live_outside X" and "system_ok X w" and "addresses_ok X w" and "may_wake w" and "b < length (butexes w)"
    and "tls_task_group (cur_tls w) = None \<longrightarrow> tc_ngroup (control w) \<noteq> 0"
  shows "\<exists>n j w'. butex_wake X b w = Some (n, j, w')"
proof -
  obtain bx where bx: "butex_at w b = Some bx" using assms(5) by (simp add: nth_opt_def)
  have ok: "butexes_ok w" using assms(2) by (simp add: system_ok_def)
  show ?thesis
  proof (cases "bx_waiters bx")
    case Nil
    then show ?thesis using bx by (auto simp: butex_wake_def)
  next
    case (Cons front rest)
    then obtain bw where bw: "waiters w front = Some bw" using butexes_ok_waiter [OF ok bx, of front] by auto
    then obtain w1 where pop: "pop_waiter b bx front rest w = Some w1" by (simp add: pop_waiter_def)
    note k = kept_pop_waiter [OF pop kept_refl] and st = moves_steady(2) [OF pop_waiter_takes(1) [OF ok bx Cons pop, of X]]
    have w1: "waiters w1 front = Some (bw\<lparr>w_container := None\<rparr>)" "control w1 = control w"
      using pop bw by (auto simp: pop_waiter_def)
    have "w_tid bw \<noteq> 0 \<longrightarrow> waker_ok w1 (w_tid bw)"
      using may_wake_ok [OF assms(2,4) bx] Cons waiter_tid_at [OF bw] waker_ok_steady [OF st] by auto
    moreover have "tls_task_group (cur_tls w1) = None \<longrightarrow> tc_ngroup (control w1) \<noteq> 0"
      using assms(6) steady_sels(1) [OF st] w1(2) by simp
    ultimately have "\<exists>n j w'. wake_front X front w1 = Some (n, j, w')"
      using wake_front_returns [OF assms(1) _ w1(1)] kept_ok [OF k live_outside_laws(4) [OF assms(1)] assms(3)] by simp
    then show ?thesis using bx Cons pop by (simp add: butex_wake_def)
  qed
qed

lemma split_waiters_returns:
  "\<forall>i \<in> set ws. \<exists>bw. waiters w i = Some bw \<Longrightarrow> \<exists>r. split_waiters excl ws bs ps ex w = Some r"
proof (induction ws arbitrary: bs ps ex w)
  case (Cons i ws)
  obtain bw where bw: "waiters w i = Some bw" using Cons.prems by auto
  have "\<forall>j \<in> set ws. \<exists>bw'. waiters (put_waiter i (bw\<lparr>w_container := None\<rparr>) w) j = Some bw'" using Cons.prems by simp
  then show ?case using Cons bw by (simp add: Let_def)
qed simp

lemma wake_pthreads_returns:
  assumes "others_ok X"
  shows "\<forall>i \<in> set ps. \<exists>bw. waiters w i = Some bw \<Longrightarrow> \<exists>n' w'. wake_pthreads X ps n w = Some (n', w')"
proof (induction ps arbitrary: n w)
  case (Cons i ps)
  then obtain bw where "waiters w i = Some bw" by auto
  then obtain w1 where w1: "wakeup_pthread X i w = Some w1" using wakeup_pthread_returns by blast
  have "\<forall>j \<in> set ps. \<exists>bw. waiters w1 j = Some bw"
    using Cons.prems waiter_exists [OF kept_wakeup_pthread [OF w1 kept_refl] assms] by auto
  then show ?case using Cons.IH w1 by simp
qed simp

lemma ready_waiters_returns:
  assumes "live_outside X"
  shows "tls_task_group (cur_tls w) = Some g \<Longrightarrow> group_at w g = Some tg \<Longrightarrow> \<forall>i \<in> set ws. \<exists>bw. waiters w i = Some bw \<Longrightarrow>
    \<exists>n' w'. ready_waiters X g ws n w = Some (n', w')"
proof (induction ws arbitrary: n w tg)
  case (Cons i ws)
  note live = live_outside_laws(4) [OF assms]
  obtain bw0 where bw0: "waiters w i = Some bw0" using Cons.prems(3) by auto
  then obtain rc w1 where un: "unsleep_if_necessary X i w = Some (rc, w1)" using unsleep_returns by blast
  have g1: "group_at w1 g = Some tg" "tls_task_group (cur_tls w1) = Some g" using Cons.prems(1,2) unsleep_same [OF un] by simp_all
  note k1 = kept_unsleep [OF un kept_refl]
  obtain bw where bw: "waiters w1 i = Some bw" using waiter_exists [OF k1 live bw0] by blast
  obtain w2 where rr: "ready_to_run_general X g (w_tid bw) True w1 = Some w2"
    using ready_general_returns(1) [OF assms g1] by blast
  note k2 = kept_ready_general [OF rr k1]
  obtain tg2 where "group_at w2 g = Some tg2" using group_exists [OF k2 live Cons.prems(2)] by blast
  moreover have "tls_task_group (cur_tls w2) = Some g" using kept_tls [OF k2 live] Cons.prems(1) by simp
  moreover have "\<forall>j \<in> set ws. \<exists>bw. waiters w2 j = Some bw" using Cons.prems(3) waiter_exists [OF k2 live] by auto
  ultimately show ?case using Cons.IH un bw rr by simp
qed simp

text \<open>Both \<open>butex_wake_all\<close> and \<open>butex_wake_except\<close> first empty the list and wake the pthreads.\<close>

lemma emptied_returns:
  assumes "live_outside X" and "butexes_ok w" and "butex_at w b = Some bx" and "length (left_waiters w excl (bx_waiters bx)) \<le> 1"
  shows "\<exists>bs ps w1 n w2. take_waiters b excl w = Some (bs, ps, w1) \<and> wake_pthreads X ps 0 w1 = Some (n, w2)
    \<and> set bs \<subseteq> {i \<in> set (bx_waiters bx). waiter_tid w i \<noteq> 0} \<and> kept X w w2 \<and> steady w w2"
proof -
  note live = live_outside_laws(4) [OF assms(1)]
  have "\<forall>i \<in> set (bx_waiters bx). \<exists>bw. waiters w i = Some bw" using butexes_ok_waiter [OF assms(2,3)] by blast
  then obtain r where "split_waiters excl (bx_waiters bx) [] [] None w = Some r" using split_waiters_returns by blast
  then obtain bs ps w1 where tw: "take_waiters b excl w = Some (bs, ps, w1)"
    using assms(3) by (cases r) (auto simp: take_waiters_def)
  note tk = take_waiters_takes [OF assms(2-4) tw]
  note k1 = kept_take_waiters [OF tw kept_refl, of X]
  have "\<forall>i \<in> set ps. \<exists>bw. waiters w1 i = Some bw"
    using butexes_ok_waiter [OF assms(2,3)] waiter_exists [OF k1 live] by (auto simp: tk(2) woken_pthreads_def)
  then obtain n w2 where wp: "wake_pthreads X ps 0 w1 = Some (n, w2)" using wake_pthreads_returns [OF live] by blast
  have "steady w w2"
    using moves_steady(2) [OF tk(4) [of X]] wake_pthreads_moves [OF wp] moves_steady(1) steady_trans by blast
  then show ?thesis using tw wp kept_wake_pthreads [OF wp k1] by (auto simp: tk(1) woken_bthreads_def)
qed

lemma flushed_returns:
  assumes "live_outside X" and "group_at w g = Some tg" and "tls_task_group (cur_tls w) = Some g"
  shows "\<exists>w'. (if c then flush_nosignal_tasks_general X g w else Some w) = Some w'"
  using ready_general_returns(2) [OF assms] by simp

lemma wake_except_returns:
  assumes "live_outside X" and "butexes_ok w" and "butex_at w b = Some bx" and "length (left_waiters w excl (bx_waiters bx)) \<le> 1"
    and "tls_task_group (cur_tls w) = Some g" and "group_at w g = Some tg"
  shows "\<exists>n w'. butex_wake_except X b excl w = Some (n, w')"
proof -
  note live = live_outside_laws(4) [OF assms(1)]
  obtain bs ps w1 n w2 where tw: "take_waiters b excl w = Some (bs, ps, w1)" and wp: "wake_pthreads X ps 0 w1 = Some (n, w2)"
    and bs: "set bs \<subseteq> {i \<in> set (bx_waiters bx). waiter_tid w i \<noteq> 0}" and k: "kept X w w2"
    using emptied_returns [OF assms(1-4)] by blast
  have own: "tls_task_group (cur_tls w2) = Some g" using kept_tls [OF k live] assms(5) by simp
  obtain tg2 where tg2: "group_at w2 g = Some tg2" using group_exists [OF k live assms(6)] by blast
  have "\<forall>i \<in> set (rev bs). \<exists>bw. waiters w2 i = Some bw"
    using bs butexes_ok_waiter [OF assms(2,3)] waiter_exists [OF k live] by fastforce
  from ready_waiters_returns [OF assms(1) own tg2 this] obtain n2 w3 where rw: "ready_waiters X g (rev bs) n w2 = Some (n2, w3)"
    by blast
  note k3 = kept_ready_waiters [OF rw k]
  have own3: "tls_task_group (cur_tls w3) = Some g" using kept_tls [OF k3 live] assms(5) by simp
  obtain tg3 where tg3: "group_at w3 g = Some tg3" using group_exists [OF k3 live assms(6)] by blast
  from flushed_returns [OF assms(1) tg3 own3, of "n \<noteq> n2"]
  show ?thesis using tw wp own rw by (auto simp: butex_wake_except_def get_task_group_def)
qed

lemma wake_all_returns:
  assumes "live_outside X" and "butexes_ok w" and "butex_at w b = Some bx" and "addresses_ok X w"
    and "tls_task_group (cur_tls w) = Some g" and "group_at w g = Some tg"
    and "\<forall>i \<in> set (bx_waiters bx). waiter_tid w i \<noteq> 0 \<longrightarrow> waker_ok w (waiter_tid w i)"
  shows "\<exists>n j w'. butex_wake_all X b w = Some (n, j, w')"
proof -
  note laws = live_outside_laws [OF assms(1)]
  have "length (left_waiters w 0 (bx_waiters bx)) \<le> 1" by (simp add: left_waiters_def)
  from emptied_returns [OF assms(1-3) this] obtain bs ps w1 n w2 where
    tw: "take_waiters b 0 w = Some (bs, ps, w1)" and wp: "wake_pthreads X ps 0 w1 = Some (n, w2)"
    and bs: "set bs \<subseteq> {i \<in> set (bx_waiters bx). waiter_tid w i \<noteq> 0}" and k: "kept X w w2" and st: "steady w w2" by blast
  show ?thesis
  proof (cases bs)
    case Nil
    then show ?thesis using tw wp by (auto simp: butex_wake_all_def)
  next
    case (Cons i rest)
    have there: "\<exists>bw. waiters v j = Some bw" if "j \<in> set bs" "kept X w v" for j v
      using that bs butexes_ok_waiter [OF assms(2,3)] waiter_exists [OF that(2) laws(4)] by fastforce
    obtain rc w3 where un: "unsleep_if_necessary X i w2 = Some (rc, w3)"
      using there [of i, OF _ k] Cons unsleep_returns by fastforce
    note k3 = kept_unsleep [OF un k]
    have st3: "steady w w3" using steady_trans [OF st moves_steady(1) [OF unsleep_moves [OF un]]] .
    have own3: "tls_task_group (cur_tls w3) = Some g" using kept_tls [OF k3 laws(4)] assms(5) by simp
    obtain tg3 where tg3: "group_at w3 g = Some tg3" using group_exists [OF k3 laws(4) assms(6)] by blast
    have "\<forall>j \<in> set (rev rest). \<exists>bw. waiters w3 j = Some bw" using there [OF _ k3] Cons by simp
    from ready_waiters_returns [OF assms(1) own3 tg3 this] obtain n2 w4 where
      rw: "ready_waiters X g (rev rest) (n + 1) w3 = Some (n2, w4)" by blast
    note k4 = kept_ready_waiters [OF rw k3]
    have own4: "tls_task_group (cur_tls w4) = Some g" using kept_tls [OF k4 laws(4)] assms(5) by simp
    obtain tg4 where tg4: "group_at w4 g = Some tg4" using group_exists [OF k4 laws(4) assms(6)] by blast
    obtain w5 where fl: "(if n + 1 \<noteq> n2 then flush_nosignal_tasks_general X g w4 else Some w4) = Some w5"
      using flushed_returns [OF assms(1) tg4 own4] by blast
    have k5: "kept X w w5" using fl k4 kept_ready(4) by (auto split: if_split_asm)
    have "\<forall>j \<in> set (rev rest). waiter_tid w3 j \<noteq> 0" using bs Cons steady_sels(3) [OF st3] by auto
    from ready_waiters_moves [OF laws(1,2) rw own3 this] have m4: "steady w w4"
      using steady_trans [OF st3] moves_steady(1) by blast
    then have st5: "steady w w5" using flush_general_worker_moves [OF fl, THEN moves_steady(1)] steady_trans by blast
    obtain bw where bw: "waiters w5 i = Some bw" using there [OF _ k5] Cons by auto
    have own5: "tls_task_group (cur_tls w5) = Some g" using kept_tls [OF k5 laws(4)] assms(5) by simp
    have "waker_ok w5 (w_tid bw)"
      using assms(7) bs Cons waker_ok_steady [OF st5] steady_sels(3) [OF st5] waiter_tid_at [OF bw] by auto
    from exchange_returns [OF assms(1) kept_ok [OF k5 laws(4) assms(4)] own5 this]
    show ?thesis using tw wp Cons un own3 rw fl bw own5 by (auto simp: butex_wake_all_def get_task_group_def Let_def)
  qed
qed

section \<open>The operations of a running bthread return\<close>

text \<open>The bthread gives up its worker: in its group one callback is set, and the worker goes on with another task.\<close>

lemma block_returns:
  assumes "live_outside X" and "addresses_ok X w" and "running_ok X g tg cur m w" and "callback_ok w (Some r)"
  shows "\<exists>w1 j w'. set_remained g r w = Some w1 \<and> sched X g w1 = Some (j, g, w')"
proof -
  note run = assms(3) [unfolded running_ok_def]
  have own: "tls_task_group (cur_tls w) = Some g" "group_at w g = Some tg" using run by simp_all
  let ?tg = "tg\<lparr>tg_last_context_remained := Some r\<rparr>"
  let ?w = "put_group g ?tg w"
  have k: "kept X w ?w" by (rule kept_group_same [OF kept_refl own(2)]) simp
  have ok: "addresses_ok X ?w" by (rule kept_ok [OF k live_outside_laws(4) [OF assms(1)] assms(2)])
  have at: "tls_task_group (cur_tls ?w) = Some g" "group_at ?w g = Some ?tg" using own by (simp_all add: nth_opt_Some)
  have "queued X ?w = queued X w" using queued_put_group_add [OF own(2), of X ?tg "{#}"] by (simp add: queue_of_def)
  then have "\<forall>t. t \<in># queued X ?w \<longrightarrow> live_task ?w t" using run by (simp add: live_task_def)
  moreover have "callback_ok ?w (tg_last_context_remained ?tg)"
    using callback_ok_cong [OF _ _ _ assms(4), of ?w] by simp
  moreover have "tg_cur_meta ?tg = Some cur" "live_task ?w (tg_main_tid ?tg)"
    using run by (simp_all add: live_task_def)
  ultimately show ?thesis using sched_returns [OF assms(1) ok at] own(2) by (simp add: set_remained_def)
qed

lemma yield_returns:
  assumes "live_outside X" and "addresses_ok X w" and "running_ok X g tg cur m w"
  shows "\<exists>j w'. yield X g w = Some (j, g, w')"
proof -
  have "callback_ok w (Some (ReadyToRunInWorker (tm_tid m) False))" by (simp add: callback_ok_def remained_ok_def)
  from block_returns [OF assms this] show ?thesis using assms(3) by (auto simp: yield_def running_ok_def)
qed

lemma usleep_returns:
  assumes "live_outside X" and "addresses_ok X w" and "running_ok X g tg cur m w"
  shows "\<exists>eo j w'. usleep_begin X g us w = Some (eo, j, g, w')"
proof (cases "us = 0")
  case True
  then show ?thesis using yield_returns [OF assms] by (auto simp: usleep_begin_def)
next
  case False
  note run = assms(3) [unfolded running_ok_def]
  let ?e = "\<lparr>sa_timeout_us = us, sa_tid = tm_tid m, sa_meta = cur, sa_group = g\<rparr>"
  have "callback_ok w (Some (AddSleepEvent ?e))" using run by (auto simp: callback_ok_def nth_opt_Some)
  from block_returns [OF assms this] show ?thesis using False run by (auto simp: usleep_begin_def Let_def)
qed

lemma butex_wait_begin_returns:
  assumes "live_outside X" and "addresses_ok X w" and "running_ok X g tg cur m w" and "tm_tid m \<noteq> 0"
    and "b < length (butexes w)" and "\<not> is_current_pthread_task X tg (Some m)"
  shows "\<exists>r w'. butex_wait_begin X b expected abstime i w = Some (r, w')"
proof -
  note run = assms(3) [unfolded running_ok_def]
  obtain bx where bx: "butex_at w b = Some bx" using assms(5) by (simp add: nth_opt_def)
  let ?bw = "new_bthread_waiter (tm_tid m) cur expected b"
  let ?w1 = "put_waiter i ?bw w"
  have "\<exists>e w2. schedule_timeout X i abstime ?w1 = Some (e, w2)"
    by (cases abstime) (simp_all add: schedule_timeout_def Let_def split: prod.split)
  then obtain e w2 where st: "schedule_timeout X i abstime ?w1 = Some (e, w2)" by blast
  have at1: "waiters ?w1 i = Some ?bw" by simp
  obtain k x where w2: "w2 = (put_waiter i (?bw\<lparr>w_sleep_id := k\<rparr>) ?w1)\<lparr>outside := x\<rparr>"
    using schedule_timeout_result(1) [OF st at1] by blast
  let ?m = "m\<lparr>tm_current_waiter := Some i\<rparr>"
  let ?u = "put_meta cur ?m w2"
  have "kept X w ?w1" using run bx
    by (intro kept_new_waiter [OF kept_refl]) (simp add: waiter_ok_def new_bthread_waiter_def nth_opt_Some)
  then have "kept X w w2" by (rule kept_schedule_timeout [OF st])
  then have ku: "kept X w ?u" using run by (intro kept_meta [of X w w2 cur m]) (simp_all add: w2)
  have rk: "running_ok X g tg cur ?m ?u"
    using run meta_tid_put_meta [of w2 cur ?m] by (intro running_ok_cong [OF assms(3)]) (simp_all add: w2 meta_tid_def fun_eq_iff)
  have "callback_ok ?u (Some (WaitForButex i))" using assms(4)
    by (simp add: callback_ok_def remained_ok_def detached_def waiter_tid_def w2 new_bthread_waiter_def)
  from block_returns [OF assms(1) kept_ok [OF ku live_outside_laws(4) [OF assms(1)] assms(2)] rk this]
  obtain v j w' where sc: "set_remained g (WaitForButex i) ?u = Some v" "sched X g v = Some (j, g, w')" by blast
  show ?thesis
  proof (cases "bx_value bx \<noteq> expected \<or> e \<noteq> E0")
    case True
    then show ?thesis using run assms(6) bx st by (auto simp: butex_wait_begin_def)
  next
    case False
    then show ?thesis using run assms(6) bx st sc by (auto simp: butex_wait_begin_def)
  qed
qed

lemma create_task_returns:
  assumes "pool_ok X"
  shows "\<exists>r w'. create_task X a fn arg w = Some (r, w')"
proof (cases fn)
  case (Some f)
  obtain x ns where clk: "cpuwide_time_ns X (outside w) = (x, ns)" by fastforce
  obtain w1 s where gm: "get_meta X (w\<lparr>outside := x\<rparr>) = (w1, s)" by fastforce
  have "\<exists>m v. metas w1 sl = Some m \<and> version_of w1 m = Some v" if "s = Some sl" for sl
    using assms [unfolded pool_ok_def, rule_format, OF gm] that by blast
  then show ?thesis using Some clk gm by (cases s) (auto simp: create_task_def init_meta_def Let_def)
qed (simp add: create_task_def)

lemma start_background_returns:
  assumes "live_outside X" and "group_at w g = Some tg"
  shows "\<exists>r th w'. start_background X remote g attr fn arg w = Some (r, th, w')"
proof -
  note laws = live_outside_laws [OF assms(1)]
  obtain r w1 where ct: "create_task X (using_attr X attr) fn arg w = Some (r, w1)" using create_task_returns [OF laws(3)] by blast
  have "kept X w (count_bthreads 1 w1)" using kept_create_task [OF laws(3) ct kept_refl] by simp
  then obtain tg1 where "group_at (count_bthreads 1 w1) g = Some tg1" using group_exists laws(4) assms(2) by blast
  then have "\<exists>w'. (if remote then ready_to_run_remote X g t ns (count_bthreads 1 w1) else ready_to_run X g t ns (count_bthreads 1 w1)) = Some w'" for t ns
    using ready_returns [OF assms(1)] by simp
  then show ?thesis using ct by (cases r) (auto simp: start_background_def Let_def bind_Some_conv)
qed

lemma start_foreground_returns:
  assumes "live_outside X" and "addresses_ok X w" and "running_ok X g tg cur m w" and "pool_fresh X w"
  shows "\<exists>r th j g' w'. start_foreground X g attr fn arg w = Some (r, th, j, g', w')"
proof -
  note laws = live_outside_laws [OF assms(1)] and run = assms(3) [unfolded running_ok_def]
  obtain r w1 where ct: "create_task X (using_attr X attr) fn arg w = Some (r, w1)" using create_task_returns [OF laws(3)] by blast
  let ?w2 = "count_bthreads 1 w1"
  have k: "kept X w ?w2" using kept_create_task [OF laws(3) ct kept_refl] by simp
  show ?thesis
  proof (cases r)
    case (Inl e)
    then show ?thesis using ct by (auto simp: start_foreground_def)
  next
    case (Inr t)
    note spec = create_task_spec [OF laws(3) assms(4) ct [unfolded Inr]]
    have own: "tls_task_group (cur_tls ?w2) = Some g" "group_at ?w2 g = Some tg" and cur: "tg_cur_meta tg = Some cur"
      using run spec(6,7) by simp_all
    obtain m2 where m2: "metas ?w2 cur = Some m2" using meta_exists [OF k laws(4), of cur m] run by blast
    have "meta_tid ?w2 (get_slot t) = Some t" using spec(2) meta_tid_cong [of ?w2 w1] by simp
    then have live: "live_task ?w2 t" by (simp add: live_task_def)
    show ?thesis
    proof (cases "is_current_pthread_task X tg (Some m2)")
      case True
      obtain w3 where "ready_to_run X g t (attr_nosignal (using_attr X attr)) ?w2 = Some w3"
        using ready_returns(1) [OF assms(1) own(2)] by blast
      then show ?thesis using ct Inr own(2) cur m2 True by (auto simp: start_foreground_def Let_def)
    next
      case False
      define cb where "cb = (if tm_about_to_quit m2 then ReadyToRunInWorkerIgnoresignal else ReadyToRunInWorker)
        (tm_tid m2) (attr_nosignal (using_attr X attr))"
      let ?tg = "tg\<lparr>tg_last_context_remained := Some cb\<rparr>"
      let ?w3 = "put_group g ?tg ?w2"
      have "kept X w ?w3" by (rule kept_group_same [OF k own(2)]) simp
      then have "addresses_ok X ?w3" using laws(4) assms(2) by (rule kept_ok)
      moreover have "tls_task_group (cur_tls ?w3) = Some g" "group_at ?w3 g = Some ?tg" "tg_cur_meta ?tg = Some cur" "live_task ?w3 t"
        using own cur live by (simp_all add: nth_opt_Some live_task_def)
      moreover have "callback_ok ?w3 (tg_last_context_remained ?tg)" by (simp add: callback_ok_def remained_ok_def cb_def)
      ultimately have "\<exists>j w'. sched_to X g t ?w3 = Some (j, g, w')" by (rule sched_to_returns [OF assms(1)])
      then show ?thesis using ct Inr own(2) cur m2 False
        by (auto simp: start_foreground_def set_remained_def cb_def Let_def)
    qed
  qed
qed

lemma task_finish_returns:
  assumes "live_outside X" and "addresses_ok X w" and "system_ok X w" and "runs_bthread_of g tg cur m w"
  shows "\<exists>j w'. task_finish X cur w = Some (j, g, w')"
proof -
  note laws = live_outside_laws [OF assms(1)]
  have run: "runs g tg cur m w" "tls_task_group (cur_tls w) = Some g" "group_at w g = Some tg" "tg_cur_meta tg = Some cur"
    "metas w cur = Some m" "tg_last_context_remained tg = None"
    using assms(4) by (simp_all add: runs_bthread_of_def runs_def)
  have okw: "butexes_ok w" "tasks_ok X w" using assms(3) by (simp_all add: system_ok_def)
  obtain w1 where w1: "clean_tls X cur w = Some w1" using run(5) by (simp add: clean_tls_def)
  note s1 = clean_tls_switches [OF w1] and k1 = kept_clean_tls [OF w1 kept_refl]
  have ok1: "addresses_ok X w1" by (rule kept_ok [OF k1 laws(4) assms(2)])
  obtain m1 where m1: "metas w1 cur = Some m1" using s1(6) [OF run(5)] by blast
  let ?b = "tm_version_butex m1"
  have "meta_ok w1 m1" using ok1 m1 by (simp add: addresses_ok_def)
  then obtain bx where bx: "butex_at w1 ?b = Some bx" by (auto simp: meta_ok_def nth_opt_Some)
  let ?bx = "bx\<lparr>bx_value := bump_version (bx_value bx)\<rparr>"
  define w2 where "w2 = put_butex ?b ?bx w1"
  have w2: "retire_version cur w1 = Some w2" using m1 bx by (simp add: retire_version_def w2_def)
  have mv2: "moves X {#} w1 w2" unfolding w2_def by (rule put_value_moves [OF bx])
  note k2 = kept_retire_version [OF w2 k1]
  have b2: "butex_at w2 ?b = Some ?bx" "metas w2 cur = Some m1" "group_at w2 g = Some tg"
    using bx m1 run(3) s1(2) by (simp_all add: w2_def nth_opt_Some)
  have own2: "tls_task_group (cur_tls w2) = Some g" using kept_tls [OF k2 laws(4)] run(2) by simp
  have bok2: "butexes_ok w2" using s1(1) mv2 okw(1) by (simp add: switches_def moves_def steady_def)
  have left: "length (left_waiters w2 0 (bx_waiters ?bx)) \<le> 1" by (simp add: left_waiters_def)
  obtain n w3 where w3: "butex_wake_except X ?b 0 w2 = Some (n, w3)"
    using wake_except_returns [OF assms(1) bok2 b2(1) left own2 b2(3)] by blast
  have mv3: "moves X {#} w2 w3" using butex_wake_except_moves [OF laws(1,2) bok2 b2(1) own2 left w3] by blast
  let ?w4 = "count_bthreads (-1) w3"
  have k4: "kept X w ?w4" using kept_wake_except [OF w3 k2] by simp
  have mv4: "moves X {#} w1 ?w4" by (rule moves_trans_0(1) [OF mv2 moves_trans_0(1) [OF mv3 count_bthreads_moves]])
  have "tls_task_group (cur_tls w1) = Some g" "group_at w1 g = Some tg" using s1(2,7) run(2,3) by simp_all
  then obtain tg4 where tg4: "group_at ?w4 g = Some tg4" "queue_part_only tg tg4" using moves_own [OF mv4] by blast
  note same = queue_part_only_same [OF tg4(2)]
  let ?tg = "tg4\<lparr>tg_last_context_remained := Some (ReleaseLastContext cur)\<rparr>"
  let ?w5 = "put_group g ?tg ?w4"
  have k5: "kept X w ?w5" by (rule kept_group_same [OF k4 tg4(1)]) simp
  have mt: "meta_tid ?w5 = meta_tid w" and tk: "tasks X ?w4 = tasks X w"
    using s1(1) mv4 by (simp_all add: switches_def moves_def steady_def)
  have "queued X ?w5 = queued X ?w4" using queued_put_group_add [OF tg4(1), of X ?tg "{#}"] by (simp add: queue_of_def)
  then have "\<forall>t. t \<in># queued X ?w5 \<longrightarrow> live_task ?w5 t"
    using okw(2) queued_tasks [of _ X ?w4] tk mt by (auto simp: tasks_ok_def live_task_def)
  moreover have "live_task ?w5 (tg_main_tid ?tg)" using runs_main(1) [OF assms(3) run(1)] same mt by (simp add: live_task_def)
  moreover have "tls_task_group (cur_tls ?w5) = Some g" using kept_tls [OF k5 laws(4)] run(2) by simp
  moreover have "group_at ?w5 g = Some ?tg" "tg_cur_meta ?tg = Some cur" using tg4(1) same run(4) by (simp_all add: nth_opt_Some)
  moreover have "callback_ok ?w5 (tg_last_context_remained ?tg)"
    using meta_exists [OF k5 laws(4) run(5)] by (simp add: callback_ok_def remained_ok_def)
  ultimately have "\<exists>j w'. ending_sched X g ?w5 = Some (j, g, w')"
    using ending_sched_returns [OF assms(1) kept_ok [OF k5 laws(4) assms(2)]] by blast
  then show ?thesis using run(2) w1 w2 b2(2) w3 tg4(1) by (simp add: task_finish_def set_remained_def)
qed

section \<open>Properties\<close>

lemma runtime_step_addresses:
  assumes "live_outside X" and "runtime_step I X w e w'" and "addresses_ok X w"
  shows "addresses_ok X w'"
proof -
  note laws = live_outside_laws [OF assms(1)]
  have by_kept: "addresses_ok X w'" if "kept X w w'" using that laws(4) assms(3) by (rule kept_ok)
  note r = kept_refl [of X w]
  from assms(2) show ?thesis
  proof cases
    case operates
    then show ?thesis using system_step_addresses [of X w e w'] assms(1,3) by (simp add: live_outside_def)
  next
    case (sleeps g tg cur m us eo jumped g')
    show ?thesis by (rule by_kept [OF kept_usleep [OF laws(1) sleeps(3) r]])
  next
    case (wakes_up eo rc)
    show ?thesis by (rule by_kept [OF kept_usleep_end [OF wakes_up(2) r]])
  next
    case (timer_fires i e x)
    show ?thesis by (rule by_kept [OF kept_timer_thread [OF timer_fires(5)]]) simp
  next
    case (interrupts_sleeper tid m has_c rc)
    have "tm_current_waiter m' = None" if "address_meta w tid = Some m'" for m' using that interrupts_sleeper(2,4) by simp
    then show ?thesis by (rule by_kept [OF kept_interrupt_sleeper [OF interrupts_sleeper(6) _ r]])
  qed
qed

lemma runtime_run_addresses:
  assumes "live_outside X" and "runtime_run I X w es w'" and "addresses_ok X w"
  shows "addresses_ok X w'"
  using assms(2,1,3)
proof (induction rule: runtime_run.induct)
  case (goes w e v es w')
  then show ?case using runtime_step_addresses by blast
qed simp

lemma runtime_run_typed:
  assumes "live_outside X" and "sleep_laws I X" and "runtime_ok I X w" and "addresses_ok X w" and "runtime_run I X w es w'"
  shows "system_ok X w'" and "addresses_ok X w'"
  using runtime_run_refines [OF assms(5) _ assms(2,3)] runtime_run_addresses [OF assms(1,5,4)] assms(1)
  by (auto simp: live_outside_def intro: runtime_system)



lemma timer_thread_returns:
  assumes "live_outside X" and "addresses_ok X w" and "tc_ngroup (control w) \<noteq> 0"
  shows "\<exists>w'. ready_to_run_from_timer_thread X e w = Some w'"
proof -
  note laws = live_outside_laws [OF assms(1)]
  define w0 where "w0 = (if tls_task_group (cur_tls w) = None then w else log_fatal CheckTimerHasGroup w)"
  have "kept X w w0" unfolding w0_def by (simp add: kept_same)
  then have "addresses_ok X w0" using laws(4) assms(2) by (rule kept_ok)
  moreover have "tc_ngroup (control w0) \<noteq> 0" using assms(3) by (simp add: w0_def)
  ultimately obtain g w1 tg where cg: "choose_one_group X w0 = Some (Some g, w1)" and g: "group_at w1 g = Some tg"
    using choose_returns [OF laws(6)] by blast
  obtain w' where "ready_to_run_remote X g (sa_tid e) False w1 = Some w'" using ready_returns(2) [OF assms(1) g] by blast
  then have "ready_to_run_from_timer_thread X e w = Some w'"
    using cg by (simp add: ready_to_run_from_timer_thread_def Let_def w0_def)
  then show ?thesis by blast
qed

lemma sleep_tids_entry: "t \<in># sleep_tids items \<longleftrightarrow> (\<exists>i e. (i, ReadyToRunFromTimerThread e) \<in> set items \<and> sa_tid e = t)"
proof (induction items)
  case (Cons c items)
  then show ?case by (cases c; cases "snd c") (auto simp: sleep_tids_def)
qed (simp add: sleep_tids_def)


section \<open>Witnesses\<close>

text \<open>An outside whose queues are never full.\<close>

definition roomy_ext :: "(bthread_t list, bthread_t list, sim) ext" where
  "roomy_ext = demo_ext\<lparr>wsq_push := \<lambda>q t. (q @ [t], True), rrq_push := \<lambda>q t. (q @ [t], True)\<rparr>"

lemma roomy_same:
  "tasks roomy_ext = tasks demo_ext" "queued roomy_ext = queued demo_ext" "moves roomy_ext = moves demo_ext" "nap roomy_ext = nap demo_ext"
proof -
  have qo: "queue_of roomy_ext = queue_of demo_ext" by (simp add: queue_of_def roomy_ext_def fun_eq_iff)
  show q: "queued roomy_ext = queued demo_ext" by (rule ext) (simp add: queued_def qo)
  then show t: "tasks roomy_ext = tasks demo_ext" by (simp add: tasks_def fun_eq_iff)
  then show "moves roomy_ext = moves demo_ext" by (simp add: moves_def fun_eq_iff)
  show "nap roomy_ext = nap demo_ext" by (simp add: roomy_ext_def)
qed

lemma roomy_outside_ok: "outside_ok roomy_ext"
proof -
  have items: "wsq_items demo_ext = (\<lambda>q. q)" "rrq_items demo_ext = (\<lambda>q. q)" by (simp_all add: demo_ext_def)
  have room: "queue_laws (\<lambda>q. q) (\<lambda>q t. (q @ [t], True)) pop" if "queue_laws (\<lambda>q. q) push pop" for push pop
    using that by (auto simp: queue_laws_def)
  have "queue_laws (\<lambda>q. q) (wsq_push demo_ext) (wsq_pop demo_ext)" "queue_laws (\<lambda>q. q) (wsq_push demo_ext) (wsq_steal demo_ext)"
    "queue_laws (\<lambda>q. q) (rrq_push demo_ext) (rrq_pop demo_ext)"
    using demo_queues_ok unfolding ext_queues_ok_def items by blast+
  note this [THEN room]
  then have "ext_queues_ok roomy_ext" by (simp add: ext_queues_ok_def roomy_ext_def items)
  moreover have "naps_ok roomy_ext" using demo_naps_ok unfolding naps_ok_def roomy_same .
  moreover have "group_memory_ok roomy_ext" using demo_group_memory_ok by (simp add: group_memory_ok_def queue_of_def roomy_ext_def)
  moreover have "pool_ok roomy_ext" using demo_pool_ok by (simp add: pool_ok_def roomy_ext_def)
  ultimately show ?thesis using demo_outside_ok
    by (simp add: outside_ok_def grabs_ok_def pl_waits_ok_def roomy_same) (simp add: roomy_ext_def)
qed

lemma demo_nap_groups_keep:
  "length (demo_nap_groups tgs) = length tgs"
  "tg \<in> set (demo_nap_groups tgs) \<Longrightarrow> \<exists>tg' \<in> set tgs. tg_cur_meta tg = tg_cur_meta tg'"
  by (cases tgs rule: demo_nap_groups.cases; fastforce split: list.splits if_splits)+

lemma roomy_live: "live_outside roomy_ext"
proof -
  have "outlives roomy_ext w (nap roomy_ext w)" for w
  proof -
    have "\<forall>tg \<in> set (groups w). cur_ok w tg \<Longrightarrow> \<forall>tg \<in> set (demo_nap_groups (groups w)). cur_ok w tg"
      using demo_nap_groups_keep(2) [of _ "groups w"] unfolding cur_ok_def by metis
    then show ?thesis using demo_nap_groups_keep(1) [of "groups w"]
      by (auto simp: outlives_def addresses_ok_def meta_ok_def waiter_ok_def cur_ok_def groups_ok_def listed_def roomy_ext_def demo_ext_def)
  qed
  moreover have "outlives roomy_ext w w" for w by (simp add: outlives_def)
  ultimately have "others_ok roomy_ext" by (simp add: others_ok_def) (simp add: roomy_ext_def demo_ext_def)
  moreover have "room_comes roomy_ext" unfolding room_comes_def
    by (intro allI impI conjI exI [of _ 0]) (auto simp: try_push_def try_push_locked_def roomy_ext_def nth_opt_def)
  moreover have "rand_ok roomy_ext" by (simp add: rand_ok_def roomy_ext_def demo_ext_def)
  ultimately show ?thesis using roomy_outside_ok by (simp add: live_outside_def)
qed

lemma roomy_sleep_laws: "sleep_laws demo_ids roomy_ext"
proof -
  have timer: "timer_items roomy_ext = timer_items demo_ext" "timer_schedule roomy_ext = timer_schedule demo_ext"
    "timer_unschedule roomy_ext = timer_unschedule demo_ext" "get_meta roomy_ext = get_meta demo_ext"
    "nap roomy_ext = nap demo_ext" by (simp_all add: roomy_ext_def)
  have quiet: "quiet_call demo_ext x x'" if "quiet_call roomy_ext x x'" for x x'
    using that by (cases rule: quiet_call.cases) (auto simp: roomy_ext_def intro: quiet_call.intros)
  have "sleepers_ok demo_ids roomy_ext w = sleepers_ok demo_ids demo_ext w" for w
    by (simp add: sleepers_ok_def timers_ok_def waiter_timer_ok_def meta_timer_ok_def timer)
  then have same: "sleepers_same demo_ids roomy_ext = sleepers_same demo_ids demo_ext"
    by (intro ext) (simp add: sleepers_same_def sleeping_def timer)
  have "timer_ok roomy_ext" "timer_ids_ok demo_ids roomy_ext"
    using demo_sleep_laws quiet by (simp_all add: sleep_laws_def timer_ok_def timer_ids_ok_def timer)
  moreover have "sleepers_same demo_ids demo_ext w (nap demo_ext w)" for w using demo_sleep_laws by (simp add: sleep_laws_def)
  ultimately show ?thesis
    unfolding sleep_laws_def same timer by (simp add: sleepers_same_refl roomy_ext_def demo_ext_def)
qed

lemma run_world_addresses: "addresses_ok roomy_ext (run_world q)"
  by (auto simp: addresses_ok_def meta_ok_def waiter_ok_def cur_ok_def groups_ok_def listed_def roomy_ext_def run_world_def
      demo_defs split: if_splits)

lemma roomy_runtime_ok: "runtime_ok demo_ids roomy_ext (run_world [make_tid 1 5])"
proof -
  have timer: "timer_items roomy_ext = timer_items demo_ext" by (simp add: roomy_ext_def)
  then have "sleeping roomy_ext w = sleeping demo_ext w" for w by (simp add: sleeping_def)
  then show ?thesis using run_world_runtime_ok
    by (simp add: runtime_ok_def places_ok_def living_def places_def roomy_same sleepers_ok_def timers_ok_def
        waiter_timer_ok_def meta_timer_ok_def timer)
qed




end
