(* ===== verification/Wakeups.thy ===== *)
theory Wakeups
  imports Workers
begin

text \<open>
  Making a task ready and looking for one, together.  A worker that finds nothing goes to sleep on the state of its lot
  that it read before it looked; a thread that makes a task ready signals after the task is in the queue.  So either the
  worker finds the task, or it does not fall asleep, or another worker has been woken for it.
\<close>

section \<open>The lots after a signal\<close>

text \<open>Creating workers does not touch the lots.\<close>

lemma add_workers_lots: "tc_pl (control (snd (add_workers X n w))) = tc_pl (control w)"
proof -
  have "tc_pl (control (add_workers_loop X old m i v)) = tc_pl (control v)" for old m i v
    by (rule add_workers_loop_rule [where P = "\<lambda>i v v'. tc_pl (control v') = tc_pl (control v)"]) simp_all
  then show ?thesis by (simp add: add_workers_def Let_def)
qed

lemma signal_task_lots:
  assumes "0 < k"
  shows "pl_value (signal_task X k w) i = pl_value (snd (signal_lots X k w)) i"
  using assms by (simp add: signal_task_def pl_value_def case_prod_beta add_workers_lots)

text \<open>The control has its four lots, also after a signal; the other threads do not change that.\<close>

definition lots_ok :: "('q, 'r, 'x) world \<Rightarrow> bool" where
  "lots_ok w \<longleftrightarrow> length (tc_pl (control w)) = PARKING_LOT_NUM"

definition lots_stay :: "('q, 'r, 'x) ext \<Rightarrow> bool" where
  "lots_stay X \<longleftrightarrow> (\<forall>w. lots_ok w \<longrightarrow> lots_ok (nap X w))"

lemma lots_ok_put_group [simp]: "lots_ok (put_group g tg w) = lots_ok w"
  by (simp add: lots_ok_def)

lemma length_pl_signal: "length (tc_pl (control (snd (pl_signal X i n w)))) = length (tc_pl (control w))"
  by (simp add: pl_signal_def Let_def case_prod_beta)

lemma length_signal_loop: "length (tc_pl (control (snd (signal_loop X i s n w)))) = length (tc_pl (control w))"
proof (induction X i s n w rule: signal_loop.induct)
  case (1 X i s n w)
  show ?case
    by (subst signal_loop.simps) (use 1 length_pl_signal in \<open>auto simp: Let_def case_prod_beta\<close>)
qed

lemma lots_ok_signal_task: "lots_ok (signal_task X n w) = lots_ok w"
  by (simp add: lots_ok_def signal_task_def signal_lots_def Let_def case_prod_beta add_workers_lots length_signal_loop
      length_pl_signal)

text \<open>The number of workers that a call of \<open>signal_task\<close> wakes; it asks for two at most.\<close>

definition woken_workers :: "('q, 'r, 'x) ext \<Rightarrow> int \<Rightarrow> ('q, 'r, 'x) world \<Rightarrow> int" where
  "woken_workers X k w = (if k > 2 then 2 else k) - fst (signal_lots X k w)"

text \<open>
  \<open>read_before v i w\<close>: somebody read the state \<open>v\<close> of lot \<open>i\<close> some time before \<open>w\<close>.  The events since then are signals and
  stops, fewer than it takes to wrap around.
\<close>

definition read_before :: "32 word \<Rightarrow> nat \<Rightarrow> ('q, 'r, 'x) world \<Rightarrow> bool" where
  "read_before v i w \<longleftrightarrow> (\<exists>es. pl_value w i = pl_events es v \<and> length es + 1 < 2 ^ 31)"

lemma pl_events_append: "pl_events (es @ fs) v = pl_events fs (pl_events es v)"
  by (induction es arbitrary: v) simp_all

text \<open>A lot that is signalled once more, after any events, is not one to sleep on.\<close>

lemma signalled_once_more:
  assumes "\<not> pl_stopped v" and "read_before v i w" and "pl_value w' i = pl_value w i + 2"
  shows "\<not> pl_would_sleep v (pl_value w' i)"
proof -
  obtain es where es: "pl_value w i = pl_events es v" "length es + 1 < 2 ^ 31" using assms(2) by (auto simp: read_before_def)
  have "pl_value w' i = pl_events (es @ [PlSignal]) v" by (simp add: pl_events_append assms(3) es(1) pl_add_def)
  then show ?thesis using parking_no_lost [OF assms(1), of "es @ [PlSignal]"] es(2) by simp
qed

text \<open>A signal for at least one task wakes a worker, or changes the state of every lot.\<close>

lemma signal_task_wakes:
  assumes "lots_ok w" and "k > 0" and "i < PARKING_LOT_NUM" and "\<not> pl_stopped v" and "read_before v i w"
  shows "woken_workers X k w \<ge> 1 \<or> \<not> pl_would_sleep v (pl_value (signal_task X k w) i)"
proof -
  obtain left w1 where sig: "signal_lots X k w = (left, w1)" by fastforce
  show ?thesis
  proof (cases "left > 0")
    case False
    then show ?thesis using assms(2) sig by (auto simp: woken_workers_def)
  next
    case True
    then have "pl_value w1 i = pl_value w i + 2"
      using signal_lots_spec [OF assms(1) [unfolded lots_ok_def] assms(2) sig] assms(3) by blast
    then have "pl_value (signal_task X k w) i = pl_value w i + 2" by (simp add: signal_task_lots [OF assms(2)] sig)
    then show ?thesis using signalled_once_more [OF assms(4,5)] by blast
  qed
qed

section \<open>The push before the signal\<close>

text \<open>\<open>announces g w\<close>: this thread runs group \<open>g\<close>, whose counter of tasks not yet signalled is not negative.\<close>

definition announces :: "gid \<Rightarrow> ('q, 'r, 'x) world \<Rightarrow> bool" where
  "announces g w \<longleftrightarrow> tls_task_group (cur_tls w) = Some g \<and> lots_ok w
     \<and> (\<exists>tg. group_at w g = Some tg \<and> 0 \<le> tg_num_nosignal tg)"

lemma announces_nap: "naps_ok X \<Longrightarrow> lots_stay X \<Longrightarrow> announces g w \<Longrightarrow> announces g (nap X w)"
  using moves_own [OF naps_ok_moves, of X w g]
  unfolding announces_def naps_ok_def moves_def steady_def lots_stay_def by metis

lemma announces_put_group:
  "announces g w \<Longrightarrow> group_at w g = Some tg \<Longrightarrow> tg_num_nosignal tg' = tg_num_nosignal tg \<Longrightarrow>
   announces g (put_group g tg' w)"
  by (auto simp: announces_def nth_opt_Some lots_ok_def)

lemma announces_flush: "announces g w \<Longrightarrow> flush_nosignal_tasks X g w = Some w' \<Longrightarrow> announces g w'"
  by (auto simp: announces_def flush_nosignal_tasks_def bind_Some_conv nth_opt_Some Let_def lots_ok_signal_task
      split: if_splits)

lemma push_rq_announces:
  assumes "ext_queues_ok X" and "naps_ok X" and "lots_stay X" and "push_rq X g t w = Some w'"
  shows "announces g w \<longrightarrow> announces g w' \<and> (\<exists>tg. group_at w' g = Some tg \<and> t \<in># queue_of X tg)"
  using assms(4)
proof (rule push_rq_rule)
  fix w tg tg' assume tg: "group_at w g = Some tg" and at: "try_push X tg t = (tg', True)"
  show "announces g w \<longrightarrow> announces g (put_group g tg' w)
      \<and> (\<exists>u. group_at (put_group g tg' w) g = Some u \<and> t \<in># queue_of X u)"
    using tg try_push_laws(1) [OF at assms(1)] at
    by (auto intro!: announces_put_group simp: try_push_def nth_opt_Some split: prod.splits)
next
  fix w tg tg' w2 w'
  assume tg: "group_at w g = Some tg" and at: "try_push X tg t = (tg', False)"
    and fl: "flush_nosignal_tasks X g (put_group g tg' w) = Some w2"
    and IH: "announces g (nap X w2) \<longrightarrow> announces g w' \<and> (\<exists>u. group_at w' g = Some u \<and> t \<in># queue_of X u)"
  show "announces g w \<longrightarrow> announces g w' \<and> (\<exists>u. group_at w' g = Some u \<and> t \<in># queue_of X u)"
  proof
    assume "announces g w"
    then have "announces g (put_group g tg' w)"
      using tg by (rule announces_put_group) (use at in \<open>auto simp: try_push_def split: prod.splits\<close>)
    then show "announces g w' \<and> (\<exists>u. group_at w' g = Some u \<and> t \<in># queue_of X u)"
      using announces_nap [OF assms(2,3)] announces_flush [OF _ fl] IH by blast
  qed
qed

text \<open>Signalling does not look at the groups.\<close>

lemma pl_signal_groups: "pl_signal X i n (w\<lparr>groups := gs\<rparr>) = map_prod id (\<lambda>v. v\<lparr>groups := gs\<rparr>) (pl_signal X i n w)"
  by (simp add: pl_signal_def set_pl_def pl_value_def Let_def case_prod_beta)

lemma signal_loop_groups:
  "signal_loop X i s n (w\<lparr>groups := gs\<rparr>) = map_prod id (\<lambda>v. v\<lparr>groups := gs\<rparr>) (signal_loop X i s n w)"
proof (induction X i s n w rule: signal_loop.induct)
  case (1 X i s n w)
  show ?case
    by (subst (1 2) signal_loop.simps) (use 1 in \<open>auto simp: Let_def case_prod_beta pl_signal_groups id_def\<close>)
qed

lemma woken_workers_groups: "woken_workers X k (put_group g tg w) = woken_workers X k w"
  by (simp add: woken_workers_def signal_lots_def own_lot_def put_group_def pl_signal_groups signal_loop_groups
      Let_def case_prod_beta)

section \<open>The look before the sleep\<close>

lemma control_steal_task_frame:
  assumes "ext_queues_ok X" and "control_steal_task X seed off w = Some (t, s', w')"
  shows "queues_frame w w'"
proof (cases "tc_ngroup (control w) = 0")
  case True
  then show ?thesis using assms(2) by (simp add: control_steal_task_def)
next
  case False
  then have "steal_loop X (tc_ngroup (control w)) (tc_ngroup (control w)) off seed w = Some (t, s', w')"
    using assms(2) by (simp add: control_steal_task_def Let_def)
  from steal_loop_spec [OF assms(1) this] show ?thesis by blast
qed

lemma queues_frame_lot:
  assumes "queues_frame w w'" and "group_at w g = Some tg" and "group_at w' g = Some tg'"
  shows "tg_pl tg' = tg_pl tg \<and> tg_last_pl_state tg' = tg_last_pl_state tg"
proof -
  have "map (\<lambda>tg. tg\<lparr>tg_rq := q, tg_remote_rq := r\<rparr>) (groups w') =
      map (\<lambda>tg. tg\<lparr>tg_rq := q, tg_remote_rq := r\<rparr>) (groups w)" for q r
    using assms(1) by (simp add: queues_frame_def)
  from arg_cong [OF this, of "\<lambda>l. nth_opt l g"]
  have "tg'\<lparr>tg_rq := q, tg_remote_rq := r\<rparr> = tg\<lparr>tg_rq := q, tg_remote_rq := r\<rparr>" for q r
    using assms(2,3) by (simp add: nth_opt_def split: if_splits)
  from arg_cong [OF this, of tg_pl] arg_cong [OF this, of tg_last_pl_state] show ?thesis by simp
qed

text \<open>A worker that found nothing has kept the state that its lot had before it looked.\<close>

lemma failed_look_keeps_state:
  assumes "ext_queues_ok X" and "group_steal_task X a v = Some (None, v')"
  shows "\<exists>tg. group_at v' a = Some tg \<and> tg_last_pl_state tg = pl_value v (tg_pl tg)"
proof -
  obtain tg where tg: "group_at v a = Some tg" using assms(2) by (auto simp: group_steal_task_def bind_Some_conv)
  obtain r where pop: "rrq_pop X (tg_remote_rq tg) = (r, None)"
    using assms(2) tg by (auto simp: group_steal_task_def split: prod.splits option.splits)
  let ?tg = "tg\<lparr>tg_remote_rq := r, tg_last_pl_state := pl_value v (tg_pl tg)\<rparr>"
  obtain s v2 tg2 where st: "control_steal_task X (tg_steal_seed tg) (tg_steal_offset tg) (put_group a ?tg v) = Some (None, s, v2)"
    and tg2: "group_at v2 a = Some tg2" "v' = put_group a (tg2\<lparr>tg_steal_seed := s\<rparr>) v2"
    using assms(2) tg pop by (auto simp: group_steal_task_def bind_Some_conv Let_def)
  have "tg_pl tg2 = tg_pl tg \<and> tg_last_pl_state tg2 = tg_last_pl_state ?tg"
    using queues_frame_lot [OF control_steal_task_frame [OF assms(1) st] _ tg2(1), of ?tg] tg by (simp add: nth_opt_Some)
  then have "tg_last_pl_state tg2 = pl_value v (tg_pl tg2)" by simp
  then show ?thesis using tg2 by (auto simp: nth_opt_Some)
qed

section \<open>Together\<close>

text \<open>
  C19.  A worker that found no task goes to sleep on the state that its lot had before it looked; a thread that makes a
  task ready signals when the task is in the queue already.  So whenever the look came before the signal, either
  another worker is woken up for the task or the idle worker does not fall asleep and looks again.
\<close>

theorem idle_worker_finds_task:
  assumes "ext_queues_ok X" and "naps_ok X" and "lots_stay X" and "announces g w"
    and "group_steal_task X a v = Some (None, v')" and "group_at v' a = Some idle"
    and "tg_pl idle < PARKING_LOT_NUM" and "\<not> pl_stopped (tg_last_pl_state idle)"
    and "push_rq X g t w = Some w1" and "group_at w1 g = Some tg" and "ready_to_run X g t False w = Some w'"
    and "read_before (pl_value v (tg_pl idle)) (tg_pl idle) w1"
  shows "t \<in># queue_of X tg
    \<and> (woken_workers X (1 + tg_num_nosignal tg) w1 \<ge> 1
       \<or> \<not> pl_would_sleep (tg_last_pl_state idle) (pl_value w' (tg_pl idle)))"
proof -
  let ?k = "1 + tg_num_nosignal tg"
  let ?tg = "tg\<lparr>tg_num_nosignal := 0, tg_nsignaled := tg_nsignaled tg + ?k\<rparr>"
  have state: "tg_last_pl_state idle = pl_value v (tg_pl idle)"
    using failed_look_keeps_state [OF assms(1,5)] assms(6) by simp
  have queued: "announces g w1" "t \<in># queue_of X tg"
    using push_rq_announces [OF assms(1-3,9)] assms(4,10) by auto
  then have k: "0 < ?k" "lots_ok (put_group g ?tg w1)" using assms(10) by (auto simp: announces_def)
  have w': "w' = signal_task X ?k (put_group g ?tg w1)" using assms(9-11) by (simp add: ready_to_run_def Let_def)
  have "read_before (tg_last_pl_state idle) (tg_pl idle) (put_group g ?tg w1)"
    using assms(12) by (simp add: state read_before_def pl_value_def)
  from signal_task_wakes [OF k(2,1) assms(7,8) this, of X] show ?thesis
    using queued(2) by (simp add: w' woken_workers_groups)
qed

lemma demo_lots_stay: "lots_stay demo_ext"
  by (simp add: lots_stay_def lots_ok_def demo_defs)

text \<open>The second worker finds nothing; then the first one starts a bthread with identifier 15.\<close>

definition pushing_world :: demo_world where
  "pushing_world = idle_world\<lparr>cur_tls := demo_tls (Some 0)\<rparr>"

lemma idle_worker_finds_task_witness:
  "\<exists>v' idle w1 tg w'. group_steal_task demo_ext 1 idle_world = Some (None, v') \<and> group_at v' 1 = Some idle
    \<and> push_rq demo_ext 0 15 pushing_world = Some w1 \<and> group_at w1 0 = Some tg \<and> 15 \<in># queue_of demo_ext tg
    \<and> ready_to_run demo_ext 0 15 False pushing_world = Some w'
    \<and> (woken_workers demo_ext (1 + tg_num_nosignal tg) w1 \<ge> 1
       \<or> \<not> pl_would_sleep (tg_last_pl_state idle) (pl_value w' (tg_pl idle)))"
proof -
  have "announces 0 pushing_world"
    by (simp add: announces_def pushing_world_def idle_world_def lots_ok_def PARKING_LOT_NUM_def demo_defs)
  moreover obtain v' idle where look: "group_steal_task demo_ext 1 idle_world = Some (None, v')" "group_at v' 1 = Some idle"
    and idle: "tg_pl idle = 0" "tg_last_pl_state idle = 0"
    by (simp add: group_steal_task_def control_steal_task_def steal_loop_2 steal_from_def idle_world_def demo_defs
        Let_def put_group_def pl_value_def)
  moreover obtain w1 tg where push: "push_rq demo_ext 0 15 pushing_world = Some w1" "group_at w1 0 = Some tg"
    and w1: "pl_value w1 0 = 0"
    by (simp add: push_rq.simps try_push_def pushing_world_def idle_world_def put_group_def demo_defs Let_def pl_value_def)
  moreover obtain w' where ready: "ready_to_run demo_ext 0 15 False pushing_world = Some w'"
    using push by (simp add: ready_to_run_def Let_def)
  moreover have "read_before (pl_value idle_world 0) 0 w1"
    unfolding read_before_def w1 by (intro exI [of _ "[]"]) (simp add: idle_world_def demo_defs pl_value_def)
  ultimately have "15 \<in># queue_of demo_ext tg
    \<and> (woken_workers demo_ext (1 + tg_num_nosignal tg) w1 \<ge> 1
       \<or> \<not> pl_would_sleep (tg_last_pl_state idle) (pl_value w' (tg_pl idle)))"
    by (intro idle_worker_finds_task [OF demo_queues_ok demo_naps_ok demo_lots_stay])
      (simp_all add: PARKING_LOT_NUM_def pl_stopped_def)
  then show ?thesis using look push ready by blast
qed

end
