(* ===== verification/Victims.thy ===== *)
theory Victims
  imports GroupArray
begin

text \<open>
  Whom an idle worker steals from: the loop of \<open>TaskControl::steal_task\<close> against a reference that only says which
  iteration finds the first group with a task, in the order in which the seed walks over the array.
\<close>

section \<open>The reference\<close>

text \<open>The index that iteration \<open>k\<close> looks at, and the first iteration that finds a task.\<close>

definition probe :: "64 word \<Rightarrow> 64 word \<Rightarrow> nat \<Rightarrow> nat \<Rightarrow> nat" where
  "probe seed offset n k = unat (seed + of_nat k * offset) mod n"

definition first_victim ::
  "('q, 'r, 'x) ext \<Rightarrow> 64 word \<Rightarrow> 64 word \<Rightarrow> nat \<Rightarrow> nat \<Rightarrow> ('q, 'r, 'x) world \<Rightarrow> nat option" where
  "first_victim X seed offset n k w = find (\<lambda>j. \<not> entry_empty X w (probe seed offset n j)) [0..<k]"

definition queues :: "('q, 'r, 'x) ext \<Rightarrow> ('q, 'r, 'x) world \<Rightarrow> bthread_t multiset list" where
  "queues X w = map (queue_of X) (groups w)"

text \<open>Where a victim is robbed: in its run queue, and only if that is empty in its remote queue.\<close>

definition robbed :: "('q, 'r, 'x) ext \<Rightarrow> ('q, 'r) task_group \<Rightarrow> bthread_t list" where
  "robbed X tg = (if wsq_items X (tg_rq tg) \<noteq> [] then wsq_items X (tg_rq tg) else rrq_items X (tg_remote_rq tg))"

lemma find_map: "find P (map f xs) = map_option f (find (\<lambda>x. P (f x)) xs)"
  by (induction xs) simp_all

lemma find_cong_pred: "(\<And>x. P x = Q x) \<Longrightarrow> find P xs = find Q xs"
  by (induction xs) simp_all

lemma first_victim_Suc:
  "first_victim X s d n (Suc k) w =
    (if \<not> entry_empty X w (unat s mod n) then Some 0 else map_option Suc (first_victim X (s + d) d n k w))"
proof -
  have "probe s d n (Suc j) = probe (s + d) d n j" for j by (simp add: probe_def algebra_simps)
  then show ?thesis
    by (simp add: first_victim_def upt_conv_Cons map_Suc_upt [symmetric] find_map probe_def [of s d n 0] del: upt_Suc)
qed

lemma first_victim_cong:
  assumes "\<And>i. entry_empty X w' i = entry_empty X w i"
  shows "first_victim X s d n k w' = first_victim X s d n k w"
  by (simp add: first_victim_def assms)

section \<open>The loop follows it\<close>

lemma queues_put_group:
  assumes "group_at w g = Some tg"
  shows "queues X (put_group g tg' w) = (queues X w)[g := queue_of X tg']"
  by (simp add: queues_def map_update)

lemma steal_from_robs:
  assumes "ext_queues_ok X" and "steal_from X tg = (Some t, tg')"
  shows "t \<in> set (robbed X tg)" and "queue_of X tg' = queue_of X tg - {#t#}" and "queue_of X tg \<noteq> {#}"
proof -
  have q: "queue_of X tg = queue_of X tg' + {#t#}" using steal_from_spec(1) [OF assms] by simp
  then show "queue_of X tg' = queue_of X tg - {#t#}" "queue_of X tg \<noteq> {#}" by simp_all
  obtain q a where s: "wsq_steal X (tg_rq tg) = (q, a)" by fastforce
  obtain p b where p: "rrq_pop X (tg_remote_rq tg) = (p, b)" by fastforce
  show "t \<in> set (robbed X tg)"
  proof (cases a)
    case None
    then have "wsq_items X (tg_rq tg) = []" "b = Some t"
      using assms s p ext_queues_fail(2) [OF assms(1)] by (simp_all add: steal_from_def)
    then show ?thesis using ext_queues_take(3) [OF assms(1) p] by (simp add: robbed_def flip: set_mset_mset)
  next
    case (Some u)
    then have "t \<in># mset (wsq_items X (tg_rq tg))"
      using assms(2) s ext_queues_take(2) [OF assms(1) s] by (simp add: steal_from_def)
    then show ?thesis by (auto simp: robbed_def)
  qed
qed

lemma steal_loop_victim:
  assumes "ext_queues_ok X"
  shows "steal_loop X k n d s w = Some (r, s', w') \<Longrightarrow>
    (case first_victim X s d n k w of
       None \<Rightarrow> r = None \<and> s' = s + of_nat k * d \<and> queues X w' = queues X w
     | Some j \<Rightarrow> \<exists>g tg t. tc_groups (control w) ! probe s d n j = Some g \<and> group_at w g = Some tg \<and> r = Some t
         \<and> s' = s + of_nat j * d \<and> t \<in> set (robbed X tg)
         \<and> queues X w' = (queues X w)[g := queue_of X tg - {#t#}])"
proof (induction k arbitrary: s w)
  case 0
  then show ?case by (simp add: first_victim_def)
next
  case (Suc k)
  obtain e where e: "nth_opt (tc_groups (control w)) (unat s mod n) = Some e"
    using Suc.prems by (auto simp: bind_Some_conv)
  have step: "probe (s + d) d n j = probe s d n (Suc j)" for j by (simp add: probe_def algebra_simps)
  have adv: "s + d + of_nat j * d = s + of_nat (Suc j) * d" for j by (simp add: algebra_simps)
  show ?case
  proof (cases e)
    case None
    then have "steal_loop X k n d (s + d) w = Some (r, s', w')" using Suc.prems e by simp
    moreover have "entry_empty X w (unat s mod n)" using e None by (simp add: entry_empty_def nth_opt_Some)
    ultimately show ?thesis using Suc.IH [of "s + d" w]
      by (auto simp: first_victim_Suc step adv simp del: of_nat_Suc split: option.splits)
  next
    case (Some g)
    then obtain tg where tg: "group_at w g = Some tg" using Suc.prems e by (auto simp: bind_Some_conv)
    have here: "tc_groups (control w) ! (unat s mod n) = Some g" using e Some by (simp add: nth_opt_Some)
    obtain a tg' where one: "steal_from X tg = (a, tg')" by fastforce
    show ?thesis
    proof (cases a)
      case None
      let ?w1 = "put_group g tg' w"
      have loop: "steal_loop X k n d (s + d) ?w1 = Some (r, s', w')" using Suc.prems e Some tg one None by simp
      have same: "queue_of X tg' = queue_of X tg" and emp: "queue_of X tg = {#}"
        using steal_from_spec(1,2) [OF assms one] None by simp_all
      have "entry_empty X w (unat s mod n)" using here tg emp by (auto simp: entry_empty_def)
      moreover have "first_victim X (s + d) d n k ?w1 = first_victim X (s + d) d n k w"
        by (rule first_victim_cong) (rule entry_empty_put_group [OF tg same])
      moreover have "queues X ?w1 = queues X w"
        using tg same by (simp add: queues_def map_update nth_opt_Some list_update_same_conv)
      moreover have "\<exists>th. group_at w h = Some th \<and> robbed X th = robbed X th1 \<and> queue_of X th = queue_of X th1"
        if "group_at ?w1 h = Some th1" "t \<in> set (robbed X th1)" for h th1 t
        using that tg same emp by (auto simp: nth_opt_Some queue_of_def robbed_def split: if_splits)
      ultimately show ?thesis using Suc.IH [OF loop]
        by (fastforce simp: first_victim_Suc step adv simp del: of_nat_Suc split: option.splits)
    next
      case (Some t)
      note rob = steal_from_robs [OF assms one [unfolded Some]]
      have "r = Some t" "w' = put_group g tg' w" "s' = s"
        using Suc.prems e \<open>e = Some g\<close> tg one Some by simp_all
      moreover have "\<not> entry_empty X w (unat s mod n)" using here tg rob(3) by (auto simp: entry_empty_def)
      ultimately show ?thesis using here tg rob queues_put_group [OF tg]
        by (simp add: first_victim_Suc probe_def)
    qed
  qed
qed

text \<open>
  C16.  \<open>steal_task\<close> does what the reference says: it takes a task from the group that the first successful iteration looks
  at, from its run queue unless that is empty, and leaves the seed at this iteration, so that the next call looks there
  first; if no iteration finds a task it returns none and the seed has moved on by a whole round.  The
  queues of all other groups are as before.
\<close>

theorem steal_follows_reference:
  assumes "ext_queues_ok X" and "control_steal_task X seed offset w = Some (r, s', w')"
  shows "let n = tc_ngroup (control w) in
    case first_victim X seed offset n n w of
      None \<Rightarrow> r = None \<and> s' = seed + of_nat n * offset \<and> queues X w' = queues X w
    | Some j \<Rightarrow> \<exists>g tg t. tc_groups (control w) ! probe seed offset n j = Some g \<and> group_at w g = Some tg \<and> r = Some t
        \<and> s' = seed + of_nat j * offset \<and> t \<in> set (robbed X tg)
        \<and> queues X w' = (queues X w)[g := queue_of X tg - {#t#}]"
proof (cases "tc_ngroup (control w) = 0")
  case True
  then show ?thesis using assms(2) by (simp add: control_steal_task_def first_victim_def)
next
  case False
  then have "steal_loop X (tc_ngroup (control w)) (tc_ngroup (control w)) offset seed w = Some (r, s', w')"
    using assms(2) by (simp add: control_steal_task_def Let_def)
  from steal_loop_victim [OF assms(1) this] show ?thesis by (simp add: Let_def)
qed

text \<open>The first group the seed points to has no task, the second one has one in its remote queue.\<close>

definition victim_world :: demo_world where
  "victim_world = demo_world None
     [demo_group 1 (make_tid 1 1) [] [], demo_group 2 (make_tid 1 2) [] [make_tid 1 5]] [] Map.empty"

lemma steal_follows_reference_witness:
  "\<exists>w'. control_steal_task demo_ext 4 7 victim_world = Some (Some (make_tid 1 5), 11, w')
    \<and> queues demo_ext w' = [{#}, {#}]"
proof -
  let ?w = victim_world
  have even: "4 mod Suc (Suc 0) = (0::nat)" "11 mod Suc (Suc 0) = (1::nat)" by (simp_all flip: numeral_2_eq_2)
  obtain w' where st: "control_steal_task demo_ext 4 7 ?w = Some (Some (make_tid 1 5), 11, w')"
    by (simp add: control_steal_task_def steal_loop_2 steal_from_def victim_world_def put_group_def even demo_defs)
  have world: "tc_ngroup (control ?w) = 2" "group_at ?w 0 = Some (demo_group 1 (make_tid 1 1) [] [])"
    "group_at ?w (Suc 0) = Some (demo_group 2 (make_tid 1 2) [] [make_tid 1 5])"
    "tc_groups (control ?w) ! 0 = Some 0" "tc_groups (control ?w) ! Suc 0 = Some (Suc 0)"
    "queues demo_ext ?w = [{#}, {#make_tid 1 5#}]" "queue_of demo_ext (demo_group 1 (make_tid 1 1) [] []) = {#}"
    "queue_of demo_ext (demo_group 2 (make_tid 1 2) [] [make_tid 1 5]) = {#make_tid 1 5#}"
    by (simp_all add: victim_world_def queues_def queue_of_def upt_rec demo_defs)
  have "first_victim demo_ext 4 7 2 2 ?w = Some 1"
    by (simp add: first_victim_def upt_rec probe_def entry_empty_def world)
  moreover have "probe 4 7 2 1 = 1" by (simp add: probe_def)
  ultimately show ?thesis using steal_follows_reference [OF demo_queues_ok st] st world by (auto simp: Let_def)
qed

end
