(* ===== verification/Report.thy ===== *)
theory Report
  imports Api
begin

text \<open>
  What the runtime tells about itself: \<open>print_task\<close> (\<open>task_group.cpp\<close>), the sizes of the run queues and the recorder of
  creation times (\<open>task_control.cpp\<close>, \<open>task_control.h\<close>), and the creation of butexes (\<open>butex.cpp\<close>).
\<close>

section \<open>Printing a bthread\<close>

text \<open>What is written to the stream: the identifier, and a text or the fields in the order in which they are printed.\<close>

datatype printed =
  PrintedBool bool
| PrintedPointer "nat option"
| PrintedInt int
| PrintedStackType stack_type
| PrintedFlags bool bool bool

datatype task_report =
  NeverExisted bthread_t
| NotExistNow bthread_t
| TaskFields bthread_t "(string \<times> printed) list"

text \<open>The \<open>flags\<close> of the attributes are three booleans of the model.  The time is read after the lock was released.\<close>

definition print_task ::
  "('q, 'r, 'x) ext \<Rightarrow> bthread_t \<Rightarrow> ('q, 'r, 'x) world \<Rightarrow> (task_report \<times> ('q, 'r, 'x) world) option" where
  "print_task X tid w =
     (case address_meta w tid of
        None \<Rightarrow> Some (NeverExisted tid, w)
      | Some m \<Rightarrow> do {
          v \<leftarrow> version_of w m;
          (if get_version tid \<noteq> v then Some (NotExistNow tid, w)
           else
             let (x, now) = cpuwide_time_ns X (outside w);
                 attr = tm_attr m
             in Some (TaskFields tid
               [(''stop'', PrintedBool (tm_stop m)),
                (''interrupted'', PrintedBool (tm_interrupted m)),
                (''about_to_quit'', PrintedBool (tm_about_to_quit m)),
                (''fn'', PrintedPointer (tm_fn m)),
                (''arg'', PrintedInt (int (tm_arg m))),
                (''stack_type'', PrintedStackType (attr_stack_type attr)),
                (''flags'', PrintedFlags (attr_nosignal attr) (attr_log_start_and_finish attr) (attr_log_context_switch attr)),
                (''keytable_pool'', PrintedPointer (attr_keytable_pool attr)),
                (''has_tls'', PrintedBool (tm_local_storage m \<noteq> None)),
                (''uptime_ns'', PrintedInt (now - tm_cpuwide_start_ns m)),
                (''cputime_ns'', PrintedInt (cputime_ns (tm_stat m))),
                (''nswitch'', PrintedInt (uint (nswitch (tm_stat m))))],
               w\<lparr>outside := x\<rparr>))
        })"

section \<open>Statistics of the control\<close>

text \<open>
  \<open>print_rq_sizes\<close>: the numbers written, one for each entry of the array, 0 for NULL.  \<open>volatile_size\<close> is a member of the
  work stealing queue.
\<close>

definition print_rq_sizes :: "('q \<Rightarrow> nat) \<Rightarrow> ('q, 'r, 'x) world \<Rightarrow> nat list" where
  "print_rq_sizes volatile_size w = map (case_option 0 (\<lambda>tg. volatile_size (tg_rq tg))) (active_entries w)"

text \<open>The callbacks of the statistics variables; their argument is the control.\<close>

definition print_rq_sizes_in_the_tc :: "('q \<Rightarrow> nat) \<Rightarrow> ('q, 'r, 'x) world \<Rightarrow> nat list" where
  "print_rq_sizes_in_the_tc volatile_size w = print_rq_sizes volatile_size w"

definition get_cumulated_switch_count_from_this :: "('q, 'r, 'x) world \<Rightarrow> int" where
  "get_cumulated_switch_count_from_this w = get_cumulated_switch_count w"

definition get_cumulated_signal_count_from_this :: "('q, 'r, 'x) world \<Rightarrow> int" where
  "get_cumulated_signal_count_from_this w = get_cumulated_signal_count w"

definition get_cumulated_worker_time_from_this :: "('q, 'r, 'x) world \<Rightarrow> int" where
  "get_cumulated_worker_time_from_this w = cumulated_worker_time_ns w"

definition get_cumulated_cputime_from_this :: "gid \<Rightarrow> ('q, 'r, 'x) world \<Rightarrow> int option" where
  "get_cumulated_cputime_from_this g w = map_option tg_cumulated_cputime_ns (group_at w g)"

text \<open>
  The recorder of creation times is made by the first thread that needs it.  \<open>lock w\<close> is the world when
  \<open>_pending_time_mutex\<close> is acquired, \<open>new_recorder\<close> the allocation, \<open>expose\<close> the publication of a bvar.
\<close>

definition create_exposed_pending_time ::
  "(('q, 'r, 'x) world \<Rightarrow> ('q, 'r, 'x) world) \<Rightarrow> ('x \<Rightarrow> 'x \<times> nat) \<Rightarrow> ('x \<Rightarrow> nat \<Rightarrow> 'x)
   \<Rightarrow> ('q, 'r, 'x) world \<Rightarrow> nat \<times> ('q, 'r, 'x) world" where
  "create_exposed_pending_time lock new_recorder expose w =
     (let w1 = lock w in
      case tc_pending_time (control w1) of
        Some pt \<Rightarrow> (pt, w1)
      | None \<Rightarrow>
          let (x, pt) = new_recorder (outside w1);
              w2 = w1\<lparr>outside := x, control := (control w1)\<lparr>tc_pending_time := Some pt\<rparr>\<rparr>
          in (pt, w2\<lparr>outside := expose (outside w2) pt\<rparr>))"

definition exposed_pending_time ::
  "(('q, 'r, 'x) world \<Rightarrow> ('q, 'r, 'x) world) \<Rightarrow> ('x \<Rightarrow> 'x \<times> nat) \<Rightarrow> ('x \<Rightarrow> nat \<Rightarrow> 'x)
   \<Rightarrow> ('q, 'r, 'x) world \<Rightarrow> nat \<times> ('q, 'r, 'x) world" where
  "exposed_pending_time lock new_recorder expose w =
     (case tc_pending_time (control w) of
        Some pt \<Rightarrow> (pt, w)
      | None \<Rightarrow> create_exposed_pending_time lock new_recorder expose w)"

section \<open>Creating butexes\<close>

text \<open>
  \<open>get_object\<close> and \<open>return_object\<close> are those of the object pool of butexes.  The address of the value of a butex stands for
  the butex.
\<close>

definition butex_create ::
  "(('q, 'r, 'x) world \<Rightarrow> ('q, 'r, 'x) world \<times> bid option) \<Rightarrow> ('q, 'r, 'x) world \<Rightarrow> ('q, 'r, 'x) world \<times> bid option" where
  "butex_create get_object w =
     (case get_object w of
        (w1, Some b) \<Rightarrow> (w1, Some b)
      | (w1, None) \<Rightarrow> (w1, None))"

definition butex_destroy ::
  "(bid \<Rightarrow> ('q, 'r, 'x) world \<Rightarrow> ('q, 'r, 'x) world) \<Rightarrow> bid option \<Rightarrow> ('q, 'r, 'x) world \<Rightarrow> ('q, 'r, 'x) world" where
  "butex_destroy return_object butex w =
     (case butex of
        None \<Rightarrow> w
      | Some b \<Rightarrow> return_object b w)"

section \<open>Properties\<close>

text \<open>\<open>print_task\<close> prints the fields exactly of a bthread that exists, and agrees with \<open>is_stopped\<close>; it changes nothing.\<close>

lemma print_task_correct:
  assumes "tid \<noteq> 0" and "print_task X tid w = Some (r, w')"
  shows "exists tid w = Some (\<exists>fs. r = TaskFields tid fs) \<and> w' = w\<lparr>outside := outside w'\<rparr>
    \<and> (\<forall>fs. r = TaskFields tid fs \<longrightarrow> map_of fs ''stop'' = map_option PrintedBool (is_stopped tid w))"
  using assms
  by (auto simp: print_task_def exists_def is_stopped_def bind_Some_conv Let_def split: option.splits prod.splits if_splits)

text \<open>The statistics variable shows each listed group, and all that is in the run queues of those.\<close>

lemma print_rq_sizes_total:
  "sum_list (print_rq_sizes (length \<circ> wsq_items X) w) =
   size (\<Sum>e \<leftarrow> active_entries w. case e of None \<Rightarrow> {#} | Some tg \<Rightarrow> mset (wsq_items X (tg_rq tg)))"
proof -
  have "sum_list (map (case_option 0 (\<lambda>tg. length (wsq_items X (tg_rq tg)))) es) =
      size (\<Sum>e \<leftarrow> es. case e of None \<Rightarrow> {#} | Some tg \<Rightarrow> mset (wsq_items X (tg_rq tg)))" for es
    by (induction es) (simp_all split: option.split)
  then show ?thesis by (simp add: print_rq_sizes_def comp_def)
qed

text \<open>There is one recorder: one that another thread made before the lock was taken is used, and it never changes.\<close>

lemma one_recorder:
  assumes "exposed_pending_time lock new_recorder expose w = (pt, w')"
  shows "tc_pending_time (control w') = Some pt
    \<and> exposed_pending_time lock new_recorder expose w' = (pt, w')
    \<and> (tc_pending_time (control w) = None \<and> tc_pending_time (control (lock w)) \<noteq> None \<longrightarrow> w' = lock w)
    \<and> (tc_pending_time (control w) \<noteq> None \<longrightarrow> w' = w)"
  using assms
  by (auto simp: exposed_pending_time_def create_exposed_pending_time_def Let_def split: option.splits prod.splits)

end
