(* ===== verification/IdLock.thy ===== *)
theory IdLock
  imports Wait
begin

text \<open>
  \<open>bthread_id_lock\<close>, \<open>bthread_id_unlock\<close> and \<open>bthread_id_join\<close>, as the notes on the synchronisation of the bthreads of one RPC
  quote them (\<^verbatim>\<open>docs/client_bthread_sync.md\<close>): a lock for bthreads built on a butex, whose value says whether
  the lock is free (\<open>first_ver\<close>), taken (\<open>locked_ver\<close>) or taken with others waiting (\<open>contended_ver\<close>).  The steps of all
  the threads that use one Id are interleaved; the critical sections of its mutex and of its butex are the steps.
\<close>

section \<open>The Id\<close>

record pending_error =
  pe_id :: "64 word"
  pe_error_code :: int
  pe_location :: nat

record id_meta =
  id_first_ver :: "32 word"
  id_locked_ver :: "32 word"
  id_data :: nat
  id_butex :: butex
  id_join_butex :: butex
  id_lock_location :: nat
  id_pending_q :: "pending_error list"

definition contended_ver :: "id_meta \<Rightarrow> 32 word" where
  "contended_ver m = id_locked_ver m + 1"

definition unlockable_ver :: "id_meta \<Rightarrow> 32 word" where
  "unlockable_ver m = id_locked_ver m + 2"

text \<open>What the notes use without quoting it: the member \<open>has_version\<close> of Id and the constant \<open>ID_MAX_RANGE\<close>.\<close>

record id_ext =
  has_version :: "id_meta \<Rightarrow> 32 word \<Rightarrow> bool"
  ID_MAX_RANGE :: int

abbreviation id_value :: "id_meta \<Rightarrow> 32 word" where
  "id_value m \<equiv> bx_value (id_butex m)"

abbreviation id_waiters :: "id_meta \<Rightarrow> wid list" where
  "id_waiters m \<equiv> bx_waiters (id_butex m)"

definition set_id_value :: "32 word \<Rightarrow> id_meta \<Rightarrow> id_meta" where
  "set_id_value v m = m\<lparr>id_butex := (id_butex m)\<lparr>bx_value := v\<rparr>\<rparr>"

definition set_id_waiters :: "wid list \<Rightarrow> id_meta \<Rightarrow> id_meta" where
  "set_id_waiters ws m = m\<lparr>id_butex := (id_butex m)\<lparr>bx_waiters := ws\<rparr>\<rparr>"

section \<open>The critical sections\<close>

text \<open>
  The range of versions grows if it is asked for and larger than the one there is; the messages about a range that is negative or too
  large are left out.
\<close>

definition reset_range :: "id_ext \<Rightarrow> int \<Rightarrow> id_meta \<Rightarrow> id_meta" where
  "reset_range P rng m =
     (if rng = 0 then m
      else if rng < 0 \<or> rng > ID_MAX_RANGE P \<or> of_int rng + id_first_ver m \<le> id_locked_ver m then m
      else m\<lparr>id_locked_ver := id_first_ver m + of_int rng\<rparr>)"

text \<open>
  One round of the loop of \<open>bthread_id_lock_and_reset_range_verbose\<close>, with the mutex held; who takes the lock gets the data of the Id.
\<close>

datatype lock_result = LockTaken nat | LockMustWait "32 word" | LockRefused errcode

definition lock_round ::
  "id_ext \<Rightarrow> 32 word \<Rightarrow> int \<Rightarrow> nat \<Rightarrow> bool \<Rightarrow> id_meta \<Rightarrow> lock_result \<times> id_meta" where
  "lock_round P id_ver rng location ever_contended m =
     (if \<not> has_version P m id_ver then (LockRefused EINVAL, m)
      else if id_value m = id_first_ver m then
        let m1 = reset_range P rng (m\<lparr>id_lock_location := location\<rparr>)
        in (LockTaken (id_data m1), set_id_value (if ever_contended then contended_ver m1 else id_locked_ver m1) m1)
      else if id_value m \<noteq> unlockable_ver m then
        let m1 = set_id_value (contended_ver m) m in (LockMustWait (id_value m1), m1)
      else (LockRefused EPERM, m))"

text \<open>\<open>bthread_id_unlock\<close> up to the release of the mutex: what is left to do is to call the handler of an error, or to wake.\<close>

datatype unlock_result = UnlockInvalid | UnlockNotLocked | UnlockOnError pending_error | Unlocked bool

definition unlock_section :: "id_ext \<Rightarrow> 32 word \<Rightarrow> id_meta \<Rightarrow> unlock_result \<times> id_meta" where
  "unlock_section P id_ver m =
     (if \<not> has_version P m id_ver then (UnlockInvalid, m)
      else if id_value m = id_first_ver m then (UnlockNotLocked, m)
      else case id_pending_q m of
        front # q \<Rightarrow> (UnlockOnError front, m\<lparr>id_pending_q := q, id_lock_location := pe_location front\<rparr>)
      | [] \<Rightarrow> (Unlocked (id_value m = contended_ver m), set_id_value (id_first_ver m) m))"

text \<open>\<open>bthread_id_join\<close>: the section that decides whether to go on waiting, and for which value.\<close>

definition join_section :: "id_ext \<Rightarrow> 32 word \<Rightarrow> id_meta \<Rightarrow> 32 word option" where
  "join_section P id_ver m = (if has_version P m id_ver then Some (bx_value (id_join_butex m)) else None)"

text \<open>
  The sections of \<open>butex_wait\<close> and \<open>butex_wake\<close> on this butex: the waiter is queued if the value is the expected one, and the
  first waiter is taken out.
\<close>

definition wait_section :: "32 word \<Rightarrow> wid \<Rightarrow> id_meta \<Rightarrow> id_meta option" where
  "wait_section expected i m =
     (if id_value m = expected then Some (set_id_waiters (id_waiters m @ [i]) m) else None)"

definition wake_section :: "id_meta \<Rightarrow> (wid \<times> id_meta) option" where
  "wake_section m = (case id_waiters m of [] \<Rightarrow> None | i # rest \<Rightarrow> Some (i, set_id_waiters rest m))"

section \<open>The threads\<close>

text \<open>
  Where a thread is: outside, before it takes the mutex in the loop (with its version, range, location and
  \<open>ever_contended\<close>), between the release of the mutex and \<open>butex_wait\<close> (with the expected value), in the list of the
  butex, holding the lock, or between the release of the mutex and \<open>butex_wake\<close>.  Threads are named by
  the address of the waiter on their stack.
\<close>

datatype id_pc =
  IdIdle
| AtLock "32 word" int nat bool
| BeforeWait "32 word" int nat "32 word"
| InList "32 word" int nat
| Holds
| BeforeWake

record id_state =
  the_id :: id_meta
  pcs :: "wid \<Rightarrow> id_pc"

text \<open>
  Three kinds of events: the range of versions grew; \<open>butex_wait\<close> failed with an error other than EWOULDBLOCK and EINTR, with
  which the call returns; anything else.
\<close>

datatype id_event = IdTau | IdReset | IdStopped

definition locks_event :: "id_meta \<Rightarrow> id_meta \<Rightarrow> id_event" where
  "locks_event m m' = (if id_locked_ver m' = id_locked_ver m then IdTau else IdReset)"

definition set_pc :: "wid \<Rightarrow> id_pc \<Rightarrow> id_state \<Rightarrow> id_state" where
  "set_pc t c s = s\<lparr>pcs := (pcs s)(t := c)\<rparr>"

definition after_round :: "32 word \<Rightarrow> int \<Rightarrow> nat \<Rightarrow> lock_result \<Rightarrow> id_pc" where
  "after_round v r l res =
     (case res of LockTaken d \<Rightarrow> Holds | LockMustWait expected \<Rightarrow> BeforeWait v r l expected | LockRefused e \<Rightarrow> IdIdle)"

definition after_unlock :: "unlock_result \<Rightarrow> id_pc" where
  "after_unlock res = (case res of Unlocked contended \<Rightarrow> if contended then BeforeWake else IdIdle | _ \<Rightarrow> Holds)"

text \<open>
  A thread that was interrupted is not queued, or taken out of the list, and tries again.  Errors are put into the queue of pending
  errors by others (\<open>bthread_id_error\<close>); the handler of one runs with the lock held and must unlock it in the end.
\<close>

inductive id_step :: "id_ext \<Rightarrow> id_state \<Rightarrow> id_event \<Rightarrow> id_state \<Rightarrow> bool" for P where
  calls: "pcs s t = IdIdle \<Longrightarrow> id_step P s IdTau (set_pc t (AtLock v r l False) s)"
| round: "pcs s t = AtLock v r l c \<Longrightarrow> lock_round P v r l c (the_id s) = (res, m) \<Longrightarrow>
    id_step P s (locks_event (the_id s) m) (set_pc t (after_round v r l res) (s\<lparr>the_id := m\<rparr>))"
| queued: "pcs s t = BeforeWait v r l expected \<Longrightarrow> wait_section expected t (the_id s) = Some m \<Longrightarrow>
    id_step P s IdTau (set_pc t (InList v r l) (s\<lparr>the_id := m\<rparr>))"
| would_block: "pcs s t = BeforeWait v r l expected \<Longrightarrow> wait_section expected t (the_id s) = None \<Longrightarrow>
    id_step P s IdTau (set_pc t (AtLock v r l True) s)"
| not_queued: "pcs s t = BeforeWait v r l expected \<Longrightarrow> id_step P s IdTau (set_pc t (AtLock v r l True) s)"
| interrupted: "pcs s t = InList v r l \<Longrightarrow>
    id_step P s IdTau (set_pc t (AtLock v r l True) (s\<lparr>the_id := set_id_waiters (remove1 t (id_waiters (the_id s))) (the_id s)\<rparr>))"
| stopped: "pcs s t = AtLock v r l True \<Longrightarrow> id_step P s IdStopped (set_pc t IdIdle s)"
| unlocks: "pcs s t = Holds \<Longrightarrow> unlock_section P v (the_id s) = (res, m) \<Longrightarrow>
    id_step P s IdTau (set_pc t (after_unlock res) (s\<lparr>the_id := m\<rparr>))"
| wakes_none: "pcs s t = BeforeWake \<Longrightarrow> wake_section (the_id s) = None \<Longrightarrow> id_step P s IdTau (set_pc t IdIdle s)"
| wakes: "pcs s t = BeforeWake \<Longrightarrow> wake_section (the_id s) = Some (u, m) \<Longrightarrow> pcs s u = InList v r l \<Longrightarrow>
    id_step P s IdTau (set_pc u (AtLock v r l True) (set_pc t IdIdle (s\<lparr>the_id := m\<rparr>)))"
| errors: "id_step P s IdTau (s\<lparr>the_id := (the_id s)\<lparr>id_pending_q := q\<rparr>\<rparr>)"

inductive id_run :: "id_ext \<Rightarrow> id_state \<Rightarrow> id_event list \<Rightarrow> id_state \<Rightarrow> bool" for P where
  id_stays: "id_run P s [] s"
| id_goes: "id_run P s es u \<Longrightarrow> id_step P u e s' \<Longrightarrow> id_run P s (es @ [e]) s'"

section \<open>The sections\<close>

lemma id_upd_sel [simp]:
  "id_value (set_id_value v m) = v" "id_waiters (set_id_value v m) = id_waiters m"
  "id_first_ver (set_id_value v m) = id_first_ver m" "id_locked_ver (set_id_value v m) = id_locked_ver m"
  "id_value (set_id_waiters ws m) = id_value m" "id_waiters (set_id_waiters ws m) = ws"
  "id_first_ver (set_id_waiters ws m) = id_first_ver m" "id_locked_ver (set_id_waiters ws m) = id_locked_ver m"
  by (simp_all add: set_id_value_def set_id_waiters_def)

lemma set_pc_sel [simp]: "the_id (set_pc t c s) = the_id s" "pcs (set_pc t c s) = (pcs s)(t := c)"
  by (simp_all add: set_pc_def)

text \<open>The versions of an Id do not wrap around, whatever ranges are asked for.\<close>

definition versions_ok :: "id_ext \<Rightarrow> id_meta \<Rightarrow> bool" where
  "versions_ok P m \<longleftrightarrow> id_first_ver m < id_locked_ver m \<and> uint (id_locked_ver m) + 3 < 2 ^ 32
     \<and> uint (id_first_ver m) + ID_MAX_RANGE P + 3 < 2 ^ 32"

lemma versions_ok_cong:
  "id_first_ver m' = id_first_ver m \<Longrightarrow> id_locked_ver m' = id_locked_ver m \<Longrightarrow> versions_ok P m' = versions_ok P m"
  by (simp add: versions_ok_def)

lemma versions_distinct:
  assumes "versions_ok P m"
  shows "id_locked_ver m \<noteq> id_first_ver m" "contended_ver m \<noteq> id_first_ver m" "unlockable_ver m \<noteq> id_first_ver m"
    "contended_ver m \<noteq> id_locked_ver m" "unlockable_ver m \<noteq> id_locked_ver m" "contended_ver m \<noteq> unlockable_ver m"
proof -
  have u: "uint (id_locked_ver m + 1) = uint (id_locked_ver m) + 1" "uint (id_locked_ver m + 2) = uint (id_locked_ver m) + 2"
    using assms by (simp_all add: versions_ok_def uint_word_ariths)
  have lt: "uint (id_first_ver m) < uint (id_locked_ver m)" using assms by (simp add: versions_ok_def word_less_def)
  show "id_locked_ver m \<noteq> id_first_ver m" "contended_ver m \<noteq> id_first_ver m" "unlockable_ver m \<noteq> id_first_ver m"
    using u lt by (auto simp: contended_ver_def unlockable_ver_def)
  show "contended_ver m \<noteq> id_locked_ver m" "unlockable_ver m \<noteq> id_locked_ver m" "contended_ver m \<noteq> unlockable_ver m"
    using u by (auto simp: contended_ver_def unlockable_ver_def)
qed

lemma reset_range_sel [simp]:
  "id_first_ver (reset_range P r m) = id_first_ver m" "id_butex (reset_range P r m) = id_butex m"
  by (simp_all add: reset_range_def)

lemma reset_range_ok:
  assumes "versions_ok P m"
  shows "versions_ok P (reset_range P r m)"
proof (cases "reset_range P r m = m")
  case False
  then have r: "0 < r" "r \<le> ID_MAX_RANGE P" "\<not> of_int r + id_first_ver m \<le> id_locked_ver m"
    and m': "reset_range P r m = m\<lparr>id_locked_ver := id_first_ver m + of_int r\<rparr>"
    by (auto simp: reset_range_def split: if_splits)
  have small: "0 \<le> uint (id_first_ver m)" "uint (id_first_ver m) + r < 2 ^ 32" using assms r(2) by (simp_all add: versions_ok_def)
  then have "r mod 2 ^ 32 = r" using r(1) by (intro mod_pos_pos_trivial) linarith+
  then have "uint (id_first_ver m + of_int r) = uint (id_first_ver m) + r"
    using small r(1) by (simp add: uint_word_ariths uint_word_of_int)
  moreover have "id_first_ver m < id_first_ver m + of_int r"
    using assms r(3) by (simp add: versions_ok_def ac_simps) (metis le_less_trans less_le_not_le not_le)
  ultimately show ?thesis using assms r(2) by (simp add: m' versions_ok_def)
qed (use assms in simp)

lemma lock_round_cases:
  assumes "lock_round P v r l c m = (res, m')" and "versions_ok P m"
  obtains (taken) d where "res = LockTaken d" "id_value m = id_first_ver m" "versions_ok P m'" "id_first_ver m' = id_first_ver m"
      "id_value m' = (if c then contended_ver m' else id_locked_ver m')" "id_waiters m' = id_waiters m" "has_version P m v"
  | (wait) "res = LockMustWait (contended_ver m)" "id_value m \<noteq> id_first_ver m" "m' = set_id_value (contended_ver m) m" "has_version P m v"
  | (refused) e where "res = LockRefused e" "m' = m" "\<not> has_version P m v \<or> id_value m = unlockable_ver m \<and> id_value m \<noteq> id_first_ver m"
proof -
  let ?m1 = "reset_range P r (m\<lparr>id_lock_location := l\<rparr>)"
  have ok: "versions_ok P ?m1" using reset_range_ok [of P "m\<lparr>id_lock_location := l\<rparr>" r] assms(2) by (simp add: versions_ok_def)
  consider (1) "\<not> has_version P m v" | (2) "has_version P m v" "id_value m = id_first_ver m"
    | (3) "has_version P m v" "id_value m \<noteq> id_first_ver m" "id_value m = unlockable_ver m"
    | (4) "has_version P m v" "id_value m \<noteq> id_first_ver m" "id_value m \<noteq> unlockable_ver m" by blast
  then show ?thesis
  proof cases
    case 1
    then have "res = LockRefused EINVAL" "m' = m" using assms(1) by (simp_all add: lock_round_def)
    then show ?thesis using refused 1 by blast
  next
    case 2
    then have eq: "res = LockTaken (id_data ?m1)" "m' = set_id_value (if c then contended_ver ?m1 else id_locked_ver ?m1) ?m1"
      using assms(1) by (simp_all add: lock_round_def Let_def)
    show ?thesis using 2 ok by (intro taken) (simp_all add: eq contended_ver_def versions_ok_def)
  next
    case 3
    then have "res = LockRefused EPERM" "m' = m" using assms(1) by (simp_all add: lock_round_def)
    then show ?thesis using refused 3 by blast
  next
    case 4
    then have "res = LockMustWait (contended_ver m)" "m' = set_id_value (contended_ver m) m"
      using assms(1) by (simp_all add: lock_round_def Let_def)
    then show ?thesis using wait 4 by blast
  qed
qed

section \<open>Mutual exclusion\<close>

definition mutex_ok :: "id_ext \<Rightarrow> id_state \<Rightarrow> bool" where
  "mutex_ok P s \<longleftrightarrow> versions_ok P (the_id s)
     \<and> id_value (the_id s) \<in> {id_first_ver (the_id s), id_locked_ver (the_id s), contended_ver (the_id s)}
     \<and> (\<forall>t u. pcs s t = Holds \<longrightarrow> pcs s u = Holds \<longrightarrow> t = u)
     \<and> (id_value (the_id s) = id_first_ver (the_id s) \<longleftrightarrow> (\<forall>t. pcs s t \<noteq> Holds))"

text \<open>The waiters in the list are the threads that are blocked, each once.\<close>

definition blocked_ok :: "id_state \<Rightarrow> bool" where
  "blocked_ok s \<longleftrightarrow> distinct (id_waiters (the_id s))
     \<and> (\<forall>t. t \<in> set (id_waiters (the_id s)) \<longleftrightarrow> (\<exists>v r l. pcs s t = InList v r l))"

text \<open>A thread that does not hold the lock, before and after, and a value that says the same, keep it.\<close>

lemma mutex_ok_same:
  assumes "mutex_ok P s" and "pcs s t \<noteq> Holds" and "c \<noteq> Holds" and "pcs s' = (pcs s)(t := c)"
    and "id_first_ver (the_id s') = id_first_ver (the_id s)" and "id_locked_ver (the_id s') = id_locked_ver (the_id s)"
    and "id_value (the_id s') = id_value (the_id s)"
  shows "mutex_ok P s'"
proof -
  have "contended_ver (the_id s') = contended_ver (the_id s)" using assms(6) by (simp add: contended_ver_def)
  moreover have "versions_ok P (the_id s') = versions_ok P (the_id s)" by (rule versions_ok_cong [OF assms(5,6)])
  ultimately show ?thesis using assms by (auto simp: mutex_ok_def)
qed

lemma mutex_ok_round:
  assumes "mutex_ok P s" and "pcs s t = AtLock v r l c" and "lock_round P v r l c (the_id s) = (res, m)"
  shows "mutex_ok P (set_pc t (after_round v r l res) (s\<lparr>the_id := m\<rparr>))"
proof -
  have ok: "versions_ok P (the_id s)" using assms(1) by (simp add: mutex_ok_def)
  from assms(3) ok show ?thesis
  proof (cases rule: lock_round_cases)
    case taken
    note ne = versions_distinct [OF taken(3)]
    have free: "pcs s u \<noteq> Holds" for u using assms(1) taken(2) by (simp add: mutex_ok_def)
    show ?thesis using taken ne free by (auto simp: mutex_ok_def after_round_def)
  next
    case wait
    note ne = versions_distinct [OF ok]
    obtain u where u: "pcs s u = Holds" using assms(1) wait(2) by (auto simp: mutex_ok_def)
    then have held: "\<exists>u. u \<noteq> t \<and> pcs s u = Holds" using assms(2) by (intro exI [of _ u]) auto
    have "versions_ok P m" "contended_ver m = contended_ver (the_id s)" using ok wait(3) by (simp_all add: versions_ok_def contended_ver_def)
    then show ?thesis using assms(1) wait ne held by (auto simp: mutex_ok_def after_round_def)
  next
    case (refused e)
    show ?thesis by (rule mutex_ok_same [OF assms(1), of t IdIdle]) (use assms(2) refused in \<open>simp_all add: after_round_def\<close>)
  qed
qed

lemma unlock_section_cases:
  assumes "unlock_section P v m = (res, m')"
  obtains (keeps) "\<forall>c. res \<noteq> Unlocked c" "id_butex m' = id_butex m" "id_first_ver m' = id_first_ver m"
      "id_locked_ver m' = id_locked_ver m"
  | (frees) "res = Unlocked (id_value m = contended_ver m)" "m' = set_id_value (id_first_ver m) m"
proof (cases "has_version P m v \<and> id_value m \<noteq> id_first_ver m")
  case False
  then have "m' = m" "res = UnlockInvalid \<or> res = UnlockNotLocked" using assms by (auto simp: unlock_section_def split: if_splits)
  then show ?thesis using keeps by blast
next
  case True
  show ?thesis
  proof (cases "id_pending_q m")
    case Nil
    then show ?thesis using assms True by (intro frees) (simp_all add: unlock_section_def)
  next
    case (Cons e q)
    then have "m' = m\<lparr>id_pending_q := q, id_lock_location := pe_location e\<rparr>" "res = UnlockOnError e"
      using assms True by (simp_all add: unlock_section_def)
    then show ?thesis by (intro keeps) simp_all
  qed
qed

lemma mutex_ok_unlock:
  assumes "mutex_ok P s" and "pcs s t = Holds" and "unlock_section P v (the_id s) = (res, m)"
  shows "mutex_ok P (set_pc t (after_unlock res) (s\<lparr>the_id := m\<rparr>))"
proof -
  have ok: "versions_ok P (the_id s)" and only: "pcs s u = Holds \<longleftrightarrow> u = t" for u using assms(1,2) by (auto simp: mutex_ok_def)
  consider (keeps) "\<forall>c. res \<noteq> Unlocked c" "id_butex m = id_butex (the_id s)"
      "id_first_ver m = id_first_ver (the_id s)" "id_locked_ver m = id_locked_ver (the_id s)"
    | (frees) c where "res = Unlocked c" "m = set_id_value (id_first_ver (the_id s)) (the_id s)"
    by (rule unlock_section_cases [OF assms(3)])
  then show ?thesis
  proof cases
    case keeps
    have c: "contended_ver m = contended_ver (the_id s)" using keeps(4) by (simp add: contended_ver_def)
    have "after_unlock res = Holds" using keeps(1) by (auto simp: after_unlock_def split: unlock_result.split)
    moreover have "(pcs s)(t := Holds) = pcs s" using assms(2) by auto
    ultimately show ?thesis
      using assms(1) keeps(2-4) versions_ok_cong [OF keeps(3,4), of P] c unfolding mutex_ok_def by auto
  next
    case frees
    then have "versions_ok P m" using ok by (simp add: versions_ok_def)
    then show ?thesis using frees only by (auto simp: mutex_ok_def after_unlock_def)
  qed
qed

lemma mutex_ok_step:
  assumes "mutex_ok P s" and "id_step P s e s'"
  shows "mutex_ok P s'"
  using assms(2)
proof cases
  case (calls t v r l)
  then show ?thesis by (intro mutex_ok_same [OF assms(1), of t "AtLock v r l False"]) simp_all
next
  case (round t v r l c res m)
  then show ?thesis using mutex_ok_round [OF assms(1)] by blast
next
  case (queued t v r l expected m)
  then show ?thesis
    by (intro mutex_ok_same [OF assms(1), of t "InList v r l"]) (auto simp: wait_section_def split: if_splits)
next
  case (would_block t v r l expected)
  then show ?thesis by (intro mutex_ok_same [OF assms(1), of t "AtLock v r l True"]) simp_all
next
  case (not_queued t v r l expected)
  then show ?thesis by (intro mutex_ok_same [OF assms(1), of t "AtLock v r l True"]) simp_all
next
  case (interrupted t v r l)
  then show ?thesis by (intro mutex_ok_same [OF assms(1), of t "AtLock v r l True"]) simp_all
next
  case (stopped t v r l)
  then show ?thesis by (intro mutex_ok_same [OF assms(1), of t IdIdle]) simp_all
next
  case (unlocks t v res m)
  then show ?thesis using mutex_ok_unlock [OF assms(1)] by blast
next
  case (wakes_none t)
  then show ?thesis by (intro mutex_ok_same [OF assms(1), of t IdIdle]) simp_all
next
  case (wakes t u m v r l)
  let ?u = "set_pc t IdIdle (s\<lparr>the_id := m\<rparr>)"
  have "mutex_ok P ?u"
    by (rule mutex_ok_same [OF assms(1), of t IdIdle]) (use wakes in \<open>auto simp: wake_section_def split: list.splits\<close>)
  then show ?thesis unfolding wakes(2)
    by (rule mutex_ok_same [of P ?u u "AtLock v r l True"]) (use wakes in auto)
next
  case (errors q)
  then show ?thesis using assms(1) unfolding mutex_ok_def contended_ver_def versions_ok_def by auto
qed

text \<open>The list of the butex.\<close>

lemma blocked_ok_same:
  assumes "blocked_ok s" and "\<And>v r l. pcs s t \<noteq> InList v r l" and "\<And>v r l. c \<noteq> InList v r l" and "pcs s' = (pcs s)(t := c)"
    and "id_waiters (the_id s') = id_waiters (the_id s)"
  shows "blocked_ok s'"
  using assms by (auto simp: blocked_ok_def)

lemma lock_round_waiters: "lock_round P v r l c m = (res, m') \<Longrightarrow> id_waiters m' = id_waiters m"
  by (auto simp: lock_round_def Let_def split: if_splits)

lemma unlock_section_waiters: "unlock_section P v m = (res, m') \<Longrightarrow> id_waiters m' = id_waiters m"
  by (auto simp: unlock_section_def split: if_splits list.splits)

lemma after_not_blocked: "after_round v r l res \<noteq> InList a b c" "after_unlock ures \<noteq> InList a b c"
  by (simp_all add: after_round_def after_unlock_def split: lock_result.split unlock_result.split)

lemma blocked_ok_step:
  assumes "blocked_ok s" and "id_step P s e s'"
  shows "blocked_ok s'"
  using assms(2)
proof cases
  case (calls t v r l)
  then show ?thesis by (intro blocked_ok_same [OF assms(1), of t "AtLock v r l False"]) simp_all
next
  case (round t v r l c res m)
  then show ?thesis using lock_round_waiters [OF round(4)]
    by (intro blocked_ok_same [OF assms(1), of t "after_round v r l res"]) (simp_all add: after_not_blocked)
next
  case (queued t v r l expected m)
  then have m: "id_waiters m = id_waiters (the_id s) @ [t]" by (auto simp: wait_section_def split: if_splits)
  have "t \<notin> set (id_waiters (the_id s))" using assms(1) queued(3) by (simp add: blocked_ok_def)
  then show ?thesis using assms(1) m unfolding queued(2) by (auto simp: blocked_ok_def)
next
  case (would_block t v r l expected)
  then show ?thesis by (intro blocked_ok_same [OF assms(1), of t "AtLock v r l True"]) simp_all
next
  case (not_queued t v r l expected)
  then show ?thesis by (intro blocked_ok_same [OF assms(1), of t "AtLock v r l True"]) simp_all
next
  case (interrupted t v r l)
  then show ?thesis using assms(1) by (auto simp: blocked_ok_def)
next
  case (stopped t v r l)
  then show ?thesis by (intro blocked_ok_same [OF assms(1), of t IdIdle]) simp_all
next
  case (unlocks t v res m)
  then show ?thesis using unlock_section_waiters [OF unlocks(4)]
    by (intro blocked_ok_same [OF assms(1), of t "after_unlock res"]) (simp_all add: after_not_blocked)
next
  case (wakes_none t)
  then show ?thesis by (intro blocked_ok_same [OF assms(1), of t IdIdle]) simp_all
next
  case (wakes t u m v r l)
  then have m: "id_waiters (the_id s) = u # id_waiters m" by (auto simp: wake_section_def split: list.splits)
  then show ?thesis using assms(1) wakes(3) unfolding wakes(2) by (auto simp: blocked_ok_def)
next
  case (errors q)
  then show ?thesis using assms(1) by (simp add: blocked_ok_def)
qed

text \<open>At the start nobody has called, and the lock is free.\<close>

definition id_start :: "id_ext \<Rightarrow> id_state \<Rightarrow> bool" where
  "id_start P s \<longleftrightarrow> versions_ok P (the_id s) \<and> id_value (the_id s) = id_first_ver (the_id s)
     \<and> id_waiters (the_id s) = [] \<and> (\<forall>t. pcs s t = IdIdle)"

lemma id_run_ok:
  assumes "id_run P s es s'" and "id_start P s"
  shows "mutex_ok P s' \<and> blocked_ok s'"
  using assms
proof (induction rule: id_run.induct)
  case (id_stays s)
  then show ?case by (auto simp: id_start_def mutex_ok_def blocked_ok_def)
next
  case (id_goes s es u e s')
  then show ?case using mutex_ok_step blocked_ok_step by blast
qed

section \<open>No wake-up is lost\<close>

text \<open>The member \<open>has_version\<close> looks at the range of versions only.\<close>

definition id_ext_ok :: "id_ext \<Rightarrow> bool" where
  "id_ext_ok P \<longleftrightarrow> (\<forall>m m' v. id_first_ver m' = id_first_ver m \<longrightarrow> id_locked_ver m' = id_locked_ver m \<longrightarrow>
     has_version P m' v = has_version P m v)"

text \<open>The threads that are going to wake another one, or to take the lock and wake another one when they release it.\<close>

definition awake :: "id_state \<Rightarrow> wid \<Rightarrow> bool" where
  "awake s t \<longleftrightarrow> pcs s t = BeforeWake \<or> (\<exists>v r l. pcs s t = AtLock v r l True)"

fun pc_ok :: "id_ext \<Rightarrow> id_meta \<Rightarrow> id_pc \<Rightarrow> bool" where
  "pc_ok P m (AtLock v r l True) \<longleftrightarrow> has_version P m v"
| "pc_ok P m (BeforeWait v r l expected) \<longleftrightarrow> has_version P m v \<and> expected = contended_ver m"
| "pc_ok P m (InList v r l) \<longleftrightarrow> has_version P m v"
| "pc_ok P m c \<longleftrightarrow> True"

definition wakes_ok :: "id_ext \<Rightarrow> id_state \<Rightarrow> bool" where
  "wakes_ok P s \<longleftrightarrow> (\<forall>t. pc_ok P (the_id s) (pcs s t))
     \<and> (id_waiters (the_id s) \<noteq> [] \<longrightarrow> id_value (the_id s) = contended_ver (the_id s) \<or> (\<exists>t. awake s t))"

lemma pc_ok_cong:
  assumes "id_ext_ok P" and "id_first_ver m' = id_first_ver m" and "id_locked_ver m' = id_locked_ver m"
  shows "pc_ok P m' c = pc_ok P m c"
proof -
  have "has_version P m' v = has_version P m v" for v using assms unfolding id_ext_ok_def by blast
  note hv = this
  show ?thesis
  proof (cases c)
    case (AtLock v r l b)
    then show ?thesis using hv by (cases b) simp_all
  qed (simp_all add: hv assms(3) contended_ver_def)
qed

lemma wakes_okI:
  assumes "id_ext_ok P" and "wakes_ok P s" and "pcs s' = (pcs s)(t := c)" and "pc_ok P (the_id s) c"
    and "id_first_ver (the_id s') = id_first_ver (the_id s)" and "id_locked_ver (the_id s') = id_locked_ver (the_id s)"
    and "id_waiters (the_id s') \<noteq> [] \<Longrightarrow> id_value (the_id s') = contended_ver (the_id s') \<or> (\<exists>t. awake s' t)"
  shows "wakes_ok P s'"
  unfolding wakes_ok_def
proof (intro conjI allI impI)
  show "pc_ok P (the_id s') (pcs s' u)" for u
    unfolding pc_ok_cong [OF assms(1,5,6)] using assms(2-4) by (simp add: wakes_ok_def)
qed (rule assms(7))

text \<open>The steps in which the value and the list stay as they are, and the thread was not on its way to wake another one.\<close>

lemma wakes_ok_same:
  assumes "id_ext_ok P" and "wakes_ok P s" and "pcs s' = (pcs s)(t := c)" and "pc_ok P (the_id s) c"
    and "id_first_ver (the_id s') = id_first_ver (the_id s)" and "id_locked_ver (the_id s') = id_locked_ver (the_id s)"
    and "id_butex (the_id s') = id_butex (the_id s)" and "\<not> awake s t"
  shows "wakes_ok P s'"
proof (rule wakes_okI [OF assms(1-6)])
  assume "id_waiters (the_id s') \<noteq> []"
  then have "id_value (the_id s) = contended_ver (the_id s) \<or> (\<exists>t. awake s t)"
    using assms(2,7) by (simp add: wakes_ok_def)
  moreover have "awake s' u" if "awake s u" for u using that assms(3,8) by (auto simp: awake_def)
  ultimately show "id_value (the_id s') = contended_ver (the_id s') \<or> (\<exists>t. awake s' t)"
    using assms(6,7) by (auto simp: contended_ver_def)
qed

lemma wakes_ok_awake:
  assumes "id_ext_ok P" and "wakes_ok P s" and "pcs s' = (pcs s)(t := c)" and "pc_ok P (the_id s) c"
    and "id_first_ver (the_id s') = id_first_ver (the_id s)" and "id_locked_ver (the_id s') = id_locked_ver (the_id s)"
    and "c = BeforeWake \<or> (\<exists>v r l. c = AtLock v r l True)"
  shows "wakes_ok P s'"
  by (rule wakes_okI [OF assms(1-6)]) (use assms(3,7) in \<open>auto simp: awake_def\<close>)

lemma wakes_ok_round:
  assumes "id_ext_ok P" and "mutex_ok P s" and "wakes_ok P s" and "pcs s t = AtLock v r l c"
    and "lock_round P v r l c (the_id s) = (res, m)" and "id_locked_ver m = id_locked_ver (the_id s)"
  shows "wakes_ok P (set_pc t (after_round v r l res) (s\<lparr>the_id := m\<rparr>))" (is "wakes_ok P ?s")
proof -
  have ok: "versions_ok P (the_id s)" using assms(2) by (simp add: mutex_ok_def)
  have pc: "pc_ok P (the_id s) (AtLock v r l c)" using assms(3,4) by (simp add: wakes_ok_def flip: assms(4))
  from assms(5) ok show ?thesis
  proof (cases rule: lock_round_cases)
    case taken
    show ?thesis
    proof (rule wakes_okI [OF assms(1,3), of ?s t Holds])
      assume "id_waiters (the_id ?s) \<noteq> []"
      then have "\<exists>u. awake s u"
        using assms(3) taken(2,6) versions_distinct(2) [OF ok] by (auto simp: wakes_ok_def)
      then obtain u where u: "awake s u" by blast
      show "id_value (the_id ?s) = contended_ver (the_id ?s) \<or> (\<exists>t. awake ?s t)"
      proof (cases c)
        case True
        then show ?thesis using taken(5) by simp
      next
        case False
        then have "u \<noteq> t" using u assms(4) by (auto simp: awake_def)
        then have "awake ?s u" using u by (simp add: awake_def)
        then show ?thesis by blast
      qed
    qed (use taken assms(6) in \<open>simp_all add: after_round_def\<close>)
  next
    case wait
    show ?thesis
      by (rule wakes_okI [OF assms(1,3), of ?s t "BeforeWait v r l (contended_ver (the_id s))"])
        (use wait in \<open>simp_all add: after_round_def contended_ver_def\<close>)
  next
    case (refused e)
    have "id_value (the_id s) \<noteq> unlockable_ver (the_id s)" using assms(2) versions_distinct [OF ok] by (auto simp: mutex_ok_def)
    then have "\<not> c" using refused(3) pc by (cases c) auto
    then show ?thesis
      by (intro wakes_ok_same [OF assms(1,3), of ?s t IdIdle])
        (use refused assms(4) in \<open>simp_all add: after_round_def awake_def\<close>)
  qed
qed

lemma wakes_ok_unlock:
  assumes "id_ext_ok P" and "wakes_ok P s" and "pcs s t = Holds" and "unlock_section P v (the_id s) = (res, m)"
  shows "wakes_ok P (set_pc t (after_unlock res) (s\<lparr>the_id := m\<rparr>))" (is "wakes_ok P ?s")
proof -
  consider (keeps) "\<forall>c. res \<noteq> Unlocked c" "id_butex m = id_butex (the_id s)"
      "id_first_ver m = id_first_ver (the_id s)" "id_locked_ver m = id_locked_ver (the_id s)"
    | (frees) "res = Unlocked (id_value (the_id s) = contended_ver (the_id s))"
      "m = set_id_value (id_first_ver (the_id s)) (the_id s)"
    by (rule unlock_section_cases [OF assms(4)])
  then show ?thesis
  proof cases
    case keeps
    have "after_unlock res = Holds" using keeps(1) by (auto simp: after_unlock_def split: unlock_result.split)
    then show ?thesis using keeps assms(3)
      by (intro wakes_ok_same [OF assms(1,2), of ?s t Holds]) (simp_all add: awake_def)
  next
    case frees
    show ?thesis
    proof (cases "id_value (the_id s) = contended_ver (the_id s)")
      case True
      then show ?thesis using frees
        by (intro wakes_ok_awake [OF assms(1,2), of ?s t BeforeWake]) (simp_all add: after_unlock_def)
    next
      case False
      show ?thesis
      proof (rule wakes_okI [OF assms(1,2), of ?s t IdIdle])
        assume "id_waiters (the_id ?s) \<noteq> []"
        then obtain u where u: "awake s u" using assms(2) frees(2) False by (auto simp: wakes_ok_def)
        then have "u \<noteq> t" using assms(3) by (auto simp: awake_def)
        then have "awake ?s u" using u by (simp add: awake_def)
        then show "id_value (the_id ?s) = contended_ver (the_id ?s) \<or> (\<exists>t. awake ?s t)" by blast
      qed (use frees False in \<open>simp_all add: after_unlock_def\<close>)
    qed
  qed
qed

lemma wakes_ok_step:
  assumes "id_ext_ok P" and "mutex_ok P s" and "wakes_ok P s" and "id_step P s IdTau s'"
  shows "wakes_ok P s'"
proof -
  have pc: "pc_ok P (the_id s) (pcs s t)" for t using assms(3) by (simp add: wakes_ok_def)
  from assms(4) show ?thesis
  proof cases
    case (calls t v r l)
    then show ?thesis by (intro wakes_ok_same [OF assms(1,3), of s' t "AtLock v r l False"]) (simp_all add: awake_def)
  next
    case (round t v r l c res m)
    then have "id_locked_ver m = id_locked_ver (the_id s)" by (simp add: locks_event_def split: if_splits)
    then show ?thesis unfolding round(2) by (rule wakes_ok_round [OF assms(1-3) round(3,4)])
  next
    case (queued t v r l expected m)
    then have m: "id_value (the_id s) = expected" "m = set_id_waiters (id_waiters (the_id s) @ [t]) (the_id s)"
      by (simp_all add: wait_section_def split: if_splits)
    then show ?thesis using pc [of t] queued(1,2)
      by (intro wakes_okI [OF assms(1,3), of s' t "InList v r l"]) (simp_all add: contended_ver_def)
  next
    case (would_block t v r l expected)
    then show ?thesis using pc [of t]
      by (intro wakes_ok_awake [OF assms(1,3), of s' t "AtLock v r l True"]) simp_all
  next
    case (not_queued t v r l expected)
    then show ?thesis using pc [of t]
      by (intro wakes_ok_awake [OF assms(1,3), of s' t "AtLock v r l True"]) simp_all
  next
    case (interrupted t v r l)
    then show ?thesis using pc [of t]
      by (intro wakes_ok_awake [OF assms(1,3), of s' t "AtLock v r l True"]) simp_all
  next
    case (unlocks t v res m)
    then show ?thesis using wakes_ok_unlock [OF assms(1,3)] by blast
  next
    case (wakes_none t)
    then show ?thesis
      by (intro wakes_okI [OF assms(1,3), of s' t IdIdle]) (simp_all add: wake_section_def split: list.splits)
  next
    case (wakes t u m v r l)
    have m: "id_first_ver m = id_first_ver (the_id s)" "id_locked_ver m = id_locked_ver (the_id s)"
      using wakes(3) by (auto simp: wake_section_def split: list.splits)
    have "awake s' u" using wakes(1) by (simp add: awake_def)
    moreover have "pc_ok P (the_id s) (pcs s' x)" for x using pc [of x] pc [of u] wakes(1,4) by simp
    ultimately show ?thesis using pc_ok_cong [OF assms(1), of "the_id s'" "the_id s"] m wakes(1) by (auto simp: wakes_ok_def)
  next
    case (errors q)
    have "pc_ok P ((the_id s)\<lparr>id_pending_q := q\<rparr>) c = pc_ok P (the_id s) c" for c by (rule pc_ok_cong [OF assms(1)]) simp_all
    then show ?thesis using assms(3) errors by (simp add: wakes_ok_def awake_def contended_ver_def)
  qed
qed

lemma id_run_wakes:
  assumes "id_run P s es s'" and "id_ext_ok P" and "id_start P s" and "set es \<subseteq> {IdTau}"
  shows "wakes_ok P s'"
  using assms
proof (induction rule: id_run.induct)
  case (id_stays s)
  then show ?case by (auto simp: id_start_def wakes_ok_def)
next
  case (id_goes s es u e s')
  then show ?case using wakes_ok_step [OF \<open>id_ext_ok P\<close>] id_run_ok [of P s es u] by auto
qed

section \<open>The lock\<close>

text \<open>
  C20.  The Id is a lock: whatever the threads do, in whichever order (lock with any range, wait, be interrupted or stopped,
  unlock, handle errors), at most one of them holds it at a time, and the value of the butex says whether one does.
\<close>

theorem id_lock_excludes:
  assumes "id_start P s" and "id_run P s es s'"
  shows "(\<forall>t u. pcs s' t = Holds \<and> pcs s' u = Holds \<longrightarrow> t = u)
    \<and> (id_value (the_id s') = id_first_ver (the_id s') \<longleftrightarrow> (\<forall>t. pcs s' t \<noteq> Holds))"
  using id_run_ok [OF assms(2,1)] by (auto simp: mutex_ok_def)

text \<open>
  C21.  No wake-up is lost as long as the range of versions does not grow and nobody is stopped: for a thread that is blocked,
  either another one holds the lock and will see at its unlock that there is somebody to wake up, or another one is
  about to wake up a waiter, or to take the lock and then wake up a waiter.
\<close>

theorem id_lock_no_lost_wakeup:
  assumes "id_ext_ok P" and "id_start P s" and "id_run P s es s'" and "set es \<subseteq> {IdTau}" and "pcs s' t = InList v r l"
  shows "\<exists>u. u \<noteq> t \<and> (pcs s' u = Holds \<and> id_value (the_id s') = contended_ver (the_id s') \<or> awake s' u)"
proof -
  have ok: "mutex_ok P s'" "blocked_ok s'" using id_run_ok [OF assms(3,2)] by simp_all
  then have "id_waiters (the_id s') \<noteq> []" using assms(5) by (auto simp: blocked_ok_def)
  then consider "id_value (the_id s') = contended_ver (the_id s')" | u where "awake s' u"
    using id_run_wakes [OF assms(3,1,2,4)] by (auto simp: wakes_ok_def)
  then show ?thesis
  proof cases
    case 1
    then have "id_value (the_id s') \<noteq> id_first_ver (the_id s')" using ok(1) versions_distinct(2) by (auto simp: mutex_ok_def)
    then obtain u where "pcs s' u = Holds" using ok(1) by (auto simp: mutex_ok_def)
    then show ?thesis using 1 assms(5) by (intro exI [of _ u]) auto
  next
    case (2 u)
    then show ?thesis using assms(5) by (intro exI [of _ u]) (auto simp: awake_def)
  qed
qed

section \<open>Runs\<close>

text \<open>An Id with the versions 1 and, at first, nothing else in its range; three threads.\<close>

definition lock_ext :: id_ext where
  "lock_ext = \<lparr>has_version = (\<lambda>m v. id_first_ver m \<le> v \<and> v < id_locked_ver m), ID_MAX_RANGE = 1024\<rparr>"

definition lock_id :: "32 word \<Rightarrow> 32 word \<Rightarrow> wid list \<Rightarrow> id_meta" where
  "lock_id v locked ws = \<lparr>id_first_ver = 1, id_locked_ver = locked, id_data = 7, id_butex = \<lparr>bx_value = v, bx_waiters = ws\<rparr>,
     id_join_butex = \<lparr>bx_value = 1, bx_waiters = []\<rparr>, id_lock_location = 0, id_pending_q = []\<rparr>"

definition lock_state :: "32 word \<Rightarrow> 32 word \<Rightarrow> wid list \<Rightarrow> id_pc \<Rightarrow> id_pc \<Rightarrow> id_pc \<Rightarrow> id_state" where
  "lock_state v locked ws a b c = \<lparr>the_id = lock_id v locked ws, pcs = (\<lambda>_. IdIdle)(1 := a, 2 := b, 3 := c)\<rparr>"

lemma lock_id_simps:
  "set_id_value x (lock_id v l ws) = lock_id x l ws" "set_id_waiters ys (lock_id v l ws) = lock_id v l ys"
  "(lock_id v l ws)\<lparr>id_lock_location := 0\<rparr> = lock_id v l ws" "(lock_id v l ws)\<lparr>id_locked_ver := k\<rparr> = lock_id v k ws"
  "id_first_ver (lock_id v l ws) = 1" "id_locked_ver (lock_id v l ws) = l"
  "id_value (lock_id v l ws) = v" "id_waiters (lock_id v l ws) = ws" "id_pending_q (lock_id v l ws) = []"
  by (simp_all add: lock_id_def set_id_value_def set_id_waiters_def)

lemma lock_state_simps:
  "the_id (lock_state v l ws a b c) = lock_id v l ws"
  "pcs (lock_state v l ws a b c) 1 = a" "pcs (lock_state v l ws a b c) 2 = b" "pcs (lock_state v l ws a b c) 3 = c"
  "(lock_state v l ws a b c)\<lparr>the_id := lock_id x k ys\<rparr> = lock_state x k ys a b c"
  "set_pc 1 y (lock_state v l ws a b c) = lock_state v l ws y b c"
  "set_pc 2 y (lock_state v l ws a b c) = lock_state v l ws a y c"
  "set_pc 3 y (lock_state v l ws a b c) = lock_state v l ws a b y"
  by (simp_all add: lock_state_def set_pc_def fun_eq_iff)

lemmas lock_simps = lock_id_simps lock_state_simps lock_round_def unlock_section_def reset_range_def wait_section_def
  wake_section_def locks_event_def after_round_def after_unlock_def contended_ver_def unlockable_ver_def lock_ext_def

lemma lock_ext_ok: "id_ext_ok lock_ext"
  by (simp add: id_ext_ok_def lock_ext_def)

lemma lock_start: "id_start lock_ext (lock_state 1 2 [] IdIdle IdIdle IdIdle)"
  by (simp add: id_start_def versions_ok_def lock_ext_def lock_state_def lock_id_def)

text \<open>Thread 1 takes the lock, thread 2 finds it taken.\<close>

lemma lock_contended:
  "id_run lock_ext (lock_state 1 2 [] IdIdle IdIdle IdIdle) [IdTau, IdTau] (lock_state 2 2 [] Holds IdIdle IdIdle)"
  "id_run lock_ext (lock_state 1 2 [] IdIdle IdIdle IdIdle) [IdTau, IdTau, IdTau, IdTau]
    (lock_state 3 2 [] Holds (BeforeWait 1 0 0 3) IdIdle)"
proof -
  let ?s = "\<lambda>v. lock_state v 2 []"
  have "id_step lock_ext (?s 1 IdIdle IdIdle IdIdle) IdTau (?s 1 (AtLock 1 0 0 False) IdIdle IdIdle)"
    using id_step.calls [of "?s 1 IdIdle IdIdle IdIdle" 1 lock_ext 1 0 0] by (simp add: lock_simps del: One_nat_def)
  moreover have "id_step lock_ext (?s 1 (AtLock 1 0 0 False) IdIdle IdIdle) IdTau (?s 2 Holds IdIdle IdIdle)"
    using id_step.round [of "?s 1 (AtLock 1 0 0 False) IdIdle IdIdle" 1 1 0 0 False lock_ext] by (simp add: lock_simps del: One_nat_def)
  ultimately show one: "id_run lock_ext (?s 1 IdIdle IdIdle IdIdle) [IdTau, IdTau] (?s 2 Holds IdIdle IdIdle)"
    using id_goes [OF id_goes [OF id_stays]] by fastforce
  have "id_step lock_ext (?s 2 Holds IdIdle IdIdle) IdTau (?s 2 Holds (AtLock 1 0 0 False) IdIdle)"
    using id_step.calls [of "?s 2 Holds IdIdle IdIdle" 2 lock_ext 1 0 0] by (simp add: lock_simps del: One_nat_def)
  moreover have "id_step lock_ext (?s 2 Holds (AtLock 1 0 0 False) IdIdle) IdTau (?s 3 Holds (BeforeWait 1 0 0 3) IdIdle)"
    using id_step.round [of "?s 2 Holds (AtLock 1 0 0 False) IdIdle" 2 1 0 0 False lock_ext] by (simp add: lock_simps del: One_nat_def)
  ultimately show "id_run lock_ext (?s 1 IdIdle IdIdle IdIdle) [IdTau, IdTau, IdTau, IdTau]
      (?s 3 Holds (BeforeWait 1 0 0 3) IdIdle)"
    using id_goes [OF id_goes [OF one]] by fastforce
qed

lemma id_lock_excludes_witness:
  "\<exists>s'. id_run lock_ext (lock_state 1 2 [] IdIdle IdIdle IdIdle) [IdTau, IdTau] s' \<and> {t. pcs s' t = Holds} = {1}
    \<and> id_value (the_id s') \<noteq> id_first_ver (the_id s')"
proof -
  let ?s = "lock_state 2 2 [] Holds IdIdle IdIdle"
  have "pcs ?s 1 = Holds" by (rule lock_state_simps(2))
  then show ?thesis using id_lock_excludes [OF lock_start lock_contended(1)] lock_contended(1) by blast
qed

text \<open>Thread 2 is queued.\<close>

lemma lock_queued:
  "id_run lock_ext (lock_state 1 2 [] IdIdle IdIdle IdIdle) [IdTau, IdTau, IdTau, IdTau, IdTau]
    (lock_state 3 2 [2] Holds (InList 1 0 0) IdIdle)"
proof -
  have "id_step lock_ext (lock_state 3 2 [] Holds (BeforeWait 1 0 0 3) IdIdle) IdTau (lock_state 3 2 [2] Holds (InList 1 0 0) IdIdle)"
    using id_step.queued [of "lock_state 3 2 [] Holds (BeforeWait 1 0 0 3) IdIdle" 2 1 0 0 3 _ lock_ext]
    by (simp add: lock_simps del: One_nat_def)
  then show ?thesis using id_goes [OF lock_contended(2)] by fastforce
qed

lemma id_lock_no_lost_wakeup_witness:
  "\<exists>s' u. id_run lock_ext (lock_state 1 2 [] IdIdle IdIdle IdIdle) [IdTau, IdTau, IdTau, IdTau, IdTau] s'
    \<and> pcs s' 2 = InList 1 0 0 \<and> u \<noteq> 2
    \<and> (pcs s' u = Holds \<and> id_value (the_id s') = contended_ver (the_id s') \<or> awake s' u)"
proof -
  let ?s = "lock_state 3 2 [2] Holds (InList 1 0 0) IdIdle"
  have "pcs ?s 2 = InList 1 0 0" by (rule lock_state_simps(3))
  with id_lock_no_lost_wakeup [OF lock_ext_ok lock_start lock_queued, of 2 1 0 0] show ?thesis using lock_queued by auto
qed

text \<open>A thread is forgotten if it is blocked and all the others are outside.\<close>

definition forgotten :: "id_state \<Rightarrow> wid \<Rightarrow> bool" where
  "forgotten s t \<longleftrightarrow> (\<exists>v r l. pcs s t = InList v r l) \<and> (\<forall>u. u \<noteq> t \<longrightarrow> pcs s u = IdIdle)"

text \<open>
  When the range of versions grows, a value that says "taken" can be the one that said "contended" before: a thread that
  found the lock contended, and was not yet queued when it was released, is queued under the next holder, who
  does not know of it and wakes nobody.
\<close>

lemma growing_range_loses_wakeup:
  "\<exists>es s'. id_run lock_ext (lock_state 1 2 [] IdIdle IdIdle IdIdle) es s' \<and> IdStopped \<notin> set es \<and> forgotten s' 2"
proof -
  let ?b = "BeforeWait 1 0 0 3" and ?q = "InList 1 0 0"
  have "id_step lock_ext (lock_state 3 2 [] Holds ?b IdIdle) IdTau (lock_state 1 2 [] BeforeWake ?b IdIdle)"
    using id_step.unlocks [of "lock_state 3 2 [] Holds ?b IdIdle" 1 lock_ext 1] by (simp add: lock_simps del: One_nat_def)
  from id_goes [OF lock_contended(2) this]
  have "id_run lock_ext (lock_state 1 2 [] IdIdle IdIdle IdIdle) (replicate 5 IdTau) (lock_state 1 2 [] BeforeWake ?b IdIdle)"
    by (simp add: numeral_eq_Suc)
  moreover have "id_step lock_ext (lock_state 1 2 [] BeforeWake ?b IdIdle) IdTau (lock_state 1 2 [] IdIdle ?b IdIdle)"
    using id_step.wakes_none [of "lock_state 1 2 [] BeforeWake ?b IdIdle" 1 lock_ext] by (simp add: lock_simps del: One_nat_def)
  moreover have "id_step lock_ext (lock_state 1 2 [] IdIdle ?b IdIdle) IdTau (lock_state 1 2 [] IdIdle ?b (AtLock 1 2 0 False))"
    using id_step.calls [of "lock_state 1 2 [] IdIdle ?b IdIdle" 3 lock_ext 1 2 0] by (simp add: lock_simps del: One_nat_def)
  moreover have "id_step lock_ext (lock_state 1 2 [] IdIdle ?b (AtLock 1 2 0 False)) IdReset (lock_state 3 3 [] IdIdle ?b Holds)"
    using id_step.round [of "lock_state 1 2 [] IdIdle ?b (AtLock 1 2 0 False)" 3 1 2 0 False lock_ext]
    by (simp add: lock_simps del: One_nat_def)
  moreover have "id_step lock_ext (lock_state 3 3 [] IdIdle ?b Holds) IdTau (lock_state 3 3 [2] IdIdle ?q Holds)"
    using id_step.queued [of "lock_state 3 3 [] IdIdle ?b Holds" 2 1 0 0 3 _ lock_ext] by (simp add: lock_simps del: One_nat_def)
  moreover have "id_step lock_ext (lock_state 3 3 [2] IdIdle ?q Holds) IdTau (lock_state 1 3 [2] IdIdle ?q IdIdle)"
    using id_step.unlocks [of "lock_state 3 3 [2] IdIdle ?q Holds" 3 lock_ext 1] by (simp add: lock_simps del: One_nat_def)
  ultimately have "id_run lock_ext (lock_state 1 2 [] IdIdle IdIdle IdIdle)
      (((((replicate 5 IdTau @ [IdTau]) @ [IdTau]) @ [IdReset]) @ [IdTau]) @ [IdTau]) (lock_state 1 3 [2] IdIdle ?q IdIdle)"
    by (blast intro: id_goes)
  moreover have "forgotten (lock_state 1 3 [2] IdIdle ?q IdIdle) 2" by (auto simp: forgotten_def lock_state_def)
  ultimately show ?thesis by (intro exI conjI) (assumption, simp, assumption)
qed

text \<open>A waiter that is woken up and was stopped meanwhile returns with the error, and does not wake the next waiter.\<close>

lemma stopped_waiter_loses_wakeup:
  "\<exists>es s'. id_run lock_ext (lock_state 1 2 [] IdIdle IdIdle IdIdle) es s' \<and> IdReset \<notin> set es \<and> forgotten s' 3"
proof -
  let ?b = "InList 1 0 0"
  have "id_step lock_ext (lock_state 3 2 [2] Holds ?b IdIdle) IdTau (lock_state 3 2 [2] Holds ?b (AtLock 1 0 0 False))"
    using id_step.calls [of "lock_state 3 2 [2] Holds ?b IdIdle" 3 lock_ext 1 0 0] by (simp add: lock_simps del: One_nat_def)
  from id_goes [OF lock_queued this]
  have "id_run lock_ext (lock_state 1 2 [] IdIdle IdIdle IdIdle) (replicate 6 IdTau) (lock_state 3 2 [2] Holds ?b (AtLock 1 0 0 False))"
    by (simp add: numeral_eq_Suc)
  moreover have "id_step lock_ext (lock_state 3 2 [2] Holds ?b (AtLock 1 0 0 False)) IdTau
      (lock_state 3 2 [2] Holds ?b (BeforeWait 1 0 0 3))"
    using id_step.round [of "lock_state 3 2 [2] Holds ?b (AtLock 1 0 0 False)" 3 1 0 0 False lock_ext]
    by (simp add: lock_simps del: One_nat_def)
  moreover have "id_step lock_ext (lock_state 3 2 [2] Holds ?b (BeforeWait 1 0 0 3)) IdTau (lock_state 3 2 [2, 3] Holds ?b ?b)"
    using id_step.queued [of "lock_state 3 2 [2] Holds ?b (BeforeWait 1 0 0 3)" 3 1 0 0 3 _ lock_ext]
    by (simp add: lock_simps del: One_nat_def)
  moreover have "id_step lock_ext (lock_state 3 2 [2, 3] Holds ?b ?b) IdTau (lock_state 1 2 [2, 3] BeforeWake ?b ?b)"
    using id_step.unlocks [of "lock_state 3 2 [2, 3] Holds ?b ?b" 1 lock_ext 1] by (simp add: lock_simps del: One_nat_def)
  moreover have "id_step lock_ext (lock_state 1 2 [2, 3] BeforeWake ?b ?b) IdTau (lock_state 1 2 [3] IdIdle (AtLock 1 0 0 True) ?b)"
    using id_step.wakes [of "lock_state 1 2 [2, 3] BeforeWake ?b ?b" 1 2 _ 1 0 0 lock_ext] by (simp add: lock_simps del: One_nat_def)
  moreover have "id_step lock_ext (lock_state 1 2 [3] IdIdle (AtLock 1 0 0 True) ?b) IdStopped (lock_state 1 2 [3] IdIdle IdIdle ?b)"
    using id_step.stopped [of "lock_state 1 2 [3] IdIdle (AtLock 1 0 0 True) ?b" 2 1 0 0 lock_ext]
    by (simp add: lock_simps del: One_nat_def)
  ultimately have "id_run lock_ext (lock_state 1 2 [] IdIdle IdIdle IdIdle)
      (((((replicate 6 IdTau @ [IdTau]) @ [IdTau]) @ [IdTau]) @ [IdTau]) @ [IdStopped]) (lock_state 1 2 [3] IdIdle IdIdle ?b)"
    by (blast intro: id_goes)
  moreover have "forgotten (lock_state 1 2 [3] IdIdle IdIdle ?b) 3" by (auto simp: forgotten_def lock_state_def)
  ultimately show ?thesis by (intro exI conjI) (assumption, simp, assumption)
qed

section \<open>The butex below\<close>

text \<open>The two sections are those of \<open>wait_for_butex\<close> and \<open>butex_wake\<close> on the butex of the Id.\<close>

lemma wait_section_implemented:
  assumes "ext_queues_ok X" and "naps_ok X" and "waiters w i = Some bw" and "w_tid bw \<noteq> 0" and "w_container bw = None"
    and "queueable w bw" and "butex_at w (w_initial_butex bw) = Some (id_butex m)" and "wait_for_butex X i w = Some w'"
  shows "\<exists>m'. wait_section (w_expected_value bw) i m = Some m' \<and> butex_at w' (w_initial_butex bw) = Some (id_butex m')"
proof -
  obtain bx where "butex_at w (w_initial_butex bw) = Some bx" "w' = enqueue_waiter (w_initial_butex bw) i bw bx w"
    using wait_for_butex_cases [OF assms(1-5,8)] assms(6) by auto
  then have "butex_at w' (w_initial_butex bw) = Some ((id_butex m)\<lparr>bx_waiters := id_waiters m @ [i]\<rparr>)"
    using assms(7) by (auto simp: enqueue_waiter_def nth_opt_Some)
  moreover have "id_value m = w_expected_value bw" using assms(6,7) by (auto simp: queueable_def)
  ultimately show ?thesis by (simp add: wait_section_def set_id_waiters_def)
qed

lemma wake_section_implemented:
  assumes "butex_at w b = Some (id_butex m)" and "butex_wake X b w = Some (n, jumped, w')"
  shows "case wake_section m of
      None \<Rightarrow> n = 0 \<and> w' = w
    | Some (i, m') \<Rightarrow> \<exists>u. pop_waiter b (id_butex m) i (id_waiters m') w = Some u \<and> butex_at u b = Some (id_butex m')
        \<and> wake_front X i u = Some (n, jumped, w')"
proof (cases "id_waiters m")
  case Nil
  then show ?thesis using assms by (simp add: butex_wake_def wake_section_def)
next
  case (Cons i rest)
  then obtain u where u: "pop_waiter b (id_butex m) i rest w = Some u" "wake_front X i u = Some (n, jumped, w')"
    using assms by (auto simp: butex_wake_def bind_Some_conv)
  then have "butex_at u b = Some ((id_butex m)\<lparr>bx_waiters := rest\<rparr>)"
    using assms(1) by (auto simp: pop_waiter_def bind_Some_conv nth_opt_Some)
  then show ?thesis using u Cons by (simp add: wake_section_def set_id_waiters_def)
qed

section \<open>Joining\<close>

text \<open>
  The loop of \<open>bthread_id_join\<close>.  \<open>id_of s\<close> is the Id in a state \<open>s\<close>, and \<open>wait expected s\<close> a call of \<open>butex_wait\<close> on its join butex: the
  result, the value of errno and the state when it returns, in which the other threads may have done anything.
\<close>

partial_function (option) id_join_loop ::
  "id_ext \<Rightarrow> ('s \<Rightarrow> id_meta) \<Rightarrow> (32 word \<Rightarrow> 's \<Rightarrow> (int \<times> errcode \<times> 's) option) \<Rightarrow> 32 word \<Rightarrow> 's
   \<Rightarrow> (errcode \<times> 's) option" where
  "id_join_loop E id_of wait v s =
     (case join_section E v (id_of s) of
        None \<Rightarrow> Some (E0, s)
      | Some expected \<Rightarrow> do {
          (rc, e, s') \<leftarrow> wait expected s;
          (if rc < 0 \<and> e \<noteq> EWOULDBLOCK \<and> e \<noteq> EINTR then Some (e, s') else id_join_loop E id_of wait v s')
        })"

text \<open>It returns 0 only when the Id does not have the version any more, whatever wakes it up.\<close>

lemma id_join_correct:
  assumes "\<And>expected s rc s'. wait expected s \<noteq> Some (rc, E0, s') \<or> 0 \<le> rc"
    and "id_join_loop P id_of wait v s = Some (E0, s')"
  shows "\<not> has_version P (id_of s') v"
proof -
  have "wait' = wait \<longrightarrow> fst r = E0 \<longrightarrow> \<not> has_version E (id_of' (snd r)) v'"
    if "id_join_loop E id_of' wait' v' s = Some r" for E id_of' wait' v' s r
  proof (rule id_join_loop.raw_induct [OF _ that, where P = "\<lambda>E id_of' wait' v' s r.
      wait' = wait \<longrightarrow> fst r = E0 \<longrightarrow> \<not> has_version E (id_of' (snd r)) v'"], goal_cases)
    case (1 rec E id_of' wait' v' s r)
    show ?case
    proof (cases "join_section E v' (id_of' s)")
      case None
      then show ?thesis using 1(2) by (auto simp: join_section_def split: if_splits)
    next
      case (Some expected)
      then obtain rc e s1 where w: "wait' expected s = Some (rc, e, s1)"
        and rest: "(if rc < 0 \<and> e \<noteq> EWOULDBLOCK \<and> e \<noteq> EINTR then Some (e, s1) else rec E id_of' wait' v' s1) = Some r"
        using 1(2) by (auto simp: bind_Some_conv)
      then show ?thesis using 1(1) [of E id_of' wait' v' s1 r] assms(1) [of expected s rc s1] by (auto split: if_splits)
    qed
  qed
  from this [OF assms(2)] show ?thesis by simp
qed

end
