(* ===== verification/Pool.thy ===== *)
theory Pool
  imports Prelude
begin

text \<open>
  ResourcePool, from which the runtime takes its TaskMetas (and whose relative ObjectPool gives the butexes), as the notes on
  memory management quote it (\<^verbatim>\<open>docs/resource_pool.md\<close>).  Objects are known by identifiers and never freed; an
  identifier that was returned goes to a list of its thread, and full lists go to a global queue.  The atomic operations
  and the critical sections of all threads are interleaved.
\<close>

section \<open>The pool\<close>

text \<open>
  A Block is known by its address, which is its number in the order of allocation; \<open>rp_nitems\<close> holds the \<open>nitem\<close> of each.  The first
  \<open>_ngroup\<close> entries of \<open>_block_groups\<close> are the list \<open>rp_groups\<close>.
\<close>

record block_group =
  bg_nblock :: nat
  bg_blocks :: "nat \<Rightarrow> nat option"

record local_pool =
  lp_cur_block :: "nat option"
  lp_cur_block_index :: nat
  lp_cur_free :: "nat list"

record rp_limits =
  BLOCK_NITEM :: nat
  RP_GROUP_NBLOCK_NBIT :: nat
  RP_MAX_BLOCK_NGROUP :: nat
  FREE_CHUNK_NITEM :: nat

definition RP_GROUP_NBLOCK :: "rp_limits \<Rightarrow> nat" where
  "RP_GROUP_NBLOCK L = 2 ^ RP_GROUP_NBLOCK_NBIT L"

text \<open>
  Where a thread is in \<open>get_resource\<close>: outside, at \<open>pop_free_chunk\<close>, at the local block, or in the loop of \<open>add_block\<close> with its new
  block: before it loads \<open>_ngroup\<close>, adds 1 to \<open>nblock\<close> of the last group, stores the block, subtracts 1 again, or
  calls \<open>add_block_group\<close>; or back, with a new block to construct the object in.
\<close>

datatype rp_pc =
  RpIdle
| RpPop
| RpLocal
| RpLoad nat
| RpAdd nat nat
| RpStore nat nat nat
| RpSub nat nat
| RpGroup nat nat
| RpConstruct

record rp_thread =
  th_pool :: local_pool
  th_pc :: rp_pc

text \<open>\<open>rp_used\<close> is the set of identifiers that were handed out and not returned, for the statements only.\<close>

record resource_pool =
  rp_groups :: "block_group list"
  rp_nitems :: "nat list"
  rp_free_chunks :: "nat list list"
  rp_threads :: "rp_thread list"
  rp_used :: "nat set"

section \<open>The operations of a thread\<close>

text \<open>\<open>_cur_free.ids[--_cur_free.nfree]\<close>\<close>

definition take_free :: "local_pool \<Rightarrow> (nat \<times> local_pool) option" where
  "take_free lp =
     (if lp_cur_free lp = [] then None
      else Some (last (lp_cur_free lp), lp\<lparr>lp_cur_free := butlast (lp_cur_free lp)\<rparr>))"

definition pop_free_chunk :: "nat list list \<Rightarrow> local_pool \<Rightarrow> (nat list list \<times> local_pool) option" where
  "pop_free_chunk free_chunks lp =
     (if free_chunks = [] then None else Some (butlast free_chunks, lp\<lparr>lp_cur_free := last free_chunks\<rparr>))"

text \<open>
  The construction of an object in the current block, which the validator may reject.  The identifier is that of the next
  item of the block.
\<close>

definition construct_item :: "rp_limits \<Rightarrow> bool \<Rightarrow> local_pool \<Rightarrow> nat list \<Rightarrow> (nat option \<times> nat list) option" where
  "construct_item L valid lp nitems =
     do {
       b \<leftarrow> lp_cur_block lp;
       n \<leftarrow> nth_opt nitems b;
       Some (if valid then (Some (lp_cur_block_index lp * BLOCK_NITEM L + n), nitems[b := n + 1]) else (None, nitems))
     }"

definition block_has_room :: "rp_limits \<Rightarrow> local_pool \<Rightarrow> nat list \<Rightarrow> bool" where
  "block_has_room L lp nitems =
     (case lp_cur_block lp of None \<Rightarrow> False
      | Some b \<Rightarrow> (case nth_opt nitems b of None \<Rightarrow> False | Some n \<Rightarrow> n < BLOCK_NITEM L))"

text \<open>\<open>add_block_group\<close>, a critical section; \<open>alloc\<close> says whether the allocation succeeds.\<close>

definition add_block_group :: "rp_limits \<Rightarrow> bool \<Rightarrow> nat \<Rightarrow> block_group list \<Rightarrow> bool \<times> block_group list" where
  "add_block_group L alloc old_ngroup gs =
     (if length gs \<noteq> old_ngroup then (True, gs)
      else if length gs < RP_MAX_BLOCK_NGROUP L \<and> alloc
      then (True, gs @ [\<lparr>bg_nblock = 0, bg_blocks = (\<lambda>_. None)\<rparr>])
      else (False, gs))"

text \<open>\<open>return_resource\<close>; \<open>pushed\<close> says whether \<open>push_free_chunk\<close>, which copies the list to the global queue, succeeds.\<close>

definition return_resource :: "rp_limits \<Rightarrow> bool \<Rightarrow> nat \<Rightarrow> nat list list \<Rightarrow> local_pool \<Rightarrow> int \<times> nat list list \<times> local_pool" where
  "return_resource L pushed i free_chunks lp =
     (if length (lp_cur_free lp) < FREE_CHUNK_NITEM L
      then (0, free_chunks, lp\<lparr>lp_cur_free := lp_cur_free lp @ [i]\<rparr>)
      else if pushed then (0, free_chunks @ [lp_cur_free lp], lp\<lparr>lp_cur_free := [i]\<rparr>)
      else (-1, free_chunks, lp))"

text \<open>\<open>unsafe_address_resource\<close>: the block and the item in it.\<close>

definition unsafe_address_resource :: "rp_limits \<Rightarrow> resource_pool \<Rightarrow> nat \<Rightarrow> (nat \<times> nat) option" where
  "unsafe_address_resource L s i =
     do {
       let block_index = i div BLOCK_NITEM L;
       g \<leftarrow> nth_opt (rp_groups s) (drop_bit (RP_GROUP_NBLOCK_NBIT L) block_index);
       b \<leftarrow> bg_blocks g (and block_index (RP_GROUP_NBLOCK L - 1));
       Some (b, i - block_index * BLOCK_NITEM L)
     }"

section \<open>The steps\<close>

datatype rp_event = RpTau | RpGot nat | RpReturned nat

definition put_thread :: "nat \<Rightarrow> local_pool \<Rightarrow> rp_pc \<Rightarrow> resource_pool \<Rightarrow> resource_pool" where
  "put_thread t lp pc s = s\<lparr>rp_threads := (rp_threads s)[t := \<lparr>th_pool = lp, th_pc = pc\<rparr>]\<rparr>"

definition hand_out :: "nat \<Rightarrow> resource_pool \<Rightarrow> resource_pool" where
  "hand_out i s = s\<lparr>rp_used := insert i (rp_used s)\<rparr>"

definition put_nblock :: "nat \<Rightarrow> nat \<Rightarrow> resource_pool \<Rightarrow> resource_pool" where
  "put_nblock k n s = s\<lparr>rp_groups := (rp_groups s)[k := (rp_groups s ! k)\<lparr>bg_nblock := n\<rparr>]\<rparr>"

definition put_block :: "nat \<Rightarrow> nat \<Rightarrow> nat \<Rightarrow> resource_pool \<Rightarrow> resource_pool" where
  "put_block k j b s =
     s\<lparr>rp_groups := (rp_groups s)[k := (rp_groups s ! k)\<lparr>bg_blocks := (bg_blocks (rp_groups s ! k))(j \<mapsto> b)\<rparr>]\<rparr>"

abbreviation thread_at :: "resource_pool \<Rightarrow> nat \<Rightarrow> local_pool \<Rightarrow> rp_pc \<Rightarrow> bool" where
  "thread_at s t lp pc \<equiv> nth_opt (rp_threads s) t = Some \<lparr>th_pool = lp, th_pc = pc\<rparr>"

text \<open>
  One rule for each atomic operation.  A client returns only what it was given.
\<close>

inductive rp_step :: "rp_limits \<Rightarrow> resource_pool \<Rightarrow> rp_event \<Rightarrow> resource_pool \<Rightarrow> bool" for L where
  gets_free: "thread_at s t lp RpIdle \<Longrightarrow> take_free lp = Some (i, lp') \<Longrightarrow>
    rp_step L s (RpGot i) (hand_out i (put_thread t lp' RpIdle s))"
| no_free: "thread_at s t lp RpIdle \<Longrightarrow> take_free lp = None \<Longrightarrow> rp_step L s RpTau (put_thread t lp RpPop s)"
| pops: "thread_at s t lp RpPop \<Longrightarrow> pop_free_chunk (rp_free_chunks s) lp = Some (cs, lp1) \<Longrightarrow> take_free lp1 = Some (i, lp') \<Longrightarrow>
    rp_step L s (RpGot i) (hand_out i (put_thread t lp' RpIdle (s\<lparr>rp_free_chunks := cs\<rparr>)))"
| no_chunk: "thread_at s t lp RpPop \<Longrightarrow> pop_free_chunk (rp_free_chunks s) lp = None \<Longrightarrow>
    rp_step L s RpTau (put_thread t lp RpLocal s)"
| gets_item: "thread_at s t lp pc \<Longrightarrow> pc = RpLocal \<and> block_has_room L lp (rp_nitems s) \<or> pc = RpConstruct \<Longrightarrow>
    construct_item L True lp (rp_nitems s) = Some (Some i, ns) \<Longrightarrow>
    rp_step L s (RpGot i) (hand_out i (put_thread t lp RpIdle (s\<lparr>rp_nitems := ns\<rparr>)))"
| invalid_item: "thread_at s t lp pc \<Longrightarrow> pc = RpLocal \<and> block_has_room L lp (rp_nitems s) \<or> pc = RpConstruct \<Longrightarrow>
    rp_step L s RpTau (put_thread t lp RpIdle s)"
| new_block: "thread_at s t lp RpLocal \<Longrightarrow> \<not> block_has_room L lp (rp_nitems s) \<Longrightarrow>
    rp_step L s RpTau (put_thread t lp (RpLoad (length (rp_nitems s))) (s\<lparr>rp_nitems := rp_nitems s @ [0]\<rparr>))"
| no_new_block: "thread_at s t lp RpLocal \<Longrightarrow> \<not> block_has_room L lp (rp_nitems s) \<Longrightarrow>
    rp_step L s RpTau (put_thread t (lp\<lparr>lp_cur_block := None\<rparr>) RpIdle s)"
| loads: "thread_at s t lp (RpLoad b) \<Longrightarrow> n = length (rp_groups s) \<Longrightarrow>
    rp_step L s RpTau (put_thread t lp (if n \<ge> 1 then RpAdd b n else RpGroup b n) s)"
| adds: "thread_at s t lp (RpAdd b n) \<Longrightarrow> nth_opt (rp_groups s) (n - 1) = Some g \<Longrightarrow>
    rp_step L s RpTau (put_thread t lp (if bg_nblock g < RP_GROUP_NBLOCK L then RpStore b n (bg_nblock g) else RpSub b n)
      (put_nblock (n - 1) (bg_nblock g + 1) s))"
| stores: "thread_at s t lp (RpStore b n j) \<Longrightarrow>
    rp_step L s RpTau (put_thread t (lp\<lparr>lp_cur_block := Some b, lp_cur_block_index := (n - 1) * RP_GROUP_NBLOCK L + j\<rparr>) RpConstruct
      (put_block (n - 1) j b s))"
| subtracts: "thread_at s t lp (RpSub b n) \<Longrightarrow> nth_opt (rp_groups s) (n - 1) = Some g \<Longrightarrow>
    rp_step L s RpTau (put_thread t lp (RpGroup b n) (put_nblock (n - 1) (bg_nblock g - 1) s))"
| adds_group: "thread_at s t lp (RpGroup b n) \<Longrightarrow> add_block_group L alloc n (rp_groups s) = (True, gs) \<Longrightarrow>
    rp_step L s RpTau (put_thread t lp (RpLoad b) (s\<lparr>rp_groups := gs\<rparr>))"
| no_group: "thread_at s t lp (RpGroup b n) \<Longrightarrow> add_block_group L alloc n (rp_groups s) = (False, gs) \<Longrightarrow>
    rp_step L s RpTau (put_thread t (lp\<lparr>lp_cur_block := None\<rparr>) RpIdle (s\<lparr>rp_groups := gs\<rparr>))"
| returns: "thread_at s t lp RpIdle \<Longrightarrow> i \<in> rp_used s \<Longrightarrow> return_resource L pushed i (rp_free_chunks s) lp = (0, cs, lp') \<Longrightarrow>
    rp_step L s (RpReturned i) (put_thread t lp' RpIdle (s\<lparr>rp_free_chunks := cs, rp_used := rp_used s - {i}\<rparr>))"
| fails_to_return: "thread_at s t lp RpIdle \<Longrightarrow> i \<in> rp_used s \<Longrightarrow>
    return_resource L pushed i (rp_free_chunks s) lp = (-1, cs, lp') \<Longrightarrow>
    rp_step L s RpTau (put_thread t lp' RpIdle (s\<lparr>rp_free_chunks := cs\<rparr>))"

inductive rp_run :: "rp_limits \<Rightarrow> resource_pool \<Rightarrow> rp_event list \<Rightarrow> resource_pool \<Rightarrow> bool" for L where
  rp_stays: "rp_run L s [] s"
| rp_goes: "rp_run L s es u \<Longrightarrow> rp_step L u e s' \<Longrightarrow> rp_run L s (es @ [e]) s'"

text \<open>At the start there is nothing, and the threads have no local pool yet.\<close>

definition rp_start :: "nat \<Rightarrow> resource_pool" where
  "rp_start n = \<lparr>rp_groups = [], rp_nitems = [], rp_free_chunks = [],
     rp_threads = replicate n \<lparr>th_pool = \<lparr>lp_cur_block = None, lp_cur_block_index = 0, lp_cur_free = []\<rparr>, th_pc = RpIdle\<rparr>,
     rp_used = {}\<rparr>"

section \<open>The slots of the block groups\<close>

definition pc_at :: "resource_pool \<Rightarrow> nat \<Rightarrow> rp_pc option" where
  "pc_at s t = map_option th_pc (nth_opt (rp_threads s) t)"

definition lp_at :: "resource_pool \<Rightarrow> nat \<Rightarrow> local_pool option" where
  "lp_at s t = map_option th_pool (nth_opt (rp_threads s) t)"

definition stored :: "resource_pool \<Rightarrow> nat \<Rightarrow> nat \<Rightarrow> nat \<Rightarrow> bool" where
  "stored s k j b \<longleftrightarrow> (\<exists>g. nth_opt (rp_groups s) k = Some g \<and> bg_blocks g j = Some b)"

lemma put_thread_sel [simp]:
  "rp_groups (put_thread t lp pc s) = rp_groups s" "rp_nitems (put_thread t lp pc s) = rp_nitems s"
  "rp_free_chunks (put_thread t lp pc s) = rp_free_chunks s" "rp_used (put_thread t lp pc s) = rp_used s"
  "rp_threads (put_thread t lp pc s) = (rp_threads s)[t := \<lparr>th_pool = lp, th_pc = pc\<rparr>]"
  by (simp_all add: put_thread_def)

lemma put_group_sel [simp]:
  "rp_threads (put_nblock k n s) = rp_threads s" "rp_nitems (put_nblock k n s) = rp_nitems s"
  "rp_free_chunks (put_nblock k n s) = rp_free_chunks s" "rp_used (put_nblock k n s) = rp_used s"
  "rp_groups (put_nblock k n s) = (rp_groups s)[k := (rp_groups s ! k)\<lparr>bg_nblock := n\<rparr>]"
  "rp_threads (put_block k j b s) = rp_threads s" "rp_nitems (put_block k j b s) = rp_nitems s"
  "rp_free_chunks (put_block k j b s) = rp_free_chunks s" "rp_used (put_block k j b s) = rp_used s"
  "rp_groups (put_block k j b s) =
     (rp_groups s)[k := (rp_groups s ! k)\<lparr>bg_blocks := (bg_blocks (rp_groups s ! k))(j \<mapsto> b)\<rparr>]"
  by (simp_all add: put_nblock_def put_block_def)

lemma hand_out_sel [simp]:
  "rp_groups (hand_out i s) = rp_groups s" "rp_nitems (hand_out i s) = rp_nitems s"
  "rp_free_chunks (hand_out i s) = rp_free_chunks s" "rp_used (hand_out i s) = insert i (rp_used s)"
  "rp_threads (hand_out i s) = rp_threads s"
  by (simp_all add: hand_out_def)

text \<open>
  Each index of a block group is given to one thread only: \<open>nblock\<close> is the number of indices given so far and of the
  threads that are about to take back their addition, of which there are none before all indices are given.
\<close>

definition subtracting :: "nat \<Rightarrow> rp_thread list \<Rightarrow> nat" where
  "subtracting k ts = size (msum (\<lambda>th. if \<exists>b. th_pc th = RpSub b (Suc k) then {#()#} else {#}) ts)"

definition slots_given :: "rp_limits \<Rightarrow> rp_thread list \<Rightarrow> nat \<Rightarrow> block_group \<Rightarrow> nat \<Rightarrow> bool" where
  "slots_given L ts k g c \<longleftrightarrow> c \<le> RP_GROUP_NBLOCK L \<and> bg_nblock g = c + subtracting k ts
     \<and> (0 < subtracting k ts \<longrightarrow> c = RP_GROUP_NBLOCK L)
     \<and> (\<forall>j. bg_blocks g j \<noteq> None \<longrightarrow> j < c)
     \<and> (\<forall>t th b j. nth_opt ts t = Some th \<longrightarrow> th_pc th = RpStore b (Suc k) j \<longrightarrow> j < c \<and> bg_blocks g j = None)"

definition pc_in_range :: "resource_pool \<Rightarrow> rp_pc \<Rightarrow> bool" where
  "pc_in_range s pc \<longleftrightarrow> (\<forall>b n j. pc = RpAdd b n \<or> pc = RpSub b n \<or> pc = RpStore b n j \<longrightarrow> 1 \<le> n \<and> n \<le> length (rp_groups s))"

definition slots_ok :: "rp_limits \<Rightarrow> resource_pool \<Rightarrow> bool" where
  "slots_ok L s \<longleftrightarrow> (\<forall>k g. nth_opt (rp_groups s) k = Some g \<longrightarrow> (\<exists>c. slots_given L (rp_threads s) k g c))
     \<and> (\<forall>t pc. pc_at s t = Some pc \<longrightarrow> pc_in_range s pc)
     \<and> (\<forall>t u n j b b'. pc_at s t = Some (RpStore b n j) \<longrightarrow> pc_at s u = Some (RpStore b' n j) \<longrightarrow> t = u)"

lemma subtracting_update:
  assumes "nth_opt ts t = Some th"
  shows "subtracting k (ts[t := th']) + (if \<exists>b. th_pc th = RpSub b (Suc k) then 1 else 0) =
    subtracting k ts + (if \<exists>b. th_pc th' = RpSub b (Suc k) then 1 else 0)"
proof -
  let ?f = "\<lambda>th. if \<exists>b. th_pc th = RpSub b (Suc k) then {#()#} else {#}"
  have "msum ?f (ts[t := th']) + ?f th = msum ?f ts + ?f th'"
    using msum_update [of t ts ?f th'] assms by (simp add: nth_opt_Some)
  from arg_cong [OF this, of size] show ?thesis unfolding subtracting_def by (simp split: if_splits)
qed

text \<open>A thread that gets no index and gives none back.\<close>

lemma slots_given_update:
  assumes "nth_opt ts t = Some th" and "\<And>b. th_pc th \<noteq> RpSub b (Suc k)" and "\<And>b. th_pc th' \<noteq> RpSub b (Suc k)"
    and "\<And>b j. th_pc th' \<noteq> RpStore b (Suc k) j" and "slots_given L ts k g c"
  shows "slots_given L (ts[t := th']) k g c"
proof -
  have "subtracting k (ts[t := th']) = subtracting k ts" using subtracting_update [OF assms(1), of k th'] assms(2,3) by simp
  moreover have "nth_opt ts u = Some th''" if "nth_opt (ts[t := th']) u = Some th''" "th_pc th'' = RpStore b (Suc k) j" for u th'' b j
    using that assms(4) by (auto split: if_splits)
  ultimately show ?thesis using assms(5) unfolding slots_given_def by metis
qed

lemma slots_ok_put_thread:
  assumes "slots_ok L s" and "thread_at s t lp0 pc0" and "\<And>b n. pc0 \<noteq> RpSub b n"
    and "\<And>b n. pc \<noteq> RpSub b n" and "\<And>b n j. pc \<noteq> RpStore b n j" and "pc_in_range s pc"
  shows "slots_ok L (put_thread t lp pc s)"
  unfolding slots_ok_def
proof (intro conjI allI impI)
  fix k g assume "nth_opt (rp_groups (put_thread t lp pc s)) k = Some g"
  then obtain c where "slots_given L (rp_threads s) k g c" using assms(1) unfolding slots_ok_def put_thread_sel by blast
  then have "slots_given L ((rp_threads s)[t := \<lparr>th_pool = lp, th_pc = pc\<rparr>]) k g c"
    by (intro slots_given_update [OF assms(2)]) (simp_all add: assms(3-5))
  then show "\<exists>c. slots_given L (rp_threads (put_thread t lp pc s)) k g c" by auto
next
  fix u pc' assume "pc_at (put_thread t lp pc s) u = Some pc'"
  then have "pc_at s u = Some pc' \<or> pc' = pc" by (auto simp: pc_at_def split: if_splits)
  then have "pc_in_range s pc'" using assms(1,6) by (auto simp: slots_ok_def)
  then show "pc_in_range (put_thread t lp pc s) pc'" by (simp add: pc_in_range_def)
next
  fix a u n j b b'
  assume "pc_at (put_thread t lp pc s) a = Some (RpStore b n j)" "pc_at (put_thread t lp pc s) u = Some (RpStore b' n j)"
  then have "pc_at s a = Some (RpStore b n j)" "pc_at s u = Some (RpStore b' n j)"
    using assms(5) by (auto simp: pc_at_def split: if_splits)
  then show "a = u" using assms(1) unfolding slots_ok_def by blast
qed

lemma slots_ok_cong:
  assumes "rp_groups s' = rp_groups s" and "rp_threads s' = rp_threads s"
  shows "slots_ok L s' = slots_ok L s"
  using assms by (simp add: slots_ok_def pc_at_def pc_in_range_def)

lemma slots_okI:
  assumes "\<And>k g. nth_opt (rp_groups s) k = Some g \<Longrightarrow> \<exists>c. slots_given L (rp_threads s) k g c"
    and "\<And>t pc. pc_at s t = Some pc \<Longrightarrow> pc_in_range s pc"
    and "\<And>t u n j b b'. pc_at s t = Some (RpStore b n j) \<Longrightarrow> pc_at s u = Some (RpStore b' n j) \<Longrightarrow> t = u"
  shows "slots_ok L s"
  using assms unfolding slots_ok_def by blast

lemma slots_okD:
  assumes "slots_ok L s"
  shows "nth_opt (rp_groups s) k = Some g \<Longrightarrow> \<exists>c. slots_given L (rp_threads s) k g c"
    and "pc_at s t = Some pc \<Longrightarrow> pc_in_range s pc"
    and "pc_at s t = Some (RpStore b n j) \<Longrightarrow> pc_at s u = Some (RpStore b' n j) \<Longrightarrow> t = u"
  using assms unfolding slots_ok_def by blast+

lemma slots_givenD:
  assumes "slots_given L ts k g c"
  shows "c \<le> RP_GROUP_NBLOCK L" "bg_nblock g = c + subtracting k ts" "0 < subtracting k ts \<Longrightarrow> c = RP_GROUP_NBLOCK L"
    "bg_blocks g j \<noteq> None \<Longrightarrow> j < c"
    "nth_opt ts t = Some th \<Longrightarrow> th_pc th = RpStore b (Suc k) j \<Longrightarrow> j < c \<and> bg_blocks g j = None"
  using assms unfolding slots_given_def by blast+

text \<open>The addition to \<open>nblock\<close>.\<close>

lemma slots_ok_adds:
  assumes "slots_ok L s" and at: "thread_at s t lp (RpAdd b n)" and g: "nth_opt (rp_groups s) (n - 1) = Some g"
  shows "slots_ok L (put_thread t lp (if bg_nblock g < RP_GROUP_NBLOCK L then RpStore b n (bg_nblock g) else RpSub b n)
      (put_nblock (n - 1) (bg_nblock g + 1) s))" (is "slots_ok L (put_thread t lp ?pc ?s)")
proof -
  have "pc_at s t = Some (RpAdd b n)" using at by (simp add: pc_at_def)
  then have n: "1 \<le> n" "n \<le> length (rp_groups s)" using slots_okD(2) [OF assms(1)] by (auto simp: pc_in_range_def)
  obtain c where c: "slots_given L (rp_threads s) (n - 1) g c" using slots_okD(1) [OF assms(1) g] by blast
  note cD = slots_givenD [OF c]
  have old: "\<And>b' n' j. RpAdd b n \<noteq> RpStore b' n' j" "\<And>b' n'. RpAdd b n \<noteq> RpSub b' n'" by simp_all
  have upd: "subtracting k ((rp_threads s)[t := \<lparr>th_pool = lp, th_pc = ?pc\<rparr>]) =
      subtracting k (rp_threads s) + (if \<exists>b. ?pc = RpSub b (Suc k) then 1 else 0)" for k
    using subtracting_update [OF at, of k "\<lparr>th_pool = lp, th_pc = ?pc\<rparr>"] by simp
  have full: "c = RP_GROUP_NBLOCK L" if "\<not> bg_nblock g < RP_GROUP_NBLOCK L" using that cD(1-3) by (cases "subtracting (n - 1) (rp_threads s)") auto
  have room: "c = bg_nblock g" "subtracting (n - 1) (rp_threads s) = 0" if "bg_nblock g < RP_GROUP_NBLOCK L"
    using that cD(1-3) by auto
  show ?thesis
  proof (rule slots_okI, goal_cases)
    case (1 k h)
    show ?case
    proof (cases "k = n - 1")
      case False
      then have h: "nth_opt (rp_groups s) k = Some h" using 1 by simp
      then obtain d where "slots_given L (rp_threads s) k h d" using slots_okD(1) [OF assms(1)] by blast
      then have "slots_given L ((rp_threads s)[t := \<lparr>th_pool = lp, th_pc = ?pc\<rparr>]) k h d"
        by (rule slots_given_update [OF at, rotated -1]) (use False n in auto)
      then show ?thesis by auto
    next
      case True
      then have h: "h = g\<lparr>bg_nblock := bg_nblock g + 1\<rparr>" using 1 g by (auto simp: nth_opt_Some)
      let ?c = "if bg_nblock g < RP_GROUP_NBLOCK L then c + 1 else c"
      have nb: "?c \<le> RP_GROUP_NBLOCK L" "bg_nblock h = ?c + subtracting k ((rp_threads s)[t := \<lparr>th_pool = lp, th_pc = ?pc\<rparr>])"
        using True n cD(2) room full upd [of k] h by auto
      moreover have "?c = RP_GROUP_NBLOCK L" if "0 < subtracting k ((rp_threads s)[t := \<lparr>th_pool = lp, th_pc = ?pc\<rparr>])"
        using that upd [of k] room(2) full True by (cases "bg_nblock g < RP_GROUP_NBLOCK L") auto
      moreover have "j < ?c" if "bg_blocks h j \<noteq> None" for j using cD(4) [of j] that h by auto
      moreover have "j < ?c \<and> bg_blocks h j = None"
        if "nth_opt ((rp_threads s)[t := \<lparr>th_pool = lp, th_pc = ?pc\<rparr>]) u = Some th" "th_pc th = RpStore b' (Suc k) j" for u th b' j
      proof (cases "u = t")
        case False
        then show ?thesis using that cD(5) [of u th b' j] True h n by auto
      next
        case True
        then have "bg_nblock g < RP_GROUP_NBLOCK L" "j = c" using that at room(1) by (auto simp: nth_opt_Some split: if_splits)
        then show ?thesis using cD(4) [of c] h by (cases "bg_blocks g c") auto
      qed
      ultimately have "slots_given L ((rp_threads s)[t := \<lparr>th_pool = lp, th_pc = ?pc\<rparr>]) k h ?c"
        unfolding slots_given_def by blast
      then show ?thesis by auto
    qed
  next
    case (2 u pc)
    then have "pc = ?pc \<or> pc_at s u = Some pc" by (auto simp: pc_at_def split: if_splits)
    then have "pc_in_range s pc" using slots_okD(2) [OF assms(1), of u pc] n by (auto simp: pc_in_range_def split: if_splits)
    then show ?case by (simp add: pc_in_range_def)
  next
    case (3 u v n' j x x')
    have other: "\<not> (bg_nblock g < RP_GROUP_NBLOCK L \<and> pc_at s w = Some (RpStore y n (bg_nblock g)))" for w y
      using cD(5) [of w _ y "bg_nblock g"] room(1) n by (auto simp: pc_at_def)
    have pcs: "pc_at (put_thread t lp ?pc ?s) w = (if w = t then Some ?pc else pc_at s w)" for w
      using at by (auto simp: pc_at_def nth_opt_Some)
    show ?case
      using 3 other slots_okD(3) [OF assms(1), of u x n' j v x'] unfolding pcs by (auto split: if_splits)
  qed
qed

text \<open>The store of the new block, the subtraction, and the new group.\<close>

lemma slots_ok_stores:
  assumes "slots_ok L s" and at: "thread_at s t lp (RpStore b n j)"
  shows "slots_ok L (put_thread t lp' RpConstruct (put_block (n - 1) j b s))"
proof -
  have pc: "pc_at s t = Some (RpStore b n j)" using at by (simp add: pc_at_def)
  then have n: "1 \<le> n" "n \<le> length (rp_groups s)" using slots_okD(2) [OF assms(1)] by (auto simp: pc_in_range_def)
  let ?ts = "(rp_threads s)[t := \<lparr>th_pool = lp', th_pc = RpConstruct\<rparr>]"
  show ?thesis
  proof (rule slots_okI, goal_cases)
    case (1 k h)
    show ?case
    proof (cases "k = n - 1")
      case False
      then have "nth_opt (rp_groups s) k = Some h" using 1 by simp
      then obtain d where "slots_given L (rp_threads s) k h d" using slots_okD(1) [OF assms(1)] by blast
      then have "slots_given L ?ts k h d" by (intro slots_given_update [OF at]) simp_all
      then show ?thesis by auto
    next
      case True
      define g where "g = rp_groups s ! k"
      moreover have "n - 1 < length (rp_groups s)" using n by linarith
      ultimately have g: "nth_opt (rp_groups s) k = Some g" and h: "h = g\<lparr>bg_blocks := (bg_blocks g)(j \<mapsto> b)\<rparr>"
        using 1 True n by (auto simp: nth_opt_Some)
      obtain c where c: "slots_given L (rp_threads s) k g c" using slots_okD(1) [OF assms(1) g] by blast
      have jc: "j < c" using slots_givenD(5) [OF c at] True n by simp
      from c have "slots_given L ?ts k g c" by (intro slots_given_update [OF at]) simp_all
      note cD = slots_givenD [OF this]
      have "i < c \<and> bg_blocks h i = None" if "nth_opt ?ts u = Some th" "th_pc th = RpStore b' (Suc k) i" for u th b' i
      proof -
        have "t < length (rp_threads s)" using at by (simp add: nth_opt_Some)
        then have "u \<noteq> t" "pc_at s u = Some (RpStore b' n i)" using that True n by (auto simp: pc_at_def split: if_splits)
        then have "i \<noteq> j" using slots_okD(3) [OF assms(1) pc, of u b'] by auto
        then show ?thesis using cD(5) [OF that] h by simp
      qed
      moreover have "i < c" if "bg_blocks h i \<noteq> None" for i using that cD(4) [of i] h jc by (auto split: if_splits)
      ultimately have "slots_given L ?ts k h c" using cD(1-3) h unfolding slots_given_def by auto
      then show ?thesis by auto
    qed
  next
    case (2 u pc')
    then have "pc' = RpConstruct \<or> pc_at s u = Some pc'" by (auto simp: pc_at_def split: if_splits)
    then have "pc_in_range s pc'" using slots_okD(2) [OF assms(1), of u pc'] by (auto simp: pc_in_range_def)
    then show ?case by (simp add: pc_in_range_def)
  next
    case (3 u v n' i x x')
    then have "pc_at s u = Some (RpStore x n' i)" "pc_at s v = Some (RpStore x' n' i)"
      by (auto simp: pc_at_def split: if_splits)
    then show ?case by (rule slots_okD(3) [OF assms(1)])
  qed
qed

lemma slots_ok_subtracts:
  assumes "slots_ok L s" and at: "thread_at s t lp (RpSub b n)" and g: "nth_opt (rp_groups s) (n - 1) = Some g"
  shows "slots_ok L (put_thread t lp (RpGroup b n) (put_nblock (n - 1) (bg_nblock g - 1) s))"
proof -
  have pc: "pc_at s t = Some (RpSub b n)" using at by (simp add: pc_at_def)
  then have n: "1 \<le> n" "n \<le> length (rp_groups s)" using slots_okD(2) [OF assms(1)] by (auto simp: pc_in_range_def)
  let ?ts = "(rp_threads s)[t := \<lparr>th_pool = lp, th_pc = RpGroup b n\<rparr>]"
  have upd: "subtracting k ?ts + (if n = Suc k then 1 else 0) = subtracting k (rp_threads s)" for k
    using subtracting_update [OF at, of k "\<lparr>th_pool = lp, th_pc = RpGroup b n\<rparr>"] by simp
  have threads: "nth_opt (rp_threads s) u = Some th" if "nth_opt ?ts u = Some th" "th_pc th = RpStore b' m i" for u th b' m i
    using that by (auto split: if_splits)
  show ?thesis
  proof (rule slots_okI, goal_cases)
    case (1 k h)
    show ?case
    proof (cases "k = n - 1")
      case False
      then have "nth_opt (rp_groups s) k = Some h" using 1 by simp
      then obtain d where "slots_given L (rp_threads s) k h d" using slots_okD(1) [OF assms(1)] by blast
      then have "slots_given L ?ts k h d" by (rule slots_given_update [OF at, rotated -1]) (use False n in auto)
      then show ?thesis by auto
    next
      case True
      then have h: "h = g\<lparr>bg_nblock := bg_nblock g - 1\<rparr>" using 1 g by (auto simp: nth_opt_Some)
      obtain c where c: "slots_given L (rp_threads s) k g c" using slots_okD(1) [OF assms(1) g] True by blast
      note cD = slots_givenD [OF c]
      have sub: "Suc (subtracting k ?ts) = subtracting k (rp_threads s)" using upd [of k] True n by simp
      then have "c = RP_GROUP_NBLOCK L" using cD(3) by simp
      moreover have "bg_nblock h = c + subtracting k ?ts" using cD(2) sub h by simp
      moreover have "j < c" if "bg_blocks h j \<noteq> None" for j using cD(4) [of j] that h by simp
      moreover have "j < c \<and> bg_blocks h j = None" if "nth_opt ?ts u = Some th" "th_pc th = RpStore b' (Suc k) j" for u th b' j
        using cD(5) [OF threads [OF that] that(2)] h by simp
      ultimately have "slots_given L ?ts k h c" unfolding slots_given_def by blast
      then show ?thesis by auto
    qed
  next
    case (2 u pc')
    then have "pc' = RpGroup b n \<or> pc_at s u = Some pc'" by (auto simp: pc_at_def split: if_splits)
    then have "pc_in_range s pc'" using slots_okD(2) [OF assms(1), of u pc'] by (auto simp: pc_in_range_def)
    then show ?case by (simp add: pc_in_range_def)
  next
    case (3 u v n' i x x')
    then have "pc_at s u = Some (RpStore x n' i)" "pc_at s v = Some (RpStore x' n' i)"
      by (auto simp: pc_at_def split: if_splits)
    then show ?case by (rule slots_okD(3) [OF assms(1)])
  qed
qed

lemma slots_ok_grow:
  assumes "slots_ok L s"
  shows "slots_ok L (s\<lparr>rp_groups := rp_groups s @ [\<lparr>bg_nblock = 0, bg_blocks = (\<lambda>_. None)\<rparr>]\<rparr>)" (is "slots_ok L ?s")
proof (rule slots_okI, goal_cases)
  case (1 k h)
  show ?case
  proof (cases "k < length (rp_groups s)")
    case True
    then have "nth_opt (rp_groups s) k = Some h" using 1 by (auto simp: nth_opt_Some nth_append)
    then show ?thesis using slots_okD(1) [OF assms] by simp
  next
    case False
    then have k1: "k = length (rp_groups s)" using 1 by (auto simp: nth_opt_Some)
    then have k: "k = length (rp_groups s)" "h = \<lparr>bg_nblock = 0, bg_blocks = (\<lambda>_. None)\<rparr>" using 1 by (simp_all add: nth_opt_Some)
    have no: "th_pc th \<noteq> RpSub b (Suc k) \<and> th_pc th \<noteq> RpStore b (Suc k) j" if "nth_opt (rp_threads s) u = Some th" for u th b j
      using slots_okD(2) [OF assms, of u "th_pc th"] that k(1) by (auto simp: pc_at_def pc_in_range_def)
    then have "th_pc th \<noteq> RpSub b (Suc k)" if "th \<in> set (rp_threads s)" for th b
      using that by (metis in_set_conv_nth nth_opt_Some)
    then have "subtracting k (rp_threads s) = 0" unfolding subtracting_def
      by (subst msum_cong [of _ _ "\<lambda>_. {#}"]) (auto simp: msum_def)
    then have "slots_given L (rp_threads s) k h 0" using no by (auto simp: slots_given_def k(2))
    then show ?thesis by auto
  qed
next
  case (2 u pc')
  then have "pc_in_range s pc'" using slots_okD(2) [OF assms, of u pc'] by (simp add: pc_at_def)
  then show ?case by (auto simp: pc_in_range_def)
next
  case (3 u v n' i x x')
  then show ?case using slots_okD(3) [OF assms, of u x n' i v x'] by (simp add: pc_at_def)
qed

section \<open>The blocks\<close>

fun held :: "rp_pc \<Rightarrow> nat option" where
  "held (RpLoad b) = Some b"
| "held (RpAdd b n) = Some b"
| "held (RpStore b n j) = Some b"
| "held (RpSub b n) = Some b"
| "held (RpGroup b n) = Some b"
| "held _ = None"

text \<open>The blocks of a thread: its current one, and the new one that is not stored yet.\<close>

definition owned :: "rp_thread \<Rightarrow> nat set" where
  "owned th = set_option (lp_cur_block (th_pool th)) \<union> set_option (held (th_pc th))"

definition thread_blocks_ok :: "rp_limits \<Rightarrow> resource_pool \<Rightarrow> rp_thread \<Rightarrow> bool" where
  "thread_blocks_ok L s th \<longleftrightarrow>
     (\<forall>b. held (th_pc th) = Some b \<longrightarrow> b < length (rp_nitems s) \<and> rp_nitems s ! b = 0 \<and> (\<forall>k j. \<not> stored s k j b))
   \<and> (\<forall>b. lp_cur_block (th_pool th) = Some b \<longrightarrow>
        stored s (lp_cur_block_index (th_pool th) div RP_GROUP_NBLOCK L) (lp_cur_block_index (th_pool th) mod RP_GROUP_NBLOCK L) b)
   \<and> (th_pc th = RpConstruct \<longrightarrow> (\<exists>b. lp_cur_block (th_pool th) = Some b \<and> rp_nitems s ! b = 0))"

definition blocks_ok :: "rp_limits \<Rightarrow> resource_pool \<Rightarrow> bool" where
  "blocks_ok L s \<longleftrightarrow>
     (\<forall>k j b. stored s k j b \<longrightarrow> b < length (rp_nitems s))
   \<and> (\<forall>k j k' j' b. stored s k j b \<longrightarrow> stored s k' j' b \<longrightarrow> k = k' \<and> j = j')
   \<and> (\<forall>t th. nth_opt (rp_threads s) t = Some th \<longrightarrow> thread_blocks_ok L s th)
   \<and> (\<forall>t u th uh. nth_opt (rp_threads s) t = Some th \<longrightarrow> nth_opt (rp_threads s) u = Some uh \<longrightarrow> t \<noteq> u \<longrightarrow>
        owned th \<inter> owned uh = {})"

lemma blocks_okD:
  assumes "blocks_ok L s"
  shows "stored s k j b \<Longrightarrow> b < length (rp_nitems s)"
    and "stored s k j b \<Longrightarrow> stored s k' j' b \<Longrightarrow> k = k' \<and> j = j'"
    and "nth_opt (rp_threads s) t = Some th \<Longrightarrow> thread_blocks_ok L s th"
    and "nth_opt (rp_threads s) t = Some th \<Longrightarrow> nth_opt (rp_threads s) u = Some uh \<Longrightarrow> t \<noteq> u \<Longrightarrow> owned th \<inter> owned uh = {}"
  using assms unfolding blocks_ok_def by blast+

text \<open>A step of thread \<open>t\<close> that changes what is stored and the blocks only as the others can stand.\<close>

lemma blocks_ok_step:
  assumes "blocks_ok L s" and at: "nth_opt (rp_threads s) t = Some th" and "rp_threads s' = (rp_threads s)[t := th']"
    and "\<And>k j b. stored s' k j b \<Longrightarrow> b < length (rp_nitems s')"
    and "\<And>k j k' j' b. stored s' k j b \<Longrightarrow> stored s' k' j' b \<Longrightarrow> k = k' \<and> j = j'"
    and "\<And>u uh. u \<noteq> t \<Longrightarrow> nth_opt (rp_threads s) u = Some uh \<Longrightarrow> thread_blocks_ok L s uh \<Longrightarrow> owned uh \<inter> owned th = {} \<Longrightarrow>
      thread_blocks_ok L s' uh \<and> owned uh \<inter> owned th' = {}"
    and "thread_blocks_ok L s' th'"
  shows "blocks_ok L s'"
  unfolding blocks_ok_def
proof (intro conjI allI impI)
  note D = blocks_okD [OF assms(1)]
  have others: "thread_blocks_ok L s' uh \<and> owned uh \<inter> owned th' = {}" if "u \<noteq> t" "nth_opt (rp_threads s) u = Some uh" for u uh
    using assms(6) [OF that] D(3) [OF that(2)] D(4) [OF that(2) at that(1)] by blast
  show "stored s' k j b \<Longrightarrow> b < length (rp_nitems s')" for k j b by (rule assms(4))
  show "stored s' k j b \<Longrightarrow> stored s' k' j' b \<Longrightarrow> k = k'" "stored s' k j b \<Longrightarrow> stored s' k' j' b \<Longrightarrow> j = j'" for k j k' j' b
    using assms(5) by blast+
  show "thread_blocks_ok L s' uh" if "nth_opt (rp_threads s') u = Some uh" for u uh
    using that others [of u uh] assms(3,7) at by (auto simp: nth_opt_Some nth_list_update split: if_splits)
  show "owned ah \<inter> owned uh = {}" if "nth_opt (rp_threads s') a = Some ah" "nth_opt (rp_threads s') u = Some uh" "a \<noteq> u" for a u ah uh
  proof -
    have two: "(if a = t then ah = th' else nth_opt (rp_threads s) a = Some ah)"
      "(if u = t then uh = th' else nth_opt (rp_threads s) u = Some uh)"
      using that(1,2) assms(3) at by (auto simp: nth_opt_Some nth_list_update split: if_splits)
    show ?thesis
    proof (cases "a = t \<or> u = t")
      case True
      then show ?thesis using two others [of u uh] others [of a ah] that(3) by auto
    next
      case False
      then show ?thesis using two D(4) [OF _ _ that(3)] by simp
    qed
  qed
qed

lemma thread_blocks_ok_cong:
  assumes "\<And>k j b. stored s' k j b = stored s k j b" and "rp_nitems s' = rp_nitems s"
  shows "thread_blocks_ok L s' th = thread_blocks_ok L s th"
  by (simp add: thread_blocks_ok_def assms)

text \<open>A step that stores nothing and leaves the blocks alone, after which the thread owns no more than before.\<close>

lemma blocks_ok_same:
  assumes "blocks_ok L s" and "nth_opt (rp_threads s) t = Some th" and "rp_threads s' = (rp_threads s)[t := th']"
    and "\<And>k j b. stored s' k j b = stored s k j b" and "rp_nitems s' = rp_nitems s"
    and "owned th' \<subseteq> owned th" and "thread_blocks_ok L s th \<Longrightarrow> thread_blocks_ok L s th'"
  shows "blocks_ok L s'"
proof (rule blocks_ok_step [OF assms(1-3)])
  note D = blocks_okD [OF assms(1)] and cong = thread_blocks_ok_cong [OF assms(4,5)]
  show "thread_blocks_ok L s' th'" unfolding cong by (rule assms(7) [OF D(3) [OF assms(2)]])
  show "thread_blocks_ok L s' uh \<and> owned uh \<inter> owned th' = {}"
    if "thread_blocks_ok L s uh" "owned uh \<inter> owned th = {}" for uh
    using that assms(6) unfolding cong by blast
  show "stored s' k j b \<Longrightarrow> b < length (rp_nitems s')" for k j b unfolding assms(4,5) by (rule D(1))
  show "stored s' k j b \<Longrightarrow> stored s' k' j' b \<Longrightarrow> k = k' \<and> j = j'" for k j k' j' b unfolding assms(4) by (rule D(2))
qed

lemma stored_simps [simp]:
  "stored (put_thread t lp pc s) = stored s" "stored (hand_out i s) = stored s" "stored (s\<lparr>rp_free_chunks := cs\<rparr>) = stored s"
  "stored (s\<lparr>rp_nitems := ns\<rparr>) = stored s" "stored (s\<lparr>rp_used := us\<rparr>) = stored s"
  by (simp_all add: stored_def fun_eq_iff)

lemma stored_put_nblock [simp]: "stored (put_nblock k n s) = stored s"
  by (auto simp: stored_def fun_eq_iff nth_opt_Some nth_list_update)

lemma stored_put_block:
  "k < length (rp_groups s) \<Longrightarrow>
   stored (put_block k j b s) k' j' b' = (if k' = k \<and> j' = j then b' = b else stored s k' j' b')"
  by (auto simp: stored_def nth_opt_Some nth_list_update)

lemma stored_grow [simp]: "stored (s\<lparr>rp_groups := rp_groups s @ [\<lparr>bg_nblock = n, bg_blocks = (\<lambda>_. None)\<rparr>]\<rparr>) = stored s"
  by (auto simp: stored_def fun_eq_iff nth_opt_Some nth_append less_Suc_eq)

lemma slot_of_store:
  assumes "slots_ok L s" and at: "thread_at s t lp (RpStore b n j)"
  shows "n - 1 < length (rp_groups s)" "j < RP_GROUP_NBLOCK L" "\<not> stored s (n - 1) j x"
proof -
  have "pc_at s t = Some (RpStore b n j)" using at by (simp add: pc_at_def)
  then have "1 \<le> n" "n \<le> length (rp_groups s)" using slots_okD(2) [OF assms(1)] by (auto simp: pc_in_range_def)
  then have n: "Suc (n - 1) = n" "n - 1 < length (rp_groups s)" by linarith+
  then obtain g c where g: "nth_opt (rp_groups s) (n - 1) = Some g" and c: "slots_given L (rp_threads s) (n - 1) g c"
    using slots_okD(1) [OF assms(1)] by (metis nth_opt_def)
  have "j < c" "bg_blocks g j = None" using slots_givenD(5) [OF c at, of b j] n(1) by auto
  then show "n - 1 < length (rp_groups s)" "j < RP_GROUP_NBLOCK L" "\<not> stored s (n - 1) j x"
    using n(2) slots_givenD(1) [OF c] g by (simp_all add: stored_def)
qed

text \<open>The store of a new block, an item in the current block, and a new block.\<close>

lemma blocks_ok_stores:
  assumes "slots_ok L s" and "blocks_ok L s" and at: "thread_at s t lp (RpStore b n j)"
  shows "blocks_ok L (put_thread t (lp\<lparr>lp_cur_block := Some b, lp_cur_block_index := (n - 1) * RP_GROUP_NBLOCK L + j\<rparr>) RpConstruct
      (put_block (n - 1) j b s))" (is "blocks_ok L ?s")
proof -
  note n = slot_of_store(1) [OF assms(1) at] and j = slot_of_store(2) [OF assms(1) at] and free = slot_of_store(3) [OF assms(1) at]
  note st = stored_put_block [OF n, of j b] and D = blocks_okD [OF assms(2)]
  have mine: "b < length (rp_nitems s)" "rp_nitems s ! b = 0" "\<not> stored s k i b" for k i
    using D(3) [OF at] by (simp_all add: thread_blocks_ok_def)
  show ?thesis
  proof (rule blocks_ok_step [OF assms(2) at])
    show "stored ?s k i x \<Longrightarrow> x < length (rp_nitems ?s)" for k i x using D(1) [of k i x] mine(1) st by (auto split: if_splits)
    show "stored ?s k i x \<Longrightarrow> stored ?s k' i' x \<Longrightarrow> k = k' \<and> i = i'" for k i k' i' x
      using D(2) [of k i x k' i'] mine(3) st by (auto split: if_splits)
    show "thread_blocks_ok L ?s uh \<and> owned uh \<inter> owned \<lparr>th_pool = lp\<lparr>lp_cur_block := Some b,
        lp_cur_block_index := (n - 1) * RP_GROUP_NBLOCK L + j\<rparr>, th_pc = RpConstruct\<rparr> = {}"
      if "thread_blocks_ok L s uh" "owned uh \<inter> owned \<lparr>th_pool = lp, th_pc = RpStore b n j\<rparr> = {}" for uh
      using that free st by (auto simp: thread_blocks_ok_def owned_def)
    have "((n - 1) * RP_GROUP_NBLOCK L + j) div RP_GROUP_NBLOCK L = n - 1" "((n - 1) * RP_GROUP_NBLOCK L + j) mod RP_GROUP_NBLOCK L = j"
      using j by simp_all
    then show "thread_blocks_ok L ?s \<lparr>th_pool = lp\<lparr>lp_cur_block := Some b, lp_cur_block_index := (n - 1) * RP_GROUP_NBLOCK L + j\<rparr>,
        th_pc = RpConstruct\<rparr>"
      using mine(2) st by (simp add: thread_blocks_ok_def)
  qed simp
qed

lemma construct_itemD:
  assumes "construct_item L True lp ns = Some (Some i, ns')"
  obtains b where "lp_cur_block lp = Some b" "b < length ns" "i = lp_cur_block_index lp * BLOCK_NITEM L + ns ! b"
    "ns' = ns[b := ns ! b + 1]"
  using assms by (auto simp: construct_item_def bind_Some_conv nth_opt_Some)

lemma blocks_ok_item:
  assumes "blocks_ok L s" and at: "thread_at s t lp pc" and "construct_item L True lp (rp_nitems s) = Some (Some i, ns)"
  shows "blocks_ok L (put_thread t lp RpIdle (s\<lparr>rp_nitems := ns\<rparr>))" (is "blocks_ok L ?s")
proof -
  obtain b where b: "lp_cur_block lp = Some b" and ns: "ns = (rp_nitems s)[b := rp_nitems s ! b + 1]"
    by (rule construct_itemD [OF assms(3)])
  note D = blocks_okD [OF assms(1)]
  show ?thesis
  proof (rule blocks_ok_step [OF assms(1) at])
    show "stored ?s k j x \<Longrightarrow> x < length (rp_nitems ?s)" for k j x using D(1) [of k j x] ns by simp
    show "stored ?s k j x \<Longrightarrow> stored ?s k' j' x \<Longrightarrow> k = k' \<and> j = j'" for k j k' j' x using D(2) [of k j x k' j'] by simp
    show "thread_blocks_ok L ?s uh \<and> owned uh \<inter> owned \<lparr>th_pool = lp, th_pc = RpIdle\<rparr> = {}"
      if "thread_blocks_ok L s uh" "owned uh \<inter> owned \<lparr>th_pool = lp, th_pc = pc\<rparr> = {}" for uh
      using that b ns by (auto simp: thread_blocks_ok_def owned_def nth_list_update)
    show "thread_blocks_ok L ?s \<lparr>th_pool = lp, th_pc = RpIdle\<rparr>" using D(3) [OF at] by (simp add: thread_blocks_ok_def)
  qed simp
qed

lemma blocks_ok_new:
  assumes "blocks_ok L s" and at: "thread_at s t lp RpLocal"
  shows "blocks_ok L (put_thread t lp (RpLoad (length (rp_nitems s))) (s\<lparr>rp_nitems := rp_nitems s @ [0]\<rparr>))" (is "blocks_ok L ?s")
proof -
  note D = blocks_okD [OF assms(1)]
  have lt: "x < length (rp_nitems s)" if "thread_blocks_ok L s uh" "x \<in> owned uh" for x uh
    using that D(1) [of _ _ x] unfolding owned_def thread_blocks_ok_def by fastforce
  show ?thesis
  proof (rule blocks_ok_step [OF assms(1) at])
    show "stored ?s k j x \<Longrightarrow> x < length (rp_nitems ?s)" for k j x using D(1) [of k j x] by simp
    show "stored ?s k j x \<Longrightarrow> stored ?s k' j' x \<Longrightarrow> k = k' \<and> j = j'" for k j k' j' x using D(2) [of k j x k' j'] by simp
    show "thread_blocks_ok L ?s uh \<and> owned uh \<inter> owned \<lparr>th_pool = lp, th_pc = RpLoad (length (rp_nitems s))\<rparr> = {}"
      if uh: "thread_blocks_ok L s uh" and dis: "owned uh \<inter> owned \<lparr>th_pool = lp, th_pc = RpLocal\<rparr> = {}" for uh
    proof
      have "x < length (rp_nitems s)" if "lp_cur_block (th_pool uh) = Some x" for x
        by (rule lt [OF uh]) (simp add: owned_def that)
      then show "thread_blocks_ok L ?s uh" using uh by (auto simp: thread_blocks_ok_def nth_append)
      have "length (rp_nitems s) \<notin> owned uh" using lt [OF uh] by blast
      then show "owned uh \<inter> owned \<lparr>th_pool = lp, th_pc = RpLoad (length (rp_nitems s))\<rparr> = {}"
        using dis by (auto simp: owned_def)
    qed
    show "thread_blocks_ok L ?s \<lparr>th_pool = lp, th_pc = RpLoad (length (rp_nitems s))\<rparr>"
      using D(3) [OF at] D(1) by (auto simp: thread_blocks_ok_def)
  qed simp
qed

section \<open>The steps keep the slots and the blocks\<close>

lemma slots_ok_hand_out [simp]: "slots_ok L (hand_out i s) = slots_ok L s"
  by (rule slots_ok_cong) simp_all

lemma slots_ok_moves:
  assumes "slots_ok L s" and "rp_groups s0 = rp_groups s" and "rp_threads s0 = rp_threads s" and "thread_at s t lp0 pc0"
    and "\<And>b n. pc0 \<noteq> RpSub b n" and "\<And>b n. pc \<noteq> RpSub b n" and "\<And>b n j. pc \<noteq> RpStore b n j" and "pc_in_range s pc"
  shows "slots_ok L (put_thread t lp pc s0)"
proof (rule slots_ok_put_thread [OF _ _ assms(5-7)])
  show "slots_ok L s0" using assms(1) slots_ok_cong [OF assms(2,3)] by simp
  show "thread_at s0 t lp0 pc0" using assms(3,4) by simp
  show "pc_in_range s0 pc" using assms(2,8) by (simp add: pc_in_range_def)
qed

lemma add_block_groupD:
  "add_block_group L alloc n gs = (ok, gs') \<Longrightarrow>
   gs' = gs \<or> ok \<and> length gs < RP_MAX_BLOCK_NGROUP L \<and> gs' = gs @ [\<lparr>bg_nblock = 0, bg_blocks = (\<lambda>_. None)\<rparr>]"
  by (auto simp: add_block_group_def split: if_splits)

lemma slots_ok_add_group:
  assumes "slots_ok L s" and "add_block_group L alloc n (rp_groups s) = (ok, gs)"
  shows "slots_ok L (s\<lparr>rp_groups := gs\<rparr>)"
  using add_block_groupD [OF assms(2)] slots_ok_grow [OF assms(1)] assms(1) by auto

lemma slots_ok_step:
  assumes "rp_step L s e s'" and "slots_ok L s"
  shows "slots_ok L s'"
  using assms(1)
proof cases
  case (adds t lp b n g)
  then show ?thesis using slots_ok_adds [OF assms(2), of t lp b n g] by simp
next
  case (stores t lp b n j)
  then show ?thesis using slots_ok_stores [OF assms(2), of t lp b n j] by simp
next
  case (subtracts t lp b n g)
  then show ?thesis using slots_ok_subtracts [OF assms(2), of t lp b n g] by simp
next
  case (adds_group t lp b n alloc gs)
  then show ?thesis
    by (auto intro!: slots_ok_moves [OF slots_ok_add_group [OF assms(2)]] simp: pc_in_range_def)
next
  case (no_group t lp b n alloc gs)
  then show ?thesis
    by (auto intro!: slots_ok_moves [OF slots_ok_add_group [OF assms(2)]] simp: pc_in_range_def)
qed (auto intro!: slots_ok_moves [OF assms(2)] simp: pc_in_range_def)

lemma blocks_ok_hand_out [simp]: "blocks_ok L (hand_out i s) = blocks_ok L s"
  by (simp add: blocks_ok_def thread_blocks_ok_def)

lemma stored_add_group:
  "add_block_group L alloc n (rp_groups s) = (ok, gs) \<Longrightarrow> stored (s\<lparr>rp_groups := gs\<rparr>) = stored s"
  by (drule add_block_groupD) (elim disjE conjE; simp)

lemma take_freeD:
  "take_free lp = Some (i, lp') \<Longrightarrow> lp_cur_free lp = lp_cur_free lp' @ [i] \<and> lp' = lp\<lparr>lp_cur_free := lp_cur_free lp'\<rparr>"
  by (auto simp: take_free_def split: if_splits)

lemma lp_blocks_same:
  "take_free lp = Some (i, lp') \<Longrightarrow> lp_cur_block lp' = lp_cur_block lp"
  "take_free lp = Some (i, lp') \<Longrightarrow> lp_cur_block_index lp' = lp_cur_block_index lp"
  "pop_free_chunk cs lp = Some (cs', lp') \<Longrightarrow> lp_cur_block lp' = lp_cur_block lp"
  "pop_free_chunk cs lp = Some (cs', lp') \<Longrightarrow> lp_cur_block_index lp' = lp_cur_block_index lp"
  "return_resource L pushed i cs lp = (r, cs', lp') \<Longrightarrow> lp_cur_block lp' = lp_cur_block lp"
  "return_resource L pushed i cs lp = (r, cs', lp') \<Longrightarrow> lp_cur_block_index lp' = lp_cur_block_index lp"
  by (auto simp: take_free_def pop_free_chunk_def return_resource_def split: if_splits)

lemma blocks_ok_moves:
  assumes "blocks_ok L s" and "thread_at s t lp0 pc0"
    and "rp_threads s0 = rp_threads s" and "stored s0 = stored s" and "rp_nitems s0 = rp_nitems s"
    and "lp_cur_block lp = None \<or> lp_cur_block lp = lp_cur_block lp0 \<and> lp_cur_block_index lp = lp_cur_block_index lp0"
    and "held pc = None \<or> held pc = held pc0" and "pc \<noteq> RpConstruct"
  shows "blocks_ok L (put_thread t lp pc s0)"
proof (rule blocks_ok_same [OF assms(1,2)])
  show "owned \<lparr>th_pool = lp, th_pc = pc\<rparr> \<subseteq> owned \<lparr>th_pool = lp0, th_pc = pc0\<rparr>" using assms(6,7) by (auto simp: owned_def)
  show "thread_blocks_ok L s \<lparr>th_pool = lp, th_pc = pc\<rparr>" if "thread_blocks_ok L s \<lparr>th_pool = lp0, th_pc = pc0\<rparr>"
    using that assms(6-8) by (auto simp: thread_blocks_ok_def)
qed (simp_all add: assms(3-5))

lemma blocks_ok_rp_step:
  assumes "rp_step L s e s'" and "slots_ok L s" and "blocks_ok L s"
  shows "blocks_ok L s'"
  using assms(1)
proof cases
  case (gets_item t lp pc i ns)
  then show ?thesis using blocks_ok_item [OF assms(3), of t lp pc i ns] by simp
next
  case (new_block t lp)
  then show ?thesis using blocks_ok_new [OF assms(3), of t lp] by simp
next
  case (stores t lp b n j)
  then show ?thesis using blocks_ok_stores [OF assms(2,3), of t lp b n j] by simp
next
  case (adds_group t lp b n alloc gs)
  then show ?thesis by (auto intro!: blocks_ok_moves [OF assms(3)] simp: stored_add_group)
next
  case (no_group t lp b n alloc gs)
  then show ?thesis by (auto intro!: blocks_ok_moves [OF assms(3)] simp: stored_add_group)
qed (auto intro!: blocks_ok_moves [OF assms(3)] simp: lp_blocks_same)

section \<open>The identifiers\<close>

text \<open>
  The objects constructed so far are those of the items counted in the blocks that the groups hold.  Each of them is either in
  one list of free identifiers or used.
\<close>

definition constructed :: "rp_limits \<Rightarrow> resource_pool \<Rightarrow> nat \<Rightarrow> bool" where
  "constructed L s i \<longleftrightarrow> (\<exists>b. stored s (i div BLOCK_NITEM L div RP_GROUP_NBLOCK L) (i div BLOCK_NITEM L mod RP_GROUP_NBLOCK L) b
     \<and> i mod BLOCK_NITEM L < rp_nitems s ! b)"

definition rp_free :: "resource_pool \<Rightarrow> nat multiset" where
  "rp_free s = msum (\<lambda>th. mset (lp_cur_free (th_pool th))) (rp_threads s) + msum mset (rp_free_chunks s)"

definition ids_ok :: "rp_limits \<Rightarrow> resource_pool \<Rightarrow> bool" where
  "ids_ok L s \<longleftrightarrow> (\<forall>i. count (rp_free s) i + (if i \<in> rp_used s then 1 else 0) = (if constructed L s i then 1 else 0))"

text \<open>A list of free identifiers fits into its array, the lists in the global queue are full, and a list is overwritten only when it is empty.\<close>

definition free_lists_ok :: "rp_limits \<Rightarrow> resource_pool \<Rightarrow> bool" where
  "free_lists_ok L s \<longleftrightarrow> (\<forall>c\<in>set (rp_free_chunks s). length c = FREE_CHUNK_NITEM L)
     \<and> (\<forall>th\<in>set (rp_threads s). length (lp_cur_free (th_pool th)) \<le> FREE_CHUNK_NITEM L
         \<and> (th_pc th = RpPop \<longrightarrow> lp_cur_free (th_pool th) = []))"

definition items_ok :: "rp_limits \<Rightarrow> resource_pool \<Rightarrow> bool" where
  "items_ok L s \<longleftrightarrow> (\<forall>n\<in>set (rp_nitems s). n \<le> BLOCK_NITEM L)"

lemma constructed_cong:
  "stored s' = stored s \<Longrightarrow> rp_nitems s' = rp_nitems s \<Longrightarrow> constructed L s' = constructed L s"
  by (simp add: constructed_def fun_eq_iff)

lemma constructed_stores:
  assumes "slots_ok L s" and "blocks_ok L s" and at: "thread_at s t lp (RpStore b n j)"
  shows "constructed L (put_block (n - 1) j b s) i = constructed L s i"
proof -
  have "rp_nitems s ! b = 0" using blocks_okD(3) [OF assms(2) at] by (simp add: thread_blocks_ok_def)
  then show ?thesis using slot_of_store(3) [OF assms(1) at]
    unfolding constructed_def stored_put_block [OF slot_of_store(1) [OF assms(1) at]] by auto
qed

lemma constructed_new_block:
  assumes "blocks_ok L s"
  shows "constructed L (s\<lparr>rp_nitems := rp_nitems s @ [0]\<rparr>) = constructed L s"
  using blocks_okD(1) [OF assms] by (fastforce simp: constructed_def nth_append fun_eq_iff)

text \<open>An item gives a new object.\<close>

lemma constructed_item:
  assumes "blocks_ok L s" and at: "thread_at s t lp pc" and "pc = RpLocal \<and> block_has_room L lp (rp_nitems s) \<or> pc = RpConstruct"
    and "construct_item L True lp (rp_nitems s) = Some (Some i, ns)" and "0 < BLOCK_NITEM L"
  shows "\<not> constructed L s i" "constructed L (s\<lparr>rp_nitems := ns\<rparr>) x \<longleftrightarrow> constructed L s x \<or> x = i"
    "items_ok L s \<Longrightarrow> items_ok L (s\<lparr>rp_nitems := ns\<rparr>)"
proof -
  let ?d = "lp_cur_block_index lp"
  obtain b where b: "lp_cur_block lp = Some b" "b < length (rp_nitems s)" and i: "i = ?d * BLOCK_NITEM L + rp_nitems s ! b"
    and ns: "ns = (rp_nitems s)[b := rp_nitems s ! b + 1]"
    by (rule construct_itemD [OF assms(4)])
  have ok: "thread_blocks_ok L s \<lparr>th_pool = lp, th_pc = pc\<rparr>" by (rule blocks_okD(3) [OF assms(1) at])
  then have st: "stored s (?d div RP_GROUP_NBLOCK L) (?d mod RP_GROUP_NBLOCK L) b" using b(1) by (simp add: thread_blocks_ok_def)
  have room: "rp_nitems s ! b < BLOCK_NITEM L"
    using ok assms(3,5) b by (auto simp: thread_blocks_ok_def block_has_room_def nth_opt_def)
  then have im: "i div BLOCK_NITEM L = ?d" "i mod BLOCK_NITEM L = rp_nitems s ! b" unfolding i by simp_all
  have uniq: "y = b" if "stored s (?d div RP_GROUP_NBLOCK L) (?d mod RP_GROUP_NBLOCK L) y" for y
    using that st by (auto simp: stored_def)
  show "\<not> constructed L s i" using uniq im by (auto simp: constructed_def)
  have slot: "x div BLOCK_NITEM L = ?d"
    if "stored s (x div BLOCK_NITEM L div RP_GROUP_NBLOCK L) (x div BLOCK_NITEM L mod RP_GROUP_NBLOCK L) b" for x
    using blocks_okD(2) [OF assms(1) that st] by (metis div_mult_mod_eq)
  show "constructed L (s\<lparr>rp_nitems := ns\<rparr>) x \<longleftrightarrow> constructed L s x \<or> x = i"
  proof
    assume "constructed L (s\<lparr>rp_nitems := ns\<rparr>) x"
    then obtain y where y: "stored s (x div BLOCK_NITEM L div RP_GROUP_NBLOCK L) (x div BLOCK_NITEM L mod RP_GROUP_NBLOCK L) y"
      "x mod BLOCK_NITEM L < ns ! y" by (auto simp: constructed_def)
    show "constructed L s x \<or> x = i"
    proof (cases "y = b \<and> x mod BLOCK_NITEM L = rp_nitems s ! b")
      case True
      then have "x = i" using slot y(1) unfolding i by (metis div_mult_mod_eq)
      then show ?thesis by simp
    next
      case False
      then have "x mod BLOCK_NITEM L < rp_nitems s ! y" using y(2) ns b(2) by (auto simp: nth_list_update split: if_splits)
      then show ?thesis using y(1) by (auto simp: constructed_def)
    qed
  next
    assume "constructed L s x \<or> x = i"
    then show "constructed L (s\<lparr>rp_nitems := ns\<rparr>) x"
      using st im b(2) ns by (auto simp: constructed_def nth_list_update less_Suc_eq) 
  qed
  show "items_ok L (s\<lparr>rp_nitems := ns\<rparr>)" if "items_ok L s"
    using that room ns unfolding items_ok_def by (auto dest!: subsetD [OF set_update_subset_insert])
qed

lemma rp_free_put_thread:
  assumes "thread_at s t lp0 pc0" and "rp_threads s0 = rp_threads s"
  shows "count (rp_free (put_thread t lp pc s0)) x + count (mset (lp_cur_free lp0) + msum mset (rp_free_chunks s)) x =
    count (rp_free s) x + count (mset (lp_cur_free lp) + msum mset (rp_free_chunks s0)) x"
proof -
  let ?f = "\<lambda>th. mset (lp_cur_free (th_pool th))"
  have "msum ?f ((rp_threads s)[t := \<lparr>th_pool = lp, th_pc = pc\<rparr>]) + mset (lp_cur_free lp0) = msum ?f (rp_threads s) + mset (lp_cur_free lp)"
    using msum_update [of t "rp_threads s" ?f "\<lparr>th_pool = lp, th_pc = pc\<rparr>"] assms(1) by (simp add: nth_opt_Some)
  from arg_cong [OF this, of "\<lambda>m. count m x"] show ?thesis by (simp add: rp_free_def assms(2))
qed

text \<open>
  What a step does to the free lists, the used identifiers and the objects constructed, with \<open>A\<close> the identifiers taken
  off the lists, \<open>B\<close> those put on them.
\<close>

lemma ids_okD: "ids_ok L s \<Longrightarrow> count (rp_free s) i + (if i \<in> rp_used s then 1 else 0) = (if constructed L s i then 1 else 0)"
  by (simp add: ids_ok_def)

lemma ids_keep:
  assumes "ids_ok L s" and at: "thread_at s t lp0 pc0" and "rp_threads s0 = rp_threads s"
    and "mset (lp_cur_free lp) + msum mset (rp_free_chunks s0) = mset (lp_cur_free lp0) + msum mset (rp_free_chunks s)"
    and "rp_used s0 = rp_used s" and "constructed L s0 = constructed L s"
  shows "ids_ok L (put_thread t lp pc s0)"
  unfolding ids_ok_def
proof
  fix x
  have "constructed L (put_thread t lp pc s0) = constructed L s" using assms(6) constructed_cong [of "put_thread t lp pc s0" s0 L] by simp
  then show "count (rp_free (put_thread t lp pc s0)) x + (if x \<in> rp_used (put_thread t lp pc s0) then 1 else 0) =
      (if constructed L (put_thread t lp pc s0) x then 1 else 0)"
    using ids_okD [OF assms(1), of x] rp_free_put_thread [OF at assms(3), of lp pc x] assms(4,5) by simp
qed

lemma ids_get:
  assumes "ids_ok L s" and at: "thread_at s t lp0 pc0" and "rp_threads s0 = rp_threads s"
    and "mset (lp_cur_free lp0) + msum mset (rp_free_chunks s) = mset (lp_cur_free lp) + msum mset (rp_free_chunks s0) + {#i#}"
    and "rp_used s0 = rp_used s" and "constructed L s0 = constructed L s"
  shows "i \<notin> rp_used s" "ids_ok L (hand_out i (put_thread t lp pc s0))"
proof -
  have count: "count (rp_free s) x = count (rp_free (put_thread t lp pc s0)) x + (if x = i then 1 else 0)" for x
    using rp_free_put_thread [OF at assms(3), of lp pc x] unfolding assms(4) by (simp split: if_splits)
  show new: "i \<notin> rp_used s" using ids_okD [OF assms(1), of i] count [of i] by (auto split: if_splits)
  have c: "constructed L (hand_out i (put_thread t lp pc s0)) = constructed L s"
    using assms(6) constructed_cong [of "hand_out i (put_thread t lp pc s0)" s0 L] by simp
  have f: "rp_free (hand_out i (put_thread t lp pc s0)) = rp_free (put_thread t lp pc s0)" by (simp add: rp_free_def)
  show "ids_ok L (hand_out i (put_thread t lp pc s0))" unfolding ids_ok_def c f
  proof
    fix x
    show "count (rp_free (put_thread t lp pc s0)) x + (if x \<in> rp_used (hand_out i (put_thread t lp pc s0)) then 1 else 0) =
        (if constructed L s x then 1 else 0)"
      using ids_okD [OF assms(1), of x] count [of x] new assms(5) by (cases "x = i") auto
  qed
qed

lemma ids_item:
  assumes "ids_ok L s" and at: "thread_at s t lp pc0"
    and "\<not> constructed L s i" and "\<And>x. constructed L (s\<lparr>rp_nitems := ns\<rparr>) x \<longleftrightarrow> constructed L s x \<or> x = i"
  shows "i \<notin> rp_used s" "ids_ok L (hand_out i (put_thread t lp pc (s\<lparr>rp_nitems := ns\<rparr>)))" (is "ids_ok L ?s")
proof -
  show new: "i \<notin> rp_used s" using ids_okD [OF assms(1), of i] assms(3) by (auto split: if_splits)
  have count: "count (rp_free ?s) x = count (rp_free s) x" for x
    using rp_free_put_thread [OF at, of "s\<lparr>rp_nitems := ns\<rparr>" lp pc x] by (simp add: rp_free_def)
  have c: "constructed L ?s x \<longleftrightarrow> constructed L s x \<or> x = i" for x
    using assms(4) [of x] constructed_cong [of ?s "s\<lparr>rp_nitems := ns\<rparr>" L] by simp
  show "ids_ok L ?s" unfolding ids_ok_def
  proof
    fix x
    show "count (rp_free ?s) x + (if x \<in> rp_used ?s then 1 else 0) = (if constructed L ?s x then 1 else 0)"
      using ids_okD [OF assms(1), of x] new assms(3) unfolding count c by (cases "x = i") auto
  qed
qed

lemma ids_return:
  assumes "ids_ok L s" and at: "thread_at s t lp0 pc0" and "i \<in> rp_used s"
    and "mset (lp_cur_free lp) + msum mset cs = mset (lp_cur_free lp0) + msum mset (rp_free_chunks s) + {#i#}"
  shows "ids_ok L (put_thread t lp pc (s\<lparr>rp_free_chunks := cs, rp_used := rp_used s - {i}\<rparr>))" (is "ids_ok L ?s")
proof -
  have count: "count (rp_free ?s) x = count (rp_free s) x + (if x = i then 1 else 0)" for x
    using rp_free_put_thread [OF at, of "s\<lparr>rp_free_chunks := cs, rp_used := rp_used s - {i}\<rparr>" lp pc x] arg_cong [OF assms(4), of "\<lambda>m. count m x"]
    by (simp split: if_splits)
  have c: "constructed L ?s = constructed L s" by (rule constructed_cong) simp_all
  show ?thesis unfolding ids_ok_def c
  proof
    fix x
    show "count (rp_free ?s) x + (if x \<in> rp_used ?s then 1 else 0) = (if constructed L s x then 1 else 0)"
      using ids_okD [OF assms(1), of x] count [of x] assms(3) by (cases "x = i") auto
  qed
qed

section \<open>What the pool promises\<close>

text \<open>The abstract pool: a set of identifiers, from which one that is not in it is handed out.\<close>

fun rp_spec :: "nat set \<Rightarrow> rp_event \<Rightarrow> nat set \<Rightarrow> bool" where
  "rp_spec U RpTau U' = (U' = U)"
| "rp_spec U (RpGot i) U' = (i \<notin> U \<and> U' = insert i U)"
| "rp_spec U (RpReturned i) U' = (i \<in> U \<and> U' = U - {i})"

definition pool_inv :: "rp_limits \<Rightarrow> resource_pool \<Rightarrow> bool" where
  "pool_inv L s \<longleftrightarrow> slots_ok L s \<and> blocks_ok L s \<and> ids_ok L s \<and> free_lists_ok L s \<and> items_ok L s
     \<and> length (rp_groups s) \<le> RP_MAX_BLOCK_NGROUP L"

lemma pop_free_chunkD:
  "pop_free_chunk cs lp = Some (cs', lp') \<Longrightarrow> cs = cs' @ [lp_cur_free lp'] \<and> lp' = lp\<lparr>lp_cur_free := lp_cur_free lp'\<rparr>"
  by (auto simp: pop_free_chunk_def split: if_splits)

lemma return_resourceD:
  "return_resource L pushed i cs lp = (0, cs', lp') \<Longrightarrow>
   mset (lp_cur_free lp') + msum mset cs' = mset (lp_cur_free lp) + msum mset cs + {#i#}"
  by (auto simp: return_resource_def split: if_splits)

lemma return_resource_fails:
  "return_resource L pushed i cs lp = (-1, cs', lp') \<Longrightarrow> cs' = cs \<and> lp' = lp"
  by (auto simp: return_resource_def split: if_splits)

lemma free_lists_okD:
  assumes "free_lists_ok L s"
  shows "c \<in> set (rp_free_chunks s) \<Longrightarrow> length c = FREE_CHUNK_NITEM L"
    and "thread_at s t lp pc \<Longrightarrow> length (lp_cur_free lp) \<le> FREE_CHUNK_NITEM L \<and> (pc = RpPop \<longrightarrow> lp_cur_free lp = [])"
  using assms by (auto simp: free_lists_ok_def nth_opt_Some dest!: bspec [OF _ nth_mem])

lemma ids_ok_step:
  assumes "rp_step L s e s'" and "pool_inv L s" and "0 < BLOCK_NITEM L"
  shows "ids_ok L s' \<and> rp_spec (rp_used s) e (rp_used s')"
proof -
  have inv: "slots_ok L s" "blocks_ok L s" "ids_ok L s" "free_lists_ok L s" using assms(2) by (simp_all add: pool_inv_def)
  show ?thesis
    using assms(1)
  proof cases
    case (gets_free t lp i lp')
    then show ?thesis using ids_get [OF inv(3) gets_free(3), of s lp' i] take_freeD [OF gets_free(4)] by simp
  next
    case (pops t lp cs lp1 i lp')
    have "lp_cur_free lp = []" using free_lists_okD(2) [OF inv(4) pops(3)] by simp
    then show ?thesis
      using ids_get [OF inv(3) pops(3), of "s\<lparr>rp_free_chunks := cs\<rparr>" lp' i] pop_free_chunkD [OF pops(4)] take_freeD [OF pops(5)]
        pops(1,2) constructed_cong [of "s\<lparr>rp_free_chunks := cs\<rparr>" s L] by simp
  next
    case (gets_item t lp pc i ns)
    note c = constructed_item(1,2) [OF inv(2) gets_item(3,4,5) assms(3)]
    show ?thesis using ids_item [OF inv(3) gets_item(3) c] gets_item(1,2) by simp
  next
    case (new_block t lp)
    then show ?thesis
      using ids_keep [OF inv(3) new_block(3), of "s\<lparr>rp_nitems := rp_nitems s @ [0]\<rparr>"] constructed_new_block [OF inv(2)] by simp
  next
    case (adds t lp b n g)
    then show ?thesis
      using ids_keep [OF inv(3) adds(3), of "put_nblock (n - 1) (bg_nblock g + 1) s"]
        constructed_cong [of "put_nblock (n - 1) (bg_nblock g + 1) s" s L] by simp
  next
    case (stores t lp b n j)
    then show ?thesis
      using ids_keep [OF inv(3) stores(3), of "put_block (n - 1) j b s"] constructed_stores [OF inv(1,2) stores(3)]
      by (simp add: fun_eq_iff)
  next
    case (subtracts t lp b n g)
    then show ?thesis
      using ids_keep [OF inv(3) subtracts(3), of "put_nblock (n - 1) (bg_nblock g - 1) s"]
        constructed_cong [of "put_nblock (n - 1) (bg_nblock g - 1) s" s L] by simp
  next
    case (adds_group t lp b n alloc gs)
    then show ?thesis
      using ids_keep [OF inv(3) adds_group(3), of "s\<lparr>rp_groups := gs\<rparr>"]
        constructed_cong [of "s\<lparr>rp_groups := gs\<rparr>" s L, OF stored_add_group] by simp
  next
    case (no_group t lp b n alloc gs)
    then show ?thesis
      using ids_keep [OF inv(3) no_group(3), of "s\<lparr>rp_groups := gs\<rparr>"]
        constructed_cong [of "s\<lparr>rp_groups := gs\<rparr>" s L, OF stored_add_group] by simp
  next
    case (returns t lp i pushed cs lp')
    then show ?thesis using ids_return [OF inv(3) returns(3,4) return_resourceD [OF returns(5)]] by simp
  next
    case (fails_to_return t lp i pushed cs lp')
    then show ?thesis
      using ids_keep [OF inv(3) fails_to_return(3), of s lp RpIdle] return_resource_fails [OF fails_to_return(5)] by simp
  qed (auto intro!: ids_keep [OF inv(3)])
qed

lemma free_lists_ok_put_thread:
  assumes "free_lists_ok L s" and "\<And>c. c \<in> set (rp_free_chunks s0) \<Longrightarrow> length c = FREE_CHUNK_NITEM L"
    and "rp_threads s0 = rp_threads s"
    and "length (lp_cur_free lp) \<le> FREE_CHUNK_NITEM L" and "pc = RpPop \<Longrightarrow> lp_cur_free lp = []"
  shows "free_lists_ok L (put_thread t lp pc s0)"
  using assms unfolding free_lists_ok_def by (auto dest!: subsetD [OF set_update_subset_insert])

lemma free_lists_ok_cong:
  "rp_free_chunks s' = rp_free_chunks s \<Longrightarrow> rp_threads s' = rp_threads s \<Longrightarrow> free_lists_ok L s' = free_lists_ok L s"
  by (simp add: free_lists_ok_def)

lemma return_resource_lengths:
  assumes "return_resource L pushed i cs lp = (r, cs', lp')" and "0 < FREE_CHUNK_NITEM L"
    and "length (lp_cur_free lp) \<le> FREE_CHUNK_NITEM L" and "\<And>c. c \<in> set cs \<Longrightarrow> length c = FREE_CHUNK_NITEM L"
  shows "length (lp_cur_free lp') \<le> FREE_CHUNK_NITEM L" "c \<in> set cs' \<Longrightarrow> length c = FREE_CHUNK_NITEM L"
  using assms by (auto simp: return_resource_def split: if_splits)

lemma free_lists_ok_step:
  assumes "rp_step L s e s'" and "free_lists_ok L s" and "0 < FREE_CHUNK_NITEM L"
  shows "free_lists_ok L s'"
proof -
  note D = free_lists_okD [OF assms(2)]
  have hand: "free_lists_ok L (hand_out i u) = free_lists_ok L u" for i u by (rule free_lists_ok_cong) simp_all
  show ?thesis
    using assms(1)
  proof cases
    case (gets_free t lp i lp')
    then show ?thesis using D(2) [OF gets_free(3)] D(1) take_freeD [OF gets_free(4)]
      by (auto intro!: free_lists_ok_put_thread [OF assms(2)] simp: hand)
  next
    case (pops t lp cs lp1 i lp')
    have "length (lp_cur_free lp') \<le> FREE_CHUNK_NITEM L"
      using D(1) [of "lp_cur_free lp1"] pop_free_chunkD [OF pops(4)] take_freeD [OF pops(5)] by simp
    then show ?thesis using D(1) pop_free_chunkD [OF pops(4)] pops(1,2)
      by (auto intro!: free_lists_ok_put_thread [OF assms(2)] simp: hand)
  next
    case (no_free t lp)
    then show ?thesis using D(1) by (auto intro!: free_lists_ok_put_thread [OF assms(2)] simp: take_free_def split: if_splits)
  next
    case (returns t lp i pushed cs lp')
    note ret = return_resource_lengths [OF returns(5) assms(3) _ D(1)]
    show ?thesis using D(2) [OF returns(3)] ret returns(1,2) by (auto intro!: free_lists_ok_put_thread [OF assms(2)])
  next
    case (fails_to_return t lp i pushed cs lp')
    then show ?thesis using D(2) [OF fails_to_return(3)] D(1) return_resource_fails [OF fails_to_return(5)]
      by (auto intro!: free_lists_ok_put_thread [OF assms(2)])
  qed (auto intro!: free_lists_ok_put_thread [OF assms(2)] simp: hand dest: D)
qed

lemma pool_inv_step:
  assumes "rp_step L s e s'" and "pool_inv L s" and "0 < BLOCK_NITEM L" and "0 < FREE_CHUNK_NITEM L"
  shows "pool_inv L s'"
proof -
  have inv: "slots_ok L s" "blocks_ok L s" "free_lists_ok L s" "items_ok L s" "length (rp_groups s) \<le> RP_MAX_BLOCK_NGROUP L"
    using assms(2) by (simp_all add: pool_inv_def)
  have "items_ok L s'" using assms(1)
  proof cases
    case (gets_item t lp pc i ns)
    then show ?thesis using constructed_item(3) [OF inv(2) gets_item(3,4,5) assms(3) inv(4)] by (simp add: items_ok_def)
  qed (use inv(4) in \<open>auto simp: items_ok_def\<close>)
  moreover have "length (rp_groups s') \<le> RP_MAX_BLOCK_NGROUP L" using assms(1) inv(5)
    by cases (auto dest!: add_block_groupD)
  ultimately show ?thesis
    using slots_ok_step [OF assms(1) inv(1)] blocks_ok_rp_step [OF assms(1) inv(1,2)] ids_ok_step [OF assms(1-3)]
      free_lists_ok_step [OF assms(1) inv(3) assms(4)] by (simp add: pool_inv_def)
qed

lemma pool_inv_start: "pool_inv L (rp_start n)"
proof -
  have th: "th = \<lparr>th_pool = \<lparr>lp_cur_block = None, lp_cur_block_index = 0, lp_cur_free = []\<rparr>, th_pc = RpIdle\<rparr>"
    if "th \<in> set (rp_threads (rp_start n))" for th using that by (simp add: rp_start_def)
  have free: "rp_free (rp_start n) = {#}"
    by (induction n) (simp_all add: rp_free_def rp_start_def)
  have none: "\<not> stored (rp_start n) k j b" for k j b by (simp add: stored_def rp_start_def)
  show ?thesis
    unfolding pool_inv_def
  proof (intro conjI)
    show "slots_ok L (rp_start n)" by (auto simp: slots_ok_def rp_start_def pc_at_def pc_in_range_def nth_opt_Some)
    show "blocks_ok L (rp_start n)"
      using none by (auto simp: blocks_ok_def thread_blocks_ok_def owned_def rp_start_def nth_opt_Some)
    show "ids_ok L (rp_start n)" using none by (simp add: ids_ok_def free constructed_def) (simp add: rp_start_def)
    show "free_lists_ok L (rp_start n)" "items_ok L (rp_start n)" by (auto simp: free_lists_ok_def items_ok_def rp_start_def)
  qed (simp add: rp_start_def)
qed

lemma pool_inv_run:
  assumes "rp_run L s es s'" and "pool_inv L s" and "0 < BLOCK_NITEM L" and "0 < FREE_CHUNK_NITEM L"
  shows "pool_inv L s'"
  using assms by (induction rule: rp_run.induct) (auto intro: pool_inv_step)

text \<open>A block stays where it was stored, and the address of an identifier is the item of the block at its slot.\<close>

lemma stored_stays:
  assumes "rp_step L s e s'" and "slots_ok L s" and "stored s k j b"
  shows "stored s' k j b"
  using assms(1)
proof cases
  case (stores t lp x n i)
  have "\<not> (k = n - 1 \<and> j = i)" using slot_of_store(3) [OF assms(2) stores(3)] assms(3) by blast
  then show ?thesis
    using assms(3) unfolding stores(2) stored_simps stored_put_block [OF slot_of_store(1) [OF assms(2) stores(3)]] by auto
next
  case (adds_group t lp x n alloc gs)
  then show ?thesis using assms(3) by (simp add: stored_add_group)
next
  case (no_group t lp x n alloc gs)
  then show ?thesis using assms(3) by (simp add: stored_add_group)
qed (use assms(3) in simp_all)

lemma stored_stays_run:
  assumes "rp_run L s es s'" and "pool_inv L s" and "0 < BLOCK_NITEM L" and "0 < FREE_CHUNK_NITEM L" and "stored s k j b"
  shows "stored s' k j b"
  using assms
proof (induction rule: rp_run.induct)
  case (rp_goes s es u e s')
  then have "slots_ok L u" using pool_inv_run [of L s es u] by (simp add: pool_inv_def)
  then show ?case using stored_stays [OF rp_goes.hyps(2)] rp_goes by blast
qed simp

lemma unsafe_address_stored:
  "unsafe_address_resource L s i = Some (b, n) \<longleftrightarrow>
   stored s (i div BLOCK_NITEM L div RP_GROUP_NBLOCK L) (i div BLOCK_NITEM L mod RP_GROUP_NBLOCK L) b \<and> n = i mod BLOCK_NITEM L"
proof -
  have "and x (RP_GROUP_NBLOCK L - 1) = x mod RP_GROUP_NBLOCK L" for x :: nat
    using take_bit_eq_mask [of "RP_GROUP_NBLOCK_NBIT L" x] by (simp add: RP_GROUP_NBLOCK_def take_bit_eq_mod mask_eq_exp_minus_1)
  moreover have "drop_bit (RP_GROUP_NBLOCK_NBIT L) x = x div RP_GROUP_NBLOCK L" for x :: nat
    by (simp add: RP_GROUP_NBLOCK_def drop_bit_eq_div)
  moreover have "i - i div BLOCK_NITEM L * BLOCK_NITEM L = i mod BLOCK_NITEM L" by (simp add: minus_div_mult_eq_mod)
  ultimately show ?thesis by (auto simp: unsafe_address_resource_def stored_def Let_def bind_Some_conv)
qed

text \<open>
  C23. ResourcePool (notes on memory management) implements a set of identifiers: whatever the order in which the threads
  take free identifiers, construct objects, add blocks and groups and return identifiers, an identifier that is handed
  out is not in use, one that is returned was in use, and nothing else changes what is in use.
\<close>

theorem pool_hands_out_unused:
  assumes "0 < BLOCK_NITEM L" and "0 < FREE_CHUNK_NITEM L" and "rp_run L (rp_start n) es s" and "rp_step L s e s'"
  shows "rp_spec (rp_used s) e (rp_used s')"
  using ids_ok_step [OF assms(4) pool_inv_run [OF assms(3) pool_inv_start assms(1,2)] assms(1)] by simp

text \<open>
  C24. The address of an identifier in use: \<open>unsafe_address_resource\<close> finds the block in the groups and an item of it that was
  constructed, within the array of items; no other identifier has that address; the identifier is below the capacity of the
  pool; and the address is the same at any later time, whoever else uses or grows the pool in between.
\<close>

theorem pool_addresses:
  assumes "0 < BLOCK_NITEM L" and "0 < FREE_CHUNK_NITEM L" and "rp_run L (rp_start n) es s" and "i \<in> rp_used s"
    and "rp_run L s es' s'"
  shows "\<exists>b k. unsafe_address_resource L s i = Some (b, k) \<and> unsafe_address_resource L s' i = Some (b, k)
    \<and> k < rp_nitems s ! b \<and> rp_nitems s ! b \<le> BLOCK_NITEM L
    \<and> {j. unsafe_address_resource L s' j = Some (b, k)} = {i}
    \<and> i < RP_MAX_BLOCK_NGROUP L * RP_GROUP_NBLOCK L * BLOCK_NITEM L"
proof -
  let ?slot = "\<lambda>i. i div BLOCK_NITEM L"
  have inv: "pool_inv L s" by (rule pool_inv_run [OF assms(3) pool_inv_start assms(1,2)])
  have inv': "blocks_ok L s'" using pool_inv_run [OF assms(5) inv assms(1,2)] by (simp add: pool_inv_def)
  have "constructed L s i"
    using ids_okD [of L s i] inv assms(4) by (auto simp: pool_inv_def split: if_splits)
  then obtain b where b: "stored s (?slot i div RP_GROUP_NBLOCK L) (?slot i mod RP_GROUP_NBLOCK L) b" "i mod BLOCK_NITEM L < rp_nitems s ! b"
    by (auto simp: constructed_def)
  note b' = stored_stays_run [OF assms(5) inv assms(1,2) b(1)]
  have "{j. unsafe_address_resource L s' j = Some (b, i mod BLOCK_NITEM L)} = {i}"
  proof (intro equalityI subsetI)
    fix j assume "j \<in> {j. unsafe_address_resource L s' j = Some (b, i mod BLOCK_NITEM L)}"
    then have "stored s' (?slot j div RP_GROUP_NBLOCK L) (?slot j mod RP_GROUP_NBLOCK L) b" "j mod BLOCK_NITEM L = i mod BLOCK_NITEM L"
      by (simp_all add: unsafe_address_stored)
    then have "?slot j = ?slot i" "j mod BLOCK_NITEM L = i mod BLOCK_NITEM L"
      using blocks_okD(2) [OF inv' b'] by (metis div_mult_mod_eq)+
    then show "j \<in> {i}" by (metis div_mult_mod_eq singletonI)
  qed (simp add: unsafe_address_stored b')
  moreover have "rp_nitems s ! b \<le> BLOCK_NITEM L"
    using inv blocks_okD(1) [of L s, OF _ b(1)] by (auto simp: pool_inv_def items_ok_def)
  moreover have "i < RP_MAX_BLOCK_NGROUP L * RP_GROUP_NBLOCK L * BLOCK_NITEM L"
  proof -
    have "?slot i div RP_GROUP_NBLOCK L < RP_MAX_BLOCK_NGROUP L" using b(1) inv by (auto simp: stored_def nth_opt_Some pool_inv_def)
    then show ?thesis using assms(1) by (simp add: div_less_iff_less_mult RP_GROUP_NBLOCK_def)
  qed
  ultimately show ?thesis using b b' by (intro exI [of _ b] exI [of _ "i mod BLOCK_NITEM L"]) (simp add: unsafe_address_stored)
qed

section \<open>A run of one thread\<close>

text \<open>A thread gets its first object: it adds a block group, then a block, and constructs the object in it.\<close>

definition small_limits :: rp_limits where
  "small_limits = \<lparr>BLOCK_NITEM = 2, RP_GROUP_NBLOCK_NBIT = 1, RP_MAX_BLOCK_NGROUP = 2, FREE_CHUNK_NITEM = 2\<rparr>"

definition pool_of :: "block_group list \<Rightarrow> nat list \<Rightarrow> nat option \<Rightarrow> rp_pc \<Rightarrow> nat set \<Rightarrow> resource_pool" where
  "pool_of gs ns b pc used = \<lparr>rp_groups = gs, rp_nitems = ns, rp_free_chunks = [],
     rp_threads = [\<lparr>th_pool = \<lparr>lp_cur_block = b, lp_cur_block_index = 0, lp_cur_free = []\<rparr>, th_pc = pc\<rparr>], rp_used = used\<rparr>"

definition first_group :: "nat \<Rightarrow> (nat \<Rightarrow> nat option) \<Rightarrow> block_group list" where
  "first_group n f = [\<lparr>bg_nblock = n, bg_blocks = f\<rparr>]"

lemma first_object:
  "rp_run small_limits (rp_start 1) (replicate 8 RpTau) (pool_of (first_group 1 [0 \<mapsto> 0]) [0] (Some 0) RpConstruct {})"
  "rp_step small_limits (pool_of (first_group 1 [0 \<mapsto> 0]) [0] (Some 0) RpConstruct {}) (RpGot 0)
     (pool_of (first_group 1 [0 \<mapsto> 0]) [1] (Some 0) RpIdle {0})"
proof -
  note defs = pool_of_def first_group_def small_limits_def RP_GROUP_NBLOCK_def put_thread_def put_nblock_def put_block_def
    hand_out_def take_free_def pop_free_chunk_def block_has_room_def construct_item_def add_block_group_def nth_opt_def
  let ?lp = "\<lambda>b. \<lparr>lp_cur_block = b, lp_cur_block_index = 0, lp_cur_free = []\<rparr>"
  let ?none = "(\<lambda>_. None) :: nat \<Rightarrow> nat option"
  have start: "rp_start 1 = pool_of [] [] None RpIdle {}" by (simp add: rp_start_def pool_of_def)
  have "rp_step small_limits (pool_of [] [] None RpIdle {}) RpTau (pool_of [] [] None RpPop {})"
    using no_free [of "pool_of [] [] None RpIdle {}" 0 "?lp None" small_limits] by (simp add: defs)
  moreover have "rp_step small_limits (pool_of [] [] None RpPop {}) RpTau (pool_of [] [] None RpLocal {})"
    using no_chunk [of "pool_of [] [] None RpPop {}" 0 "?lp None" small_limits] by (simp add: defs)
  moreover have "rp_step small_limits (pool_of [] [] None RpLocal {}) RpTau (pool_of [] [0] None (RpLoad 0) {})"
    using new_block [of "pool_of [] [] None RpLocal {}" 0 "?lp None" small_limits] by (simp add: defs)
  moreover have "rp_step small_limits (pool_of [] [0] None (RpLoad 0) {}) RpTau (pool_of [] [0] None (RpGroup 0 0) {})"
    using loads [of "pool_of [] [0] None (RpLoad 0) {}" 0 "?lp None" 0 0 small_limits] by (simp add: defs)
  moreover have "rp_step small_limits (pool_of [] [0] None (RpGroup 0 0) {}) RpTau
      (pool_of (first_group 0 ?none) [0] None (RpLoad 0) {})"
    using adds_group [of "pool_of [] [0] None (RpGroup 0 0) {}" 0 "?lp None" 0 0 small_limits True] by (simp add: defs)
  moreover have "rp_step small_limits (pool_of (first_group 0 ?none) [0] None (RpLoad 0) {}) RpTau
      (pool_of (first_group 0 ?none) [0] None (RpAdd 0 1) {})"
    using loads [of "pool_of (first_group 0 ?none) [0] None (RpLoad 0) {}" 0 "?lp None" 0 1 small_limits] by (simp add: defs)
  moreover have "rp_step small_limits (pool_of (first_group 0 ?none) [0] None (RpAdd 0 1) {}) RpTau
      (pool_of (first_group 1 ?none) [0] None (RpStore 0 1 0) {})"
    using adds [of "pool_of (first_group 0 ?none) [0] None (RpAdd 0 1) {}" 0 "?lp None" 0 1 _ small_limits] by (simp add: defs)
  moreover have "rp_step small_limits (pool_of (first_group 1 ?none) [0] None (RpStore 0 1 0) {}) RpTau
      (pool_of (first_group 1 [0 \<mapsto> 0]) [0] (Some 0) RpConstruct {})"
    using stores [of "pool_of (first_group 1 ?none) [0] None (RpStore 0 1 0) {}" 0 "?lp None" 0 1 0 small_limits] by (simp add: defs)
  ultimately have "rp_run small_limits (rp_start 1)
      (((((((([] @ [RpTau]) @ [RpTau]) @ [RpTau]) @ [RpTau]) @ [RpTau]) @ [RpTau]) @ [RpTau]) @ [RpTau])
      (pool_of (first_group 1 [0 \<mapsto> 0]) [0] (Some 0) RpConstruct {})"
    unfolding start by (intro rp_goes) (rule rp_stays)
  then show "rp_run small_limits (rp_start 1) (replicate 8 RpTau) (pool_of (first_group 1 [0 \<mapsto> 0]) [0] (Some 0) RpConstruct {})"
    by (simp add: eval_nat_numeral)
  show "rp_step small_limits (pool_of (first_group 1 [0 \<mapsto> 0]) [0] (Some 0) RpConstruct {}) (RpGot 0)
      (pool_of (first_group 1 [0 \<mapsto> 0]) [1] (Some 0) RpIdle {0})"
    using gets_item [of "pool_of (first_group 1 [0 \<mapsto> 0]) [0] (Some 0) RpConstruct {}" 0 "?lp (Some 0)" RpConstruct small_limits 0 "[1]"]
    by (simp add: defs)
qed

theorem pool_hands_out_unused_witness:
  "rp_spec {} (RpGot 0) {0}"
  using pool_hands_out_unused [OF _ _ first_object] by (simp add: small_limits_def pool_of_def)

theorem pool_addresses_witness:
  "\<exists>b k. unsafe_address_resource small_limits (pool_of (first_group 1 [0 \<mapsto> 0]) [1] (Some 0) RpIdle {0}) 0 = Some (b, k)
    \<and> {j. unsafe_address_resource small_limits (pool_of (first_group 1 [0 \<mapsto> 0]) [1] (Some 0) RpIdle {0}) j = Some (b, k)} = {0}"
proof -
  have "0 < BLOCK_NITEM small_limits" "0 < FREE_CHUNK_NITEM small_limits"
    "0 \<in> rp_used (pool_of (first_group 1 [0 \<mapsto> 0]) [1] (Some 0) RpIdle {0})" by (simp_all add: small_limits_def pool_of_def)
  from pool_addresses [OF this(1,2) rp_goes [OF first_object] this(3) rp_stays] show ?thesis by blast
qed

end
