(* ===== verification/Socket.thy ===== *)
theory Socket
  imports Prelude
begin

text \<open>
  Writing to one connection from many threads, as the notes quote it (\<^verbatim>\<open>docs/io_write.md\<close>): \<open>StartWrite\<close>, \<open>KeepWrite\<close> and
  \<open>IsWriteComplete\<close> of \<open>Socket\<close>.  The requests form a linked list that the threads push to by an atomic exchange of its
  head; the first one writes, and goes on in a bthread of its own as long as there are requests.  The accesses to shared
  memory of all threads are interleaved.
\<close>

section \<open>Requests\<close>

text \<open>\<open>next\<close> is \<open>UNCONNECTED\<close> until the thread that pushed the request sets it.\<close>

datatype wr_next = Unconnected | NextNull | NextReq nat

record write_request =
  wr_data :: "8 word list"
  wr_next :: wr_next

text \<open>Requests live at addresses; one that was returned to the object pool is not there any more.\<close>

type_synonym wr_heap = "nat \<Rightarrow> write_request option"

definition next_at :: "wr_heap \<Rightarrow> nat \<Rightarrow> wr_next option" where
  "next_at h x = map_option wr_next (h x)"

definition bytes_at :: "wr_heap \<Rightarrow> nat \<Rightarrow> 8 word list" where
  "bytes_at h x = (case h x of None \<Rightarrow> [] | Some q \<Rightarrow> wr_data q)"

definition set_next :: "nat \<Rightarrow> wr_next \<Rightarrow> wr_heap \<Rightarrow> wr_heap option" where
  "set_next r n h = do { q \<leftarrow> h r; Some (h(r \<mapsto> q\<lparr>wr_next := n\<rparr>)) }"

text \<open>
  What \<open>IOBuf\<close> promises of \<open>cut_into_file_descriptor\<close>: the first \<open>n\<close> bytes of the data (or all of them) go to the file
  descriptor. The number is arbitrary in the steps below.
\<close>

definition cut_data :: "nat \<Rightarrow> nat \<Rightarrow> wr_heap \<Rightarrow> (8 word list \<times> wr_heap) option" where
  "cut_data n r h = do { q \<leftarrow> h r; Some (take n (wr_data q), h(r \<mapsto> q\<lparr>wr_data := drop n (wr_data q)\<rparr>)) }"

text \<open>
  The requests that are linked from one on, up to the one whose \<open>next\<close> is \<open>e\<close>.
\<close>

fun linked :: "wr_heap \<Rightarrow> nat list \<Rightarrow> wr_next \<Rightarrow> bool" where
  "linked h [] e = True"
| "linked h (x # xs) e =
     (next_at h x = Some (case xs of [] \<Rightarrow> e | y # _ \<Rightarrow> NextReq y) \<and> linked h xs e)"

definition chain :: "wr_heap \<Rightarrow> nat \<Rightarrow> nat list \<Rightarrow> bool" where
  "chain h r xs \<longleftrightarrow> xs \<noteq> [] \<and> hd xs = r \<and> linked h xs NextNull"

text \<open>
  What the notes say of \<open>DoWrite\<close>, which they do not quote: it writes as much as it can of the data of the request and those
  linked behind it, in order. The number \<open>n\<close> of bytes is arbitrary in the steps below.
\<close>

fun do_write :: "nat \<Rightarrow> nat list \<Rightarrow> wr_heap \<Rightarrow> (8 word list \<times> wr_heap) option" where
  "do_write n [] h = Some ([], h)"
| "do_write n (r # rs) h = do {
     (bs, h1) \<leftarrow> cut_data n r h;
     (cs, h2) \<leftarrow> do_write (n - length bs) rs h1;
     Some (bs @ cs, h2)
   }"

text \<open>
  The \<open>compare_exchange_strong\<close> of \<open>IsWriteComplete\<close> on \<open>_write_head\<close>: the result, which is what to return if nobody added
  new requests, and the new head if somebody did.
\<close>

definition complete_cas :: "nat \<Rightarrow> bool \<Rightarrow> 8 word list \<Rightarrow> nat option \<Rightarrow> ((bool + nat) \<times> nat option) option" where
  "complete_cas old_head singular_node data head =
     (let more = data \<noteq> [] \<or> \<not> singular_node;
          desired = (if more then Some old_head else None)
      in if head = Some old_head then Some (Inl (\<not> more), desired)
         else map_option (\<lambda>new_head. (Inr new_head, head)) head)"

text \<open>One round of the reversal: \<open>p\<close> gets the tail as its next request; the result is what \<open>p\<close> was linked to.\<close>

definition reverse_round :: "nat \<Rightarrow> wr_next \<Rightarrow> wr_heap \<Rightarrow> (wr_next \<times> wr_heap) option" where
  "reverse_round p tail h = do { q \<leftarrow> h p; Some (wr_next q, h(p \<mapsto> q\<lparr>wr_next := tail\<rparr>)) }"

section \<open>The threads\<close>

text \<open>
  Where a thread is in \<open>StartWrite\<close> (outside; between the exchange and the assignment of \<open>next\<close>; with the right to write,
  before \<open>next\<close> is set to NULL; waiting for the connection; at the write; at \<open>KEEPWRITE_IN_BACKGROUND\<close>; at \<open>FAIL_TO_WRITE\<close>), in
  \<open>KeepWrite\<close> (at the top of the loop, with \<open>req\<close> and \<open>cur_tail\<close>; at \<open>DoWrite\<close>; in the loop that returns written requests,
  with whether nothing was written; at \<open>WaitEpollOut\<close>; at the search for the tail), in \<open>IsWriteComplete\<close> called by one of
  them (at the exchange, with \<open>req\<close> and \<open>old_head\<close>; in the reversal, with also \<open>new_head\<close>, \<open>p\<close> and \<open>tail\<close>), or about to
  return its last request.
\<close>

datatype wr_caller = InStartWrite | InKeepWrite

datatype sk_pc =
  SkIdle
| SwLink nat nat
| SwFirst nat
| SwConnecting nat
| SwWrite nat
| SwBackground nat
| SkFail nat
| KwTop nat "nat option"
| KwWrite nat "nat option"
| KwRelease nat "nat option" bool
| KwWait nat "nat option"
| KwTail nat "nat option"
| WcCas wr_caller nat nat
| WcReverse wr_caller nat nat nat nat wr_next
| SkDone nat

text \<open>\<open>sk_order\<close>, for the statements only: the requests that were pushed and are not written yet, the oldest first.\<close>

record socket =
  sk_reqs :: wr_heap
  sk_head :: "nat option"
  sk_out :: "8 word list"
  sk_pcs :: "nat \<Rightarrow> sk_pc"
  sk_order :: "nat list"

definition start_exchange :: "nat \<Rightarrow> nat option \<Rightarrow> sk_pc" where
  "start_exchange r prev_head = (case prev_head of None \<Rightarrow> SwFirst r | Some p \<Rightarrow> SwLink r p)"

text \<open>After \<open>ConnectIfNot\<close>: it failed, the connection is being made, the connection uses SSL, or it is there.\<close>

datatype connect_result = ConnectFailed | Connecting | ConnectedSsl | Connected

definition after_connect :: "nat \<Rightarrow> connect_result \<Rightarrow> sk_pc" where
  "after_connect r c = (case c of ConnectFailed \<Rightarrow> SkFail r | Connecting \<Rightarrow> SwConnecting r
     | ConnectedSsl \<Rightarrow> SwBackground r | Connected \<Rightarrow> SwWrite r)"

text \<open>After \<open>IsWriteComplete\<close> has returned false.\<close>

definition after_incomplete :: "wr_caller \<Rightarrow> nat \<Rightarrow> nat \<Rightarrow> sk_pc" where
  "after_incomplete c r new_tail = (case c of InStartWrite \<Rightarrow> SwBackground r | InKeepWrite \<Rightarrow> KwTop r (Some new_tail))"

text \<open>
  A request that has a next one and is written is skipped (and returned to the pool).  The result is the next one, if so; a \<open>next\<close>
  that was not set yet must not be followed.
\<close>

definition skips :: "nat \<Rightarrow> wr_heap \<Rightarrow> nat option option" where
  "skips r h = do {
     q \<leftarrow> h r;
     (if wr_next q \<noteq> NextNull \<and> wr_data q = []
      then (case wr_next q of NextReq r' \<Rightarrow> Some (Some r') | _ \<Rightarrow> None)
      else Some None)
   }"

definition set_sk_pc :: "nat \<Rightarrow> sk_pc \<Rightarrow> socket \<Rightarrow> socket" where
  "set_sk_pc t c s = s\<lparr>sk_pcs := (sk_pcs s)(t := c)\<rparr>"

definition return_request :: "nat \<Rightarrow> socket \<Rightarrow> socket" where
  "return_request r s = s\<lparr>sk_reqs := (sk_reqs s)(r := None), sk_order := remove1 r (sk_order s)\<rparr>"

datatype sk_event = SkTau | SkStart "8 word list"

section \<open>The steps\<close>

text \<open>
  One rule for each access to shared memory, by thread \<open>t\<close>.  A thread may call \<open>StartWrite\<close> with a new request at any time.  While
  the connection is being made nothing happens, then a callback goes on in \<open>KeepWrite\<close> or gives up; it is not quoted, nor
  is what \<open>ReleaseAllFailedWriteRequests\<close> does after a failure, with which the model of a connection ends.
\<close>

inductive sk_step :: "socket \<Rightarrow> nat \<Rightarrow> sk_event \<Rightarrow> socket \<Rightarrow> bool" where
  exchanges: "sk_pcs s t = SkIdle \<Longrightarrow> sk_reqs s r = None \<Longrightarrow>
    sk_step s t (SkStart d) (set_sk_pc t (start_exchange r (sk_head s))
      (s\<lparr>sk_reqs := (sk_reqs s)(r \<mapsto> \<lparr>wr_data = d, wr_next = Unconnected\<rparr>), sk_head := Some r, sk_order := sk_order s @ [r]\<rparr>))"
| links: "sk_pcs s t = SwLink r p \<Longrightarrow> set_next r (NextReq p) (sk_reqs s) = Some h \<Longrightarrow>
    sk_step s t SkTau (set_sk_pc t SkIdle (s\<lparr>sk_reqs := h\<rparr>))"
| connects: "sk_pcs s t = SwFirst r \<Longrightarrow> set_next r NextNull (sk_reqs s) = Some h \<Longrightarrow>
    sk_step s t SkTau (set_sk_pc t (after_connect r c) (s\<lparr>sk_reqs := h\<rparr>))"
| connected: "sk_pcs s t = SwConnecting r \<Longrightarrow> c \<in> {KwTop r None, SkFail r} \<Longrightarrow> sk_step s t SkTau (set_sk_pc t c s)"
| writes: "sk_pcs s t = SwWrite r \<Longrightarrow> cut_data n r (sk_reqs s) = Some (bs, h) \<Longrightarrow>
    sk_step s t SkTau (set_sk_pc t (WcCas InStartWrite r r) (s\<lparr>sk_reqs := h, sk_out := sk_out s @ bs\<rparr>))"
| write_fails: "sk_pcs s t = SwWrite r \<Longrightarrow> sk_step s t SkTau (set_sk_pc t (SkFail r) s)"
| starts_bthread: "sk_pcs s t = SwBackground r \<Longrightarrow> sk_pcs s u = SkIdle \<Longrightarrow>
    sk_step s t SkTau (set_sk_pc u (KwTop r None) (set_sk_pc t SkIdle s))"
| no_bthread: "sk_pcs s t = SwBackground r \<Longrightarrow> sk_step s t SkTau (set_sk_pc t (KwTop r None) s)"
| skips_first: "sk_pcs s t = KwTop r ct \<Longrightarrow> skips r (sk_reqs s) = Some (Some r') \<Longrightarrow>
    sk_step s t SkTau (set_sk_pc t (KwWrite r' ct) (return_request r s))"
| keeps_first: "sk_pcs s t = KwTop r ct \<Longrightarrow> skips r (sk_reqs s) = Some None \<Longrightarrow>
    sk_step s t SkTau (set_sk_pc t (KwWrite r ct) s)"
| does_write: "sk_pcs s t = KwWrite r ct \<Longrightarrow> chain (sk_reqs s) r xs \<Longrightarrow> do_write n xs (sk_reqs s) = Some (bs, h) \<Longrightarrow>
    sk_step s t SkTau (set_sk_pc t (KwRelease r ct (bs = [])) (s\<lparr>sk_reqs := h, sk_out := sk_out s @ bs\<rparr>))"
| do_write_fails: "sk_pcs s t = KwWrite r ct \<Longrightarrow> sk_step s t SkTau (set_sk_pc t (SkFail r) s)"
| releases: "sk_pcs s t = KwRelease r ct none \<Longrightarrow> skips r (sk_reqs s) = Some (Some r') \<Longrightarrow>
    sk_step s t SkTau (set_sk_pc t (KwRelease r' ct none) (return_request r s))"
| released: "sk_pcs s t = KwRelease r ct none \<Longrightarrow> skips r (sk_reqs s) = Some None \<Longrightarrow>
    sk_step s t SkTau (set_sk_pc t (if none then KwWait r ct else KwTail r ct) s)"
| waits_epollout: "sk_pcs s t = KwWait r ct \<Longrightarrow> c \<in> {KwTail r ct, SkFail r} \<Longrightarrow> sk_step s t SkTau (set_sk_pc t c s)"
| finds_tail: "sk_pcs s t = KwTail r ct \<Longrightarrow> ct = Some o' \<or> ct = None \<and> chain (sk_reqs s) r xs \<and> o' = last xs \<Longrightarrow>
    sk_step s t SkTau (set_sk_pc t (WcCas InKeepWrite r o') s)"
| completes: "sk_pcs s t = WcCas c r o' \<Longrightarrow> sk_reqs s o' = Some q \<Longrightarrow>
    complete_cas o' (r = o') (wr_data q) (sk_head s) = Some (Inl True, hd') \<Longrightarrow>
    sk_step s t SkTau (set_sk_pc t (SkDone r) (s\<lparr>sk_head := hd', sk_order := remove1 r (sk_order s)\<rparr>))"
| returns_last: "sk_pcs s t = SkDone r \<Longrightarrow> sk_step s t SkTau (set_sk_pc t SkIdle (return_request r s))"
| nobody_came: "sk_pcs s t = WcCas c r o' \<Longrightarrow> sk_reqs s o' = Some q \<Longrightarrow>
    complete_cas o' (r = o') (wr_data q) (sk_head s) = Some (Inl False, hd') \<Longrightarrow>
    sk_step s t SkTau (set_sk_pc t (after_incomplete c r o') (s\<lparr>sk_head := hd'\<rparr>))"
| somebody_came: "sk_pcs s t = WcCas c r o' \<Longrightarrow> sk_reqs s o' = Some q \<Longrightarrow>
    complete_cas o' (r = o') (wr_data q) (sk_head s) = Some (Inr new_head, hd') \<Longrightarrow>
    sk_step s t SkTau (set_sk_pc t (WcReverse c r o' new_head new_head NextNull) s)"
| reverses: "sk_pcs s t = WcReverse c r o' new_head p tail \<Longrightarrow> p \<noteq> o' \<Longrightarrow>
    reverse_round p tail (sk_reqs s) = Some (NextReq p', h) \<Longrightarrow>
    sk_step s t SkTau (set_sk_pc t (WcReverse c r o' new_head p' (NextReq p)) (s\<lparr>sk_reqs := h\<rparr>))"
| joins_lists: "sk_pcs s t = WcReverse c r o' new_head o' tail \<Longrightarrow> set_next o' tail (sk_reqs s) = Some h \<Longrightarrow>
    sk_step s t SkTau (set_sk_pc t (after_incomplete c r new_head) (s\<lparr>sk_reqs := h\<rparr>))"

inductive sk_run :: "socket \<Rightarrow> sk_event list \<Rightarrow> socket \<Rightarrow> bool" where
  sk_stays: "sk_run s [] s"
| sk_goes: "sk_run s es u \<Longrightarrow> sk_step u t e s' \<Longrightarrow> sk_run s (es @ [e]) s'"

definition sk_start :: socket where
  "sk_start = \<lparr>sk_reqs = (\<lambda>_. None), sk_head = None, sk_out = [], sk_pcs = (\<lambda>_. SkIdle), sk_order = []\<rparr>"

fun sent_by :: "sk_event list \<Rightarrow> 8 word list" where
  "sent_by [] = []"
| "sent_by (SkTau # es) = sent_by es"
| "sent_by (SkStart d # es) = d @ sent_by es"

section \<open>The structure of the list\<close>

text \<open>
  The requests, the oldest first, are in up to four parts.  \<open>A\<close> is linked forward and belongs to the writer.  \<open>N\<close> are the newest:
  each is linked to the one before it, or will be by the thread that pushed it.  While the writer reverses the list, \<open>M1\<close> are the ones that are
  linked backward still, and \<open>M2\<close> the ones that are linked forward already.
\<close>

fun pushed :: "socket \<Rightarrow> nat \<Rightarrow> nat list \<Rightarrow> bool" where
  "pushed s a [] = True"
| "pushed s a (x # xs) =
     ((next_at (sk_reqs s) x = Some (NextReq a)
        \<or> next_at (sk_reqs s) x = Some Unconnected \<and> (\<exists>t. sk_pcs s t = SwLink x a))
      \<and> pushed s x xs)"

definition list_ok :: "socket \<Rightarrow> wr_next \<Rightarrow> nat list \<Rightarrow> nat list \<Rightarrow> nat list \<Rightarrow> nat list \<Rightarrow> bool" where
  "list_ok s e A M1 M2 N \<longleftrightarrow> sk_order s = A @ M1 @ M2 @ N \<and> A \<noteq> [] \<and> linked (sk_reqs s) A e
     \<and> pushed s (last A) M1 \<and> linked (sk_reqs s) M2 NextNull \<and> pushed s (last (A @ M1 @ M2)) N"

fun shape :: "sk_pc \<Rightarrow> nat list \<Rightarrow> nat list \<Rightarrow> nat list \<Rightarrow> bool" where
  "shape (SwFirst r) A M1 M2 = (A = [r] \<and> M1 = [] \<and> M2 = [])"
| "shape (SwConnecting r) A M1 M2 = (hd A = r \<and> M1 = [] \<and> M2 = [])"
| "shape (SwWrite r) A M1 M2 = (A = [r] \<and> M1 = [] \<and> M2 = [])"
| "shape (SwBackground r) A M1 M2 = (hd A = r \<and> M1 = [] \<and> M2 = [])"
| "shape (SkFail r) A M1 M2 = (hd A = r \<and> M1 = [] \<and> M2 = [])"
| "shape (KwTop r ct) A M1 M2 = (hd A = r \<and> M1 = [] \<and> M2 = [] \<and> ct \<in> {None, Some (last A)})"
| "shape (KwWrite r ct) A M1 M2 = (hd A = r \<and> M1 = [] \<and> M2 = [] \<and> ct \<in> {None, Some (last A)})"
| "shape (KwRelease r ct none) A M1 M2 = (hd A = r \<and> M1 = [] \<and> M2 = [] \<and> ct \<in> {None, Some (last A)})"
| "shape (KwWait r ct) A M1 M2 = (hd A = r \<and> M1 = [] \<and> M2 = [] \<and> ct \<in> {None, Some (last A)})"
| "shape (KwTail r ct) A M1 M2 = (hd A = r \<and> M1 = [] \<and> M2 = [] \<and> ct \<in> {None, Some (last A)})"
| "shape (WcCas c r o') A M1 M2 = (hd A = r \<and> M1 = [] \<and> M2 = [] \<and> o' = last A)"
| "shape (WcReverse c r o' nh p tail) A M1 M2 = (hd A = r \<and> o' = last A \<and> M1 @ M2 \<noteq> [] \<and> nh = last (M1 @ M2)
     \<and> p = last (A @ M1) \<and> tail = (case M2 of [] \<Rightarrow> NextNull | y # _ \<Rightarrow> NextReq y))"
| "shape _ A M1 M2 = False"

fun writing :: "sk_pc \<Rightarrow> bool" where
  "writing SkIdle = False"
| "writing (SwLink r p) = False"
| "writing (SkDone r) = False"
| "writing _ = True"

fun last_next :: "sk_pc \<Rightarrow> wr_next" where
  "last_next (SwFirst r) = Unconnected"
| "last_next _ = NextNull"

definition writer :: "socket \<Rightarrow> nat \<Rightarrow> nat list \<Rightarrow> nat list \<Rightarrow> nat list \<Rightarrow> nat list \<Rightarrow> bool" where
  "writer s t A M1 M2 N \<longleftrightarrow> (\<forall>u. writing (sk_pcs s u) \<longleftrightarrow> u = t) \<and> shape (sk_pcs s t) A M1 M2
     \<and> list_ok s (last_next (sk_pcs s t)) A M1 M2 N"

text \<open>The rest of the invariant: memory, head, the threads about to link or to return a request, and the bytes.\<close>

definition data_of :: "wr_heap \<Rightarrow> nat list \<Rightarrow> 8 word list" where
  "data_of h xs = concat (map (bytes_at h) xs)"

definition memory_ok :: "socket \<Rightarrow> bool" where
  "memory_ok s \<longleftrightarrow> distinct (sk_order s)
     \<and> (\<forall>x. sk_reqs s x \<noteq> None \<longleftrightarrow> x \<in> set (sk_order s) \<or> (\<exists>t. sk_pcs s t = SkDone x))
     \<and> (\<forall>t x. sk_pcs s t = SkDone x \<longrightarrow> x \<notin> set (sk_order s))
     \<and> (\<forall>t u x. sk_pcs s t = SkDone x \<longrightarrow> sk_pcs s u = SkDone x \<longrightarrow> t = u)
     \<and> sk_head s = (if sk_order s = [] then None else Some (last (sk_order s)))"

definition links_ok :: "socket \<Rightarrow> bool" where
  "links_ok s \<longleftrightarrow> (\<forall>t x p. sk_pcs s t = SwLink x p \<longrightarrow>
       next_at (sk_reqs s) x = Some Unconnected \<and> x \<in> set (sk_order s) \<and> (\<forall>u. sk_pcs s u \<noteq> SwFirst x))
     \<and> (\<forall>t u x p p'. sk_pcs s t = SwLink x p \<longrightarrow> sk_pcs s u = SwLink x p' \<longrightarrow> t = u)"

definition socket_ok :: "8 word list \<Rightarrow> socket \<Rightarrow> bool" where
  "socket_ok sent s \<longleftrightarrow> memory_ok s \<and> links_ok s \<and> sent = sk_out s @ data_of (sk_reqs s) (sk_order s)
     \<and> (if sk_order s = [] then \<forall>t. \<not> writing (sk_pcs s t) else \<exists>t A M1 M2 N. writer s t A M1 M2 N)"

section \<open>Lemmas on the list\<close>

lemma set_sk_pc_sel [simp]:
  "sk_reqs (set_sk_pc t c s) = sk_reqs s" "sk_head (set_sk_pc t c s) = sk_head s" "sk_out (set_sk_pc t c s) = sk_out s"
  "sk_order (set_sk_pc t c s) = sk_order s" "sk_pcs (set_sk_pc t c s) = (sk_pcs s)(t := c)"
  by (simp_all add: set_sk_pc_def)

lemma linked_cong:
  "(\<And>x. x \<in> set xs \<Longrightarrow> next_at h' x = next_at h x) \<Longrightarrow> linked h' xs e = linked h xs e"
  by (induction xs) auto

lemma linked_append:
  "linked h (xs @ ys) e \<longleftrightarrow> linked h xs (case ys of [] \<Rightarrow> e | y # _ \<Rightarrow> NextReq y) \<and> linked h ys e"
proof (induction xs)
  case (Cons x xs)
  then show ?case by (cases xs) (auto split: list.split)
qed simp

lemma linked_last: "linked h xs e \<Longrightarrow> xs \<noteq> [] \<Longrightarrow> next_at h (last xs) = Some e"
proof (induction xs)
  case (Cons x xs)
  then show ?case by (cases xs) auto
qed simp

lemma linked_next: "linked h xs e \<Longrightarrow> x \<in> set xs \<Longrightarrow> next_at h x = Some e \<or> (\<exists>y. next_at h x = Some (NextReq y))"
proof (induction xs)
  case (Cons z xs)
  then show ?case by (cases xs) auto
qed simp

lemma chain_unique: "linked h xs NextNull \<Longrightarrow> linked h ys NextNull \<Longrightarrow> xs \<noteq> [] \<Longrightarrow> ys \<noteq> [] \<Longrightarrow> hd xs = hd ys \<Longrightarrow> xs = ys"
proof (induction xs arbitrary: ys)
  case (Cons x xs)
  then obtain zs where "ys = x # zs" by (cases ys) auto
  then show ?case using Cons.prems Cons.IH [of zs] by (cases xs; cases zs) auto
qed simp

lemma pushed_append: "pushed s a (xs @ ys) \<longleftrightarrow> pushed s a xs \<and> pushed s (last (a # xs)) ys"
  by (induction xs arbitrary: a) auto

lemma pushed_cong:
  assumes "\<And>x. x \<in> set xs \<Longrightarrow> next_at (sk_reqs s') x = next_at (sk_reqs s) x"
    and "\<And>v x p. x \<in> set xs \<Longrightarrow> sk_pcs s v = SwLink x p \<Longrightarrow> sk_pcs s' v = SwLink x p"
    and "pushed s a xs"
  shows "pushed s' a xs"
  using assms
proof (induction xs arbitrary: a)
  case (Cons x xs)
  have "pushed s' x xs" using Cons.prems by (intro Cons.IH) auto
  moreover have "next_at (sk_reqs s') x = next_at (sk_reqs s) x" using Cons.prems(1) by simp
  moreover have "\<exists>v. sk_pcs s' v = SwLink x a" if "sk_pcs s v = SwLink x a" for v using Cons.prems(2) [of x v a] that by auto
  ultimately show ?case using Cons.prems(3) by auto
qed simp

lemma pushed_next:
  assumes "pushed s a xs" and "x \<in> set xs"
  shows "(\<exists>y. next_at (sk_reqs s) x = Some (NextReq y)) \<or> next_at (sk_reqs s) x = Some Unconnected \<and> (\<exists>t p. sk_pcs s t = SwLink x p)"
  using assms by (induction xs arbitrary: a) auto

lemma data_of_simps [simp]: "data_of h [] = []" "data_of h (xs @ ys) = data_of h xs @ data_of h ys"
  "data_of h (x # xs) = bytes_at h x @ data_of h xs"
  by (simp_all add: data_of_def)

lemma data_of_cong: "(\<And>x. x \<in> set xs \<Longrightarrow> bytes_at h' x = bytes_at h x) \<Longrightarrow> data_of h' xs = data_of h xs"
  by (induction xs) auto

lemma next_at_None [simp]: "next_at h x = None \<longleftrightarrow> h x = None"
  by (simp add: next_at_def)

lemma set_nextD:
  assumes "set_next r n h = Some h'"
  shows "h r \<noteq> None" "next_at h' x = (if x = r then Some n else next_at h x)" "bytes_at h' = bytes_at h" "(h' x = None) = (h x = None)"
proof -
  obtain q where q: "h r = Some q" "h' = h(r \<mapsto> q\<lparr>wr_next := n\<rparr>)" using assms by (auto simp: set_next_def bind_Some_conv)
  then show "h r \<noteq> None" "next_at h' x = (if x = r then Some n else next_at h x)" "(h' x = None) = (h x = None)"
    by (auto simp: next_at_def)
  show "bytes_at h' = bytes_at h" using q by (auto simp: bytes_at_def fun_eq_iff)
qed

lemma cut_dataD:
  assumes "cut_data n r h = Some (bs, h')"
  shows "h r \<noteq> None" "next_at h' = next_at h" "bytes_at h r = bs @ bytes_at h' r" "x \<noteq> r \<Longrightarrow> bytes_at h' x = bytes_at h x"
    "(h' x = None) = (h x = None)"
proof -
  obtain q where q: "h r = Some q" "h' = h(r \<mapsto> q\<lparr>wr_data := drop n (wr_data q)\<rparr>)" "bs = take n (wr_data q)"
    using assms by (auto simp: cut_data_def bind_Some_conv)
  then show "h r \<noteq> None" "bytes_at h r = bs @ bytes_at h' r" "x \<noteq> r \<Longrightarrow> bytes_at h' x = bytes_at h x" "(h' x = None) = (h x = None)"
    by (auto simp: bytes_at_def)
  show "next_at h' = next_at h" using q by (auto simp: next_at_def fun_eq_iff)
qed

section \<open>The invariant is kept\<close>

lemma the_writer:
  assumes "socket_ok sent s" and "writing (sk_pcs s t)"
  shows "\<exists>A M1 M2 N. writer s t A M1 M2 N"
proof -
  obtain u A M1 M2 N where u: "writer s u A M1 M2 N"
    using assms by (auto simp: socket_ok_def split: if_splits)
  then have "u = t" using assms(2) by (simp add: writer_def)
  then show ?thesis using u by blast
qed

text \<open>A step of the writer, after which the writer is \<open>u\<close>, and which leaves the order of the requests alone.\<close>

lemma writer_step:
  assumes ok: "socket_ok sent s" and w: "writer s t A M1 M2 N"
    and u: "u = t \<or> sk_pcs s u = SkIdle" and c: "writing c" and nf: "last_next c = NextNull"
    and s': "s' = set_sk_pc u c (set_sk_pc t SkIdle (s\<lparr>sk_reqs := h, sk_out := sk_out s @ bs\<rparr>))"
    and dom: "\<And>x. (h x = None) = (sk_reqs s x = None)"
    and links: "\<And>v x p. sk_pcs s v = SwLink x p \<Longrightarrow> next_at h x = next_at (sk_reqs s) x"
    and bytes: "bs @ data_of h (sk_order s) = data_of (sk_reqs s) (sk_order s)"
    and shape: "shape c A' M1' M2'"
    and list: "list_ok (s\<lparr>sk_reqs := h\<rparr>) NextNull A' M1' M2' N'"
  shows "socket_ok sent s'"
proof -
  have tw: "writing (sk_pcs s t)" and only: "\<And>v. writing (sk_pcs s v) \<Longrightarrow> v = t" using w by (simp_all add: writer_def)
  have pcs: "sk_pcs s' = (sk_pcs s)(t := SkIdle, u := c)" by (simp add: s')
  have lk: "sk_pcs s' v = SwLink x p \<longleftrightarrow> sk_pcs s v = SwLink x p" for v x p using tw c u by (auto simp: pcs)
  have dn: "sk_pcs s' v = SkDone x \<longleftrightarrow> sk_pcs s v = SkDone x" for v x using tw c u by (auto simp: pcs)
  have same: "sk_order s' = sk_order s" "sk_head s' = sk_head s" "sk_reqs s' = h" "sk_out s' = sk_out s @ bs" by (simp_all add: s')
  have "memory_ok s'" using ok unfolding socket_ok_def memory_ok_def same dn dom by blast
  moreover have "links_ok s'"
  proof -
    have "sk_pcs s' v \<noteq> SwFirst x" if "sk_pcs s v \<noteq> SwFirst x" for v x using that nf u by (auto simp: pcs)
    then show ?thesis using ok links unfolding socket_ok_def links_ok_def lk same by metis
  qed
  moreover have "sent = sk_out s' @ data_of (sk_reqs s') (sk_order s')"
    using ok bytes by (simp add: socket_ok_def same)
  moreover have "writer s' u A' M1' M2' N'"
  proof -
    have "pushed s' a xs" if "pushed (s\<lparr>sk_reqs := h\<rparr>) a xs" for a xs
      by (rule pushed_cong [OF _ _ that]) (simp_all add: same lk)
    then have "list_ok s' NextNull A' M1' M2' N'" using list unfolding list_ok_def same by simp
    moreover have "writing (sk_pcs s' v) \<longleftrightarrow> v = u" for v using only [of v] c u by (auto simp: pcs)
    ultimately show ?thesis using shape nf by (simp add: writer_def pcs)
  qed
  moreover have "sk_order s' \<noteq> []" using list by (auto simp: list_ok_def same)
  ultimately show ?thesis unfolding socket_ok_def if_not_P [OF \<open>sk_order s' \<noteq> []\<close>] by blast
qed

lemma set_sk_pc_twice [simp]: "set_sk_pc t c (set_sk_pc t c' s) = set_sk_pc t c s"
  by (simp add: set_sk_pc_def)

text \<open>Steps that change nothing but where the writer is.\<close>

lemma writer_moves:
  assumes "socket_ok sent s" and "writer s t A M1 M2 N" and "u = t \<or> sk_pcs s u = SkIdle"
    and "writing c" and "last_next c = NextNull" and "shape c A M1' M2'" and "list_ok s NextNull A M1' M2' N'"
  shows "socket_ok sent (set_sk_pc u c (set_sk_pc t SkIdle s))"
  by (rule writer_step [OF assms(1-5), where h = "sk_reqs s" and bs = "[]"]) (use assms(6,7) in simp_all)

lemma writer_goes_on:
  assumes "socket_ok sent s" and "writer s t A M1 M2 N" and "last_next (sk_pcs s t) = NextNull"
    and "writing c" and "last_next c = NextNull" and "shape c A M1 M2"
  shows "socket_ok sent (set_sk_pc t c s)"
  using writer_moves [OF assms(1,2) _ assms(4-6), of t N] assms(2,3) by (simp add: writer_def)

text \<open>Writing data.\<close>

lemma list_ok_data: "next_at h = next_at (sk_reqs s) \<Longrightarrow> list_ok (s\<lparr>sk_reqs := h\<rparr>) e A M1 M2 N = list_ok s e A M1 M2 N"
proof -
  assume n: "next_at h = next_at (sk_reqs s)"
  have "pushed (s\<lparr>sk_reqs := h\<rparr>) a xs = pushed s a xs" for a xs by (induction xs arbitrary: a) (simp_all add: n)
  then show ?thesis using linked_cong [of _ h "sk_reqs s"] by (simp add: list_ok_def n)
qed

lemma writer_writes:
  assumes ok: "socket_ok sent s" and w: "writer s t A M1 M2 N" and "last_next (sk_pcs s t) = NextNull"
    and "writing c" and "last_next c = NextNull" and "shape c A M1 M2"
    and "next_at h = next_at (sk_reqs s)" and "\<And>x. (h x = None) = (sk_reqs s x = None)"
    and "data_of (sk_reqs s) A = bs @ data_of h A" and "\<And>x. x \<notin> set A \<Longrightarrow> bytes_at h x = bytes_at (sk_reqs s) x"
  shows "socket_ok sent (set_sk_pc t c (s\<lparr>sk_reqs := h, sk_out := sk_out s @ bs\<rparr>))"
proof (rule writer_step [where u = t, OF ok w _ assms(4,5) _ assms(8)])
  have l: "list_ok s NextNull A M1 M2 N" using w assms(3) by (simp add: writer_def)
  show "list_ok (s\<lparr>sk_reqs := h\<rparr>) NextNull A M1 M2 N" using l list_ok_data [OF assms(7)] by simp
  have "data_of h (M1 @ M2 @ N) = data_of (sk_reqs s) (M1 @ M2 @ N)"
  proof (rule data_of_cong)
    fix x assume "x \<in> set (M1 @ M2 @ N)"
    then have "x \<notin> set A" using l ok by (auto simp: list_ok_def socket_ok_def memory_ok_def)
    then show "bytes_at h x = bytes_at (sk_reqs s) x" by (rule assms(10))
  qed
  then show "bs @ data_of h (sk_order s) = data_of (sk_reqs s) (sk_order s)" using l assms(9) by (simp add: list_ok_def)
qed (simp_all add: assms(6,7))

lemma do_write_0: "do_write 0 xs h = Some (bs, h') \<Longrightarrow> bs = []"
  by (induction xs arbitrary: h bs h') (auto simp: cut_data_def bind_Some_conv)

lemma do_writeD:
  assumes "do_write n xs h = Some (bs, h')" and "distinct xs"
  shows "next_at h' = next_at h \<and> (\<forall>x. (h' x = None) = (h x = None)) \<and> data_of h xs = bs @ data_of h' xs
    \<and> (\<forall>x. x \<notin> set xs \<longrightarrow> bytes_at h' x = bytes_at h x)"
  using assms
proof (induction n xs h arbitrary: bs h' rule: do_write.induct)
  case (2 n r rs h)
  obtain bs1 h1 cs where c: "cut_data n r h = Some (bs1, h1)" and d: "do_write (n - length bs1) rs h1 = Some (cs, h')"
    and bs: "bs = bs1 @ cs" using "2.prems"(1) by (auto simp: bind_Some_conv)
  note cD = cut_dataD [OF c] and IH = "2.IH" [OF c refl d]
  have keep: "bytes_at h' r = bytes_at h1 r" using IH "2.prems"(2) by simp
  have "bytes_at h1 r @ cs = cs @ bytes_at h1 r"
  proof (cases "n - length bs1")
    case 0
    then have "cs = []" using do_write_0 [of rs h1 cs h'] d by simp
    then show ?thesis by simp
  next
    case (Suc k)
    then have "bytes_at h1 r = []" using c by (auto simp: cut_data_def bytes_at_def bind_Some_conv)
    then show ?thesis by simp
  qed
  moreover have "data_of h rs = data_of h1 rs" using cD(4) "2.prems"(2) by (intro data_of_cong) fastforce
  ultimately show ?case using IH "2.prems"(2) cD keep bs by auto
qed simp

text \<open>Setting \<open>next\<close>: of the first request, in the reversal, and of the tail of the old list.\<close>

lemma pushed_other:
  "x \<notin> set xs \<Longrightarrow> (\<And>y. y \<noteq> x \<Longrightarrow> next_at h y = next_at (sk_reqs s) y) \<Longrightarrow> pushed s a xs \<Longrightarrow> pushed (s\<lparr>sk_reqs := h\<rparr>) a xs"
  by (rule pushed_cong [of _ _ s]) fastforce+

lemma linked_other:
  "x \<notin> set xs \<Longrightarrow> (\<And>y. y \<noteq> x \<Longrightarrow> next_at h' y = next_at h y) \<Longrightarrow> linked h' xs e = linked h xs e"
  by (rule linked_cong) fastforce

lemma linked_set_last:
  assumes "linked h xs e" and "distinct xs" and "xs \<noteq> []" and "next_at h' (last xs) = Some e'"
    and "\<And>y. y \<noteq> last xs \<Longrightarrow> next_at h' y = next_at h y"
  shows "linked h' xs e'"
proof -
  have xs: "xs = butlast xs @ [last xs]" using assms(3) by simp
  then have "last xs \<notin> set (butlast xs)" using assms(2) by (metis distinct_append disjoint_iff list.set_intros(1))
  moreover have "linked h (butlast xs) (NextReq (last xs))" using assms(1) by (subst (asm) xs) (simp add: linked_append)
  ultimately have "linked h' (butlast xs) (NextReq (last xs))" using linked_other [of "last xs" _ h' h] assms(5) by blast
  then show ?thesis using assms(4) by (subst xs) (simp add: linked_append)
qed

lemma writer_sets_next:
  assumes ok: "socket_ok sent s" and w: "writer s t A M1 M2 N" and set: "set_next r n (sk_reqs s) = Some h"
    and "next_at (sk_reqs s) r \<noteq> Some Unconnected \<or> sk_pcs s t = SwFirst r"
    and "writing c" and "last_next c = NextNull" and "shape c A' M1' M2'"
    and "list_ok (s\<lparr>sk_reqs := h\<rparr>) NextNull A' M1' M2' N'"
  shows "socket_ok sent (set_sk_pc t c (s\<lparr>sk_reqs := h\<rparr>))"
proof -
  have "next_at h x = next_at (sk_reqs s) x" if "sk_pcs s v = SwLink x p" for v x p
  proof -
    have "x \<noteq> r" using that ok assms(4) by (auto simp: socket_ok_def links_ok_def)
    then show ?thesis using set_nextD(2) [OF set, of x] by simp
  qed
  moreover have "data_of h (sk_order s) = data_of (sk_reqs s) (sk_order s)"
    by (rule data_of_cong) (simp add: set_nextD(3) [OF set])
  ultimately show ?thesis
    by (intro writer_step [where u = t and bs = "[]" and h = h, OF ok w _ assms(5,6) _ set_nextD(4) [OF set] _ _ assms(7,8)]) simp_all
qed

lemma writer_connects:
  assumes ok: "socket_ok sent s" and t: "sk_pcs s t = SwFirst r" and set: "set_next r NextNull (sk_reqs s) = Some h"
  shows "socket_ok sent (set_sk_pc t (after_connect r c) (s\<lparr>sk_reqs := h\<rparr>))"
proof -
  obtain A M1 M2 N where w: "writer s t A M1 M2 N" using the_writer [OF ok, of t] t by auto
  then have l: "list_ok s Unconnected A M1 M2 N" and A: "A = [r]" "M1 = []" "M2 = []" by (auto simp: writer_def t)
  have "r \<notin> set N" using l ok by (auto simp: A list_ok_def socket_ok_def memory_ok_def)
  then have "list_ok (s\<lparr>sk_reqs := h\<rparr>) NextNull [r] [] [] N"
    using l set_nextD(2) [OF set] pushed_other [of r N h s] by (auto simp: A list_ok_def)
  then show ?thesis
    by (intro writer_sets_next [OF ok w set]) (simp_all add: t after_connect_def split: connect_result.split)
qed

lemma writer_reverses:
  assumes ok: "socket_ok sent s" and t: "sk_pcs s t = WcReverse c r o' nh p te" and "p \<noteq> o'"
    and rr: "reverse_round p te (sk_reqs s) = Some (NextReq p', h)"
  shows "socket_ok sent (set_sk_pc t (WcReverse c r o' nh p' (NextReq p)) (s\<lparr>sk_reqs := h\<rparr>))"
proof -
  have set: "set_next p te (sk_reqs s) = Some h" and old: "next_at (sk_reqs s) p = Some (NextReq p')"
    using rr by (auto simp: reverse_round_def set_next_def next_at_def bind_Some_conv)
  obtain A M1 M2 N where w: "writer s t A M1 M2 N" using the_writer [OF ok, of t] t by auto
  then have l: "list_ok s NextNull A M1 M2 N" and sh: "hd A = r" "o' = last A" "M1 @ M2 \<noteq> []" "nh = last (M1 @ M2)"
    "p = last (A @ M1)" "te = (case M2 of [] \<Rightarrow> NextNull | y # _ \<Rightarrow> NextReq y)" by (simp_all add: writer_def t)
  then have "M1 \<noteq> []" using assms(3) by auto
  then obtain M where M1: "M1 = M @ [p]" using sh(5) by (metis append_butlast_last_id last_appendR)
  have dist: "p \<notin> set A" "p \<notin> set M" "p \<notin> set M2" "p \<notin> set N"
    using l ok by (auto simp: M1 list_ok_def socket_ok_def memory_ok_def)
  have p': "p' = last (A @ M)" and pM: "pushed s (last A) M"
    using l old by (auto simp: M1 list_ok_def pushed_append)
  note other = set_nextD(2) [OF set]
  have "list_ok (s\<lparr>sk_reqs := h\<rparr>) NextNull A M (p # M2) N"
    using l pM pushed_other [of p _ h s] linked_other [of p _ h "sk_reqs s"] dist other sh(6)
    by (auto simp: list_ok_def M1 split: if_splits)
  then show ?thesis using sh(1,2,4)
    by (intro writer_sets_next [OF ok w set]) (simp_all add: old p' M1)
qed

lemma writer_joins:
  assumes ok: "socket_ok sent s" and t: "sk_pcs s t = WcReverse c r o' nh o' te" and set: "set_next o' te (sk_reqs s) = Some h"
  shows "socket_ok sent (set_sk_pc t (after_incomplete c r nh) (s\<lparr>sk_reqs := h\<rparr>))"
proof -
  obtain A M1 M2 N where w: "writer s t A M1 M2 N" using the_writer [OF ok, of t] t by auto
  then have l: "list_ok s NextNull A M1 M2 N" and sh: "hd A = r" "o' = last A" "M1 @ M2 \<noteq> []" "nh = last (M1 @ M2)"
    "o' = last (A @ M1)" "te = (case M2 of [] \<Rightarrow> NextNull | y # _ \<Rightarrow> NextReq y)" by (simp_all add: writer_def t)
  have A: "A \<noteq> []" using l by (simp add: list_ok_def)
  have d: "distinct (A @ M1 @ M2 @ N)" using l ok by (simp add: list_ok_def socket_ok_def memory_ok_def)
  have "M1 = []"
  proof (rule ccontr)
    assume "M1 \<noteq> []"
    then have "last A \<in> set M1" using sh(2,5) by (metis last_appendR last_in_set)
    then show False using d A by (auto dest: last_in_set)
  qed
  then obtain m M where M2: "M2 = m # M" and M1: "M1 = []" using sh(3) by (cases M2) auto
  have "o' \<in> set A" using last_in_set [OF A] sh(2) by simp
  then have o': "o' \<notin> set M2" "o' \<notin> set N" using d by auto
  note other = set_nextD(2) [OF set]
  have "linked h A (NextReq m)"
    using linked_set_last [of "sk_reqs s" A NextNull h "NextReq m"] l d A other sh(2,6) M2 by (simp add: list_ok_def)
  then have "list_ok (s\<lparr>sk_reqs := h\<rparr>) NextNull (A @ M2) [] [] N"
    using l pushed_other [of o' N h s] linked_other [of o' M2 h "sk_reqs s"] o' other
    by (auto simp: list_ok_def M1 M2 linked_append)
  moreover have "next_at (sk_reqs s) o' \<noteq> Some Unconnected"
    using linked_last [of "sk_reqs s" A NextNull] l A sh(2) by (simp add: list_ok_def)
  moreover have "shape (after_incomplete c r nh) (A @ M2) [] []"
    using sh A M1 M2 by (cases c) (simp_all add: after_incomplete_def)
  ultimately show ?thesis
    by (intro writer_sets_next [OF ok w set]) (simp_all add: after_incomplete_def split: wr_caller.split)
qed

lemma some_thread_at:
  "(\<exists>v. (pcs(t := c)) v = d) \<longleftrightarrow> c = d \<or> (\<exists>v. v \<noteq> t \<and> pcs v = d)"
  by (metis fun_upd_apply)

lemma links_okD:
  assumes "links_ok s" and "sk_pcs s v = SwLink x p"
  shows "next_at (sk_reqs s) x = Some Unconnected" "x \<in> set (sk_order s)" "sk_pcs s u \<noteq> SwFirst x"
    "sk_pcs s u = SwLink x p' \<Longrightarrow> u = v"
  using assms unfolding links_ok_def by blast+

text \<open>A written request at the front is returned.\<close>

lemma return_request_sel [simp]:
  "sk_reqs (return_request r s) = (sk_reqs s)(r := None)" "sk_order (return_request r s) = remove1 r (sk_order s)"
  "sk_head (return_request r s) = sk_head s" "sk_out (return_request r s) = sk_out s" "sk_pcs (return_request r s) = sk_pcs s"
  by (simp_all add: return_request_def)

lemma next_at_gone: "y \<noteq> r \<Longrightarrow> next_at (h(r := None)) y = next_at h y"
  "y \<noteq> r \<Longrightarrow> bytes_at (h(r := None)) y = bytes_at h y"
  by (simp_all add: next_at_def bytes_at_def)

lemma skipsD:
  "skips r h = Some (Some r') \<Longrightarrow> next_at h r = Some (NextReq r') \<and> bytes_at h r = []"
  by (auto simp: skips_def next_at_def bytes_at_def bind_Some_conv split: if_splits wr_next.splits)

lemma writer_returns:
  assumes ok: "socket_ok sent s" and w: "writer s t A [] [] N" and ln: "last_next (sk_pcs s t) = NextNull"
    and A: "hd A = r" and sk: "skips r (sk_reqs s) = Some (Some r')"
    and c: "writing c" "last_next c = NextNull" "\<And>B. r' # B = tl A \<Longrightarrow> shape c (r' # B) [] []"
  shows "socket_ok sent (set_sk_pc t c (return_request r s))" (is "socket_ok sent ?s")
proof -
  have l: "list_ok s NextNull A [] [] N" and tw: "writing (sk_pcs s t)" and only: "\<And>u. writing (sk_pcs s u) \<Longrightarrow> u = t"
    using w ln by (auto simp: writer_def)
  obtain B where AB: "A = r # r' # B"
    using l A skipsD [OF sk] by (cases A) (auto simp: list_ok_def split: list.splits)
  have mem: "memory_ok s" and lk: "links_ok s" using ok by (simp_all add: socket_ok_def)
  have ord: "sk_order s = r # r' # B @ N" using l by (simp add: list_ok_def AB)
  then have r: "r \<notin> set (r' # B @ N)" using mem by (simp add: memory_ok_def)
  have pcs: "sk_pcs ?s v = (if v = t then c else sk_pcs s v)" for v by simp
  have lks: "sk_pcs ?s v = SwLink x p \<longleftrightarrow> sk_pcs s v = SwLink x p" for v x p using tw c(1) by (auto simp: pcs)
  have dn: "sk_pcs ?s v = SkDone x \<longleftrightarrow> sk_pcs s v = SkDone x" for v x using tw c(1) by (auto simp: pcs)
  have fst': "sk_pcs ?s v \<noteq> SwFirst x" if "sk_pcs s v \<noteq> SwFirst x" for v x using that c(2) by (auto simp: pcs)
  have "memory_ok ?s"
  proof -
    have "\<not> (\<exists>t. sk_pcs s t = SkDone r)" using mem ord by (auto simp: memory_ok_def)
    then show ?thesis using mem ord r unfolding memory_ok_def dn by auto
  qed
  moreover have "links_ok ?s"
  proof -
    have "x \<noteq> r" if "sk_pcs s v = SwLink x p" for v x p using links_okD(1) [OF lk that] skipsD [OF sk] by auto
    then show ?thesis using lk ord fst' unfolding links_ok_def lks by (simp add: next_at_gone)
  qed
  moreover have "sent = sk_out ?s @ data_of (sk_reqs ?s) (sk_order ?s)"
  proof -
    have "data_of ((sk_reqs s)(r := None)) (r' # B @ N) = data_of (sk_reqs s) (r' # B @ N)"
      by (rule data_of_cong, rule next_at_gone) (use r in auto)
    then show ?thesis using ok skipsD [OF sk] by (simp add: socket_ok_def ord)
  qed
  moreover have "writer ?s t (r' # B) [] [] N"
  proof -
    have "x \<noteq> r" if "x \<in> set N" for x using r that by auto
    then have "pushed ?s a N" if "pushed s a N" for a
      by (intro pushed_cong [OF _ _ that]) (use lks in \<open>simp_all add: next_at_gone\<close>)
    moreover have "linked ((sk_reqs s)(r := None)) (r' # B) NextNull = linked (sk_reqs s) (r' # B) NextNull"
      by (rule linked_cong, rule next_at_gone) (use r in auto)
    ultimately have "list_ok ?s NextNull (r' # B) [] [] N" using l by (simp add: list_ok_def AB)
    then show ?thesis using c only by (auto simp: writer_def pcs AB)
  qed
  moreover have "sk_order ?s \<noteq> []" by (simp add: ord)
  ultimately show ?thesis unfolding socket_ok_def if_not_P [OF \<open>sk_order ?s \<noteq> []\<close>] by blast
qed

text \<open>The last request: everything is written and nobody came.\<close>

lemma writer_completes:
  assumes ok: "socket_ok sent s" and t: "sk_pcs s t = WcCas c r o'" and q: "sk_reqs s o' = Some q"
    and cas: "complete_cas o' (r = o') (wr_data q) (sk_head s) = Some (Inl True, hd')"
  shows "socket_ok sent (set_sk_pc t (SkDone r) (s\<lparr>sk_head := hd', sk_order := remove1 r (sk_order s)\<rparr>))"
proof -
  have r: "r = o'" "wr_data q = []" "sk_head s = Some o'" "hd' = None"
    using cas by (auto simp: complete_cas_def Let_def split: if_splits)
  obtain A M1 M2 N where w: "writer s t A M1 M2 N" using the_writer [OF ok, of t] t by auto
  then have l: "list_ok s NextNull A M1 M2 N" and sh: "hd A = r" "M1 = []" "M2 = []" "r = last A"
    using r(1) by (auto simp: writer_def t)
  have mem: "memory_ok s" and lk: "links_ok s" using ok by (simp_all add: socket_ok_def)
  have d: "distinct (A @ N)" "A \<noteq> []" "last (A @ N) = r" using l mem sh(2,3) r by (auto simp: list_ok_def memory_ok_def split: if_splits)
  have "N = []"
  proof (rule ccontr)
    assume "N \<noteq> []"
    then have "r \<in> set N" "r \<in> set A" using d sh(4) last_in_set [of N] last_in_set [of A] by auto
    then show False using d(1) by auto
  qed
  moreover have "A = [r]" using d sh(1,4) by (cases A) (auto split: if_splits dest: last_in_set)
  ultimately have ord: "sk_order s = [r]" and nr: "next_at (sk_reqs s) r = Some NextNull"
    using l sh(2,3) linked_last [of "sk_reqs s" A NextNull] by (simp_all add: list_ok_def)
  have nolink: "sk_pcs s v \<noteq> SwLink x p" for v x p using links_okD(1,2) [OF lk, of v x p] ord nr by auto
  have nodone: "sk_pcs s v \<noteq> SkDone r" for v using mem ord by (auto simp: memory_ok_def)
  have nowriter: "\<not> writing (sk_pcs s v)" if "v \<noteq> t" for v using w that by (simp add: writer_def)
  have "bytes_at (sk_reqs s) r = []" using q r by (simp add: bytes_at_def)
  moreover have "(\<exists>v. v \<noteq> t \<and> sk_pcs s v = SkDone x) \<longleftrightarrow> (\<exists>v. sk_pcs s v = SkDone x)" for x using t by (metis sk_pc.distinct)
  then have "memory_ok (set_sk_pc t (SkDone r) (s\<lparr>sk_head := hd', sk_order := remove1 r (sk_order s)\<rparr>))"
    using mem nodone ord r(4) unfolding memory_ok_def set_sk_pc_sel some_thread_at by auto
  ultimately show ?thesis using ok nolink nowriter ord by (auto simp: socket_ok_def links_ok_def)
qed

text \<open>Steps of threads that are not the writer.\<close>

lemma other_step:
  assumes ok: "socket_ok sent s" and t: "\<not> writing (sk_pcs s t)" and c: "\<not> writing c"
    and s': "s' = set_sk_pc t c (s\<lparr>sk_reqs := h\<rparr>)" and "memory_ok s'" and "links_ok s'"
    and bytes: "\<And>x. x \<in> set (sk_order s) \<Longrightarrow> bytes_at h x = bytes_at (sk_reqs s) x"
    and nexts: "\<And>x. x \<in> set (sk_order s) \<Longrightarrow> next_at (sk_reqs s) x \<noteq> Some Unconnected \<Longrightarrow> next_at h x = next_at (sk_reqs s) x"
    and first: "\<And>x. (\<exists>u. sk_pcs s u = SwFirst x) \<Longrightarrow> next_at h x = next_at (sk_reqs s) x"
    and push: "\<And>a xs. set xs \<subseteq> set (sk_order s) \<Longrightarrow> pushed s a xs \<Longrightarrow> pushed s' a xs"
  shows "socket_ok sent s'"
proof -
  have same: "sk_reqs s' = h" "sk_order s' = sk_order s" "sk_out s' = sk_out s" by (simp_all add: s')
  have wr: "writing (sk_pcs s' u) = writing (sk_pcs s u)" for u using t c by (simp add: s')
  have "data_of h (sk_order s) = data_of (sk_reqs s) (sk_order s)" by (rule data_of_cong [OF bytes])
  moreover have step: "writer s' u A M1 M2 N" if w: "writer s u A M1 M2 N" for u A M1 M2 N
  proof -
    have "writing (sk_pcs s u)" using w by (simp add: writer_def)
    then have u: "u \<noteq> t" "sk_pcs s' u = sk_pcs s u" using t by (auto simp: s')
    have l: "list_ok s (last_next (sk_pcs s u)) A M1 M2 N" using w by (simp add: writer_def)
    then have sub: "set A \<subseteq> set (sk_order s)" "set M1 \<subseteq> set (sk_order s)" "set M2 \<subseteq> set (sk_order s)" "set N \<subseteq> set (sk_order s)"
      by (auto simp: list_ok_def)
    have "linked h A (last_next (sk_pcs s u))"
    proof (cases "\<exists>x. sk_pcs s u = SwFirst x")
      case True
      then obtain x where x: "sk_pcs s u = SwFirst x" by blast
      then have "A = [x]" using w by (simp add: writer_def)
      then show ?thesis using l x first [of x] by (auto simp: list_ok_def)
    next
      case False
      then have e: "last_next (sk_pcs s u) = NextNull" by (cases "sk_pcs s u") simp_all
      have "next_at h x = next_at (sk_reqs s) x" if "x \<in> set A" for x
        using that linked_next [of "sk_reqs s" A NextNull x] l e nexts [of x] sub(1) by (auto simp: list_ok_def)
      then show ?thesis using l linked_cong [of A h "sk_reqs s"] by (simp add: list_ok_def)
    qed
    moreover have "linked h M2 NextNull"
    proof -
      have "next_at h x = next_at (sk_reqs s) x" if "x \<in> set M2" for x
        using that linked_next [of "sk_reqs s" M2 NextNull x] l nexts [of x] sub(3) by (auto simp: list_ok_def)
      then show ?thesis using l linked_cong [of M2 h "sk_reqs s"] by (simp add: list_ok_def)
    qed
    ultimately have "list_ok s' (last_next (sk_pcs s' u)) A M1 M2 N"
      using l push sub u(2) by (simp add: list_ok_def same)
    then show ?thesis using w u(2) wr by (simp add: writer_def)
  qed
  moreover have "\<exists>u A M1 M2 N. writer s' u A M1 M2 N" if "\<exists>u A M1 M2 N. writer s u A M1 M2 N" using that step by blast
  ultimately show ?thesis using ok assms(5,6) unfolding socket_ok_def same wr by (simp split: if_splits)
qed

lemma done_returns:
  assumes ok: "socket_ok sent s" and t: "sk_pcs s t = SkDone r"
  shows "socket_ok sent (set_sk_pc t SkIdle (return_request r s))" (is "socket_ok sent ?s")
proof -
  have mem: "memory_ok s" and lk: "links_ok s" using ok by (simp_all add: socket_ok_def)
  have r: "r \<notin> set (sk_order s)" using mem t by (simp add: memory_ok_def)
  have ne: "x \<noteq> r" if "x \<in> set (sk_order s)" for x using that r by auto
  have lks: "sk_pcs ?s v = SwLink x p \<longleftrightarrow> sk_pcs s v = SwLink x p" for v x p using t by simp
  have eq: "?s = set_sk_pc t SkIdle (s\<lparr>sk_reqs := (sk_reqs s)(r := None)\<rparr>)"
    using r by (simp add: return_request_def remove1_idem)
  show ?thesis
  proof (rule other_step [OF ok _ _ eq])
    show "memory_ok ?s"
    proof -
      have "(\<exists>v. v \<noteq> t \<and> sk_pcs s v = SkDone x) \<longleftrightarrow> x \<noteq> r \<and> (\<exists>v. sk_pcs s v = SkDone x)" for x
        using mem t unfolding memory_ok_def by (metis sk_pc.inject(14))
      then show ?thesis using mem t r unfolding memory_ok_def set_sk_pc_sel some_thread_at return_request_sel
        by (auto simp: remove1_idem)
    qed
    show "links_ok ?s" unfolding links_ok_def lks
      using links_okD [OF lk] ne by (auto simp: next_at_gone remove1_idem r split: if_splits)
    show "bytes_at ((sk_reqs s)(r := None)) x = bytes_at (sk_reqs s) x" if "x \<in> set (sk_order s)" for x
      using ne [OF that] by (simp add: next_at_gone)
    show "next_at ((sk_reqs s)(r := None)) x = next_at (sk_reqs s) x" if "x \<in> set (sk_order s)" for x
      using ne [OF that] by (simp add: next_at_gone)
    show "next_at ((sk_reqs s)(r := None)) x = next_at (sk_reqs s) x" if some: "\<exists>u. sk_pcs s u = SwFirst x" for x
    proof -
      obtain u where u: "sk_pcs s u = SwFirst x" using some by blast
      then obtain A M1 M2 N where "writer s u A M1 M2 N" using the_writer [OF ok, of u] by auto
      then have "x \<in> set (sk_order s)" using u by (auto simp: writer_def list_ok_def)
      then show ?thesis using ne by (simp add: next_at_gone)
    qed
    show "pushed ?s a xs" if "set xs \<subseteq> set (sk_order s)" "pushed s a xs" for a xs
      by (rule pushed_cong [OF _ _ that(2)]) (use that(1) ne lks in \<open>auto simp: next_at_gone\<close>)
  qed (simp_all add: t)
qed

text \<open>The thread that pushed a request links it to the one before.\<close>

lemma link_ok:
  assumes ok: "socket_ok sent s" and t: "sk_pcs s t = SwLink r p" and set: "set_next r (NextReq p) (sk_reqs s) = Some h"
  shows "socket_ok sent (set_sk_pc t SkIdle (s\<lparr>sk_reqs := h\<rparr>))" (is "socket_ok sent ?s")
proof (rule other_step [OF ok _ _ refl])
  have mem: "memory_ok s" and lk: "links_ok s" using ok by (simp_all add: socket_ok_def)
  note other = set_nextD(2) [OF set] and D = links_okD [OF lk]
  have lks: "sk_pcs ?s v = SwLink x p' \<longleftrightarrow> v \<noteq> t \<and> sk_pcs s v = SwLink x p'" for v x p' by simp
  have "sk_pcs ?s v = SkDone x \<longleftrightarrow> sk_pcs s v = SkDone x" for v x using t by simp
  then show "memory_ok ?s" using mem set_nextD(4) [OF set] unfolding memory_ok_def by simp
  show "links_ok ?s" unfolding links_ok_def lks using D other D(4) [of _ _ _ t p, OF _ t] t by (auto split: if_splits)
  show "bytes_at h x = bytes_at (sk_reqs s) x" for x by (simp add: set_nextD(3) [OF set])
  show "next_at h x = next_at (sk_reqs s) x" if "next_at (sk_reqs s) x \<noteq> Some Unconnected" for x
    using that D(1) [OF t] other by auto
  show "next_at h x = next_at (sk_reqs s) x" if "\<exists>u. sk_pcs s u = SwFirst x" for x
    using that D(3) [OF t] other by auto
  show "pushed ?s a xs" if "pushed s a xs" for a xs
    using that
  proof (induction xs arbitrary: a)
    case (Cons x xs)
    show ?case
    proof (cases "x = r")
      case True
      then obtain v where "sk_pcs s v = SwLink r a" using Cons.prems D(1) [OF t] by auto
      then have "a = p" using D(4) [OF t, of v a] t by simp
      then show ?thesis using Cons True other by simp
    next
      case False
      then have "v \<noteq> t" if "sk_pcs s v = SwLink x a" for v using that t by auto
      then show ?thesis using Cons False other by auto
    qed
  qed simp
qed (simp_all add: t)

text \<open>A new request: its thread gets the right to write, or must link it to the last one.\<close>

lemma exchange_ok:
  assumes ok: "socket_ok sent s" and t: "sk_pcs s t = SkIdle" and r: "sk_reqs s r = None"
  shows "socket_ok (sent @ d) (set_sk_pc t (start_exchange r (sk_head s))
      (s\<lparr>sk_reqs := (sk_reqs s)(r \<mapsto> \<lparr>wr_data = d, wr_next = Unconnected\<rparr>), sk_head := Some r, sk_order := sk_order s @ [r]\<rparr>))"
    (is "socket_ok _ ?s")
proof -
  let ?h = "(sk_reqs s)(r \<mapsto> \<lparr>wr_data = d, wr_next = Unconnected\<rparr>)" and ?c = "start_exchange r (sk_head s)"
  have mem: "memory_ok s" and lk: "links_ok s" using ok by (simp_all add: socket_ok_def)
  have new: "r \<notin> set (sk_order s)" "\<And>v. sk_pcs s v \<noteq> SkDone r" using mem r unfolding memory_ok_def by blast+
  have at: "next_at ?h x = (if x = r then Some Unconnected else next_at (sk_reqs s) x)"
    "bytes_at ?h x = (if x = r then d else bytes_at (sk_reqs s) x)" for x by (simp_all add: next_at_def bytes_at_def)
  have nolink: "sk_pcs s v \<noteq> SwLink r p" for v p using links_okD(2) [OF lk] new(1) by blast
  have head: "sk_head s = (if sk_order s = [] then None else Some (last (sk_order s)))" using mem by (simp add: memory_ok_def)
  have nofirst: "sk_pcs s v \<noteq> SwFirst x" if "sk_order s \<noteq> []" "x \<notin> set (sk_order s)" for v x
  proof
    assume v: "sk_pcs s v = SwFirst x"
    then obtain A M1 M2 N where "writer s v A M1 M2 N" using the_writer [OF ok, of v] by auto
    then show False using v that(2) by (auto simp: writer_def list_ok_def)
  qed
  have "memory_ok ?s"
  proof -
    have "(\<exists>v. v \<noteq> t \<and> sk_pcs s v = SkDone x) \<longleftrightarrow> (\<exists>v. sk_pcs s v = SkDone x)" for x using t by (metis sk_pc.distinct)
    moreover have "start_exchange r a \<noteq> SkDone x" for a x by (simp add: start_exchange_def split: option.split)
    ultimately show ?thesis using mem new unfolding memory_ok_def set_sk_pc_sel some_thread_at by auto
  qed
  moreover have "links_ok ?s"
  proof (cases "sk_order s = []")
    case True
    then have "sk_pcs s v \<noteq> SwLink x p" for v x p using links_okD(2) [OF lk, of v x p] by auto
    then show ?thesis by (simp add: links_ok_def start_exchange_def head True)
  next
    case False
    then have c: "?c = SwLink r (last (sk_order s))" by (simp add: start_exchange_def head)
    show ?thesis unfolding links_ok_def using links_okD [OF lk] new(1) nolink nofirst [OF False new(1)]
      by (auto simp: c at split: if_splits)
  qed
  moreover have "sent @ d = sk_out ?s @ data_of (sk_reqs ?s) (sk_order ?s)"
  proof -
    have "data_of ?h (sk_order s) = data_of (sk_reqs s) (sk_order s)" by (rule data_of_cong) (use new(1) in \<open>auto simp: at\<close>)
    then show ?thesis using ok by (simp add: socket_ok_def at)
  qed
  moreover have "\<exists>u A M1 M2 N. writer ?s u A M1 M2 N"
  proof (cases "sk_order s = []")
    case True
    then have "\<not> writing (sk_pcs s v)" for v using ok by (simp add: socket_ok_def)
    then have "writer ?s t [r] [] [] []" by (simp add: writer_def list_ok_def True at start_exchange_def head)
    then show ?thesis by blast
  next
    case False
    then obtain u A M1 M2 N where w: "writer s u A M1 M2 N" using ok by (auto simp: socket_ok_def)
    have c: "?c = SwLink r (last (sk_order s))" using False by (simp add: start_exchange_def head)
    have u: "u \<noteq> t" using w t by (auto simp: writer_def)
    have l: "list_ok s (last_next (sk_pcs s u)) A M1 M2 N" using w by (simp add: writer_def)
    then have sub: "r \<notin> set A" "r \<notin> set M1" "r \<notin> set M2" "r \<notin> set N" using new(1) by (auto simp: list_ok_def)
    have push: "pushed ?s a xs" if "pushed s a xs" "r \<notin> set xs" for a xs
      by (rule pushed_cong [OF _ _ that(1)]) (use that(2) t in \<open>auto simp: at\<close>)
    have "last (last (A @ M1 @ M2) # N) = last (sk_order s)" using l by (auto simp: list_ok_def)
    then have "pushed ?s (last (A @ M1 @ M2)) (N @ [r])"
      using push [of "last (A @ M1 @ M2)" N] l sub(4) by (auto simp: pushed_append c at list_ok_def)
    then have "list_ok ?s (last_next (sk_pcs s u)) A M1 M2 (N @ [r])"
      using l push sub linked_other [of r A ?h "sk_reqs s"] linked_other [of r M2 ?h "sk_reqs s"] by (simp add: list_ok_def at)
    then have "writer ?s u A M1 M2 (N @ [r])" using w u t by (auto simp: writer_def c)
    then show ?thesis by blast
  qed
  ultimately show ?thesis by (simp add: socket_ok_def)
qed

text \<open>Every step.\<close>

lemma socket_ok_step:
  assumes "sk_step s t e s'" and ok: "socket_ok sent s"
  shows "socket_ok (sent @ sent_by [e]) s'"
proof -
  have goes: "socket_ok sent (set_sk_pc t c s)"
    if "writing (sk_pcs s t)" "last_next (sk_pcs s t) = NextNull" "writing c" "last_next c = NextNull"
      "\<And>A M1 M2 N. writer s t A M1 M2 N \<Longrightarrow> shape c A M1 M2" for c
    using the_writer [OF ok that(1)] writer_goes_on [OF ok _ that(2-4)] that(5) by blast
  show ?thesis
    using assms(1)
  proof cases
    case (exchanges r d)
    then show ?thesis using exchange_ok [OF ok, of t r d] by simp
  next
    case (links r p h)
    then show ?thesis using link_ok [OF ok, of t r p h] by simp
  next
    case (connects r h c)
    then show ?thesis using writer_connects [OF ok, of t r h c] by simp
  next
    case (connected r c)
    then show ?thesis using goes [of c] by (auto simp: writer_def)
  next
    case (write_fails r)
    then show ?thesis using goes [of "SkFail r"] by (auto simp: writer_def)
  next
    case (no_bthread r)
    then show ?thesis using goes [of "KwTop r None"] by (auto simp: writer_def)
  next
    case (keeps_first r ct)
    then show ?thesis using goes [of "KwWrite r ct"] by (auto simp: writer_def)
  next
    case (do_write_fails r ct)
    then show ?thesis using goes [of "SkFail r"] by (auto simp: writer_def)
  next
    case (released r ct none)
    then show ?thesis using goes [of "if none then KwWait r ct else KwTail r ct"] by (auto simp: writer_def)
  next
    case (waits_epollout r ct c)
    then show ?thesis using goes [of c] by (auto simp: writer_def)
  next
    case (completes c r o' q hd')
    then show ?thesis using writer_completes [OF ok, of t c r o' q hd'] by simp
  next
    case (returns_last r)
    then show ?thesis using done_returns [OF ok, of t r] by simp
  next
    case (reverses c r o' new_head p tail p' h)
    then show ?thesis using writer_reverses [OF ok, of t c r o' new_head p tail p' h] by simp
  next
    case (joins_lists c r o' new_head tail h)
    then show ?thesis using writer_joins [OF ok, of t c r o' new_head tail h] by simp
  next
    case (finds_tail r ct o' xs)
    obtain A M1 M2 N where w: "writer s t A M1 M2 N" using the_writer [OF ok, of t] finds_tail(3) by auto
    then have l: "linked (sk_reqs s) A NextNull" "A \<noteq> []" "hd A = r" "ct \<in> {None, Some (last A)}" "M1 = []" "M2 = []"
      using finds_tail(3) by (auto simp: writer_def list_ok_def)
    then have "o' = last A" using finds_tail(4) chain_unique [of "sk_reqs s" xs A] by (auto simp: chain_def)
    then show ?thesis using writer_goes_on [OF ok w] finds_tail l by simp
  next
    case (starts_bthread r u)
    obtain A M1 M2 N where w: "writer s t A M1 M2 N" using the_writer [OF ok, of t] starts_bthread(3) by auto
    then show ?thesis using writer_moves [OF ok w, of u "KwTop r None" "[]" "[]" N] starts_bthread by (auto simp: writer_def)
  next
    case (writes r n bs h)
    obtain A M1 M2 N where w: "writer s t A M1 M2 N" using the_writer [OF ok, of t] writes(3) by auto
    then have A: "A = [r]" "M1 = []" "M2 = []" using writes(3) by (auto simp: writer_def)
    note c = cut_dataD [OF writes(4)]
    show ?thesis using writer_writes [OF ok w, of "WcCas InStartWrite r r" h bs] writes(1-3) A c by simp
  next
    case (does_write r ct xs n bs h)
    obtain A M1 M2 N where w: "writer s t A M1 M2 N" using the_writer [OF ok, of t] does_write(3) by auto
    then have A: "linked (sk_reqs s) A NextNull" "A \<noteq> []" "hd A = r" "ct \<in> {None, Some (last A)}" "M1 = []" "M2 = []"
      using does_write(3) by (auto simp: writer_def list_ok_def)
    then have xs: "xs = A" using does_write(4) chain_unique [of "sk_reqs s" xs A] by (auto simp: chain_def)
    have "distinct A" using w ok by (auto simp: writer_def list_ok_def socket_ok_def memory_ok_def)
    note d = do_writeD [OF does_write(5) [unfolded xs] this]
    show ?thesis using writer_writes [OF ok w, of "KwRelease r ct (bs = [])" h bs] does_write(1-3) A d by simp
  next
    case (skips_first r ct r')
    obtain A M1 M2 N where w: "writer s t A M1 M2 N" using the_writer [OF ok, of t] skips_first(3) by auto
    then have A: "hd A = r" "ct \<in> {None, Some (last A)}" "M1 = []" "M2 = []" using skips_first(3) by (auto simp: writer_def)
    have "shape (KwWrite r' ct) (r' # B) [] []" if "r' # B = tl A" for B using A(2) that by (cases A) auto
    then show ?thesis using writer_returns [OF ok w [unfolded A(3,4)] _ A(1) skips_first(4), of "KwWrite r' ct"] skips_first(1-3) by simp
  next
    case (releases r ct none r')
    obtain A M1 M2 N where w: "writer s t A M1 M2 N" using the_writer [OF ok, of t] releases(3) by auto
    then have A: "hd A = r" "ct \<in> {None, Some (last A)}" "M1 = []" "M2 = []" using releases(3) by (auto simp: writer_def)
    have "shape (KwRelease r' ct none) (r' # B) [] []" if "r' # B = tl A" for B using A(2) that by (cases A) auto
    then show ?thesis using writer_returns [OF ok w [unfolded A(3,4)] _ A(1) releases(4), of "KwRelease r' ct none"] releases(1-3) by simp
  next
    case (nobody_came c r o' q hd')
    have same: "s\<lparr>sk_head := hd'\<rparr> = s"
      using nobody_came(5) by (auto simp: complete_cas_def Let_def split: if_splits)
    obtain A M1 M2 N where w: "writer s t A M1 M2 N" using the_writer [OF ok, of t] nobody_came(3) by auto
    then have "shape (after_incomplete c r o') A M1 M2" using nobody_came(3)
      by (cases c) (auto simp: writer_def after_incomplete_def)
    then show ?thesis using writer_goes_on [OF ok w, of "after_incomplete c r o'"] nobody_came(1-3) same
      by (cases c) (simp_all add: after_incomplete_def)
  next
    case (somebody_came c r o' q new_head hd')
    have h: "sk_head s = Some new_head" "new_head \<noteq> o'"
      using somebody_came(5) by (auto simp: complete_cas_def Let_def split: if_splits)
    obtain A M1 M2 N where w: "writer s t A M1 M2 N" using the_writer [OF ok, of t] somebody_came(3) by auto
    then have l: "list_ok s NextNull A [] [] N" "hd A = r" "o' = last A"
      using somebody_came(3) by (auto simp: writer_def)
    moreover have "last (A @ N) = new_head"
      using h(1) l(1) ok by (auto simp: list_ok_def socket_ok_def memory_ok_def split: if_splits)
    ultimately have "N \<noteq> []" "last N = new_head" using h(2) by (auto simp: last_append split: if_splits)
    then show ?thesis using writer_moves [OF ok w, of t "WcReverse c r o' new_head new_head NextNull" N "[]" "[]"] somebody_came(1-3) l
      by (simp add: list_ok_def)
  qed
qed

section \<open>What the connection promises\<close>

lemma sent_by_append [simp]: "sent_by (es @ fs) = sent_by es @ sent_by fs"
  by (induction es rule: sent_by.induct) simp_all

lemma socket_ok_start: "socket_ok [] sk_start"
  by (simp add: socket_ok_def memory_ok_def links_ok_def sk_start_def)

lemma socket_ok_run: "sk_run s es s' \<Longrightarrow> socket_ok sent s \<Longrightarrow> socket_ok (sent @ sent_by es) s'"
proof (induction rule: sk_run.induct)
  case (sk_goes s es u t e s')
  then show ?case using socket_ok_step [OF sk_goes.hyps(2), of "sent @ sent_by es"] by simp
qed simp

text \<open>
  C25.  Writing to a connection (notes on writing): however \<open>StartWrite\<close>, \<open>KeepWrite\<close> and \<open>IsWriteComplete\<close> of many threads are
  interleaved, what the file descriptor has taken is a beginning of the data of all requests in the order in which they
  were pushed; it is all of it when \<open>_write_head\<close> is NULL; at most one thread has the right to write, and one does as long
  as \<open>_write_head\<close> is not NULL.
\<close>

theorem writes_in_order:
  assumes "sk_run sk_start es s"
  shows "(\<exists>rest. sent_by es = sk_out s @ rest \<and> (sk_head s = None \<longrightarrow> rest = []))
    \<and> (\<forall>t u. writing (sk_pcs s t) \<and> writing (sk_pcs s u) \<longrightarrow> t = u)
    \<and> (sk_head s \<noteq> None \<longleftrightarrow> (\<exists>t. writing (sk_pcs s t)))"
proof -
  have ok: "socket_ok (sent_by es) s" using socket_ok_run [OF assms socket_ok_start] by simp
  then have bytes: "sent_by es = sk_out s @ data_of (sk_reqs s) (sk_order s)"
    and head: "sk_head s = (if sk_order s = [] then None else Some (last (sk_order s)))"
    by (simp_all add: socket_ok_def memory_ok_def)
  show ?thesis
  proof (cases "sk_order s = []")
    case True
    then have "\<not> writing (sk_pcs s t)" for t using ok by (simp add: socket_ok_def)
    then show ?thesis using bytes head True by simp
  next
    case False
    then obtain t A M1 M2 N where "writer s t A M1 M2 N" using ok by (auto simp: socket_ok_def)
    then have "writing (sk_pcs s u) \<longleftrightarrow> u = t" for u by (simp add: writer_def)
    then show ?thesis using bytes head False by auto
  qed
qed

lemma skips_total:
  "next_at h r = Some NextNull \<or> (\<exists>y. next_at h r = Some (NextReq y)) \<Longrightarrow> \<exists>a. skips r h = Some a"
  by (cases "h r") (auto simp: skips_def next_at_def)

lemma do_write_total: "(\<And>x. x \<in> set xs \<Longrightarrow> h x \<noteq> None) \<Longrightarrow> \<exists>bs h'. do_write n xs h = Some (bs, h')"
proof (induction n xs h rule: do_write.induct)
  case (2 n r rs h)
  then obtain q where q: "h r = Some q" by fastforce
  then have c: "cut_data n r h = Some (take n (wr_data q), h(r \<mapsto> q\<lparr>wr_data := drop n (wr_data q)\<rparr>))" by (simp add: cut_data_def)
  have "(h(r \<mapsto> q\<lparr>wr_data := drop n (wr_data q)\<rparr>)) x \<noteq> None" if "x \<in> set rs" for x using "2.prems" that by simp
  from "2.IH" [OF c refl this] show ?case using c by fastforce
qed simp

lemma set_next_total: "h r \<noteq> None \<Longrightarrow> \<exists>h'. set_next r n h = Some h'"
  by (auto simp: set_next_def)


section \<open>A run of two threads\<close>

text \<open>
  Thread 0 pushes a request of two bytes and writes one of them; thread 1 has pushed a request of one byte and not linked it
  yet when thread 0 sees it and starts the reversal.
\<close>

definition two_requests :: "8 word list \<Rightarrow> wr_next \<Rightarrow> wr_heap" where
  "two_requests d n = [0 \<mapsto> \<lparr>wr_data = d, wr_next = n\<rparr>, 1 \<mapsto> \<lparr>wr_data = [3], wr_next = Unconnected\<rparr>]"

definition two_threads :: "wr_heap \<Rightarrow> 8 word list \<Rightarrow> sk_pc \<Rightarrow> socket" where
  "two_threads h bytes c = \<lparr>sk_reqs = h, sk_head = Some 1, sk_out = bytes,
     sk_pcs = (\<lambda>_. SkIdle)(0 := c, 1 := SwLink 1 0), sk_order = [0, 1]\<rparr>"

lemma two_threads_run:
  "sk_run sk_start [SkStart [1, 2], SkStart [3], SkTau, SkTau, SkTau]
     (two_threads (two_requests [2] NextNull) [1] (WcReverse InStartWrite 0 0 1 1 NextNull))"
proof -
  let ?one = "\<lparr>sk_reqs = [0 \<mapsto> \<lparr>wr_data = [1, 2], wr_next = Unconnected\<rparr>], sk_head = Some 0, sk_out = [],
     sk_pcs = (\<lambda>_. SkIdle)(0 := SwFirst 0), sk_order = [0]\<rparr>"
  note defs = two_threads_def two_requests_def set_sk_pc_def start_exchange_def
  have "sk_step sk_start 0 (SkStart [1, 2]) ?one"
    using sk_step.exchanges [of sk_start 0 0 "[1, 2]"] by (simp add: sk_start_def set_sk_pc_def start_exchange_def)
  moreover have "sk_step ?one 1 (SkStart [3]) (two_threads (two_requests [1, 2] Unconnected) [] (SwFirst 0))"
    using sk_step.exchanges [of ?one 1 1 "[3]"] by (simp add: defs fun_upd_twist)
  moreover have "sk_step (two_threads (two_requests [1, 2] Unconnected) [] (SwFirst 0)) 0 SkTau
      (two_threads (two_requests [1, 2] NextNull) [] (SwWrite 0))"
    using sk_step.connects [of "two_threads (two_requests [1, 2] Unconnected) [] (SwFirst 0)" 0 0
        "two_requests [1, 2] NextNull" Connected]
    by (simp add: defs after_connect_def set_next_def fun_upd_twist)
  moreover have "sk_step (two_threads (two_requests [1, 2] NextNull) [] (SwWrite 0)) 0 SkTau
      (two_threads (two_requests [2] NextNull) [1] (WcCas InStartWrite 0 0))"
    using sk_step.writes [of "two_threads (two_requests [1, 2] NextNull) [] (SwWrite 0)" 0 0 1 "[1]" "two_requests [2] NextNull"]
    by (simp add: defs cut_data_def fun_upd_twist)
  moreover have "sk_step (two_threads (two_requests [2] NextNull) [1] (WcCas InStartWrite 0 0)) 0 SkTau
      (two_threads (two_requests [2] NextNull) [1] (WcReverse InStartWrite 0 0 1 1 NextNull))"
    using sk_step.somebody_came [of "two_threads (two_requests [2] NextNull) [1] (WcCas InStartWrite 0 0)" 0 InStartWrite 0 0
        "\<lparr>wr_data = [2], wr_next = NextNull\<rparr>" 1 "Some 1"]
    by (simp add: defs complete_cas_def fun_upd_twist)
  ultimately have "sk_run sk_start ((((([] @ [SkStart [1, 2]]) @ [SkStart [3]]) @ [SkTau]) @ [SkTau]) @ [SkTau])
      (two_threads (two_requests [2] NextNull) [1] (WcReverse InStartWrite 0 0 1 1 NextNull))"
    by (intro sk_goes) (rule sk_stays)
  then show ?thesis by simp
qed

theorem writes_in_order_witness:
  "\<exists>rest. [1, 2, 3] = sk_out (two_threads (two_requests [2] NextNull) [1] (WcReverse InStartWrite 0 0 1 1 NextNull)) @ rest"
  using writes_in_order [OF two_threads_run] by auto


end
