(* ===== verification/Futex.thy ===== *)
theory Futex
  imports Prelude
begin

text \<open>
  \<open>SimuFutex\<close>, the futex that the parking lots and the waiters of pthreads use where the system has none, as the notes quote
  it (\<^verbatim>\<open>docs/futex.md\<close>): a mutex, a condition variable and two counters for each address in use, kept in a map.  This
  is the part for one address; the critical sections of all threads are interleaved.
\<close>

section \<open>The futex of one address\<close>

record simu_futex =
  sf_counts :: int
  sf_ref :: int

text \<open>
  Where a thread is: outside; in \<open>futex_wait_private\<close> before it looks at the value, blocked in \<open>pthread_cond_wait\<close> (or
  \<open>pthread_cond_timedwait\<close>), on the way back from it to the mutex with the result, and before it gives its reference back; in
  \<open>futex_wake_private\<close> before the signals, and before it gives its reference back.
\<close>

datatype fx_pc =
  FxIdle
| FxToCheck int
| FxBlocked
| FxWoken int
| FxToLeave int
| FxToSignal int
| FxToReturn int

text \<open>The value at the address, the entry of \<open>s_futex_map\<close>, and the threads.\<close>

record futex_state =
  fx_value :: int
  fx_entry :: "simu_futex option"
  fx_pcs :: "fx_pc list"

text \<open>\<open>++ref\<close> of the entry, which \<open>operator[]\<close> makes if it is not there, and \<open>--ref\<close>, which erases the entry at 0.\<close>

definition take_ref :: "simu_futex option \<Rightarrow> simu_futex option" where
  "take_ref e = (case e of None \<Rightarrow> Some \<lparr>sf_counts = 0, sf_ref = 1\<rparr> | Some f \<Rightarrow> Some (f\<lparr>sf_ref := sf_ref f + 1\<rparr>))"

definition drop_ref :: "simu_futex \<Rightarrow> simu_futex option" where
  "drop_ref f = (if sf_ref f - 1 = 0 then None else Some (f\<lparr>sf_ref := sf_ref f - 1\<rparr>))"

text \<open>The check of the value, with the mutex of the futex held: whether the thread blocks.\<close>

definition check_value :: "int \<Rightarrow> int \<Rightarrow> simu_futex \<Rightarrow> fx_pc \<times> simu_futex" where
  "check_value v expected f =
     (if v = expected then (FxBlocked, f\<lparr>sf_counts := sf_counts f + 1\<rparr>) else (FxToLeave (-1), f))"

text \<open>The number of signals, which is what \<open>futex_wake_private\<close> returns.\<close>

definition nwakedup :: "int \<Rightarrow> simu_futex \<Rightarrow> int" where
  "nwakedup nwake f = max 0 (if nwake < sf_counts f then nwake else sf_counts f)"

text \<open>A signal of the condition variable unblocks one thread, if one is blocked.\<close>

definition blocked :: "fx_pc list \<Rightarrow> nat" where
  "blocked ps = length (filter (\<lambda>c. c = FxBlocked) ps)"

fun unblock :: "nat list \<Rightarrow> fx_pc list \<Rightarrow> fx_pc list option" where
  "unblock [] ps = Some ps"
| "unblock (u # us) ps = (if nth_opt ps u = Some FxBlocked then unblock us (ps[u := FxWoken 0]) else None)"

section \<open>The steps\<close>

text \<open>
  The events: \<open>FxSignals n k\<close> are the signals of a call of \<open>futex_wake_private\<close> for \<open>n\<close> threads, which returns \<open>k\<close>; if the call finds no
  entry, it returns 0 at once.
\<close>

datatype fx_event = FxTau | FxSignals int int

definition set_fx :: "nat \<Rightarrow> fx_pc \<Rightarrow> simu_futex option \<Rightarrow> futex_state \<Rightarrow> futex_state" where
  "set_fx t c e s = s\<lparr>fx_pcs := (fx_pcs s)[t := c], fx_entry := e\<rparr>"

abbreviation fx_at :: "futex_state \<Rightarrow> nat \<Rightarrow> fx_pc \<Rightarrow> bool" where
  "fx_at s t c \<equiv> nth_opt (fx_pcs s) t = Some c"

inductive fx_step :: "futex_state \<Rightarrow> fx_event \<Rightarrow> futex_state \<Rightarrow> bool" where
  stores: "fx_step s FxTau (s\<lparr>fx_value := v\<rparr>)"
| wait_enters: "fx_at s t FxIdle \<Longrightarrow> fx_step s FxTau (set_fx t (FxToCheck expected) (take_ref (fx_entry s)) s)"
| wait_checks: "fx_at s t (FxToCheck expected) \<Longrightarrow> fx_entry s = Some f \<Longrightarrow> check_value (fx_value s) expected f = (c, f') \<Longrightarrow>
    fx_step s FxTau (set_fx t c (Some f') s)"
| wait_returns: "fx_at s t FxBlocked \<Longrightarrow> rc \<in> {0, -1} \<Longrightarrow> fx_step s FxTau (set_fx t (FxWoken rc) (fx_entry s) s)"
| wait_relocks: "fx_at s t (FxWoken rc) \<Longrightarrow> fx_entry s = Some f \<Longrightarrow>
    fx_step s FxTau (set_fx t (FxToLeave rc) (Some (f\<lparr>sf_counts := sf_counts f - 1\<rparr>)) s)"
| wait_leaves: "fx_at s t (FxToLeave rc) \<Longrightarrow> fx_entry s = Some f \<Longrightarrow> fx_step s FxTau (set_fx t FxIdle (drop_ref f) s)"
| wake_finds_none: "fx_at s t FxIdle \<Longrightarrow> fx_entry s = None \<Longrightarrow> fx_step s (FxSignals nwake 0) s"
| wake_enters: "fx_at s t FxIdle \<Longrightarrow> fx_entry s = Some f \<Longrightarrow>
    fx_step s FxTau (set_fx t (FxToSignal nwake) (take_ref (fx_entry s)) s)"
| wake_signals: "fx_at s t (FxToSignal nwake) \<Longrightarrow> fx_entry s = Some f \<Longrightarrow> k = nwakedup nwake f \<Longrightarrow>
    length us = min (nat k) (blocked (fx_pcs s)) \<Longrightarrow> unblock us (fx_pcs s) = Some ps \<Longrightarrow>
    fx_step s (FxSignals nwake k) (set_fx t (FxToReturn k) (fx_entry s) (s\<lparr>fx_pcs := ps\<rparr>))"
| wake_leaves: "fx_at s t (FxToReturn k) \<Longrightarrow> fx_entry s = Some f \<Longrightarrow> fx_step s FxTau (set_fx t FxIdle (drop_ref f) s)"

inductive fx_run :: "futex_state \<Rightarrow> fx_event list \<Rightarrow> futex_state \<Rightarrow> bool" where
  fx_stays: "fx_run s [] s"
| fx_goes: "fx_run s es u \<Longrightarrow> fx_step u e s' \<Longrightarrow> fx_run s (es @ [e]) s'"

definition fx_start :: "nat \<Rightarrow> int \<Rightarrow> futex_state" where
  "fx_start n v = \<lparr>fx_value = v, fx_entry = None, fx_pcs = replicate n FxIdle\<rparr>"

section \<open>The counters\<close>

definition in_call :: "fx_pc list \<Rightarrow> nat" where
  "in_call ps = length (filter (\<lambda>c. c \<noteq> FxIdle) ps)"

definition woken :: "fx_pc list \<Rightarrow> nat" where
  "woken ps = length (filter (\<lambda>c. \<exists>rc. c = FxWoken rc) ps)"

lemma filter_update:
  "nth_opt ps t = Some c \<Longrightarrow>
   length (filter P (ps[t := c'])) + (if P c then 1 else 0) = length (filter P ps) + (if P c' then 1 else 0)"
proof (induction ps arbitrary: t)
  case (Cons p ps)
  then show ?case by (cases t) (auto simp: nth_opt_Some split: if_splits)
qed (simp add: nth_opt_Some)

lemmas fx_counts_update = filter_update [of _ _ _ "\<lambda>c. c = FxBlocked", folded blocked_def]
  filter_update [of _ _ _ "\<lambda>c. c \<noteq> FxIdle", folded in_call_def]
  filter_update [of _ _ _ "\<lambda>c. \<exists>rc. c = FxWoken rc", folded woken_def]

text \<open>The reference count is the number of threads in a call, the other counter the number of those that wait, awake or not.\<close>

definition futex_ok :: "futex_state \<Rightarrow> bool" where
  "futex_ok s \<longleftrightarrow> (case fx_entry s of
       None \<Rightarrow> in_call (fx_pcs s) = 0
     | Some f \<Rightarrow> 0 < in_call (fx_pcs s) \<and> sf_ref f = int (in_call (fx_pcs s))
         \<and> sf_counts f = int (blocked (fx_pcs s) + woken (fx_pcs s)))"

lemma unblock_counts:
  assumes "unblock us ps = Some ps'"
  shows "in_call ps' = in_call ps \<and> blocked ps = blocked ps' + length us \<and> woken ps' = woken ps + length us
    \<and> (\<forall>t c. nth_opt ps t = Some c \<longrightarrow> c \<noteq> FxBlocked \<longrightarrow> nth_opt ps' t = Some c)"
  using assms
proof (induction us arbitrary: ps)
  case (Cons u us)
  then have u: "nth_opt ps u = Some FxBlocked" and r: "unblock us (ps[u := FxWoken 0]) = Some ps'" by (auto split: if_splits)
  have "nth_opt (ps[u := FxWoken 0]) t = Some c" if "nth_opt ps t = Some c" "c \<noteq> FxBlocked" for t c
    using that u by (auto simp: nth_opt_Some)
  then show ?case using Cons.IH [OF r] fx_counts_update [OF u, of "FxWoken 0"] by simp
qed simp

lemma in_call_blocked: "blocked ps + woken ps \<le> in_call ps"
  by (induction ps) (auto simp: blocked_def woken_def in_call_def)

lemma futex_ok_step:
  assumes "fx_step s e s'" and ok: "futex_ok s"
  shows "futex_ok s'"
  using assms(1)
proof cases
  case (stores v)
  then show ?thesis using ok by (auto simp: futex_ok_def split: option.splits)
next
  case (wait_enters t expected)
  then show ?thesis using ok fx_counts_update [OF wait_enters(3), of "FxToCheck expected"] in_call_blocked [of "fx_pcs s"]
    by (auto simp: futex_ok_def set_fx_def take_ref_def split: option.splits)
next
  case (wait_checks t expected f c f')
  then show ?thesis using ok fx_counts_update [OF wait_checks(3), of c]
    by (auto simp: futex_ok_def set_fx_def check_value_def split: if_splits)
next
  case (wait_returns t rc)
  then show ?thesis using ok fx_counts_update [OF wait_returns(3), of "FxWoken rc"]
    by (auto simp: futex_ok_def set_fx_def split: option.splits)
next
  case (wait_relocks t rc f)
  then show ?thesis using ok fx_counts_update [OF wait_relocks(3), of "FxToLeave rc"] by (auto simp: futex_ok_def set_fx_def)
next
  case (wait_leaves t rc f)
  then show ?thesis using ok fx_counts_update [OF wait_leaves(3), of FxIdle]
    by (auto simp: futex_ok_def set_fx_def drop_ref_def)
next
  case (wake_finds_none t nwake)
  then show ?thesis using ok by simp
next
  case (wake_enters t f nwake)
  then show ?thesis using ok fx_counts_update [OF wake_enters(3), of "FxToSignal nwake"]
    by (auto simp: futex_ok_def set_fx_def take_ref_def)
next
  case (wake_signals t nwake f k us ps)
  note u = unblock_counts [OF wake_signals(7)]
  then have "nth_opt ps t = Some (FxToSignal nwake)" using wake_signals(3) by simp
  then show ?thesis using ok u wake_signals(1,2,4) fx_counts_update [of ps t "FxToSignal nwake" "FxToReturn k"]
    by (auto simp: futex_ok_def set_fx_def)
next
  case (wake_leaves t k f)
  then show ?thesis using ok fx_counts_update [OF wake_leaves(3), of FxIdle]
    by (auto simp: futex_ok_def set_fx_def drop_ref_def)
qed

lemma futex_ok_start: "futex_ok (fx_start n v)"
  by (simp add: futex_ok_def fx_start_def in_call_def)

lemma fx_run_ok: "fx_run s es s' \<Longrightarrow> futex_ok s \<Longrightarrow> futex_ok s'"
  by (induction rule: fx_run.induct) (auto intro: futex_ok_step)

lemma in_call_pos: "0 < in_call ps \<longleftrightarrow> (\<exists>t c. nth_opt ps t = Some c \<and> c \<noteq> FxIdle)"
  by (auto simp: in_call_def nth_opt_Some filter_empty_conv in_set_conv_nth) (metis nth_mem)

lemma wake_all_or_some:
  fixes b w b' c :: nat and k n :: int
  assumes k: "k = max 0 (min n (int (b + w)))" and b': "b' = b - min (nat k) b" and le: "b + w \<le> c"
  shows "(1 \<le> n \<and> 0 < b \<longrightarrow> b' < b) \<and> (int c \<le> n \<longrightarrow> b' = 0)"
proof (intro conjI impI)
  assume "1 \<le> n \<and> 0 < b"
  then have "1 \<le> k" using k by simp
  then show "b' < b" using b' \<open>1 \<le> n \<and> 0 < b\<close> by simp
next
  assume "int c \<le> n"
  then have "int (b + w) \<le> n" using le by linarith
  then have "k = int (b + w)" using k by simp
  then show "b' = 0" using b' by simp
qed

section \<open>Properties\<close>

text \<open>
  C27.  The reference counts of \<open>SimuFutex\<close> keep it alive: in every interleaving of any number of threads that wait, time out and wake,
  the map has an entry for the address exactly as long as some thread is in a call of \<open>futex_wait_private\<close> or \<open>futex_wake_private\<close>
  that found one, so that no thread uses one that was erased; \<open>ref\<close> is the number of those threads and \<open>counts\<close> the number of those that
  wait or are on the way back from waiting.
\<close>

theorem simu_futex_alive:
  assumes "fx_run (fx_start n v) es s"
  shows "(fx_entry s \<noteq> None \<longleftrightarrow> (\<exists>t c. nth_opt (fx_pcs s) t = Some c \<and> c \<noteq> FxIdle))
    \<and> (case fx_entry s of None \<Rightarrow> blocked (fx_pcs s) = 0
        | Some f \<Rightarrow> sf_ref f = int (in_call (fx_pcs s)) \<and> sf_counts f = int (blocked (fx_pcs s) + woken (fx_pcs s)))"
proof -
  have ok: "futex_ok s" using fx_run_ok [OF assms futex_ok_start] .
  then have "fx_entry s \<noteq> None \<longleftrightarrow> 0 < in_call (fx_pcs s)" by (auto simp: futex_ok_def split: option.splits)
  moreover have "case fx_entry s of None \<Rightarrow> blocked (fx_pcs s) = 0
      | Some f \<Rightarrow> sf_ref f = int (in_call (fx_pcs s)) \<and> sf_counts f = int (blocked (fx_pcs s) + woken (fx_pcs s))"
    using ok in_call_blocked [of "fx_pcs s"] by (auto simp: futex_ok_def split: option.splits)
  ultimately show ?thesis unfolding in_call_pos by blast
qed

text \<open>Two threads: one waits and is woken by the other.\<close>

definition fx_demo :: "fx_pc list \<Rightarrow> simu_futex option \<Rightarrow> futex_state" where
  "fx_demo ps e = \<lparr>fx_value = 0, fx_entry = e, fx_pcs = ps\<rparr>"

lemma fx_demo_run:
  "fx_run (fx_start 2 0) [FxTau, FxTau, FxTau]
     (fx_demo [FxBlocked, FxToSignal 1] (Some \<lparr>sf_counts = 1, sf_ref = 2\<rparr>))"
proof -
  let ?s = "fx_demo [FxToCheck 0, FxIdle] (Some \<lparr>sf_counts = 0, sf_ref = 1\<rparr>)"
  let ?u = "fx_demo [FxBlocked, FxIdle] (Some \<lparr>sf_counts = 1, sf_ref = 1\<rparr>)"
  have 1: "fx_step (fx_start 2 0) FxTau ?s"
    using wait_enters [of "fx_start 2 0" 0 0]
    by (simp add: fx_start_def fx_demo_def set_fx_def take_ref_def nth_opt_Some numeral_2_eq_2)
  have 2: "fx_step ?s FxTau ?u"
    using wait_checks [of ?s 0 0 "\<lparr>sf_counts = 0, sf_ref = 1\<rparr>" FxBlocked "\<lparr>sf_counts = 1, sf_ref = 1\<rparr>"]
    by (simp add: fx_demo_def set_fx_def check_value_def nth_opt_Some)
  have 3: "fx_step ?u FxTau (fx_demo [FxBlocked, FxToSignal 1] (Some \<lparr>sf_counts = 1, sf_ref = 2\<rparr>))"
    using wake_enters [of ?u 1 "\<lparr>sf_counts = 1, sf_ref = 1\<rparr>" 1]
    by (simp add: fx_demo_def set_fx_def take_ref_def nth_opt_Some)
  show ?thesis using fx_goes [OF fx_goes [OF fx_goes [OF fx_stays 1] 2] 3] by simp
qed

lemma fx_demo_wake:
  "fx_step (fx_demo [FxBlocked, FxToSignal 1] (Some \<lparr>sf_counts = 1, sf_ref = 2\<rparr>)) (FxSignals 1 1)
     (fx_demo [FxWoken 0, FxToReturn 1] (Some \<lparr>sf_counts = 1, sf_ref = 2\<rparr>))"
  using wake_signals [of "fx_demo [FxBlocked, FxToSignal 1] (Some \<lparr>sf_counts = 1, sf_ref = 2\<rparr>)" 1 1 "\<lparr>sf_counts = 1, sf_ref = 2\<rparr>"
      1 "[0]" "[FxWoken 0, FxToSignal 1]"]
  by (simp add: fx_demo_def set_fx_def nwakedup_def blocked_def nth_opt_Some)

theorem simu_futex_alive_witness:
  "sf_ref \<lparr>sf_counts = 1, sf_ref = 2\<rparr> = int (in_call [FxBlocked, FxToSignal 1])"
  using simu_futex_alive [OF fx_demo_run] by (simp add: fx_demo_def)

text \<open>
  C28.  What \<open>futex_wake_private\<close> promises: a call for \<open>n\<close> threads that returns \<open>k\<close> has \<open>k \<le> n\<close> (for \<open>n \<ge> 0\<close>), and unblocks
  \<open>k\<close> of the blocked threads or all of them if they are fewer: one at least if \<open>n \<ge> 1\<close> and one is blocked, and all if \<open>n\<close> is at least
  the number of threads in a call, as with \<open>INT_MAX\<close>; this holds for a call that finds no entry too, as then nobody is blocked.  But the
  result is the number of threads that are blocked or on the way back from waiting, so it may count some that were woken before.
\<close>

theorem futex_wake_unblocks:
  assumes run: "fx_run (fx_start n v) es s" and step: "fx_step s (FxSignals nwake k) s'"
  shows "k = max 0 (min nwake (int (blocked (fx_pcs s) + woken (fx_pcs s))))
    \<and> blocked (fx_pcs s') = blocked (fx_pcs s) - min (nat k) (blocked (fx_pcs s))
    \<and> (1 \<le> nwake \<and> 0 < blocked (fx_pcs s) \<longrightarrow> blocked (fx_pcs s') < blocked (fx_pcs s))
    \<and> (int (in_call (fx_pcs s)) \<le> nwake \<longrightarrow> blocked (fx_pcs s') = 0)"
proof -
  have ok: "futex_ok s" using fx_run_ok [OF run futex_ok_start] .
  have le: "blocked (fx_pcs s) + woken (fx_pcs s) \<le> in_call (fx_pcs s)" by (rule in_call_blocked)
  have k: "k = max 0 (min nwake (int (blocked (fx_pcs s) + woken (fx_pcs s))))"
    using step
  proof cases
    case (wake_finds_none t)
    then show ?thesis using ok le by (simp add: futex_ok_def)
  next
    case (wake_signals t f us ps)
    then have "sf_counts f = int (blocked (fx_pcs s) + woken (fx_pcs s))" using ok by (simp add: futex_ok_def)
    then show ?thesis using wake_signals(4) by (simp add: nwakedup_def min_def)
  qed
  have b': "blocked (fx_pcs s') = blocked (fx_pcs s) - min (nat k) (blocked (fx_pcs s))"
    using step
  proof cases
    case (wake_finds_none t)
    then show ?thesis using ok le by (simp add: futex_ok_def)
  next
    case (wake_signals t f us ps)
    note u = unblock_counts [OF wake_signals(6)]
    then have "nth_opt ps t = Some (FxToSignal nwake)" using wake_signals(2) by simp
    then have "blocked (fx_pcs s') = blocked ps"
      using wake_signals(1) fx_counts_update(1) [of ps t "FxToSignal nwake" "FxToReturn k"] by (simp add: set_fx_def)
    moreover have "blocked (fx_pcs s) = blocked ps + length us" using u by simp
    ultimately show ?thesis using wake_signals(5) by simp
  qed
  show ?thesis using k b' wake_all_or_some [OF k b' le] by simp
qed

theorem futex_wake_unblocks_witness: "blocked [FxWoken 0, FxToReturn 1] = 0"
  using futex_wake_unblocks [OF fx_demo_run fx_demo_wake] by (simp add: fx_demo_def blocked_def in_call_def)

text \<open>
  A second call before the woken thread has the mutex again returns 1 and wakes nobody: the caller takes the thread it counts
  for one that it has woken itself.
\<close>

lemma futex_wake_counts_twice:
  "fx_step (fx_demo [FxWoken 0, FxToReturn 1, FxToSignal 1] (Some \<lparr>sf_counts = 1, sf_ref = 3\<rparr>)) (FxSignals 1 1)
     (fx_demo [FxWoken 0, FxToReturn 1, FxToReturn 1] (Some \<lparr>sf_counts = 1, sf_ref = 3\<rparr>))"
  using wake_signals [of "fx_demo [FxWoken 0, FxToReturn 1, FxToSignal 1] (Some \<lparr>sf_counts = 1, sf_ref = 3\<rparr>)" 2 1
      "\<lparr>sf_counts = 1, sf_ref = 3\<rparr>" 1 "[]" "[FxWoken 0, FxToReturn 1, FxToSignal 1]"]
  by (simp add: fx_demo_def set_fx_def nwakedup_def blocked_def nth_opt_Some)

end
